(* ===== verification/Prelude.thy ===== *)
theory Prelude
  imports Main
begin

text \<open>
  Shared vocabulary of the development: fallible results, sequencing of fallible steps,
  find-first and update-first on vectors, order preserving removal of duplicates, and the
  collections of simplification rules that the component theories extend.
\<close>

named_theorems res_simps \<open>sequencing of fallible steps\<close>
named_theorems vec_simps \<open>find-first and update-first on vectors\<close>
named_theorems inv_intros \<open>preservation of component invariants\<close>

section \<open>Fallible results\<close>

type_synonym ('e, 'a) result = "'e + 'a"

text \<open>Rust's \<open>?\<close> operator: an error returns early, a value is passed on.\<close>

definition and_then :: "('e, 'a) result \<Rightarrow> ('a \<Rightarrow> ('e, 'b) result) \<Rightarrow> ('e, 'b) result" where
  "and_then r f = (case r of Inl e \<Rightarrow> Inl e | Inr x \<Rightarrow> f x)"

lemma and_then_simps [simp, res_simps]:
  "and_then (Inl e) f = Inl e"
  "and_then (Inr x) f = f x"
  by (simp_all add: and_then_def)

lemma and_then_eq_Inr [res_simps]:
  "and_then r f = Inr y \<longleftrightarrow> (\<exists>x. r = Inr x \<and> f x = Inr y)"
  by (cases r) simp_all

lemma and_then_eq_Inl [res_simps]:
  "and_then r f = Inl e \<longleftrightarrow> r = Inl e \<or> (\<exists>x. r = Inr x \<and> f x = Inl e)"
  by (cases r) simp_all

lemma not_isl_pair: "\<not> isl r \<Longrightarrow> \<exists>a b. r = Inr (a, b)"
  by (cases r) auto

text \<open>A loop of fallible steps threading a state, stopping at the first error.\<close>

fun try_fold :: "('a \<Rightarrow> 's \<Rightarrow> ('e, 's) result) \<Rightarrow> 'a list \<Rightarrow> 's \<Rightarrow> ('e, 's) result" where
  "try_fold f [] s = Inr s"
| "try_fold f (x # xs) s = and_then (f x s) (try_fold f xs)"

text \<open>A loop of checks with no state: the first error wins.\<close>

fun try_all :: "('a \<Rightarrow> ('e, unit) result) \<Rightarrow> 'a list \<Rightarrow> ('e, unit) result" where
  "try_all f [] = Inr ()"
| "try_all f (x # xs) = and_then (f x) (\<lambda>_. try_all f xs)"

lemma try_all_eq_Inr: "try_all f xs = Inr u \<longleftrightarrow> (\<forall>x \<in> set xs. f x = Inr ())"
  by (induction xs) (auto simp: and_then_eq_Inr)

lemma try_fold_append:
  "try_fold f (xs @ ys) s = and_then (try_fold f xs s) (try_fold f ys)"
proof (induction xs arbitrary: s)
  case (Cons x xs)
  then show ?case by (cases "f x s") simp_all
qed simp

text \<open>Every step that keeps a property makes the whole loop keep it.\<close>

lemma try_fold_preserves:
  assumes "try_fold f xs s = Inr t" and "P s"
    and "\<And>x s t. x \<in> set xs \<Longrightarrow> P s \<Longrightarrow> f x s = Inr t \<Longrightarrow> P t"
  shows "P t"
  using assms
proof (induction xs arbitrary: s)
  case (Cons x xs)
  then obtain s' where "f x s = Inr s'" and "try_fold f xs s' = Inr t"
    by (auto simp: and_then_eq_Inr)
  with Cons show ?case by (metis list.set_intros)
qed simp

section \<open>Vectors addressed by a key\<close>

text \<open>
  \<open>iter().find\<close> returns the first match (this is \<^const>\<open>find\<close>), and mutation through
  \<open>iter_mut().find\<close> changes the first match only.
\<close>

fun update_first :: "('a \<Rightarrow> bool) \<Rightarrow> ('a \<Rightarrow> 'a) \<Rightarrow> 'a list \<Rightarrow> 'a list" where
  "update_first P f [] = []"
| "update_first P f (x # xs) = (if P x then f x # xs else x # update_first P f xs)"

lemma length_update_first [simp, vec_simps]: "length (update_first P f xs) = length xs"
  by (induction xs) simp_all

lemma update_first_none [vec_simps]: "\<not> (\<exists>x \<in> set xs. P x) \<Longrightarrow> update_first P f xs = xs"
  by (induction xs) auto

lemma map_update_first [vec_simps]:
  "(\<And>x. g (f x) = g x) \<Longrightarrow> map g (update_first P f xs) = map g xs"
  by (induction xs) simp_all

lemma set_update_first_subset: "set (update_first P f xs) \<subseteq> set xs \<union> f ` {x \<in> set xs. P x}"
  by (induction xs) auto

lemma find_eq_Some_mem: "find P xs = Some x \<Longrightarrow> x \<in> set xs \<and> P x"
  by (induction xs) (auto split: if_splits)

lemma find_cong_set: "(\<And>x. x \<in> set xs \<Longrightarrow> P x = Q x) \<Longrightarrow> find P xs = find Q xs"
  by (induction xs) auto

lemma find_append: "find P (xs @ ys) = (case find P xs of None \<Rightarrow> find P ys | Some x \<Rightarrow> Some x)"
  by (induction xs) auto

lemma find_is_none: "find P xs = None \<longleftrightarrow> (\<forall>x \<in> set xs. \<not> P x)"
  by (induction xs) auto

text \<open>With distinct keys, updating the first match is a point update of the whole vector.\<close>

lemma update_first_distinct:
  assumes "distinct (map k xs)"
  shows "update_first (\<lambda>x. k x = v) f xs = map (\<lambda>x. if k x = v then f x else x) xs"
  using assms
proof (induction xs)
  case (Cons x xs)
  then have "k x = v \<Longrightarrow> map (\<lambda>x. if k x = v then f x else x) xs = xs"
    by (intro map_idI) (auto simp: rev_image_eqI)
  with Cons show ?case by auto
qed simp

lemma find_update_first:
  assumes "\<And>x. k (f x) = k x"
  shows "find (\<lambda>x. k x = w) (update_first (\<lambda>x. k x = v) f xs) =
    (if w = v then map_option f (find (\<lambda>x. k x = w) xs) else find (\<lambda>x. k x = w) xs)"
  using assms by (induction xs) auto

lemma find_map_key:
  assumes "\<And>x. k (f x) = k x"
  shows "find (\<lambda>x. k x = w) (map f xs) = map_option f (find (\<lambda>x. k x = w) xs)"
  using assms by (induction xs) auto

lemma find_distinct_key:
  assumes "distinct (map k xs)" and "x \<in> set xs"
  shows "find (\<lambda>y. k y = k x) xs = Some x"
  using assms by (induction xs) (auto simp: rev_image_eqI)

section \<open>Removing duplicates, keeping the first occurrence\<close>

text \<open>
  Rust's idiom \<open>filter(|x| seen.insert(x))\<close>: the library's \<^const>\<open>remdups\<close> keeps the last
  occurrence, this one keeps the first.
\<close>

fun dedup_from :: "'a set \<Rightarrow> 'a list \<Rightarrow> 'a list" where
  "dedup_from seen [] = []"
| "dedup_from seen (x # xs) =
     (if x \<in> seen then dedup_from seen xs else x # dedup_from (insert x seen) xs)"

definition dedup :: "'a list \<Rightarrow> 'a list" where
  "dedup xs = dedup_from {} xs"

lemma set_dedup_from: "set (dedup_from seen xs) = set xs - seen"
  by (induction seen xs rule: dedup_from.induct) auto

lemma distinct_dedup_from: "distinct (dedup_from seen xs)"
  by (induction seen xs rule: dedup_from.induct) (auto simp: set_dedup_from)

lemma set_dedup [simp]: "set (dedup xs) = set xs"
  by (simp add: dedup_def set_dedup_from)

lemma distinct_dedup [simp]: "distinct (dedup xs)"
  by (simp add: dedup_def distinct_dedup_from)

text \<open>Rust's \<open>for x in xs { if !v.contains(&x) { v.push(x) } }\<close>.\<close>

fun push_missing :: "'a list \<Rightarrow> 'a list \<Rightarrow> 'a list" where
  "push_missing v [] = v"
| "push_missing v (x # xs) = push_missing (if x \<in> set v then v else v @ [x]) xs"

lemma set_push_missing [simp]: "set (push_missing v xs) = set v \<union> set xs"
  by (induction v xs rule: push_missing.induct) auto

lemma distinct_push_missing: "distinct v \<Longrightarrow> distinct (push_missing v xs)"
  by (induction v xs rule: push_missing.induct) auto

lemma push_missing_prefix: "\<exists>zs. push_missing v xs = v @ zs"
proof (induction v xs rule: push_missing.induct)
  case (2 v x xs)
  then show ?case by (auto split: if_splits)
qed simp

section \<open>Keyed stores\<close>

text \<open>
  The contract of a vector of records addressed by a key: the first match is the value of a key,
  in-place changes keep keys, and records are appended at the end.
\<close>

locale keyed_store =
  fixes keys :: "'s \<Rightarrow> 'k list"
    and lookup :: "'s \<Rightarrow> 'k \<Rightarrow> 'a option"
    and change :: "'s \<Rightarrow> 'k \<Rightarrow> ('a \<Rightarrow> 'a) \<Rightarrow> 's"
    and append :: "'s \<Rightarrow> 'a \<Rightarrow> 's"
    and key :: "'a \<Rightarrow> 'k"
  assumes lookup_key: "lookup s k = Some x \<Longrightarrow> key x = k"
    and lookup_None: "lookup s k = None \<longleftrightarrow> k \<notin> set (keys s)"
    and lookup_change: "(\<And>x. key (f x) = key x) \<Longrightarrow>
      lookup (change s k f) j = (if j = k then map_option f (lookup s j) else lookup s j)"
    and keys_change: "(\<And>x. key (f x) = key x) \<Longrightarrow> keys (change s k f) = keys s"
    and lookup_append: "lookup (append s x) j =
      (if lookup s j = None \<and> key x = j then Some x else lookup s j)"
    and keys_append: "keys (append s x) = keys s @ [key x]"
begin

lemma append_fresh_distinct:
  "distinct (keys s) \<Longrightarrow> lookup s (key x) = None \<Longrightarrow> distinct (keys (append s x))"
  by (simp add: keys_append lookup_None)

lemma keys_fold_append: "keys (foldl append s xs) = keys s @ map key xs"
  by (induction xs arbitrary: s) (simp_all add: keys_append)

lemma distinct_fold_append:
  "distinct (keys s @ map key xs) \<Longrightarrow> distinct (keys (foldl append s xs))"
  by (simp add: keys_fold_append)

lemma lookup_fold_append:
  "lookup (foldl append s xs) j =
    (case lookup s j of Some y \<Rightarrow> Some y | None \<Rightarrow> find (\<lambda>x. key x = j) xs)"
proof (induction xs arbitrary: s)
  case (Cons x xs)
  then show ?case by (auto simp: lookup_append split: option.splits)
qed (simp split: option.split)

end

section \<open>Transition systems\<close>

text \<open>
  The contract of a state machine with an inductive invariant, and of a property that, once it
  holds in a state satisfying the invariant, is kept by every step.
\<close>

locale transition_system =
  fixes init :: "'s \<Rightarrow> bool" and step :: "'s \<Rightarrow> 's \<Rightarrow> bool" and inv :: "'s \<Rightarrow> bool"
  assumes init_inv: "init s \<Longrightarrow> inv s"
    and step_inv: "inv s \<Longrightarrow> step s t \<Longrightarrow> inv t"
begin

lemma steps_inv: "step\<^sup>*\<^sup>* s t \<Longrightarrow> inv s \<Longrightarrow> inv t"
  by (induction rule: rtranclp_induct) (auto intro: step_inv)

lemma reachable_inv: "init s \<Longrightarrow> step\<^sup>*\<^sup>* s t \<Longrightarrow> inv t"
  using init_inv steps_inv by blast

end

locale stable_property = transition_system +
  fixes holds :: "'s \<Rightarrow> bool"
  assumes stable: "inv s \<Longrightarrow> step s t \<Longrightarrow> holds s \<Longrightarrow> holds t"
begin

lemma steps_stable: "step\<^sup>*\<^sup>* s t \<Longrightarrow> inv s \<Longrightarrow> holds s \<Longrightarrow> holds t"
  by (induction rule: rtranclp_induct) (auto intro: stable steps_inv)

end

end
