(* ===== verification/Rust_Str.thy ===== *)
theory Rust_Str
  imports Prelude "HOL-Library.Char_ord" "HOL-Library.List_Lexorder" "HOL-Library.Sublist"
begin

text \<open>
  The part of Rust's \<open>str\<close> and \<open>String\<close> the modelled code uses. A Rust string is the list of
  its UTF-8 bytes, one \<^typ>\<open>char\<close> per byte, so \<open>len()\<close> is \<^const>\<open>length\<close>, slicing is
  \<^const>\<open>take\<close>/\<^const>\<open>drop\<close>, and \<open>Ord for String\<close> (byte-wise lexicographic) is the
  order of \<^verbatim>\<open>List_Lexorder\<close> over \<^verbatim>\<open>Char_ord\<close>. Functions that look at
  characters (\<open>trim\<close>, \<open>chars\<close>) decode the UTF-8 sequences they depend on.
\<close>

type_synonym str = string

named_theorems str_simps \<open>evaluation of string routines\<close>

abbreviation byte :: "char \<Rightarrow> nat" where
  "byte c \<equiv> of_char c"

abbreviation nl :: str where
  "nl \<equiv> [CHR 0x0A]"

section \<open>Character classes\<close>

definition is_ascii_digit :: "char \<Rightarrow> bool" where
  "is_ascii_digit c \<longleftrightarrow> 48 \<le> byte c \<and> byte c \<le> 57"

definition is_ascii_alphanumeric :: "char \<Rightarrow> bool" where
  "is_ascii_alphanumeric c \<longleftrightarrow>
     is_ascii_digit c \<or> (65 \<le> byte c \<and> byte c \<le> 90) \<or> (97 \<le> byte c \<and> byte c \<le> 122)"

definition ascii_lower :: "char \<Rightarrow> char" where
  "ascii_lower c = (if 65 \<le> byte c \<and> byte c \<le> 90 then char_of (byte c + 32) else c)"

definition to_ascii_lowercase :: "str \<Rightarrow> str" where
  "to_ascii_lowercase s = map ascii_lower s"

text \<open>Length in bytes of the UTF-8 character that starts with byte \<open>c\<close>.\<close>

definition utf8_width :: "char \<Rightarrow> nat" where
  "utf8_width c =
     (if byte c < 128 then 1 else if byte c < 224 then 2 else if byte c < 240 then 3 else 4)"

lemma utf8_width_pos [simp]: "0 < utf8_width c"
  by (simp add: utf8_width_def)

section \<open>Whitespace and trimming\<close>

text \<open>
  \<open>char::is_whitespace\<close> is the Unicode \<open>White_Space\<close> property: U+0009..U+000D, U+0020, U+0085,
  U+00A0, U+1680, U+2000..U+200A, U+2028, U+2029, U+202F, U+205F and U+3000.
  \<open>ws_width\<close> is the byte length of a leading whitespace character, 0 if there is none;
  \<open>ws_width_back\<close> the same for the last character, read from the reversed bytes.
\<close>

definition ascii_ws :: "nat \<Rightarrow> bool" where
  "ascii_ws b \<longleftrightarrow> (9 \<le> b \<and> b \<le> 13) \<or> b = 32"

definition ws2 :: "nat \<Rightarrow> nat \<Rightarrow> bool" where
  "ws2 a b \<longleftrightarrow> a = 0xC2 \<and> (b = 0x85 \<or> b = 0xA0)"

definition ws3 :: "nat \<Rightarrow> nat \<Rightarrow> nat \<Rightarrow> bool" where
  "ws3 a b c \<longleftrightarrow>
     (a = 0xE1 \<and> b = 0x9A \<and> c = 0x80) \<or>
     (a = 0xE2 \<and> b = 0x80 \<and> (0x80 \<le> c \<and> c \<le> 0x8A \<or> c = 0xA8 \<or> c = 0xA9 \<or> c = 0xAF)) \<or>
     (a = 0xE2 \<and> b = 0x81 \<and> c = 0x9F) \<or>
     (a = 0xE3 \<and> b = 0x80 \<and> c = 0x80)"

definition ws_width :: "str \<Rightarrow> nat" where
  "ws_width s =
     (case s of [] \<Rightarrow> 0
      | a # s1 \<Rightarrow> if ascii_ws (byte a) then 1 else
          (case s1 of [] \<Rightarrow> 0
           | b # s2 \<Rightarrow> if ws2 (byte a) (byte b) then 2 else
               (case s2 of [] \<Rightarrow> 0
                | c # _ \<Rightarrow> if ws3 (byte a) (byte b) (byte c) then 3 else 0)))"

definition ws_width_back :: "str \<Rightarrow> nat" where
  "ws_width_back r =
     (case r of [] \<Rightarrow> 0
      | c # r1 \<Rightarrow> if ascii_ws (byte c) then 1 else
          (case r1 of [] \<Rightarrow> 0
           | b # r2 \<Rightarrow> if ws2 (byte b) (byte c) then 2 else
               (case r2 of [] \<Rightarrow> 0
                | a # _ \<Rightarrow> if ws3 (byte a) (byte b) (byte c) then 3 else 0)))"

function drop_ws :: "(str \<Rightarrow> nat) \<Rightarrow> str \<Rightarrow> str" where
  "drop_ws w s = (if w s = 0 \<or> s = [] then s else drop_ws w (drop (w s) s))"
  by pat_completeness auto
termination
  by (relation "measure (\<lambda>(w, s). length s)") auto

declare drop_ws.simps [simp del]

definition trim_start :: "str \<Rightarrow> str" where
  "trim_start s = drop_ws ws_width s"

definition trim_end :: "str \<Rightarrow> str" where
  "trim_end s = rev (drop_ws ws_width_back (rev s))"

definition trim :: "str \<Rightarrow> str" where
  "trim s = trim_end (trim_start s)"

section \<open>Searching, prefixes, joining\<close>

fun find_str :: "str \<Rightarrow> str \<Rightarrow> nat option" where
  "find_str pat s =
     (if prefix pat s then Some 0
      else case s of [] \<Rightarrow> None | _ # t \<Rightarrow> map_option Suc (find_str pat t))"

declare find_str.simps [simp del]

definition contains_str :: "str \<Rightarrow> str \<Rightarrow> bool" where
  "contains_str s pat \<longleftrightarrow> find_str pat s \<noteq> None"

definition strip_prefix :: "str \<Rightarrow> str \<Rightarrow> str option" where
  "strip_prefix pat s = (if prefix pat s then Some (drop (length pat) s) else None)"

fun join :: "str \<Rightarrow> str list \<Rightarrow> str" where
  "join sep [] = []"
| "join sep [x] = x"
| "join sep (x # y # ys) = x @ sep @ join sep (y # ys)"

text \<open>\<open>str::lines\<close>: split at line feeds, drop one trailing carriage return of each line, and
  no final empty line.\<close>

definition strip_cr :: "str \<Rightarrow> str" where
  "strip_cr s = (if s \<noteq> [] \<and> last s = CHR 0x0D then butlast s else s)"

fun lines_from :: "str \<Rightarrow> str \<Rightarrow> str list" where
  "lines_from acc [] = (if acc = [] then [] else [acc])"
| "lines_from acc (c # s) =
     (if c = CHR 0x0A then strip_cr acc # lines_from [] s else lines_from (acc @ [c]) s)"

definition str_lines :: "str \<Rightarrow> str list" where
  "str_lines s = lines_from [] s"

text \<open>\<open>s.split(pat).next()\<close>, which is always \<open>Some\<close>.\<close>

definition split_first :: "str \<Rightarrow> str \<Rightarrow> str" where
  "split_first pat s = (case find_str pat s of None \<Rightarrow> s | Some i \<Rightarrow> take i s)"

section \<open>Decimal rendering\<close>

definition digit_char :: "nat \<Rightarrow> char" where
  "digit_char d = char_of (48 + d)"

fun show_nat :: "nat \<Rightarrow> str" where
  "show_nat n = (if n < 10 then [digit_char n] else show_nat (n div 10) @ [digit_char (n mod 10)])"

declare show_nat.simps [simp del]

text \<open>Reading digits back (used to show that rendering is injective and to parse numbers).\<close>

definition digit_val :: "char \<Rightarrow> nat" where
  "digit_val c = byte c - 48"

definition digits_val :: "str \<Rightarrow> nat" where
  "digits_val s = foldl (\<lambda>n c. 10 * n + digit_val c) 0 s"

section \<open>Lemmas\<close>

lemma byte_digit_char: "d < 10 \<Longrightarrow> byte (digit_char d) = 48 + d"
  by (simp add: digit_char_def)

lemma is_ascii_digit_digit_char [simp]: "d < 10 \<Longrightarrow> is_ascii_digit (digit_char d)"
  by (simp add: is_ascii_digit_def byte_digit_char)

lemma digit_val_digit_char [simp]: "d < 10 \<Longrightarrow> digit_val (digit_char d) = d"
  by (simp add: digit_val_def byte_digit_char)

lemma show_nat_digits: "\<forall>c \<in> set (show_nat n). is_ascii_digit c"
proof (induction n rule: show_nat.induct)
  case (1 n)
  then show ?case by (subst show_nat.simps) auto
qed

lemma show_nat_nonempty [simp]: "show_nat n \<noteq> []"
  by (subst show_nat.simps) simp

lemma digits_val_snoc [simp]: "digits_val (s @ [c]) = 10 * digits_val s + digit_val c"
  by (simp add: digits_val_def)

lemma digits_val_single [simp]: "digits_val [c] = digit_val c"
  by (simp add: digits_val_def)

lemma digits_val_show_nat [simp]: "digits_val (show_nat n) = n"
proof (induction n rule: show_nat.induct)
  case (1 n)
  show ?case
  proof (cases "n < 10")
    case True
    then show ?thesis by (subst show_nat.simps) simp
  next
    case False
    with 1 show ?thesis by (subst show_nat.simps) simp
  qed
qed

lemma show_nat_inject [simp]: "show_nat m = show_nat n \<longleftrightarrow> m = n"
  by (metis digits_val_show_nat)

lemma find_str_Nil [simp]: "find_str [] s = Some 0"
  by (subst find_str.simps) simp

lemma find_str_Some:
  "find_str pat s = Some i \<Longrightarrow> prefix pat (drop i s) \<and> i + length pat \<le> length s"
proof (induction pat s arbitrary: i rule: find_str.induct)
  case (1 pat s)
  then show ?case
    by (subst (asm) find_str.simps)
      (auto split: if_splits list.splits dest: prefix_length_le)
qed

lemma find_str_None: "find_str pat s = None \<longleftrightarrow> (\<forall>i. \<not> prefix pat (drop i s))"
proof (induction pat s rule: find_str.induct)
  case (1 pat s)
  show ?case
  proof (cases s)
    case Nil
    then show ?thesis by (subst find_str.simps) auto
  next
    case (Cons c t)
    with 1 have "\<not> prefix pat s \<Longrightarrow> find_str pat t = None \<longleftrightarrow> (\<forall>i. \<not> prefix pat (drop i t))"
      by simp
    moreover have "(\<forall>i. \<not> prefix pat (drop i s)) \<longleftrightarrow>
        \<not> prefix pat s \<and> (\<forall>i. \<not> prefix pat (drop i t))"
      using Cons by (metis drop0 drop_Suc_Cons not0_implies_Suc)
    ultimately show ?thesis
      using Cons by (subst find_str.simps) auto
  qed
qed

text \<open>\<open>contains\<close> is the sublist relation.\<close>

lemma contains_str_sublist: "contains_str s pat \<longleftrightarrow> sublist pat s"
proof -
  have "contains_str s pat \<longleftrightarrow> (\<exists>i. prefix pat (drop i s))"
    by (simp add: contains_str_def find_str_None del: not_None_eq)
  also have "\<dots> \<longleftrightarrow> sublist pat s"
    by (metis append_take_drop_id prefix_def sublist_def append.assoc append_eq_conv_conj)
  finally show ?thesis .
qed

lemma contains_str_append:
  "contains_str a pat \<or> contains_str b pat \<Longrightarrow> contains_str (a @ b) pat"
  by (auto simp: contains_str_sublist sublist_append)

lemma contains_str_mem: "contains_str s [c] \<longleftrightarrow> c \<in> set s"
  by (metis contains_str_sublist in_set_conv_decomp append_Cons append_Nil sublist_def)

lemma contains_str_set: "contains_str s pat \<Longrightarrow> set pat \<subseteq> set s"
  by (auto simp: contains_str_sublist sublist_def)

lemma plain_byte_not_ws:
  assumes "33 \<le> b" and "b < 127"
  shows "\<not> ascii_ws b" "\<not> ws2 b x" "\<not> ws2 x b" "\<not> ws3 b x y" "\<not> ws3 x y b"
  using assms by (auto simp: ascii_ws_def ws2_def ws3_def)

lemma ws_width_plain:
  assumes "33 \<le> byte c" and "byte c < 127"
  shows "ws_width (c # s) = 0" "ws_width_back (c # s) = 0"
  using plain_byte_not_ws [OF assms]
  by (simp_all add: ws_width_def ws_width_back_def split: list.split)

lemma ws_width_Nil [simp]: "ws_width [] = 0" "ws_width_back [] = 0"
  by (simp_all add: ws_width_def ws_width_back_def)

lemma drop_ws_id: "w s = 0 \<Longrightarrow> drop_ws w s = s"
  by (subst drop_ws.simps) simp

lemma trim_plain_ends:
  assumes "s = [] \<or> (33 \<le> byte (hd s) \<and> byte (hd s) < 127 \<and> 33 \<le> byte (last s) \<and> byte (last s) < 127)"
  shows "trim s = s"
proof (cases "s = []")
  case False
  then obtain c t b u where "s = c # t" and "rev s = b # u"
    by (metis neq_Nil_conv rev_is_Nil_conv)
  moreover from this have "last s = b" by (metis hd_rev list.sel(1))
  ultimately have "ws_width s = 0" and "ws_width_back (rev s) = 0"
    using assms by (auto simp: ws_width_plain)
  then show ?thesis
    by (simp add: trim_def trim_start_def trim_end_def drop_ws_id)
qed (simp add: trim_def trim_start_def trim_end_def drop_ws_id)

section \<open>Text that is a Rust string\<close>

definition is_cont :: "char \<Rightarrow> bool" where
  "is_cont c \<longleftrightarrow> 128 \<le> byte c \<and> byte c < 192"

text \<open>Every character is a leading byte with the continuation bytes its width announces.\<close>

function utf8_valid :: "str \<Rightarrow> bool" where
  "utf8_valid [] = True"
| "utf8_valid (c # s) \<longleftrightarrow>
     \<not> is_cont c \<and> utf8_width c - 1 \<le> length s \<and> list_all is_cont (take (utf8_width c - 1) s)
     \<and> utf8_valid (drop (utf8_width c - 1) s)"
  by pat_completeness auto
termination by (relation "measure length") auto

lemma utf8_valid_inside:
  assumes "utf8_valid s" and "p < length s" and "\<not> is_cont (s ! p)"
    and "p < q" and "q < p + utf8_width (s ! p)"
  shows "q < length s \<and> is_cont (s ! q)"
  using assms
proof (induction s arbitrary: p q rule: utf8_valid.induct)
  case (2 c s)
  let ?w = "utf8_width c - 1"
  have w: "?w \<le> length s" "\<And>j. j < ?w \<Longrightarrow> is_cont (s ! j)"
    using 2(2) by (auto simp: list_all_length)
  show ?case
  proof (cases "p = 0")
    case True
    with 2(5,6) have q: "q = Suc (q - 1)" "q - 1 < ?w" by auto
    then have "is_cont ((c # s) ! q)" using w(2) by (metis nth_Cons_Suc)
    with q w(1) show ?thesis by auto
  next
    case False
    then obtain p' where p': "p = Suc p'" by (cases p) auto
    have "?w \<le> p'"
    proof (rule ccontr)
      assume "\<not> ?w \<le> p'"
      then have "is_cont (s ! p')" using w(2) by simp
      with 2(4) p' show False by simp
    qed
    then obtain r where r: "p' = ?w + r" using le_Suc_ex by blast
    obtain q' where q': "q = Suc q'" "?w \<le> q'" using 2(5) p' r by (cases q) auto
    then obtain t where t: "q' = ?w + t" using le_Suc_ex by blast
    have e: "drop ?w s ! r = s ! p'" "drop ?w s ! t = s ! q'" using w(1) r t by simp_all
    have "t < length (drop ?w s) \<and> is_cont (drop ?w s ! t)"
    proof (rule 2(1))
      show "utf8_valid (drop ?w s)" using 2(2) by simp
      show "r < length (drop ?w s)" using 2(3) p' r w(1) by simp
      show "\<not> is_cont (drop ?w s ! r)" using 2(4) p' unfolding e by simp
      show "r < t" using 2(5) p' q' r t by simp
      show "t < r + utf8_width (drop ?w s ! r)" using 2(6) p' q' r t unfolding e by simp
    qed
    then show ?thesis using q' t e by auto
  qed
qed simp

lemma find_str_first: "find_str pat s = Some i \<Longrightarrow> j < i \<Longrightarrow> \<not> prefix pat (drop j s)"
proof (induction pat s arbitrary: i j rule: find_str.induct)
  case (1 pat s)
  from 1(2) have np: "\<not> prefix pat s" using 1(3) by (subst (asm) find_str.simps) (auto split: if_splits)
  with 1(2) obtain c t k where s: "s = c # t" "find_str pat t = Some k" "i = Suc k"
    by (subst (asm) find_str.simps) (auto split: list.splits)
  show ?case
  proof (cases j)
    case (Suc j')
    with 1(1) [OF np s(1) s(2), of j'] 1(3) s show ?thesis by simp
  qed (use np in simp)
qed

lemma is_cont_nth_prefix: "prefix i (drop k body) \<Longrightarrow> i \<noteq> [] \<Longrightarrow> k < length body \<and> body ! k = hd i"
  by (cases "drop k body"; cases i) (auto simp: drop_eq_Nil, metis drop_eq_Nil not_le list.distinct(1), metis nth_via_drop)

end
