(* ===== verification/Rust_F64.thy ===== *)
theory Rust_F64
  imports Rust_Str Complex_Main "HOL-Library.Log_Nat"
begin

text \<open>
  Non-negative IEEE-754 binary64 values with round-to-nearest-even, as far as the confidence
  parser needs them: parsing a decimal token, division, multiplication and comparison. A
  finite value is the exact rational it denotes; every operation rounds the exact result to
  53 significant bits (subnormals down to \<open>2^-1074\<close>, overflow to infinity). The unit in the
  last place of a finite value is at most \<open>2^971\<close>.
\<close>

datatype f64 = Fin rat | PInf | NaN

definition pow2 :: "int \<Rightarrow> rat" where
  "pow2 e = (if 0 \<le> e then 2 ^ nat e else 1 / 2 ^ nat (- e))"

definition round_half_even :: "rat \<Rightarrow> int" where
  "round_half_even x =
     (let f = \<lfloor>x\<rfloor>; d = x - of_int f in
      if d < 1 / 2 then f else if 1 / 2 < d then f + 1 else if even f then f else f + 1)"

text \<open>The exponent \<open>x\<close> with \<open>2^x \<le> q < 2^(x+1)\<close> for a positive \<open>q\<close>.\<close>

definition binary_exponent :: "rat \<Rightarrow> int" where
  "binary_exponent q =
     (let (a, b) = quotient_of q; e = bitlen a - bitlen b in if q < pow2 e then e - 1 else e)"

definition f64_round :: "rat \<Rightarrow> f64" where
  "f64_round q =
     (if q = 0 then Fin 0
      else let u = max (binary_exponent q - 52) (- 1074);
               m = round_half_even (q / pow2 u)
           in if 971 < u \<or> u = 971 \<and> m = 2 ^ 53 then PInf else Fin (of_int m * pow2 u))"

fun f64_div :: "f64 \<Rightarrow> f64 \<Rightarrow> f64" where
  "f64_div NaN _ = NaN"
| "f64_div _ NaN = NaN"
| "f64_div PInf PInf = NaN"
| "f64_div PInf (Fin _) = PInf"
| "f64_div (Fin _) PInf = Fin 0"
| "f64_div (Fin a) (Fin b) =
     (if b = 0 then (if a = 0 then NaN else PInf) else f64_round (a / b))"

fun f64_mul :: "f64 \<Rightarrow> f64 \<Rightarrow> f64" where
  "f64_mul NaN _ = NaN"
| "f64_mul _ NaN = NaN"
| "f64_mul PInf PInf = PInf"
| "f64_mul PInf (Fin b) = (if b = 0 then NaN else PInf)"
| "f64_mul (Fin a) PInf = (if a = 0 then NaN else PInf)"
| "f64_mul (Fin a) (Fin b) = f64_round (a * b)"

fun f64_lt :: "f64 \<Rightarrow> f64 \<Rightarrow> bool" where
  "f64_lt NaN _ = False"
| "f64_lt _ NaN = False"
| "f64_lt PInf _ = False"
| "f64_lt (Fin _) PInf = True"
| "f64_lt (Fin a) (Fin b) = (a < b)"

fun f64_le :: "f64 \<Rightarrow> f64 \<Rightarrow> bool" where
  "f64_le NaN _ = False"
| "f64_le _ NaN = False"
| "f64_le _ PInf = True"
| "f64_le PInf (Fin _) = False"
| "f64_le (Fin a) (Fin b) = (a \<le> b)"

text \<open>
  \<open>str::parse::<f64>\<close> on a token of ASCII digits and dots: at most one dot and at least one
  digit, else an error.
\<close>

definition parse_f64 :: "str \<Rightarrow> f64 option" where
  "parse_f64 t =
     (let ip = takeWhile (\<lambda>c. c \<noteq> CHR ''.'') t;
          fp = drop (Suc (length ip)) t
      in if ip = [] \<and> fp = [] \<or> CHR ''.'' \<in> set fp then None
         else Some (f64_round (of_nat (digits_val (ip @ fp)) / 10 ^ length fp)))"

section \<open>Rounding is exact on the small integers the thresholds use\<close>

lemma pow2_pos [simp]: "0 < pow2 e"
  by (simp add: pow2_def)

lemma round_half_even_int [simp]: "round_half_even (of_int i) = i"
  by (simp add: round_half_even_def)

lemma bitlen_one [simp]: "bitlen 1 = 1"
  by (simp add: bitlen_def floorlog_def)

lemma quotient_of_of_nat: "quotient_of (of_nat n) = (int n, 1)"
  by (metis Rat.of_int_def quotient_of_int of_int_of_nat_eq)

lemma binary_exponent_nat:
  assumes "0 < n"
  shows "binary_exponent (of_nat n) \<le> bitlen (int n) - 1"
proof -
  have b: "int n < 2 ^ nat (bitlen (int n))"
    using bitlen_bounds [of "int n"] assms by simp
  have "of_nat n < pow2 (bitlen (int n))"
  proof -
    have "(of_int (int n) :: rat) < of_int (2 ^ nat (bitlen (int n)))"
      using b by (simp only: of_int_less_iff)
    then show ?thesis by (simp add: pow2_def bitlen_nonneg)
  qed
  moreover have "0 \<le> bitlen (int n)" by (rule bitlen_nonneg)
  ultimately show ?thesis
    by (auto simp: binary_exponent_def quotient_of_of_nat Let_def)
qed

lemma f64_round_nat:
  assumes "n < 2 ^ 53"
  shows "f64_round (of_nat n) = Fin (of_nat n)"
proof (cases "n = 0")
  case True
  then show ?thesis by (simp add: f64_round_def)
next
  case False
  let ?u = "max (binary_exponent (of_nat n) - 52) (- 1074)"
  have "bitlen (int n) \<le> 53"
    using assms bitlen_le_iff_power [of "int n" 53] by simp
  with binary_exponent_nat [of n] False have u: "?u \<le> 0" by simp
  define k where "k = nat (- ?u)"
  have p: "pow2 ?u = 1 / 2 ^ k"
    using u by (cases "?u = 0") (auto simp: pow2_def k_def)
  have q: "(of_nat n :: rat) / pow2 ?u = of_int (int n * 2 ^ k)"
    by (simp add: p)
  have r: "of_int (round_half_even (of_nat n / pow2 ?u)) * pow2 ?u = (of_nat n :: rat)"
    by (simp only: q round_half_even_int) (simp add: p)
  from u have "\<not> (971 < ?u \<or> ?u = 971)" by auto
  with False r show ?thesis
    by (auto simp: f64_round_def Let_def)
qed

end
