(* ===== verification/Confidence.thy ===== *)
theory Confidence
  imports Rust_F64
begin

text \<open>
  Confidence rungs and hand-off artifacts of the task graph
  (\<^verbatim>\<open>crates/jcode-plan/src/dag/mod.rs\<close>): the lenient confidence parser and the
  artifact that travels along dependency edges.
\<close>

section \<open>Definitions\<close>

datatype ConfidenceLevel = Low | Medium | High

text \<open>The derived \<open>Ord\<close>: \<open>Low < Medium < High\<close>.\<close>

fun conf_rank :: "ConfidenceLevel \<Rightarrow> nat" where
  "conf_rank Low = 0"
| "conf_rank Medium = 1"
| "conf_rank High = 2"

instantiation ConfidenceLevel :: linorder
begin

definition less_eq_ConfidenceLevel :: "ConfidenceLevel \<Rightarrow> ConfidenceLevel \<Rightarrow> bool" where
  "a \<le> b \<longleftrightarrow> conf_rank a \<le> conf_rank b"

definition less_ConfidenceLevel :: "ConfidenceLevel \<Rightarrow> ConfidenceLevel \<Rightarrow> bool" where
  "a < b \<longleftrightarrow> conf_rank a < conf_rank b"

instance
proof
  fix a b :: ConfidenceLevel
  show "a \<le> b \<Longrightarrow> b \<le> a \<Longrightarrow> a = b"
    by (cases a; cases b) (auto simp: less_eq_ConfidenceLevel_def)
qed (auto simp: less_eq_ConfidenceLevel_def less_ConfidenceLevel_def)

end

fun conf_as_str :: "ConfidenceLevel \<Rightarrow> str" where
  "conf_as_str Low = ''low''"
| "conf_as_str Medium = ''medium''"
| "conf_as_str High = ''high''"

definition NEGATIONS :: "str list" where
  "NEGATIONS = [''not high'', ''not confident'', ''not certain'', ''not sure'',
     ''no confidence'', ''unsure'', ''uncertain'']"

text \<open>First number of a text: its value, its token, and the rest of the text.\<close>

definition num_char :: "char \<Rightarrow> bool" where
  "num_char c \<longleftrightarrow> is_ascii_digit c \<or> c = CHR ''.''"

definition extract_leading_number :: "str \<Rightarrow> (f64 \<times> str \<times> str) option" where
  "extract_leading_number s =
     (let rest = dropWhile (\<lambda>c. \<not> num_char c) s in
      if rest = [] then None
      else let token = takeWhile num_char rest in
        (case parse_f64 token of None \<Rightarrow> None
         | Some v \<Rightarrow> Some (v, token, dropWhile num_char rest)))"

text \<open>The explicit denominator after a number (\<open>"/10"\<close>, \<open>"out of 10"\<close>, \<open>"of 5"\<close>), if positive.\<close>

definition parse_denominator :: "str \<Rightarrow> f64 option" where
  "parse_denominator rest =
     (let after = trim_start rest;
          stripped = (case strip_prefix ''/'' after of Some r \<Rightarrow> Some r
            | None \<Rightarrow> (case strip_prefix ''out of '' after of Some r \<Rightarrow> Some r
              | None \<Rightarrow> strip_prefix ''of '' after))
      in case stripped of None \<Rightarrow> None
         | Some r \<Rightarrow> (case extract_leading_number (trim_start r) of None \<Rightarrow> None
             | Some (d, _, _) \<Rightarrow> if f64_lt (Fin 0) d then Some d else None))"

definition conf_percent :: "str \<Rightarrow> f64 \<Rightarrow> str \<Rightarrow> f64 option \<Rightarrow> f64" where
  "conf_percent normalized value raw_token denominator =
     (case denominator of
        Some d \<Rightarrow> f64_mul (f64_div value d) (Fin 100)
      | None \<Rightarrow>
          if contains_str normalized ''%'' \<or> f64_lt (Fin 10) value then value
          else if f64_le value (Fin 1) \<and> contains_str raw_token ''.'' then f64_mul value (Fin 100)
          else f64_mul value (Fin 10))"

definition rung_of_percent :: "f64 \<Rightarrow> ConfidenceLevel" where
  "rung_of_percent percent =
     (if f64_lt percent (Fin 50) then Low else if f64_lt percent (Fin 80) then Medium else High)"

definition conf_parse :: "str \<Rightarrow> ConfidenceLevel option" where
  "conf_parse raw =
     (let normalized = to_ascii_lowercase (trim raw) in
      if normalized = [] then None
      else if list_ex (contains_str normalized) NEGATIONS then Some Low
      else if contains_str normalized ''low'' then Some Low
      else if contains_str normalized ''med'' \<or> contains_str normalized ''moderate'' then Some Medium
      else if contains_str normalized ''high'' \<or> contains_str normalized ''certain''
        \<or> contains_str normalized ''confident'' then Some High
      else (case extract_leading_number normalized of
          None \<Rightarrow> None
        | Some (value, raw_token, after) \<Rightarrow>
            Some (rung_of_percent
              (conf_percent normalized value raw_token (parse_denominator after)))))"

record HandoffArtifact =
  findings :: str
  evidence :: "str list"
  edge_cases_considered :: "str list"
  validation :: "str option"
  open_questions :: "str list"
  confidence :: "str option"
  what_i_did_not_check :: "str list"

definition default_artifact :: HandoffArtifact where
  "default_artifact = \<lparr>findings = [], evidence = [], edge_cases_considered = [],
     validation = None, open_questions = [], confidence = None, what_i_did_not_check = []\<rparr>"

definition brief :: "str \<Rightarrow> HandoffArtifact" where
  "brief f = default_artifact\<lparr>findings := f\<rparr>"

definition confidence_level :: "HandoffArtifact \<Rightarrow> ConfidenceLevel option" where
  "confidence_level a = Option.bind (confidence a) conf_parse"

definition labelled :: "str \<Rightarrow> str list \<Rightarrow> str" where
  "labelled label xs = (if xs = [] then [] else label @ join ''; '' xs @ nl)"

definition labelled_opt :: "str \<Rightarrow> str option \<Rightarrow> str" where
  "labelled_opt label v = (case v of None \<Rightarrow> [] | Some x \<Rightarrow> label @ x @ nl)"

definition render_section :: "HandoffArtifact \<Rightarrow> str \<Rightarrow> str \<Rightarrow> str" where
  "render_section a ident kind =
     ''## '' @ ident @ '' ('' @ kind @ '')'' @ nl
     @ (if trim (findings a) = [] then [] else findings a @ nl)
     @ labelled ''Evidence: '' (evidence a)
     @ labelled ''Edge cases considered: '' (edge_cases_considered a)
     @ labelled_opt ''Validation: '' (validation a)
     @ labelled ''Open questions: '' (open_questions a)
     @ labelled_opt ''Confidence: '' (confidence a)
     @ labelled ''What was not checked: '' (what_i_did_not_check a)"

section \<open>Numeric scores\<close>

text \<open>A text made of digits and percent signs contains none of the word rungs.\<close>

definition numeric_text :: "str \<Rightarrow> bool" where
  "numeric_text s \<longleftrightarrow> (\<forall>c \<in> set s. is_ascii_digit c \<or> c = CHR ''%'')"

text \<open>The rung an integer percentage stands for.\<close>

definition rung_of_score :: "nat \<Rightarrow> ConfidenceLevel" where
  "rung_of_score p = (if p < 50 then Low else if p < 80 then Medium else High)"

lemma numeric_text_no_word:
  assumes "numeric_text s" and "w \<in> set pat" and "\<not> is_ascii_digit w" and "w \<noteq> CHR ''%''"
  shows "\<not> contains_str s pat"
  using assms contains_str_set [of s pat] by (auto simp: numeric_text_def)

lemma numeric_char_plain:
  "is_ascii_digit c \<or> c = CHR ''%'' \<Longrightarrow> 33 \<le> byte c \<and> byte c < 127"
  by (auto simp: is_ascii_digit_def)

lemma trim_numeric: "numeric_text s \<Longrightarrow> trim s = s"
  by (rule trim_plain_ends) (auto simp: numeric_text_def dest!: numeric_char_plain)

lemma lower_numeric: "numeric_text s \<Longrightarrow> to_ascii_lowercase s = s"
  by (auto simp: to_ascii_lowercase_def numeric_text_def ascii_lower_def is_ascii_digit_def
      intro!: map_idI)

lemma no_words_numeric:
  assumes n: "numeric_text s"
  shows "\<not> list_ex (contains_str s) NEGATIONS"
    "\<not> contains_str s ''low''" "\<not> contains_str s ''med''" "\<not> contains_str s ''moderate''"
    "\<not> contains_str s ''high''" "\<not> contains_str s ''certain''" "\<not> contains_str s ''confident''"
    "\<not> contains_str s ''.''"
  using n by (simp_all add: NEGATIONS_def numeric_text_no_word [where w = "CHR ''n''"]
      numeric_text_no_word [where w = "CHR ''o''"] numeric_text_no_word [where w = "CHR ''e''"]
      numeric_text_no_word [where w = "CHR ''h''"]
      numeric_text_no_word [where w = "CHR ''.''"] is_ascii_digit_def)

lemma digits_no_dot: "\<forall>c \<in> set s. is_ascii_digit c \<Longrightarrow> CHR ''.'' \<notin> set s"
  by (auto simp: is_ascii_digit_def)

lemma parse_f64_show_nat:
  assumes "n < 2 ^ 53"
  shows "parse_f64 (show_nat n) = Some (Fin (of_nat n))"
proof -
  have t: "takeWhile (\<lambda>c. c \<noteq> CHR ''.'') (show_nat n) = show_nat n"
    using digits_no_dot [OF show_nat_digits [of n]] by (auto simp: takeWhile_eq_all_conv)
  show ?thesis
    by (simp only: parse_f64_def Let_def t) (simp add: f64_round_nat [OF assms])
qed

lemma extract_show_nat:
  assumes "n < 2 ^ 53" and "\<And>c t. rest = c # t \<Longrightarrow> \<not> num_char c"
  shows "extract_leading_number (show_nat n @ rest) = Some (Fin (of_nat n), show_nat n, rest)"
proof -
  have d: "\<forall>c \<in> set (show_nat n). num_char c"
    using show_nat_digits [of n] by (auto simp: num_char_def)
  then have "dropWhile (\<lambda>c. \<not> num_char c) (show_nat n @ rest) = show_nat n @ rest"
    by (cases "show_nat n") auto
  moreover have "takeWhile num_char (show_nat n @ rest) = show_nat n"
    using d assms(2) by (cases rest) (auto simp: takeWhile_append)
  moreover have "dropWhile num_char (show_nat n @ rest) = rest"
    using d assms(2) by (cases rest) (auto simp: dropWhile_append)
  ultimately show ?thesis
    using assms(1) by (simp add: extract_leading_number_def Let_def parse_f64_show_nat)
qed

lemma rung_of_percent_nat: "rung_of_percent (Fin (of_nat p)) = rung_of_score p"
  by (simp add: rung_of_percent_def rung_of_score_def)

lemma numeric_text_show_nat [simp]: "numeric_text (show_nat n)" "numeric_text (show_nat n @ ''%'')"
  using show_nat_digits [of n] by (auto simp: numeric_text_def)

lemma trim_start_simple: "trim_start [] = []" "trim_start ''%'' = ''%''"
  by (simp_all add: trim_start_def drop_ws_id ws_width_plain)

lemma conf_parse_percentage:
  assumes "n < 2 ^ 53"
  shows "conf_parse (show_nat n @ ''%'') = Some (rung_of_score n)"
proof -
  let ?s = "show_nat n @ ''%''"
  have e: "extract_leading_number ?s = Some (Fin (of_nat n), show_nat n, ''%'')"
    using assms by (intro extract_show_nat) (auto simp: num_char_def is_ascii_digit_def)
  have "parse_denominator ''%'' = None"
    by (simp add: parse_denominator_def trim_start_simple strip_prefix_def)
  moreover have "contains_str ?s ''%''"
    by (simp add: contains_str_mem)
  ultimately show ?thesis
    using no_words_numeric [of ?s] e
    by (simp add: conf_parse_def trim_numeric lower_numeric conf_percent_def rung_of_percent_nat)
qed

lemma conf_parse_bare_integer:
  assumes "n < 2 ^ 53"
  shows "conf_parse (show_nat n) = Some (rung_of_score (if 10 < n then n else 10 * n))"
proof -
  let ?s = "show_nat n"
  have e: "extract_leading_number ?s = Some (Fin (of_nat n), show_nat n, [])"
    using extract_show_nat [of n "[]"] assms by simp
  have d: "parse_denominator [] = None"
    by (simp add: parse_denominator_def trim_start_simple strip_prefix_def)
  have "CHR ''%'' \<notin> set ?s"
    using show_nat_digits [of n] by (auto simp: is_ascii_digit_def)
  then have p: "\<not> contains_str ?s ''%''" by (simp add: contains_str_mem)
  have m: "f64_mul (Fin (of_nat n)) (Fin 10) = Fin (of_nat (10 * n))" if "n \<le> 10"
    using f64_round_nat [of "10 * n"] that by (simp add: mult.commute)
  show ?thesis
    using no_words_numeric [of ?s] e d p m rung_of_percent_nat [of n]
      rung_of_percent_nat [of "10 * n"]
    by (simp add: conf_parse_def trim_numeric lower_numeric conf_percent_def
        del: f64_mul.simps of_nat_mult)
qed

text \<open>
  Supplement: Integer scores are read exactly: \<open>"n%"\<close> is graded by the thresholds 50 and 80, and a
  bare integer counts as a percentage above 10 and as a score out of 10 otherwise, so
  \<open>"1"\<close> is one out of ten and not full confidence.
\<close>

theorem conf_parse_integer_scores:
  assumes "n < 2 ^ 53"
  shows "conf_parse (show_nat n @ ''%'') = Some (rung_of_score n)
    \<and> conf_parse (show_nat n) = Some (rung_of_score (if 10 < n then n else 10 * n))"
  using conf_parse_percentage [OF assms] conf_parse_bare_integer [OF assms] by simp

theorem conf_parse_integer_scores_witness:
  "conf_parse (show_nat 49 @ ''%'') = Some Low \<and> conf_parse (show_nat 1) = Some Low
   \<and> conf_parse (show_nat 8) = Some High"
  using conf_parse_integer_scores [of 49] conf_parse_integer_scores [of 1]
    conf_parse_integer_scores [of 8]
  by (simp add: rung_of_score_def)

text \<open>Negations that are not adjacent to the rung word are read as high confidence.\<close>

lemma split_negation_reads_high:
  "conf_parse ''not very confident'' = Some High \<and> conf_parse ''unconfident'' = Some High"
  by code_simp

end
