(* ===== verification/Kahn.thy ===== *)
theory Kahn
  imports Prelude
begin

text \<open>
  The contract behind the two cycle detectors of the program
  (\<^verbatim>\<open>TaskGraph::cycle_nodes\<close> and \<^verbatim>\<open>cycle_item_ids\<close>): a work list whose items carry
  a counter of unvisited predecessors. The locale fixes what the loops share (the counters, the
  relaxation of one visited item, the loop's unfolding) and proves once that the visited items
  are exactly those that are not on, or downstream of, a cycle.
\<close>

text \<open>The counter an item starts with: the weights of all edges into it.\<close>

definition indegree_sum :: "'a set \<Rightarrow> ('a \<Rightarrow> 'a \<Rightarrow> nat) \<Rightarrow> 'a \<Rightarrow> nat" where
  "indegree_sum S w v = (\<Sum>u\<in>S. w u v)"

definition edge_rel :: "('a \<Rightarrow> 'a \<Rightarrow> nat) \<Rightarrow> 'a rel" where
  "edge_rel w = {(u, v). 0 < w u v}"

section \<open>Items not accessible along the edges\<close>

lemma acc_no_cycle: "x \<in> Wellfounded.acc r \<Longrightarrow> (x, x) \<notin> r\<^sup>+"
proof (induction rule: acc.induct)
  case (accI x)
  show ?case
  proof
    assume "(x, x) \<in> r\<^sup>+"
    then obtain y where y: "(y, x) \<in> r" "(x, y) \<in> r\<^sup>*" by (auto dest: tranclD2)
    then have "(y, y) \<in> r\<^sup>+" by (meson rtrancl_into_trancl2)
    with accI y show False by blast
  qed
qed

text \<open>In a finite relation, the inaccessible items are those on or downstream of a cycle.\<close>

lemma not_acc_iff_cycle:
  assumes "finite r"
  shows "v \<notin> Wellfounded.acc r \<longleftrightarrow> (\<exists>c. (c, c) \<in> r\<^sup>+ \<and> (c, v) \<in> r\<^sup>*)"
proof
  assume v: "v \<notin> Wellfounded.acc r"
  define A where "A = {u. (u, v) \<in> r\<^sup>* \<and> u \<notin> Wellfounded.acc r}"
  define s where "s = r \<inter> A \<times> A"
  have pre: "\<exists>y \<in> A. (y, u) \<in> s" if "u \<in> A" for u
  proof -
    from that have "u \<notin> Wellfounded.acc r" by (simp add: A_def)
    then obtain y where "(y, u) \<in> r" "y \<notin> Wellfounded.acc r" by (auto intro: accI)
    with that show ?thesis by (auto simp: A_def s_def intro: converse_rtrancl_into_rtrancl)
  qed
  have "\<not> wf s"
  proof
    assume "wf s"
    then obtain z where "z \<in> A" "\<And>y. (y, z) \<in> s \<Longrightarrow> y \<notin> A"
      using v by (auto simp: A_def elim!: wfE_min [of s v A])
    with pre show False by blast
  qed
  then have "\<not> acyclic s"
    using assms finite_acyclic_wf [of s] by (auto simp: s_def)
  then obtain c where c: "(c, c) \<in> s\<^sup>+" by (auto simp: acyclic_def)
  then obtain y where "(c, y) \<in> s" by (meson tranclD)
  then have "c \<in> A" by (simp add: s_def)
  moreover have "(c, c) \<in> r\<^sup>+" using c trancl_mono [of "(c, c)" s r] by (auto simp: s_def)
  ultimately show "\<exists>c. (c, c) \<in> r\<^sup>+ \<and> (c, v) \<in> r\<^sup>*" by (auto simp: A_def)
next
  assume "\<exists>c. (c, c) \<in> r\<^sup>+ \<and> (c, v) \<in> r\<^sup>*"
  then show "v \<notin> Wellfounded.acc r"
    by (meson acc_no_cycle acc_downwards)
qed

section \<open>The contract\<close>

locale kahn =
  fixes ids :: "'a set"
    and edges :: "'a \<Rightarrow> 'a \<Rightarrow> nat"
    and relax :: "'a \<Rightarrow> ('a \<rightharpoonup> nat) \<Rightarrow> 'a list \<Rightarrow> ('a \<rightharpoonup> nat) \<times> 'a list"
    and loop :: "'a list \<Rightarrow> 'a set \<Rightarrow> ('a \<rightharpoonup> nat) \<Rightarrow> 'a set \<times> ('a \<rightharpoonup> nat)"
  assumes finite_ids: "finite ids"
    and edges_ids: "0 < edges u v \<Longrightarrow> u \<in> ids \<and> v \<in> ids"
    and relax_deg: "u \<in> ids \<Longrightarrow> dom deg = ids \<Longrightarrow>
      fst (relax u deg q) = (\<lambda>v. map_option (\<lambda>d. d - edges u v) (deg v))"
    and relax_queue: "u \<in> ids \<Longrightarrow> dom deg = ids \<Longrightarrow>
      set (snd (relax u deg q)) =
        set q \<union> {v \<in> ids. 0 < edges u v \<and> the (deg v) \<le> edges u v}"
    and loop_empty: "loop [] vis deg = (vis, deg)"
    and loop_step: "q \<noteq> [] \<Longrightarrow> loop q vis deg =
      (if last q \<in> vis then loop (butlast q) vis deg
       else case relax (last q) deg (butlast q) of
         (deg', q') \<Rightarrow> loop q' (insert (last q) vis) deg')"
begin

lemma edge_rel_ids: "edge_rel edges \<subseteq> ids \<times> ids"
  using edges_ids by (auto simp: edge_rel_def)

lemma finite_edge_rel: "finite (edge_rel edges)"
  by (rule finite_subset [OF edge_rel_ids]) (simp add: finite_ids)

text \<open>The loop invariant: the counter of an item is the weight of its unvisited predecessors.\<close>

definition kinv :: "'a list \<Rightarrow> 'a set \<Rightarrow> ('a \<rightharpoonup> nat) \<Rightarrow> bool" where
  "kinv q vis deg \<longleftrightarrow>
     vis \<subseteq> ids \<inter> Wellfounded.acc (edge_rel edges) \<and> set q \<subseteq> ids \<and>
     deg = (\<lambda>v. if v \<in> ids then Some (indegree_sum (ids - vis) edges v) else None) \<and>
     (\<forall>v \<in> set q. indegree_sum (ids - vis) edges v = 0) \<and>
     (\<forall>v \<in> ids. v \<notin> vis \<longrightarrow> indegree_sum (ids - vis) edges v = 0 \<longrightarrow> v \<in> set q)"

lemma kinv_dom: "kinv q vis deg \<Longrightarrow> dom deg = ids"
  by (auto simp: kinv_def dom_def)

lemma indegree_sum_zero:
  "indegree_sum (ids - vis) edges v = 0 \<longleftrightarrow> (\<forall>u. 0 < edges u v \<longrightarrow> u \<in> vis)"
proof -
  have "indegree_sum (ids - vis) edges v = 0 \<longleftrightarrow> (\<forall>u \<in> ids. u \<notin> vis \<longrightarrow> edges u v = 0)"
    using finite_ids by (auto simp: indegree_sum_def)
  also have "\<dots> \<longleftrightarrow> (\<forall>u. 0 < edges u v \<longrightarrow> u \<in> vis)"
    using edges_ids [of _ v] by auto
  finally show ?thesis .
qed

lemma indegree_sum_insert:
  "u \<in> ids - vis \<Longrightarrow>
    indegree_sum (ids - insert u vis) edges v = indegree_sum (ids - vis) edges v - edges u v"
  using finite_ids by (simp add: indegree_sum_def Diff_insert [of ids u vis] sum_diff1_nat)

lemma kinv_visit_acc:
  assumes "kinv q vis deg" and "u \<in> set q"
  shows "u \<in> Wellfounded.acc (edge_rel edges)"
proof (rule accI)
  fix y
  assume "(y, u) \<in> edge_rel edges"
  moreover have "\<forall>y. 0 < edges y u \<longrightarrow> y \<in> vis"
    using assms indegree_sum_zero [of vis u] by (auto simp: kinv_def)
  ultimately show "y \<in> Wellfounded.acc (edge_rel edges)"
    using assms(1) by (auto simp: kinv_def edge_rel_def)
qed

lemma kinv_skip:
  assumes "kinv q vis deg" and "q \<noteq> []" and "last q \<in> vis"
  shows "kinv (butlast q) vis deg"
proof -
  have "set q = insert (last q) (set (butlast q))"
    using assms(2) by (metis append_butlast_last_id insert_is_Un list.simps(15) set_append sup_commute
        empty_set)
  with assms show ?thesis by (auto simp: kinv_def)
qed

lemma kinv_visit:
  assumes k: "kinv q vis deg" and "q \<noteq> []" and new: "last q \<notin> vis"
    and r: "relax (last q) deg (butlast q) = (deg', q')"
  shows "kinv q' (insert (last q) vis) deg'"
proof -
  let ?u = "last q"
  have sq: "set q = insert ?u (set (butlast q))"
    using assms(2) by (metis append_butlast_last_id insert_is_Un list.simps(15) set_append sup_commute
        empty_set)
  then have u: "?u \<in> ids" using k by (auto simp: kinv_def)
  have deg: "deg = (\<lambda>v. if v \<in> ids then Some (indegree_sum (ids - vis) edges v) else None)"
    using k by (simp add: kinv_def)
  have ins: "indegree_sum (ids - insert ?u vis) edges v = indegree_sum (ids - vis) edges v - edges ?u v" for v
    using indegree_sum_insert [of ?u vis v] u new by simp
  have deg': "deg' = (\<lambda>v. if v \<in> ids then Some (indegree_sum (ids - insert ?u vis) edges v) else None)"
    using relax_deg [OF u kinv_dom [OF k], of "butlast q"] r
    by (auto simp: deg ins fun_eq_iff)
  have q': "set q' = set (butlast q) \<union>
      {v \<in> ids. 0 < edges ?u v \<and> indegree_sum (ids - insert ?u vis) edges v = 0}"
    using relax_queue [OF u kinv_dom [OF k], of "butlast q"] r by (auto simp: deg ins)
  have acc: "?u \<in> Wellfounded.acc (edge_rel edges)"
    using kinv_visit_acc [OF k] sq by simp
  show ?thesis
    unfolding kinv_def
  proof (intro conjI ballI impI)
    show "insert ?u vis \<subseteq> ids \<inter> Wellfounded.acc (edge_rel edges)"
      using k acc u by (auto simp: kinv_def)
    show "set q' \<subseteq> ids" using k q' sq by (auto simp: kinv_def)
    show "deg' = (\<lambda>v. if v \<in> ids then Some (indegree_sum (ids - insert ?u vis) edges v) else None)"
      by (rule deg')
  next
    fix v assume "v \<in> set q'"
    then show "indegree_sum (ids - insert ?u vis) edges v = 0"
      using k q' sq ins by (auto simp: kinv_def)
  next
    fix v assume v: "v \<in> ids" "v \<notin> insert ?u vis" and z: "indegree_sum (ids - insert ?u vis) edges v = 0"
    show "v \<in> set q'"
    proof (cases "edges ?u v = 0")
      case True
      with z ins have "indegree_sum (ids - vis) edges v = 0" by simp
      with k v sq q' show ?thesis by (auto simp: kinv_def)
    qed (use v z q' in simp)
  qed
qed

text \<open>The loop ends, and its result satisfies the invariant with an empty work list.\<close>

lemma loop_kinv:
  "kinv q vis deg \<Longrightarrow> loop q vis deg = (vis', deg') \<Longrightarrow> kinv [] vis' deg'"
proof (induction "(q, vis)" arbitrary: q vis deg
    rule: wf_induct [OF wf_measures [of "[\<lambda>(q, vis). card (ids - vis), \<lambda>(q, vis). length q]"]])
  case (1 q vis deg)
  have IH: "kinv q2 vis2 deg2 \<Longrightarrow> loop q2 vis2 deg2 = (vis', deg') \<Longrightarrow> kinv [] vis' deg'"
    if "card (ids - vis2) < card (ids - vis) \<or> vis2 = vis \<and> length q2 < length q" for q2 vis2 deg2
    using 1(1) that by fastforce
  show ?case
  proof (cases "q = []")
    case True
    with 1(2,3) show ?thesis by (simp add: loop_empty)
  next
    case False
    show ?thesis
    proof (cases "last q \<in> vis")
      case True
      with False 1(3) have "loop (butlast q) vis deg = (vis', deg')" by (simp add: loop_step)
      with IH [of vis "butlast q" deg] kinv_skip [OF 1(2) False True] False show ?thesis by simp
    next
      case new: False
      obtain d2 q2 where r: "relax (last q) deg (butlast q) = (d2, q2)" by fastforce
      with False new 1(3) have "loop q2 (insert (last q) vis) d2 = (vis', deg')"
        by (simp add: loop_step)
      moreover have "last q \<in> ids" using 1(2) False by (auto simp: kinv_def)
      then have "card (ids - insert (last q) vis) < card (ids - vis)"
        using new finite_ids by (intro psubset_card_mono) auto
      ultimately show ?thesis
        using IH kinv_visit [OF 1(2) False new r] by blast
    qed
  qed
qed

text \<open>With an empty work list every item without a cyclic ancestor is visited.\<close>

lemma kinv_Nil_visited:
  assumes "kinv [] vis deg"
  shows "vis = ids \<inter> Wellfounded.acc (edge_rel edges)"
proof -
  have "v \<in> ids \<Longrightarrow> v \<in> vis" if "v \<in> Wellfounded.acc (edge_rel edges)" for v
    using that
  proof (induction rule: acc.induct)
    case (accI v)
    then have "\<forall>u. 0 < edges u v \<longrightarrow> u \<in> vis"
      using edges_ids by (auto simp: edge_rel_def)
    then have "indegree_sum (ids - vis) edges v = 0" by (simp add: indegree_sum_zero)
    with accI.prems assms show ?case by (auto simp: kinv_def)
  qed
  with assms show ?thesis by (auto simp: kinv_def)
qed

lemma kinv_init:
  assumes "deg = (\<lambda>v. if v \<in> ids then Some (indegree_sum ids edges v) else None)"
    and "set q = {v \<in> ids. indegree_sum ids edges v = 0}"
  shows "kinv q {} deg"
  using assms by (auto simp: kinv_def)

lemma acyclic_iff_acc: "acyclic (edge_rel edges) \<longleftrightarrow> ids \<subseteq> Wellfounded.acc (edge_rel edges)"
proof
  assume "acyclic (edge_rel edges)"
  then have "wf (edge_rel edges)"
    using finite_edge_rel by (rule finite_acyclic_wf [rotated])
  then show "ids \<subseteq> Wellfounded.acc (edge_rel edges)" by (auto dest: acc_wfD)
next
  assume a: "ids \<subseteq> Wellfounded.acc (edge_rel edges)"
  have "x \<in> Wellfounded.acc (edge_rel edges)" for x
  proof (cases "x \<in> ids")
    case False
    then have "(y, x) \<notin> edge_rel edges" for y using edge_rel_ids by auto
    then show ?thesis by (auto intro: accI)
  qed (use a in auto)
  then have "wf (edge_rel edges)" by (simp add: acc_wfI)
  then show "acyclic (edge_rel edges)" by (rule wf_acyclic)
qed

text \<open>The result of the loop from the initial counters and the items without predecessors.\<close>

lemma visited_acc:
  assumes "deg = (\<lambda>v. if v \<in> ids then Some (indegree_sum ids edges v) else None)"
    and "set q = {v \<in> ids. indegree_sum ids edges v = 0}"
  shows "fst (loop q {} deg) = ids \<inter> Wellfounded.acc (edge_rel edges)"
  using loop_kinv [OF kinv_init [OF assms], of "fst (loop q {} deg)" "snd (loop q {} deg)"]
    kinv_Nil_visited by simp

lemma final_deg_pos:
  assumes "deg = (\<lambda>v. if v \<in> ids then Some (indegree_sum ids edges v) else None)"
    and "set q = {v \<in> ids. indegree_sum ids edges v = 0}"
    and "v \<in> ids" and "v \<notin> fst (loop q {} deg)"
  shows "\<exists>n>0. snd (loop q {} deg) v = Some n"
  using loop_kinv [OF kinv_init [OF assms(1,2)], of "fst (loop q {} deg)" "snd (loop q {} deg)"]
    assms(3,4) by (auto simp: kinv_def)

lemma all_visited_iff_acyclic:
  assumes "deg = (\<lambda>v. if v \<in> ids then Some (indegree_sum ids edges v) else None)"
    and "set q = {v \<in> ids. indegree_sum ids edges v = 0}"
  shows "ids \<subseteq> fst (loop q {} deg) \<longleftrightarrow> acyclic (edge_rel edges)"
  using visited_acc [OF assms] acyclic_iff_acc by auto

end

end
