(* ===== verification/Task_Graph.thy ===== *)
theory Task_Graph
  imports Confidence Kahn
begin

text \<open>
  The task graph of \<^verbatim>\<open>crates/jcode-plan/src/dag/mod.rs\<close>: modes, node kinds and states,
  node and spec records, the errors of the validated mutations, lookups, and the cycle
  detector \<^verbatim>\<open>TaskGraph::cycle_nodes\<close> (an instance of the \<^verbatim>\<open>kahn\<close> contract).
\<close>

section \<open>Data\<close>

datatype Mode = Deep | Light

fun requires_gates :: "Mode \<Rightarrow> bool" where
  "requires_gates Deep = True"
| "requires_gates Light = False"

datatype NodeOrigin = Seed | Expand | Gap | Gate

datatype NodeKind = Explore | Implement | Verify | Fix | Synthesize | Critique

fun is_gate_kind :: "NodeKind \<Rightarrow> bool" where
  "is_gate_kind Critique = True"
| "is_gate_kind Verify = True"
| "is_gate_kind _ = False"

fun gate_kind :: "NodeKind \<Rightarrow> NodeKind" where
  "gate_kind Implement = Verify"
| "gate_kind Fix = Verify"
| "gate_kind _ = Critique"

datatype NodeStatus = Queued | Running | Done | Failed

record TaskNode =
  node_id :: str
  node_content :: str
  node_kind :: NodeKind
  node_status :: NodeStatus
  node_owner :: "str option"
  node_parent :: "str option"
  node_depends_on :: "str list"
  node_expanded :: bool
  node_is_gate :: bool
  node_planner :: "str option"
  node_priority :: nat
  node_output :: "HandoffArtifact option"
  node_origin :: "NodeOrigin option"

definition is_composite :: "TaskNode \<Rightarrow> bool" where
  "is_composite n = node_expanded n"

definition is_done :: "TaskNode \<Rightarrow> bool" where
  "is_done n \<longleftrightarrow> node_status n = Done"

definition node_is_terminal :: "TaskNode \<Rightarrow> bool" where
  "node_is_terminal n \<longleftrightarrow> node_status n = Done \<or> node_status n = Failed"

record NodeSpec =
  spec_id :: "str option"
  spec_content :: str
  spec_kind :: NodeKind
  spec_depends_on :: "str list"
  spec_priority :: nat

definition new_spec :: "str \<Rightarrow> str \<Rightarrow> NodeKind \<Rightarrow> NodeSpec" where
  "new_spec i c k =
     \<lparr>spec_id = Some i, spec_content = c, spec_kind = k, spec_depends_on = [], spec_priority = 0\<rparr>"

definition with_depends_on :: "str list \<Rightarrow> NodeSpec \<Rightarrow> NodeSpec" where
  "with_depends_on ds s = s\<lparr>spec_depends_on := ds\<rparr>"

definition with_priority :: "nat \<Rightarrow> NodeSpec \<Rightarrow> NodeSpec" where
  "with_priority p s = s\<lparr>spec_priority := p\<rparr>"

datatype DagError =
    UnknownNode str
  | DuplicateNode str
  | UnknownDependency str str
  | WouldCreateCycle "str list"
  | NotOwner str str
  | InvalidState str NodeStatus
  | ThinArtifact str str
  | UnaddressedLowConfidence str "str list"
  | UncoveredSiblings str "str list"
  | StaleGateScope str "str list"
  | GateMisuse str

text \<open>The derived \<open>Debug\<close> name of a status, used by the error texts.\<close>

fun status_debug :: "NodeStatus \<Rightarrow> str" where
  "status_debug Queued = ''Queued''"
| "status_debug Running = ''Running''"
| "status_debug Done = ''Done''"
| "status_debug Failed = ''Failed''"

abbreviation quote :: "str \<Rightarrow> str" where
  "quote s \<equiv> [CHR 0x27] @ s @ [CHR 0x27]"

definition show_dag_error :: "DagError \<Rightarrow> str" where
  "show_dag_error e = (case e of
       UnknownNode i \<Rightarrow> ''unknown node '' @ quote i
     | DuplicateNode i \<Rightarrow> ''duplicate node id '' @ quote i
     | UnknownDependency n d \<Rightarrow> ''node '' @ quote n @ '' depends on unknown node '' @ quote d
     | WouldCreateCycle is \<Rightarrow> ''operation would create a cycle among: '' @ join '', '' is
     | NotOwner n a \<Rightarrow> ''actor '' @ quote a @ '' does not own node '' @ quote n
     | InvalidState n s \<Rightarrow> ''node '' @ quote n @ '' is in invalid state '' @ status_debug s @ '' for this operation''
     | ThinArtifact n r \<Rightarrow> ''node '' @ quote n @ '' artifact rejected: '' @ r
     | UnaddressedLowConfidence g ns \<Rightarrow> ''gate '' @ quote g @ '' cannot pass: sibling node(s) ['' @ join '', '' ns
     @ ''] completed with LOW confidence and the gate artifact does not address them. Either ''
     @ ''inject_gap with follow-up nodes that shore up that work, or name each ''
     @ ''id in your findings with why its low confidence is acceptable''
     | UncoveredSiblings g ns \<Rightarrow> ''gate '' @ quote g @ '' cannot pass: completed node(s) ['' @ join '', '' ns
     @ ''] in its audit scope are not addressed in the gate artifact. A passing deep gate must account for ''
     @ ''every node it audits: name each id in findings/open_questions with what ''
     @ ''you checked, or inject_gap with follow-up nodes for anything shaky''
     | StaleGateScope g ns \<Rightarrow> ''gate '' @ quote g @ '' cannot pass: node(s) ['' @ join '', '' ns
     @ ''] entered its audit scope after it was dispatched and are not finished. ''
     @ ''The gate's view is stale; it re-runs after they drain''
     | GateMisuse m \<Rightarrow> ''gate misuse: '' @ m)"

record TaskGraph =
  mode :: Mode
  nodes :: "TaskNode list"

definition new_graph :: "Mode \<Rightarrow> TaskGraph" where
  "new_graph m = \<lparr>mode = m, nodes = []\<rparr>"

definition get :: "TaskGraph \<Rightarrow> str \<Rightarrow> TaskNode option" where
  "get g i = find (\<lambda>n. node_id n = i) (nodes g)"

text \<open>Mutation through \<open>get_mut\<close>: the first node with the id is changed in place.\<close>

definition modify :: "TaskGraph \<Rightarrow> str \<Rightarrow> (TaskNode \<Rightarrow> TaskNode) \<Rightarrow> TaskGraph" where
  "modify g i f = g\<lparr>nodes := update_first (\<lambda>n. node_id n = i) f (nodes g)\<rparr>"

definition contains :: "TaskGraph \<Rightarrow> str \<Rightarrow> bool" where
  "contains g i = list_ex (\<lambda>n. node_id n = i) (nodes g)"

definition push :: "TaskGraph \<Rightarrow> TaskNode \<Rightarrow> TaskGraph" where
  "push g n = g\<lparr>nodes := nodes g @ [n]\<rparr>"

definition children_of :: "TaskGraph \<Rightarrow> str \<Rightarrow> TaskNode list" where
  "children_of g i = filter (\<lambda>n. node_parent n = Some i \<and> \<not> node_is_gate n) (nodes g)"

definition gate_of :: "TaskGraph \<Rightarrow> str \<Rightarrow> TaskNode option" where
  "gate_of g i = find (\<lambda>n. node_parent n = Some i \<and> node_is_gate n) (nodes g)"

definition low_confidence_done_ids :: "TaskGraph \<Rightarrow> str list" where
  "low_confidence_done_ids g =
     map node_id
       (filter (\<lambda>n. Option.bind (node_output n) confidence_level = Some Low)
         (filter (\<lambda>n. is_done n \<and> \<not> node_is_gate n) (nodes g)))"

definition all_terminal :: "TaskGraph \<Rightarrow> bool" where
  "all_terminal g = list_all node_is_terminal (nodes g)"

section \<open>Cycle detection\<close>

abbreviation node_ids :: "TaskNode list \<Rightarrow> str list" where
  "node_ids ns \<equiv> map node_id ns"

text \<open>\<open>unique_deps.len()\<close>: distinct dependencies that are nodes of the graph.\<close>

definition unique_deps :: "TaskNode list \<Rightarrow> TaskNode \<Rightarrow> str list" where
  "unique_deps ns n = dedup (filter (\<lambda>d. d \<in> set (node_ids ns)) (node_depends_on n))"

definition add_indegree :: "nat \<Rightarrow> str \<Rightarrow> (str \<rightharpoonup> nat) \<Rightarrow> (str \<rightharpoonup> nat)" where
  "add_indegree k i m = m(i \<mapsto> (case m i of None \<Rightarrow> 0 | Some d \<Rightarrow> d) + k)"

definition initial_indegree :: "TaskNode list \<Rightarrow> (str \<rightharpoonup> nat)" where
  "initial_indegree ns =
     fold (\<lambda>n. add_indegree (length (unique_deps ns n)) (node_id n)) ns
       (fold (\<lambda>n. add_indegree 0 (node_id n)) ns Map.empty)"

text \<open>One pass of the relaxation loop for a visited id.\<close>

fun relax_node :: "str \<Rightarrow> TaskNode \<Rightarrow> (str \<rightharpoonup> nat) \<times> str list \<Rightarrow> (str \<rightharpoonup> nat) \<times> str list" where
  "relax_node i n (deg, q) =
     (if i \<in> set (node_depends_on n) then
        (case deg (node_id n) of
           None \<Rightarrow> (deg, q)
         | Some d \<Rightarrow> (deg(node_id n \<mapsto> d - 1), if d - 1 = 0 then q @ [node_id n] else q))
      else (deg, q))"

definition relax_nodes ::
  "TaskNode list \<Rightarrow> str \<Rightarrow> (str \<rightharpoonup> nat) \<Rightarrow> str list \<Rightarrow> (str \<rightharpoonup> nat) \<times> str list" where
  "relax_nodes ns i deg q = fold (relax_node i) ns (deg, q)"

lemma relax_node_queue: "set (snd (relax_node i n s)) \<subseteq> insert (node_id n) (set (snd s))"
  by (cases s) (auto split: option.splits)

lemma relax_nodes_queue: "set (snd (relax_nodes ns i deg q)) \<subseteq> set (node_ids ns) \<union> set q"
proof -
  have "set (snd (fold (relax_node i) ns s)) \<subseteq> set (node_ids ns) \<union> set (snd s)" for s
  proof (induction ns arbitrary: s)
    case (Cons n ns)
    then show ?case using relax_node_queue [of i n s] by fastforce
  qed simp
  then show ?thesis unfolding relax_nodes_def by fastforce
qed

text \<open>The loop \<open>while let Some(id) = queue.pop()\<close>; the queue is a stack, popped at its end.\<close>

function kahn_loop ::
  "TaskNode list \<Rightarrow> str list \<Rightarrow> str set \<Rightarrow> (str \<rightharpoonup> nat) \<Rightarrow> str set \<times> (str \<rightharpoonup> nat)" where
  "kahn_loop ns q vis deg =
     (if q = [] then (vis, deg)
      else if last q \<in> vis then kahn_loop ns (butlast q) vis deg
      else (case relax_nodes ns (last q) deg (butlast q) of
        (deg', q') \<Rightarrow> kahn_loop ns q' (insert (last q) vis) deg'))"
  by pat_completeness auto
termination
proof (relation "measures [\<lambda>(ns, q, vis, deg). card ((set (node_ids ns) \<union> set q) - vis),
    \<lambda>(ns, q, vis, deg). length q]", goal_cases)
  case (2 ns q vis deg)
  have "card ((set (node_ids ns) \<union> set (butlast q)) - vis) \<le> card ((set (node_ids ns) \<union> set q) - vis)"
    by (rule card_mono) (auto dest: in_set_butlastD)
  with 2 show ?case by (auto simp: less_Suc_eq_le)
next
  case (3 ns q vis deg deg' q')
  then have "set q' \<subseteq> set (node_ids ns) \<union> set (butlast q)"
    using relax_nodes_queue [of ns "last q" deg "butlast q"] by (metis snd_conv)
  then have "set (node_ids ns) \<union> set q' - insert (last q) vis \<subset> set (node_ids ns) \<union> set q - vis"
    using 3 by (auto dest: in_set_butlastD)
  then have "card (set (node_ids ns) \<union> set q' - insert (last q) vis) < card (set (node_ids ns) \<union> set q - vis)"
    by (intro psubset_card_mono) auto
  then show ?case by simp
qed simp

declare kahn_loop.simps [simp del]

definition initial_queue :: "TaskNode list \<Rightarrow> str list" where
  "initial_queue ns = sort (filter (\<lambda>i. initial_indegree ns i = Some 0) (dedup (node_ids ns)))"

definition cycle_nodes :: "TaskGraph \<Rightarrow> str list" where
  "cycle_nodes g =
     (let ns = nodes g; vis = fst (kahn_loop ns (initial_queue ns) {} (initial_indegree ns))
      in sort (filter (\<lambda>i. i \<notin> vis) (node_ids ns)))"

section \<open>Lookup laws\<close>

lemma get_Some_id: "get g i = Some n \<Longrightarrow> node_id n = i"
  unfolding get_def by (drule find_eq_Some_mem) simp

lemma get_Some_mem: "get g i = Some n \<Longrightarrow> n \<in> set (nodes g)"
  unfolding get_def by (drule find_eq_Some_mem) simp

lemma get_None: "get g i = None \<longleftrightarrow> i \<notin> set (node_ids (nodes g))"
  by (auto simp: get_def find_is_none)

lemma contains_iff [simp]: "contains g i \<longleftrightarrow> i \<in> set (node_ids (nodes g))"
  by (auto simp: contains_def list_ex_iff)

lemma get_distinct: "distinct (node_ids (nodes g)) \<Longrightarrow> n \<in> set (nodes g) \<Longrightarrow> get g (node_id n) = Some n"
  unfolding get_def by (rule find_distinct_key)

lemma get_modify:
  assumes "\<And>n. node_id (f n) = node_id n"
  shows "get (modify g i f) j = (if j = i then map_option f (get g j) else get g j)"
  using find_update_first [where k = node_id and f = f and w = j and v = i and xs = "nodes g"] assms
  by (simp add: get_def modify_def)

lemma node_ids_modify:
  "(\<And>n. node_id (f n) = node_id n) \<Longrightarrow> node_ids (nodes (modify g i f)) = node_ids (nodes g)"
  unfolding modify_def by (simp add: map_update_first)

lemma get_push:
  "get (push g n) j = (if get g j = None \<and> node_id n = j then Some n else get g j)"
  by (simp add: get_def push_def find_append split: option.split)

lemma node_ids_push [simp]: "node_ids (nodes (push g n)) = node_ids (nodes g) @ [node_id n]"
  by (simp add: push_def)

interpretation gs: keyed_store "\<lambda>g. node_ids (nodes g)" get modify push node_id
  by unfold_locales
    (rule get_Some_id get_None get_modify node_ids_modify get_push node_ids_push; assumption?)+

definition node_edges :: "TaskNode list \<Rightarrow> TaskNode list \<Rightarrow> str \<Rightarrow> str \<Rightarrow> nat" where
  "node_edges all ns u v =
     (if u \<in> set (node_ids all)
      then length (filter (\<lambda>n. node_id n = v \<and> u \<in> set (node_depends_on n)) ns) else 0)"

lemma relax_fold:
  assumes "set (node_ids ns) \<subseteq> dom deg" and "u \<in> set (node_ids all)"
  shows "fst (fold (relax_node u) ns (deg, q)) = (\<lambda>v. map_option (\<lambda>d. d - node_edges all ns u v) (deg v))
    \<and> set (snd (fold (relax_node u) ns (deg, q))) =
        set q \<union> {v. 0 < node_edges all ns u v \<and> the (deg v) \<le> node_edges all ns u v}"
  using assms
proof (induction ns arbitrary: deg q)
  case Nil
  then show ?case by (simp add: node_edges_def option.map_ident)
next
  case (Cons n ns)
  show ?case
  proof (cases "u \<in> set (node_depends_on n)")
    case False
    then have "node_edges all (n # ns) u = node_edges all ns u"
      by (auto simp: node_edges_def fun_eq_iff)
    with False Cons show ?thesis by simp
  next
    case True
    obtain d where d: "deg (node_id n) = Some d" using Cons.prems(1) by auto
    let ?deg = "deg(node_id n \<mapsto> d - 1)"
    let ?q = "if d - 1 = 0 then q @ [node_id n] else q"
    have e: "node_edges all (n # ns) u v = node_edges all ns u v + (if v = node_id n then 1 else 0)" for v
      using True Cons.prems(2) by (auto simp: node_edges_def)
    have "set (node_ids ns) \<subseteq> dom ?deg" using Cons.prems(1) by auto
    note IH = Cons.IH [OF this Cons.prems(2), of ?q]
    have "fold (relax_node u) (n # ns) (deg, q) = fold (relax_node u) ns (?deg, ?q)"
      using True d by simp
    note f = this
    have "fst (fold (relax_node u) (n # ns) (deg, q)) v =
        map_option (\<lambda>d. d - node_edges all (n # ns) u v) (deg v)" for v
      using IH d by (cases "v = node_id n") (simp_all only: f e fun_upd_same fun_upd_other, simp_all)
    moreover have "v \<in> set (snd (fold (relax_node u) (n # ns) (deg, q))) \<longleftrightarrow>
        v \<in> set q \<or> (0 < node_edges all (n # ns) u v \<and> the (deg v) \<le> node_edges all (n # ns) u v)" for v
      using IH d by (cases "v = node_id n") (simp_all only: f e, auto)
    ultimately show ?thesis by blast
  qed
qed

lemma add_indegree_fold:
  "fold (\<lambda>n. add_indegree (k n) (node_id n)) ns m v =
    (if v \<in> set (node_ids ns) \<or> m v \<noteq> None
     then Some ((case m v of None \<Rightarrow> 0 | Some d \<Rightarrow> d) + sum_list (map k (filter (\<lambda>n. node_id n = v) ns)))
     else None)"
proof (induction ns arbitrary: m)
  case (Cons n ns)
  then show ?case by (auto simp: add_indegree_def split: option.splits)
qed (auto split: option.splits)

lemma length_unique_deps:
  "length (unique_deps ns n) = (\<Sum>u\<in>set (node_ids ns). if u \<in> set (node_depends_on n) then 1 else 0)"
proof -
  have "length (unique_deps ns n) = card (set (unique_deps ns n))"
    by (simp only: unique_deps_def distinct_card distinct_dedup)
  also have "set (unique_deps ns n) = {u \<in> set (node_ids ns). u \<in> set (node_depends_on n)}"
    by (auto simp: unique_deps_def)
  finally show ?thesis by (simp add: sum.If_cases Int_def)
qed

lemma sum_edges:
  "indegree_sum (set (node_ids all)) (node_edges all ns) v =
    sum_list (map (\<lambda>n. length (unique_deps all n)) (filter (\<lambda>n. node_id n = v) ns))"
proof (induction ns)
  case Nil
  then show ?case by (simp add: indegree_sum_def node_edges_def)
next
  case (Cons n ns)
  have "node_edges all (n # ns) u v = node_edges all ns u v +
      (if node_id n = v \<and> u \<in> set (node_depends_on n) then 1 else 0)"
    if "u \<in> set (node_ids all)" for u
    using that by (auto simp: node_edges_def)
  then have "indegree_sum (set (node_ids all)) (node_edges all (n # ns)) v =
    indegree_sum (set (node_ids all)) (node_edges all ns) v +
    (\<Sum>u\<in>set (node_ids all). if node_id n = v \<and> u \<in> set (node_depends_on n) then 1 else 0)"
    by (simp add: indegree_sum_def sum.distrib)
  with Cons show ?case by (cases "node_id n = v") (simp_all add: length_unique_deps)
qed

lemma initial_indegree_eq:
  "initial_indegree ns =
    (\<lambda>v. if v \<in> set (node_ids ns)
         then Some (indegree_sum (set (node_ids ns)) (node_edges ns ns) v) else None)"
  by (simp only: initial_indegree_def add_indegree_fold sum_edges fun_eq_iff) simp

lemma set_initial_queue:
  "set (initial_queue ns) =
    {v \<in> set (node_ids ns). indegree_sum (set (node_ids ns)) (node_edges ns ns) v = 0}"
  by (auto simp: initial_queue_def initial_indegree_eq)

interpretation kn: kahn "set (node_ids ns)" "node_edges ns ns" "relax_nodes ns" "kahn_loop ns"
  for ns
proof unfold_locales
  show "finite (set (node_ids ns))" by simp
  show "0 < node_edges ns ns u v \<Longrightarrow> u \<in> set (node_ids ns) \<and> v \<in> set (node_ids ns)" for u v
    by (auto simp: node_edges_def filter_empty_conv split: if_splits)
  fix u and deg :: "str \<rightharpoonup> nat" and q
  assume u: "u \<in> set (node_ids ns)" and d: "dom deg = set (node_ids ns)"
  then have "set (node_ids ns) \<subseteq> dom deg" by simp
  note r = relax_fold [OF this u, of q]
  show "fst (relax_nodes ns u deg q) = (\<lambda>v. map_option (\<lambda>d. d - node_edges ns ns u v) (deg v))"
    using r by (simp add: relax_nodes_def)
  show "set (snd (relax_nodes ns u deg q)) = set q \<union>
      {v \<in> set (node_ids ns). 0 < node_edges ns ns u v \<and> the (deg v) \<le> node_edges ns ns u v}"
    using r by (auto simp: relax_nodes_def node_edges_def filter_empty_conv split: if_splits)
next
  show "kahn_loop ns [] vis deg = (vis, deg)" for vis deg
    by (simp add: kahn_loop.simps)
  show "q \<noteq> [] \<Longrightarrow> kahn_loop ns q vis deg =
      (if last q \<in> vis then kahn_loop ns (butlast q) vis deg
       else case relax_nodes ns (last q) deg (butlast q) of
         (deg', q') \<Rightarrow> kahn_loop ns q' (insert (last q) vis) deg')" for q vis deg
    by (subst kahn_loop.simps) simp
qed

section \<open>What the cycle detector decides\<close>

text \<open>\<open>(u, v)\<close>: node \<open>v\<close> depends on node \<open>u\<close> of the graph.\<close>

definition dep_rel :: "TaskNode list \<Rightarrow> str rel" where
  "dep_rel ns =
     {(u, v). u \<in> set (node_ids ns) \<and> (\<exists>n \<in> set ns. node_id n = v \<and> u \<in> set (node_depends_on n))}"

lemma edge_rel_dep_rel: "edge_rel (node_edges ns ns) = dep_rel ns"
  by (auto simp: edge_rel_def dep_rel_def node_edges_def filter_empty_conv split: if_splits)

lemma set_cycle_nodes:
  "set (cycle_nodes g) = set (node_ids (nodes g)) - Wellfounded.acc (dep_rel (nodes g))"
  using kn.visited_acc [OF initial_indegree_eq set_initial_queue, of "nodes g"]
  by (auto simp: cycle_nodes_def Let_def edge_rel_dep_rel)

lemma cycle_nodes_Nil: "cycle_nodes g = [] \<longleftrightarrow> acyclic (dep_rel (nodes g))"
proof -
  have "cycle_nodes g = [] \<longleftrightarrow> set (cycle_nodes g) = {}" by simp
  also have "\<dots> \<longleftrightarrow> acyclic (dep_rel (nodes g))"
    unfolding set_cycle_nodes
    using kn.acyclic_iff_acc [of "nodes g"] by (auto simp: edge_rel_dep_rel)
  finally show ?thesis .
qed
lemma finite_dep_rel: "finite (dep_rel ns)"
  using kn.finite_edge_rel [of ns] by (simp add: edge_rel_dep_rel)

text \<open>
  Supplement: The cycle detector is exact for every node list (duplicate ids and duplicate edges
  included): it reports, in order, precisely the nodes that lie on a dependency cycle or
  downstream of one, so the empty answer means that the graph is acyclic.
\<close>

theorem cycle_nodes_exact:
  "set (cycle_nodes g) =
     {v \<in> set (map node_id (nodes g)).
        \<exists>c. (c, c) \<in> (dep_rel (nodes g))\<^sup>+ \<and> (c, v) \<in> (dep_rel (nodes g))\<^sup>*}
   \<and> sorted (cycle_nodes g)
   \<and> (cycle_nodes g = [] \<longleftrightarrow> acyclic (dep_rel (nodes g)))"
  using not_acc_iff_cycle [OF finite_dep_rel, of _ "nodes g"]
  by (auto simp: set_cycle_nodes cycle_nodes_Nil) (simp add: cycle_nodes_def Let_def)

end
