(* ===== verification/Plan.thy ===== *)
theory Plan
  imports Task_Graph "HOL-Library.Word" "HOL-Library.Product_Lexorder"
begin

text \<open>
  The shared swarm plan of \<^verbatim>\<open>crates/jcode-plan/src/lib.rs\<close>: plan items with string statuses,
  the side maps of a versioned plan, the status predicates, task control, cycle detection and
  readiness over items, assignment of runnable items, and recovery of stranded assignments.
  A \<open>HashMap\<close> is a map, a \<open>HashSet\<close> a set, a \<open>BTreeSet\<close> the sorted list of a set.
\<close>

section \<open>Data\<close>

definition MAX_PLAN_ITEMS :: nat where
  "MAX_PLAN_ITEMS = 1024"

record PlanItem =
  item_content :: str
  item_status :: str
  item_priority :: str
  item_id :: str
  item_subsystem :: "str option"
  item_file_scope :: "str list"
  item_blocked_by :: "str list"
  item_assigned_to :: "str option"

record SwarmTaskProgress =
  assigned_session_id :: "str option"
  assignment_summary :: "str option"
  assigned_at_unix_ms :: "64 word option"
  started_at_unix_ms :: "64 word option"
  last_heartbeat_unix_ms :: "64 word option"
  last_detail :: "str option"
  last_checkpoint_unix_ms :: "64 word option"
  checkpoint_summary :: "str option"
  completed_at_unix_ms :: "64 word option"
  stale_since_unix_ms :: "64 word option"
  heartbeat_count :: "64 word option"
  checkpoint_count :: "64 word option"
  no_artifact_requeues :: "32 word option"
  dead_assignee_reclaims :: "32 word option"

definition default_progress :: SwarmTaskProgress where
  "default_progress =
     \<lparr>assigned_session_id = None, assignment_summary = None, assigned_at_unix_ms = None,
      started_at_unix_ms = None, last_heartbeat_unix_ms = None, last_detail = None,
      last_checkpoint_unix_ms = None, checkpoint_summary = None, completed_at_unix_ms = None,
      stale_since_unix_ms = None, heartbeat_count = None, checkpoint_count = None,
      no_artifact_requeues = None, dead_assignee_reclaims = None\<rparr>"

record SwarmPlanItemSpec =
  pspec_id :: str
  pspec_content :: str
  pspec_priority :: str
  pspec_subsystem :: "str option"
  pspec_file_scope :: "str list"
  pspec_blocked_by :: "str list"

record SwarmPlanDefinition =
  def_version :: "64 word"
  def_participants :: "str list"
  def_items :: "SwarmPlanItemSpec list"

record SwarmExecutionItemState =
  exec_task_id :: str
  exec_status :: str
  exec_assigned_to :: "str option"
  exec_progress :: "SwarmTaskProgress option"

record NodeMeta =
  meta_kind :: "str option"
  meta_parent :: "str option"
  meta_expanded :: bool
  meta_is_gate :: bool
  meta_planner :: "str option"
  meta_artifact_json :: "str option"
  meta_origin :: "str option"

definition default_meta :: NodeMeta where
  "default_meta =
     \<lparr>meta_kind = None, meta_parent = None, meta_expanded = False, meta_is_gate = False,
      meta_planner = None, meta_artifact_json = None, meta_origin = None\<rparr>"

record VersionedPlan =
  items :: "PlanItem list"
  version :: "64 word"
  participants :: "str set"
  task_progress :: "str \<rightharpoonup> SwarmTaskProgress"
  plan_mode :: str
  node_meta :: "str \<rightharpoonup> NodeMeta"

definition new_plan :: VersionedPlan where
  "new_plan =
     \<lparr>items = [], version = 0, participants = {}, task_progress = Map.empty,
      plan_mode = ''light'', node_meta = Map.empty\<rparr>"

abbreviation item_ids :: "PlanItem list \<Rightarrow> str list" where
  "item_ids its \<equiv> map item_id its"

text \<open>\<open>HashMap::retain\<close> on the keys.\<close>

definition retain_keys :: "str set \<Rightarrow> (str \<rightharpoonup> 'v) \<Rightarrow> (str \<rightharpoonup> 'v)" where
  "retain_keys ks m = (\<lambda>k. if k \<in> ks then m k else None)"

definition prune_side_maps :: "VersionedPlan \<Rightarrow> VersionedPlan" where
  "prune_side_maps p =
     p\<lparr>task_progress := retain_keys (set (item_ids (items p))) (task_progress p),
       node_meta := retain_keys (set (item_ids (items p))) (node_meta p)\<rparr>"

definition replace_items :: "PlanItem list \<Rightarrow> VersionedPlan \<Rightarrow> VersionedPlan" where
  "replace_items its p = prune_side_maps (p\<lparr>items := its\<rparr>)"

text \<open>Rewriting one optional reference.\<close>

definition rename_ref :: "str \<Rightarrow> str \<Rightarrow> str option \<Rightarrow> str option" where
  "rename_ref old new r = (if r = Some old then Some new else r)"

definition rename_session :: "str \<Rightarrow> str \<Rightarrow> VersionedPlan \<Rightarrow> VersionedPlan" where
  "rename_session old new p =
     p\<lparr>participants := (if old \<in> participants p then insert new (participants p - {old})
                       else participants p),
       items := map (\<lambda>i. i\<lparr>item_assigned_to := rename_ref old new (item_assigned_to i)\<rparr>) (items p),
       task_progress := (\<lambda>k. map_option
          (\<lambda>q. q\<lparr>assigned_session_id := rename_ref old new (assigned_session_id q)\<rparr>) (task_progress p k)),
       node_meta := (\<lambda>k. map_option
          (\<lambda>m. m\<lparr>meta_planner := rename_ref old new (meta_planner m)\<rparr>) (node_meta p k))\<rparr>"

definition plan_definition :: "VersionedPlan \<Rightarrow> SwarmPlanDefinition" where
  "plan_definition p =
     \<lparr>def_version = version p, def_participants = sorted_list_of_set (participants p),
      def_items = map (\<lambda>i. \<lparr>pspec_id = item_id i, pspec_content = item_content i,
        pspec_priority = item_priority i, pspec_subsystem = item_subsystem i,
        pspec_file_scope = item_file_scope i, pspec_blocked_by = item_blocked_by i\<rparr>) (items p)\<rparr>"

definition execution_state :: "VersionedPlan \<Rightarrow> SwarmExecutionItemState list" where
  "execution_state p =
     map (\<lambda>i. \<lparr>exec_task_id = item_id i, exec_status = item_status i,
       exec_assigned_to = item_assigned_to i, exec_progress = task_progress p (item_id i)\<rparr>) (items p)"

record PlanGraphSummary =
  ready_ids :: "str list"
  blocked_ids :: "str list"
  active_ids :: "str list"
  completed_ids :: "str list"
  failed_ids :: "str list"
  terminal_ids :: "str list"
  unresolved_dependency_ids :: "str list"
  cycle_ids :: "str list"

section \<open>Statuses and task control\<close>

definition is_completed_status :: "str \<Rightarrow> bool" where
  "is_completed_status s \<longleftrightarrow> s \<in> {''completed'', ''done''}"

definition is_terminal_status :: "str \<Rightarrow> bool" where
  "is_terminal_status s \<longleftrightarrow> s \<in> {''completed'', ''done'', ''failed'', ''stopped'', ''crashed''}"

definition is_active_status :: "str \<Rightarrow> bool" where
  "is_active_status s \<longleftrightarrow> s \<in> {''running'', ''running_stale''}"

definition is_failed_status :: "str \<Rightarrow> bool" where
  "is_failed_status s \<longleftrightarrow> is_terminal_status s \<and> \<not> is_completed_status s"

definition is_runnable_status :: "str \<Rightarrow> bool" where
  "is_runnable_status s \<longleftrightarrow> s \<in> {''queued'', ''ready'', ''pending'', ''todo''}"

datatype TaskControlAction = Start | Wake | Resume | Retry | Reassign | Replace | Salvage

definition parse_action :: "str \<Rightarrow> TaskControlAction option" where
  "parse_action a =
     (if a = ''start'' then Some Start else if a = ''wake'' then Some Wake
      else if a = ''resume'' then Some Resume else if a = ''retry'' then Some Retry
      else if a = ''reassign'' then Some Reassign else if a = ''replace'' then Some Replace
      else if a = ''salvage'' then Some Salvage else None)"

fun action_as_str :: "TaskControlAction \<Rightarrow> str" where
  "action_as_str Start = ''start''"
| "action_as_str Wake = ''wake''"
| "action_as_str Resume = ''resume''"
| "action_as_str Retry = ''retry''"
| "action_as_str Reassign = ''reassign''"
| "action_as_str Replace = ''replace''"
| "action_as_str Salvage = ''salvage''"

definition combine_assignment_text :: "str \<Rightarrow> str option \<Rightarrow> str" where
  "combine_assignment_text content message =
     (case message of None \<Rightarrow> content
      | Some extra \<Rightarrow> content @ nl @ nl @ ''Additional coordinator instructions:'' @ nl @ extra)"

definition restart_instruction_prefix :: "TaskControlAction \<Rightarrow> str option" where
  "restart_instruction_prefix a =
     (case a of
        Resume \<Rightarrow> Some ''Resume your assigned task from the current session context and continue the work.''
      | Retry \<Rightarrow> Some ''Retry your assigned task. Fix any earlier issues and continue toward completion.''
      | _ \<Rightarrow> None)"

definition build_control_assignment_text :: "TaskControlAction \<Rightarrow> str \<Rightarrow> str option \<Rightarrow> str" where
  "build_control_assignment_text a content message =
     join (nl @ nl)
       ((case restart_instruction_prefix a of None \<Rightarrow> [] | Some p \<Rightarrow> [p]) @ [content]
        @ (case message of None \<Rightarrow> []
           | Some extra \<Rightarrow> [''Additional coordinator instructions:'' @ nl @ extra]))"

fun task_control_action_allows_status :: "TaskControlAction \<Rightarrow> str \<Rightarrow> bool" where
  "task_control_action_allows_status Start s \<longleftrightarrow> s = ''queued''"
| "task_control_action_allows_status Wake s \<longleftrightarrow> s = ''queued''"
| "task_control_action_allows_status Resume s \<longleftrightarrow> s \<in> {''queued'', ''running'', ''running_stale''}"
| "task_control_action_allows_status Retry s \<longleftrightarrow> s \<in> {''failed'', ''running_stale''}"
| "task_control_action_allows_status Reassign s \<longleftrightarrow> \<not> is_completed_status s"
| "task_control_action_allows_status Replace s \<longleftrightarrow> \<not> is_completed_status s"
| "task_control_action_allows_status Salvage s \<longleftrightarrow> \<not> is_completed_status s"

definition task_control_status_error :: "TaskControlAction \<Rightarrow> str \<Rightarrow> str \<Rightarrow> str" where
  "task_control_status_error a s t =
     (case a of
        Start \<Rightarrow> ''Task '' @ quote t @ '' is '' @ quote s
          @ '' and cannot be started. Use start only for queued assignments.''
      | Wake \<Rightarrow> ''Task '' @ quote t @ '' is '' @ quote s
          @ '' and cannot be woken. Use wake only for queued assignments.''
      | Resume \<Rightarrow> ''Task '' @ quote t @ '' is '' @ quote s @ '' and cannot be resumed safely.''
      | Retry \<Rightarrow> ''Task '' @ quote t @ '' is '' @ quote s
          @ '' and cannot be retried. Retry is only for failed or stale work.''
      | Reassign \<Rightarrow> ''Task '' @ quote t @ '' is already complete. Reassign unfinished work instead.''
      | Replace \<Rightarrow> ''Task '' @ quote t @ '' is already complete. Replace is only for unfinished work.''
      | Salvage \<Rightarrow> ''Task '' @ quote t
          @ '' is already complete. Salvage is only for unfinished or failed work.'')"

definition priority_rank :: "str \<Rightarrow> nat" where
  "priority_rank p =
     (if p \<in> {''high'', ''urgent'', ''p0''} then 0
      else if p \<in> {''medium'', ''normal'', ''p1''} then 1
      else if p \<in> {''low'', ''p2''} then 2 else 1)"

section \<open>Dependencies and cycles\<close>

definition completed_item_ids :: "PlanItem list \<Rightarrow> str set" where
  "completed_item_ids its = set (item_ids (filter (\<lambda>i. is_completed_status (item_status i)) its))"

definition unresolved_dependencies :: "PlanItem \<Rightarrow> str set \<Rightarrow> str set \<Rightarrow> str list" where
  "unresolved_dependencies i known compl =
     filter (\<lambda>d. d \<in> known \<and> d \<notin> compl) (item_blocked_by i)"

definition missing_dependencies :: "PlanItem \<Rightarrow> str set \<Rightarrow> str list" where
  "missing_dependencies i known = filter (\<lambda>d. d \<notin> known) (item_blocked_by i)"

definition is_unblocked :: "PlanItem \<Rightarrow> str set \<Rightarrow> str set \<Rightarrow> bool" where
  "is_unblocked i known compl \<longleftrightarrow>
     missing_dependencies i known = [] \<and> unresolved_dependencies i known compl = []"

text \<open>The scan that builds the indegrees and the dependents: one step per known dependency.\<close>

type_synonym dep_scan = "(str \<rightharpoonup> nat) \<times> (str \<rightharpoonup> str list)"

definition push_dependent :: "str \<Rightarrow> str \<Rightarrow> (str \<rightharpoonup> str list) \<Rightarrow> (str \<rightharpoonup> str list)" where
  "push_dependent d i m = m(d \<mapsto> (case m d of None \<Rightarrow> [] | Some xs \<Rightarrow> xs) @ [i])"

fun scan_dependency :: "str \<Rightarrow> str \<Rightarrow> dep_scan \<Rightarrow> dep_scan" where
  "scan_dependency i d (deg, deps) = (add_indegree 1 i deg, push_dependent d i deps)"

definition scan_item :: "str set \<Rightarrow> PlanItem \<Rightarrow> dep_scan \<Rightarrow> dep_scan" where
  "scan_item known i = fold (scan_dependency (item_id i)) (filter (\<lambda>d. d \<in> known) (item_blocked_by i))"

definition scan_items :: "PlanItem list \<Rightarrow> dep_scan" where
  "scan_items its =
     fold (scan_item (set (item_ids its))) its
       (fold (\<lambda>i. add_indegree 0 (item_id i)) its Map.empty, Map.empty)"

fun relax_child :: "str \<Rightarrow> (str \<rightharpoonup> nat) \<times> str list \<Rightarrow> (str \<rightharpoonup> nat) \<times> str list" where
  "relax_child c (deg, q) =
     (case deg c of None \<Rightarrow> (deg, q)
      | Some d \<Rightarrow> (deg(c \<mapsto> d - 1), if d - 1 = 0 then q @ [c] else q))"

definition relax_children ::
  "(str \<rightharpoonup> str list) \<Rightarrow> str \<Rightarrow> (str \<rightharpoonup> nat) \<Rightarrow> str list \<Rightarrow> (str \<rightharpoonup> nat) \<times> str list" where
  "relax_children deps u deg q =
     (case deps u of None \<Rightarrow> (deg, q) | Some cs \<Rightarrow> fold relax_child cs (deg, q))"

subsection \<open>What the scan collects\<close>

abbreviation get0 :: "(str \<rightharpoonup> nat) \<Rightarrow> str \<Rightarrow> nat" where
  "get0 m v \<equiv> (case m v of None \<Rightarrow> 0 | Some d \<Rightarrow> d)"

abbreviation dependents_of :: "(str \<rightharpoonup> str list) \<Rightarrow> str \<Rightarrow> str list" where
  "dependents_of m u \<equiv> (case m u of None \<Rightarrow> [] | Some xs \<Rightarrow> xs)"

definition known_deps :: "str set \<Rightarrow> PlanItem \<Rightarrow> str list" where
  "known_deps known i = filter (\<lambda>d. d \<in> known) (item_blocked_by i)"

lemma scan_dependencies:
  "get0 (fst (fold (scan_dependency i) ds s)) v = get0 (fst s) v + (if v = i then length ds else 0)
   \<and> dom (fst (fold (scan_dependency i) ds s)) = dom (fst s) \<union> (if ds = [] then {} else {i})
   \<and> dependents_of (snd (fold (scan_dependency i) ds s)) u =
       dependents_of (snd s) u @ replicate (count_list ds u) i"
proof (induction ds arbitrary: s)
  case (Cons d ds)
  let ?s = "scan_dependency i d s"
  have s: "get0 (fst ?s) v = get0 (fst s) v + (if v = i then 1 else 0)"
    "dom (fst ?s) = insert i (dom (fst s))"
    "dependents_of (snd ?s) u = dependents_of (snd s) u @ (if d = u then [i] else [])"
    by (cases s; auto simp: add_indegree_def push_dependent_def split: if_splits option.splits)+
  have "replicate (count_list (d # ds) u) i = (if d = u then [i] else []) @ replicate (count_list ds u) i"
    by simp
  with s Cons.IH [of ?s] show ?case by simp
qed simp

lemma scan_items_fold:
  "get0 (fst (fold (scan_item known) its s)) v =
     get0 (fst s) v + sum_list (map (\<lambda>i. length (known_deps known i)) (filter (\<lambda>i. item_id i = v) its))
   \<and> (set (item_ids its) \<subseteq> dom (fst s) \<longrightarrow> dom (fst (fold (scan_item known) its s)) = dom (fst s))
   \<and> dependents_of (snd (fold (scan_item known) its s)) u =
       dependents_of (snd s) u @ concat (map (\<lambda>i. replicate (count_list (known_deps known i) u) (item_id i)) its)"
proof (induction its arbitrary: s)
  case (Cons i its)
  note d = scan_dependencies [of "item_id i" "known_deps known i" s]
  have e: "scan_item known i s = fold (scan_dependency (item_id i)) (known_deps known i) s"
    by (simp add: scan_item_def known_deps_def)
  have "get0 (fst (scan_item known i s)) v =
      get0 (fst s) v + (if item_id i = v then length (known_deps known i) else 0)"
    "item_id i \<in> dom (fst s) \<Longrightarrow> dom (fst (scan_item known i s)) = dom (fst s)"
    "dependents_of (snd (scan_item known i s)) u =
      dependents_of (snd s) u @ replicate (count_list (known_deps known i) u) (item_id i)"
    using d unfolding e by auto
  with Cons.IH [of "scan_item known i s"] show ?case by simp
qed simp

lemma fold_add_indegree_0:
  "fold (\<lambda>i. add_indegree 0 (item_id i)) its m =
    (\<lambda>v. if v \<in> set (item_ids its) then Some (get0 m v) else m v)"
  by (induction its arbitrary: m) (auto simp: add_indegree_def fun_eq_iff split: option.splits)

definition plan_edges :: "PlanItem list \<Rightarrow> str \<Rightarrow> str \<Rightarrow> nat" where
  "plan_edges its u v =
     (if u \<in> set (item_ids its)
      then sum_list (map (\<lambda>i. count_list (item_blocked_by i) u) (filter (\<lambda>i. item_id i = v) its)) else 0)"

lemma plan_edges_pos:
  "0 < plan_edges its u v \<longleftrightarrow>
    u \<in> set (item_ids its) \<and> (\<exists>i \<in> set its. item_id i = v \<and> u \<in> set (item_blocked_by i))"
proof -
  have "0 < sum_list (map f (filter P xs)) \<longleftrightarrow> (\<exists>x \<in> set xs. P x \<and> 0 < f x)"
    for f :: "PlanItem \<Rightarrow> nat" and P xs
    by (induction xs) auto
  moreover have "0 < count_list xs u \<longleftrightarrow> u \<in> set xs" for xs
    by (induction xs) auto
  ultimately show ?thesis unfolding plan_edges_def by simp
qed

lemma count_list_filter: "count_list (filter P xs) u = (if P u then count_list xs u else 0)"
  by (induction xs) auto

lemma sum_count_list: "finite S \<Longrightarrow> (\<Sum>u \<in> S. count_list xs u) = length (filter (\<lambda>x. x \<in> S) xs)"
proof (induction xs)
  case (Cons x xs)
  have "(\<Sum>u \<in> S. count_list (x # xs) u) = (\<Sum>u \<in> S. count_list xs u + (if x = u then 1 else 0))"
    by (rule sum.cong) auto
  with Cons show ?case by (simp add: sum.distrib)
qed simp

lemma sum_sum_list: "finite S \<Longrightarrow> (\<Sum>u \<in> S. sum_list (map (f u) xs)) = sum_list (map (\<lambda>x. \<Sum>u \<in> S. f u x) xs)"
  by (induction xs) (auto simp: sum.distrib)

lemma indegree_sum_plan:
  "indegree_sum (set (item_ids its)) (plan_edges its) v =
    sum_list (map (\<lambda>i. length (known_deps (set (item_ids its)) i)) (filter (\<lambda>i. item_id i = v) its))"
proof -
  have "indegree_sum (set (item_ids its)) (plan_edges its) v = (\<Sum>u \<in> set (item_ids its).
      sum_list (map (\<lambda>i. count_list (item_blocked_by i) u) (filter (\<lambda>i. item_id i = v) its)))"
    unfolding indegree_sum_def plan_edges_def by (rule sum.cong) simp_all
  also have "\<dots> = sum_list (map (\<lambda>i. length (known_deps (set (item_ids its)) i)) (filter (\<lambda>i. item_id i = v) its))"
    by (subst sum_sum_list) (simp_all add: sum_count_list known_deps_def del: set_map)
  finally show ?thesis .
qed

lemma scan_items_indegree:
  "fst (scan_items its) =
    (\<lambda>v. if v \<in> set (item_ids its) then Some (indegree_sum (set (item_ids its)) (plan_edges its) v) else None)"
proof
  fix v
  let ?s = "(fold (\<lambda>i. add_indegree 0 (item_id i)) its Map.empty, Map.empty) :: dep_scan"
  note f = scan_items_fold [of "set (item_ids its)" its ?s v]
  have d: "dom (fst ?s) = set (item_ids its)" by (auto simp: fold_add_indegree_0 split: if_splits)
  then have dm: "dom (fst (scan_items its)) = set (item_ids its)" using f by (simp add: scan_items_def)
  have "get0 (fst (scan_items its)) v = indegree_sum (set (item_ids its)) (plan_edges its) v"
    using f by (simp add: scan_items_def indegree_sum_plan fold_add_indegree_0 del: set_map)
  then show "fst (scan_items its) v = (if v \<in> set (item_ids its)
      then Some (indegree_sum (set (item_ids its)) (plan_edges its) v) else None)"
    using dm by (cases "fst (scan_items its) v") (auto simp del: set_map)
qed

lemma scan_items_dependents:
  "dependents_of (snd (scan_items its)) u =
    concat (map (\<lambda>i. replicate (count_list (known_deps (set (item_ids its)) i) u) (item_id i)) its)"
  using scan_items_fold [of "set (item_ids its)" its] by (simp add: scan_items_def)

lemma count_list_concat: "count_list (concat xss) v = sum_list (map (\<lambda>xs. count_list xs v) xss)"
  by (induction xss) simp_all

lemma count_list_replicate [simp]: "count_list (replicate n x) v = (if x = v then n else 0)"
  by (induction n) auto

lemma count_dependents: "count_list (dependents_of (snd (scan_items its)) u) v = plan_edges its u v"
proof -
  have "sum_list (map (\<lambda>i. if item_id i = v then count_list (known_deps (set (item_ids its)) i) u else 0) xs)
      = (if u \<in> set (item_ids its)
         then sum_list (map (\<lambda>i. count_list (item_blocked_by i) u) (filter (\<lambda>i. item_id i = v) xs)) else 0)" for xs
    by (induction xs) (auto simp: known_deps_def count_list_filter)
  from this [of its] show ?thesis
    unfolding scan_items_dependents count_list_concat plan_edges_def
    by (simp add: comp_def cong: map_cong del: set_map)
qed

lemma set_dependents: "set (dependents_of (snd (scan_items its)) u) \<subseteq> set (item_ids its)"
  unfolding scan_items_dependents by auto

lemma relax_child_fold:
  assumes "set cs \<subseteq> dom deg"
  shows "fst (fold relax_child cs (deg, q)) = (\<lambda>v. map_option (\<lambda>d. d - count_list cs v) (deg v))
    \<and> set (snd (fold relax_child cs (deg, q))) =
        set q \<union> {v. 0 < count_list cs v \<and> the (deg v) \<le> count_list cs v}"
  using assms
proof (induction cs arbitrary: deg q)
  case Nil
  then show ?case by (simp add: option.map_ident)
next
  case (Cons c cs)
  obtain d where d: "deg c = Some d" using Cons.prems by auto
  let ?deg = "deg(c \<mapsto> d - 1)" and ?q = "if d - 1 = 0 then q @ [c] else q"
  have sub: "set cs \<subseteq> dom ?deg" using Cons.prems by auto
  note IH = Cons.IH [OF sub, of ?q]
  have f: "fold relax_child (c # cs) (deg, q) = fold relax_child cs (?deg, ?q)" using d by simp
  define k where "k = count_list cs"
  have e: "count_list (c # cs) v = k v + (if v = c then 1 else 0)" for v by (simp add: k_def)
  have "fst (fold relax_child (c # cs) (deg, q)) v = map_option (\<lambda>d. d - (k v + (if v = c then 1 else 0))) (deg v)" for v
    using IH d by (cases "v = c") (simp_all only: f k_def [symmetric] fun_upd_same fun_upd_other, simp_all)
  moreover have "v \<in> set (snd (fold relax_child (c # cs) (deg, q))) \<longleftrightarrow>
      v \<in> set q \<or> (0 < k v + (if v = c then 1 else 0) \<and> the (deg v) \<le> k v + (if v = c then 1 else 0))" for v
    unfolding f conjunct2 [OF IH] k_def [symmetric] using d by (cases "v = c") auto
  ultimately show ?case unfolding e set_eq_iff fun_eq_iff Un_iff mem_Collect_eq by blast
qed


lemma relax_children_queue:
  assumes "\<And>u. set (dependents_of deps u) \<subseteq> S"
  shows "set (snd (relax_children deps u deg q)) \<subseteq> S \<union> set q"
proof -
  have "set (snd (fold relax_child cs s)) \<subseteq> set cs \<union> set (snd s)" for cs s
  proof (induction cs arbitrary: s)
    case (Cons c cs)
    have "set (snd (relax_child c s)) \<subseteq> insert c (set (snd s))" by (cases s) (auto split: option.splits)
    with Cons [of "relax_child c s"] show ?case by auto
  qed simp
  from this [of "dependents_of deps u" "(deg, q)"] assms [of u] show ?thesis
    by (auto simp: relax_children_def split: option.splits)
qed

subsection \<open>The loop\<close>

text \<open>\<open>while let Some(id) = queue.pop()\<close> over the queue of unblocked ids.\<close>

function plan_kahn_loop ::
  "PlanItem list \<Rightarrow> str list \<Rightarrow> str set \<Rightarrow> (str \<rightharpoonup> nat) \<Rightarrow> str set \<times> (str \<rightharpoonup> nat)" where
  "plan_kahn_loop its q vis deg =
     (if q = [] then (vis, deg)
      else if last q \<in> vis then plan_kahn_loop its (butlast q) vis deg
      else (case relax_children (snd (scan_items its)) (last q) deg (butlast q) of
        (deg', q') \<Rightarrow> plan_kahn_loop its q' (insert (last q) vis) deg'))"
  by pat_completeness auto
termination
proof (relation "measures [\<lambda>(its, q, vis, deg). card ((set (item_ids its) \<union> set q) - vis),
    \<lambda>(its, q, vis, deg). length q]", goal_cases)
  case (2 its q vis deg)
  have "card ((set (item_ids its) \<union> set (butlast q)) - vis) \<le> card ((set (item_ids its) \<union> set q) - vis)"
    by (rule card_mono) (auto dest: in_set_butlastD)
  with 2 show ?case by (auto simp: less_Suc_eq_le)
next
  case (3 its q vis deg deg' q')
  then have "q' = snd (relax_children (snd (scan_items its)) (last q) deg (butlast q))"
    by (simp add: 3(3) [symmetric])
  then have "set q' \<subseteq> set (item_ids its) \<union> set (butlast q)"
    using relax_children_queue [where deps = "snd (scan_items its)", OF set_dependents] by simp
  then have "set (item_ids its) \<union> set q' - insert (last q) vis \<subset> set (item_ids its) \<union> set q - vis"
    using 3 by (auto dest: in_set_butlastD)
  then have "card (set (item_ids its) \<union> set q' - insert (last q) vis) < card (set (item_ids its) \<union> set q - vis)"
    by (intro psubset_card_mono) auto
  then show ?case by simp
qed simp

declare plan_kahn_loop.simps [simp del]

text \<open>
  The queue starts with the ids of indegree zero in the iteration order of a \<open>HashMap\<close>, which is
  unspecified: \<open>cycle_ids_from\<close> takes that queue, \<open>cycle_item_ids\<close> fixes the order of the items.
\<close>

definition cycle_ids_from :: "PlanItem list \<Rightarrow> str list \<Rightarrow> str list" where
  "cycle_ids_from its q =
     (case plan_kahn_loop its q {} (fst (scan_items its)) of (vis, deg) \<Rightarrow>
        sort (filter (\<lambda>i. (case deg i of None \<Rightarrow> False | Some d \<Rightarrow> 0 < d) \<and> i \<notin> vis) (dedup (item_ids its))))"

definition cycle_item_ids :: "PlanItem list \<Rightarrow> str list" where
  "cycle_item_ids its =
     cycle_ids_from its (filter (\<lambda>i. fst (scan_items its) i = Some 0) (dedup (item_ids its)))"

interpretation pk: kahn "set (item_ids its)" "plan_edges its" "relax_children (snd (scan_items its))"
  "plan_kahn_loop its" for its
proof unfold_locales
  show "finite (set (item_ids its))" by simp
  show "0 < plan_edges its u v \<Longrightarrow> u \<in> set (item_ids its) \<and> v \<in> set (item_ids its)" for u v
    by (auto simp: plan_edges_pos)
  fix u and deg :: "str \<rightharpoonup> nat" and q
  assume u: "u \<in> set (item_ids its)" and d: "dom deg = set (item_ids its)"
  have sub: "set (dependents_of (snd (scan_items its)) u) \<subseteq> dom deg" using set_dependents d by blast
  have rc: "relax_children (snd (scan_items its)) u deg q =
      fold relax_child (dependents_of (snd (scan_items its)) u) (deg, q)"
    by (simp add: relax_children_def split: option.split)
  note r = relax_child_fold [OF sub, of q, unfolded count_dependents, folded rc]
  show "fst (relax_children (snd (scan_items its)) u deg q) =
      (\<lambda>v. map_option (\<lambda>d. d - plan_edges its u v) (deg v))"
    using r by simp
  have "v \<in> set (item_ids its)" if "0 < plan_edges its u v" for v
    using that by (auto simp: plan_edges_pos)
  then show "set (snd (relax_children (snd (scan_items its)) u deg q)) = set q \<union>
      {v \<in> set (item_ids its). 0 < plan_edges its u v \<and> the (deg v) \<le> plan_edges its u v}"
    using r by blast
next
  show "plan_kahn_loop its [] vis deg = (vis, deg)" for vis deg
    by (simp add: plan_kahn_loop.simps)
  show "q \<noteq> [] \<Longrightarrow> plan_kahn_loop its q vis deg =
      (if last q \<in> vis then plan_kahn_loop its (butlast q) vis deg
       else case relax_children (snd (scan_items its)) (last q) deg (butlast q) of
         (deg', q') \<Rightarrow> plan_kahn_loop its q' (insert (last q) vis) deg')" for q vis deg
    by (subst plan_kahn_loop.simps) simp
qed


subsection \<open>What the detector decides\<close>

definition item_dep_rel :: "PlanItem list \<Rightarrow> str rel" where
  "item_dep_rel its =
     {(u, v). u \<in> set (item_ids its) \<and> (\<exists>i \<in> set its. item_id i = v \<and> u \<in> set (item_blocked_by i))}"

lemma edge_rel_item_dep_rel: "edge_rel (plan_edges its) = item_dep_rel its"
  by (auto simp: edge_rel_def item_dep_rel_def plan_edges_pos)

lemma finite_item_dep_rel: "finite (item_dep_rel its)"
  using pk.finite_edge_rel [of its] by (simp add: edge_rel_item_dep_rel)

lemma set_cycle_ids_from:
  assumes q: "set q = {v. fst (scan_items its) v = Some 0}"
  shows "set (cycle_ids_from its q) = set (item_ids its) - Wellfounded.acc (item_dep_rel its)"
proof -
  have q': "set q = {v \<in> set (item_ids its). indegree_sum (set (item_ids its)) (plan_edges its) v = 0}"
    unfolding q by (simp only: scan_items_indegree) auto
  obtain vis deg where l: "plan_kahn_loop its q {} (fst (scan_items its)) = (vis, deg)" by fastforce
  have vis: "vis = set (item_ids its) \<inter> Wellfounded.acc (item_dep_rel its)"
    using pk.visited_acc [OF scan_items_indegree q'] by (simp add: l edge_rel_item_dep_rel)
  have "\<exists>d > 0. deg v = Some d" if "v \<in> set (item_ids its)" "v \<notin> vis" for v
    using pk.final_deg_pos [OF scan_items_indegree q' that(1)] that(2) by (simp add: l)
  then have "set (cycle_ids_from its q) = {v \<in> set (item_ids its). v \<notin> vis}"
    by (fastforce simp: cycle_ids_from_def l split: option.splits)
  then show ?thesis unfolding vis by blast
qed

lemma cycle_ids_from_sorted: "sorted (cycle_ids_from its q) \<and> distinct (cycle_ids_from its q)"
  by (simp add: cycle_ids_from_def split: prod.split)

lemma zero_queue: "set (filter (\<lambda>i. fst (scan_items its) i = Some 0) (dedup (item_ids its))) =
    {v. fst (scan_items its) v = Some 0}"
  by (auto simp: scan_items_indegree split: if_splits)

lemma set_cycle_item_ids: "set (cycle_item_ids its) = set (item_ids its) - Wellfounded.acc (item_dep_rel its)"
  unfolding cycle_item_ids_def by (rule set_cycle_ids_from [OF zero_queue])

text \<open>
  Supplement: The plan's cycle detector is exact and deterministic. In whatever order a hash map lists
  the ids without open dependencies, it reports, sorted and once each, precisely the items on a
  dependency cycle or downstream of one; items with repeated ids and repeated or dangling
  dependencies included.
\<close>

theorem cycle_item_ids_exact:
  assumes "set q = {v. fst (scan_items its) v = Some 0}"
  shows "cycle_ids_from its q = cycle_item_ids its
    \<and> set (cycle_item_ids its) = {v \<in> set (map item_id its).
        \<exists>c. (c, c) \<in> (item_dep_rel its)\<^sup>+ \<and> (c, v) \<in> (item_dep_rel its)\<^sup>*}
    \<and> sorted (cycle_item_ids its) \<and> distinct (cycle_item_ids its)"
proof -
  have s: "sorted (cycle_item_ids its)" "distinct (cycle_item_ids its)"
    unfolding cycle_item_ids_def using cycle_ids_from_sorted by blast+
  moreover have "cycle_ids_from its q = cycle_item_ids its"
    using s cycle_ids_from_sorted [of its q] set_cycle_ids_from [OF assms] set_cycle_item_ids [of its]
    by (metis sorted_distinct_set_unique)
  moreover have "v \<in> set (cycle_item_ids its) \<longleftrightarrow> v \<in> set (map item_id its) \<and>
      (\<exists>c. (c, c) \<in> (item_dep_rel its)\<^sup>+ \<and> (c, v) \<in> (item_dep_rel its)\<^sup>*)" for v
    unfolding set_cycle_item_ids not_acc_iff_cycle [OF finite_item_dep_rel, symmetric] by blast
  ultimately show ?thesis by blast
qed

definition demo_item :: "str \<Rightarrow> str \<Rightarrow> str list \<Rightarrow> PlanItem" where
  "demo_item i s ds = \<lparr>item_content = ''work'', item_status = s, item_priority = ''high'', item_id = i,
     item_subsystem = None, item_file_scope = [], item_blocked_by = ds, item_assigned_to = None\<rparr>"

definition demo_items :: "PlanItem list" where
  "demo_items = [demo_item ''a'' ''queued'' [''b''], demo_item ''b'' ''queued'' [''a''],
     demo_item ''c'' ''queued'' [], demo_item ''d'' ''queued'' [], demo_item ''e'' ''queued'' [''b'', ''c'']]"

theorem cycle_item_ids_exact_witness:
  "cycle_ids_from demo_items [''d'', ''c''] = cycle_item_ids demo_items
   \<and> cycle_item_ids demo_items = [''a'', ''b'', ''e'']"
proof -
  have "filter (\<lambda>i. fst (scan_items demo_items) i = Some 0) (dedup (item_ids demo_items)) = [''c'', ''d'']"
    by code_simp
  then have "set [''d'', ''c''] = {v. fst (scan_items demo_items) v = Some 0}"
    using zero_queue [of demo_items] by auto
  from cycle_item_ids_exact [OF this] have "cycle_ids_from demo_items [''d'', ''c''] = cycle_item_ids demo_items"
    by blast
  moreover have "cycle_item_ids demo_items = [''a'', ''b'', ''e'']" by code_simp
  ultimately show ?thesis by blast
qed

end
