(* ===== verification/Plan_Schedule.thy ===== *)
theory Plan_Schedule
  imports Plan
begin

text \<open>
  Readiness, assignment and task control over a versioned plan: the second half of
  \<^verbatim>\<open>crates/jcode-plan/src/lib.rs\<close>.
\<close>

section \<open>Definitions\<close>

definition summarize_plan_graph :: "PlanItem list \<Rightarrow> PlanGraphSummary" where
  "summarize_plan_graph its =
     (let known = set (item_ids its); compl = completed_item_ids its;
          cyc = cycle_item_ids its;
          missing = (\<lambda>i. missing_dependencies i known);
          blocker = (\<lambda>i. unresolved_dependencies i known compl \<noteq> [] \<or> item_id i \<in> set cyc);
          rdy = (\<lambda>i. is_runnable_status (item_status i) \<and> missing i = [] \<and> \<not> blocker i);
          blocked = (\<lambda>i. \<not> rdy i \<and> \<not> is_terminal_status (item_status i)
             \<and> \<not> is_active_status (item_status i)
             \<and> (missing i \<noteq> [] \<or> blocker i \<or> item_status i = ''blocked''));
          pick = (\<lambda>P. item_ids (filter P its))
      in \<lparr>ready_ids = sort (pick rdy), blocked_ids = sort (pick blocked),
          active_ids = sort (pick (\<lambda>i. is_active_status (item_status i))),
          completed_ids = sorted_list_of_set (set (pick (\<lambda>i. is_completed_status (item_status i)))),
          failed_ids = sorted_list_of_set (set (pick (\<lambda>i. is_failed_status (item_status i)))),
          terminal_ids = sorted_list_of_set (set (pick (\<lambda>i. is_terminal_status (item_status i)))),
          unresolved_dependency_ids = sorted_list_of_set (set (concat (map missing its))),
          cycle_ids = cyc\<rparr>)"

definition next_runnable_item_ids :: "PlanItem list \<Rightarrow> nat option \<Rightarrow> str list" where
  "next_runnable_item_ids its limit =
     (let rdy = set (ready_ids (summarize_plan_graph its));
          ids = item_ids (sort_key (\<lambda>i. (priority_rank (item_priority i), item_id i))
                  (filter (\<lambda>i. item_id i \<in> rdy) its))
      in case limit of None \<Rightarrow> ids | Some n \<Rightarrow> take n ids)"

definition bump :: "nat \<Rightarrow> str \<Rightarrow> (str \<rightharpoonup> nat) \<Rightarrow> (str \<rightharpoonup> nat)" where
  "bump n k m = m(k \<mapsto> (case m k of None \<Rightarrow> 0 | Some c \<Rightarrow> c) + n)"

definition load_step :: "PlanItem \<Rightarrow> (str \<rightharpoonup> nat) \<Rightarrow> (str \<rightharpoonup> nat)" where
  "load_step i loads =
     (if is_terminal_status (item_status i) then loads
      else case item_assigned_to i of None \<Rightarrow> loads | Some a \<Rightarrow> bump 1 a loads)"

definition assignment_loads :: "VersionedPlan \<Rightarrow> (str \<rightharpoonup> nat)" where
  "assignment_loads p = fold load_step (items p) Map.empty"

definition find_item :: "VersionedPlan \<Rightarrow> str \<Rightarrow> PlanItem option" where
  "find_item p t = find (\<lambda>i. item_id i = t) (items p)"

definition next_unassigned_runnable_item_id :: "VersionedPlan \<Rightarrow> str option" where
  "next_unassigned_runnable_item_id p =
     find (\<lambda>c. case find_item p c of None \<Rightarrow> False | Some i \<Rightarrow> item_assigned_to i = None)
       (next_runnable_item_ids (items p) None)"

definition MAX_DEAD_ASSIGNEE_RECLAIMS :: "32 word" where
  "MAX_DEAD_ASSIGNEE_RECLAIMS = 3"

definition reclaims :: "VersionedPlan \<Rightarrow> str \<Rightarrow> 32 word" where
  "reclaims p t =
     (case Option.bind (task_progress p t) dead_assignee_reclaims of None \<Rightarrow> 0 | Some n \<Rightarrow> n)"

definition next_stranded_runnable_item_id :: "VersionedPlan \<Rightarrow> (str \<Rightarrow> bool) \<Rightarrow> str option" where
  "next_stranded_runnable_item_id p assignee_is_dead =
     find (\<lambda>c. case find_item p c of None \<Rightarrow> False
             | Some i \<Rightarrow> (case item_assigned_to i of None \<Rightarrow> False
                 | Some a \<Rightarrow> assignee_is_dead a \<and> reclaims p c < MAX_DEAD_ASSIGNEE_RECLAIMS))
       (next_runnable_item_ids (items p) None)"

definition reclaim_stranded_assignment :: "VersionedPlan \<Rightarrow> str \<Rightarrow> VersionedPlan \<times> bool" where
  "reclaim_stranded_assignment p t =
     (case find_item p t of None \<Rightarrow> (p, False)
      | Some i \<Rightarrow> (case item_assigned_to i of None \<Rightarrow> (p, False)
          | Some prev \<Rightarrow>
              let q = (case task_progress p t of None \<Rightarrow> default_progress | Some q \<Rightarrow> q);
                  q' = q\<lparr>assigned_session_id := None,
                    dead_assignee_reclaims :=
                      Some ((case dead_assignee_reclaims q of None \<Rightarrow> 0 | Some n \<Rightarrow> n) + 1),
                    checkpoint_summary := Some (''assignment reclaimed: previous assignee '' @ prev @ '' is dead'')\<rparr>
              in (p\<lparr>items := update_first (\<lambda>i. item_id i = t) (\<lambda>i. i\<lparr>item_assigned_to := None\<rparr>) (items p),
                    task_progress := (task_progress p)(t \<mapsto> q'),
                    version := version p + 1\<rparr>, True)))"

definition control_rank :: "str \<Rightarrow> nat" where
  "control_rank s =
     (if s \<in> {''running'', ''running_stale''} then 0
      else if s \<in> {''queued'', ''ready'', ''pending'', ''todo''} then 1
      else if s \<in> {''failed'', ''stopped'', ''crashed''} then 2
      else if s \<in> {''completed'', ''done''} then 3 else 4)"

definition task_control_target_item_id ::
  "PlanItem list \<Rightarrow> str \<Rightarrow> TaskControlAction \<Rightarrow> (str, str) result" where
  "task_control_target_item_id its target action =
     (let cands = sort_key (\<lambda>i. control_rank (item_status i))
            (filter (\<lambda>i. task_control_action_allows_status action (item_status i))
              (filter (\<lambda>i. item_assigned_to i = Some target) its));
          many = Inl (''Multiple tasks assigned to '' @ quote target @ '' can be '' @ action_as_str action
            @ '': '' @ join '', '' (item_ids cands) @ ''. Provide task_id explicitly.'')
      in case cands of
          [] \<Rightarrow> Inl (''No task assigned to '' @ quote target @ '' can be '' @ action_as_str action
            @ ''. Provide task_id explicitly, or assign a task first.'')
        | [i] \<Rightarrow> Inr (item_id i)
        | i # j # _ \<Rightarrow> if item_status i \<noteq> item_status j then Inr (item_id i) else many)"

definition explicit_task_blocked_reason :: "VersionedPlan \<Rightarrow> str \<Rightarrow> str option" where
  "explicit_task_blocked_reason p t =
     (let known = set (item_ids (items p)); compl = completed_item_ids (items p) in
      case find_item p t of None \<Rightarrow> None
      | Some i \<Rightarrow>
          if missing_dependencies i known \<noteq> [] then
            Some (''Task '' @ quote (item_id i) @ '' has missing dependencies: ''
              @ join '', '' (missing_dependencies i known))
          else if unresolved_dependencies i known compl \<noteq> [] then
            Some (''Task '' @ quote (item_id i) @ '' is still blocked by: ''
              @ join '', '' (unresolved_dependencies i known compl))
          else if item_id i \<in> set (cycle_item_ids (items p)) then
            Some (''Task '' @ quote (item_id i) @ '' is part of a dependency cycle and is not runnable'')
          else None)"

record AssignmentAffinities =
  loads :: "str \<rightharpoonup> nat"
  dependency_carryover :: "str \<rightharpoonup> nat"
  metadata_carryover :: "str \<rightharpoonup> nat"

definition bump_opt :: "nat \<Rightarrow> str option \<Rightarrow> (str \<rightharpoonup> nat) \<Rightarrow> (str \<rightharpoonup> nat)" where
  "bump_opt n k m = (case k of None \<Rightarrow> m | Some a \<Rightarrow> bump n a m)"

definition carry_step :: "VersionedPlan \<Rightarrow> str \<Rightarrow> (str \<rightharpoonup> nat) \<Rightarrow> (str \<rightharpoonup> nat)" where
  "carry_step p d m =
     bump_opt 1 (Option.bind (task_progress p d) assigned_session_id)
       (bump_opt 1 (Option.bind (find_item p d) item_assigned_to) m)"

definition scope_overlap :: "PlanItem \<Rightarrow> PlanItem \<Rightarrow> nat" where
  "scope_overlap task i = length (filter (\<lambda>f. f \<in> set (item_file_scope i)) (item_file_scope task))"

definition same_subsystem :: "PlanItem \<Rightarrow> PlanItem \<Rightarrow> bool" where
  "same_subsystem task i =
     (case item_subsystem task of None \<Rightarrow> False | Some s \<Rightarrow> item_subsystem i = Some s)"

definition metadata_step :: "PlanItem \<Rightarrow> PlanItem \<Rightarrow> (str \<rightharpoonup> nat) \<Rightarrow> (str \<rightharpoonup> nat)" where
  "metadata_step task i m =
     (case item_assigned_to i of None \<Rightarrow> m
      | Some a \<Rightarrow>
          if item_id i = item_id task then m
          else
            let m1 = (if same_subsystem task i then bump 2 a m else m) in
            if item_file_scope task \<noteq> [] \<and> item_file_scope i \<noteq> [] \<and> 0 < scope_overlap task i
            then bump (scope_overlap task i) a m1 else m1)"

definition assignment_affinities_for_task ::
  "VersionedPlan \<Rightarrow> str \<Rightarrow> (str, AssignmentAffinities) result" where
  "assignment_affinities_for_task p t =
     (case find_item p t of
        None \<Rightarrow> Inl (''Task '' @ quote t @ '' not found in swarm plan'')
      | Some task \<Rightarrow> Inr \<lparr>loads = assignment_loads p,
          dependency_carryover = fold (carry_step p) (item_blocked_by task) Map.empty,
          metadata_carryover = fold (metadata_step task) (items p) Map.empty\<rparr>)"

definition newly_ready_item_ids :: "PlanItem list \<Rightarrow> PlanItem list \<Rightarrow> str list" where
  "newly_ready_item_ids before after =
     filter (\<lambda>i. i \<notin> set (ready_ids (summarize_plan_graph before)))
       (ready_ids (summarize_plan_graph after))"

section \<open>Classification of items\<close>

text \<open>The abstract condition: every dependency is a completed item and no cycle is involved.\<close>

definition unlocked :: "PlanItem list \<Rightarrow> PlanItem \<Rightarrow> bool" where
  "unlocked its i \<longleftrightarrow>
     (\<forall>d \<in> set (item_blocked_by i). \<exists>j \<in> set its. item_id j = d \<and> is_completed_status (item_status j))
     \<and> item_id i \<notin> set (cycle_item_ids its)"

lemma unlocked_iff:
  "unlocked its i \<longleftrightarrow> missing_dependencies i (set (item_ids its)) = []
    \<and> unresolved_dependencies i (set (item_ids its)) (completed_item_ids its) = []
    \<and> item_id i \<notin> set (cycle_item_ids its)"
  unfolding unlocked_def missing_dependencies_def unresolved_dependencies_def completed_item_ids_def
    filter_empty_conv
  by (auto simp: image_iff) (fastforce, metis)

lemma summary_fields:
  "ready_ids (summarize_plan_graph its) =
     sort (item_ids (filter (\<lambda>i. is_runnable_status (item_status i) \<and> unlocked its i) its))"
  "blocked_ids (summarize_plan_graph its) =
     sort (item_ids (filter (\<lambda>i. \<not> (is_runnable_status (item_status i) \<and> unlocked its i)
        \<and> \<not> is_terminal_status (item_status i) \<and> \<not> is_active_status (item_status i)
        \<and> (\<not> unlocked its i \<or> item_status i = ''blocked'')) its))"
  "active_ids (summarize_plan_graph its) = sort (item_ids (filter (\<lambda>i. is_active_status (item_status i)) its))"
  "set (completed_ids (summarize_plan_graph its)) = completed_item_ids its"
  "set (failed_ids (summarize_plan_graph its)) = item_id ` {i \<in> set its. is_failed_status (item_status i)}"
  "set (terminal_ids (summarize_plan_graph its)) = item_id ` {i \<in> set its. is_terminal_status (item_status i)}"
  "set (unresolved_dependency_ids (summarize_plan_graph its)) =
     (\<Union>i \<in> set its. set (item_blocked_by i)) - set (item_ids its)"
  unfolding summarize_plan_graph_def Let_def unlocked_iff
  by (auto simp: completed_item_ids_def missing_dependencies_def intro!: arg_cong [where f = sort]
      arg_cong [where f = item_ids] filter_cong)

lemma item_by_id:
  "distinct (item_ids its) \<Longrightarrow> i \<in> set its \<Longrightarrow> j \<in> set its \<Longrightarrow> item_id i = item_id j \<Longrightarrow> i = j"
  by (auto simp: distinct_map inj_on_def)

lemmas status_defs = is_completed_status_def is_terminal_status_def is_active_status_def
  is_failed_status_def is_runnable_status_def

lemma status_exclusive:
  "is_runnable_status s \<Longrightarrow> \<not> is_terminal_status s" "is_runnable_status s \<Longrightarrow> \<not> is_active_status s"
  "is_active_status s \<Longrightarrow> \<not> is_terminal_status s" "is_runnable_status s \<Longrightarrow> s \<noteq> ''blocked''"
  "is_terminal_status s \<longleftrightarrow> is_completed_status s \<or> is_failed_status s"
  by (auto simp: status_defs)

text \<open>
  Supplement: The summary classifies consistently. An item is ready exactly when its status is runnable,
  each dependency is a completed item of the plan and it is neither on nor behind a cycle; a
  runnable item that is not ready is blocked; ready, blocked, active and terminal ids never
  overlap; and the terminal ids split into completed and failed.
\<close>

theorem plan_summary_classifies:
  assumes "distinct (map item_id its)"
  shows "(\<forall>i \<in> set its.
      (item_id i \<in> set (ready_ids (summarize_plan_graph its)) \<longleftrightarrow>
         is_runnable_status (item_status i)
         \<and> (\<forall>d \<in> set (item_blocked_by i). \<exists>j \<in> set its. item_id j = d \<and> is_completed_status (item_status j))
         \<and> \<not> (\<exists>c. (c, c) \<in> (item_dep_rel its)\<^sup>+ \<and> (c, item_id i) \<in> (item_dep_rel its)\<^sup>*))
      \<and> (is_runnable_status (item_status i) \<longrightarrow>
           item_id i \<in> set (ready_ids (summarize_plan_graph its)) \<union> set (blocked_ids (summarize_plan_graph its))))
    \<and> distinct (ready_ids (summarize_plan_graph its) @ blocked_ids (summarize_plan_graph its)
        @ active_ids (summarize_plan_graph its) @ completed_ids (summarize_plan_graph its)
        @ failed_ids (summarize_plan_graph its))
    \<and> set (terminal_ids (summarize_plan_graph its)) =
        set (completed_ids (summarize_plan_graph its)) \<union> set (failed_ids (summarize_plan_graph its))"
proof (intro conjI ballI impI)
  note sf = summary_fields [of its]
  have cyc: "unlocked its i \<longleftrightarrow>
      (\<forall>d \<in> set (item_blocked_by i). \<exists>j \<in> set its. item_id j = d \<and> is_completed_status (item_status j))
      \<and> \<not> (\<exists>c. (c, c) \<in> (item_dep_rel its)\<^sup>+ \<and> (c, item_id i) \<in> (item_dep_rel its)\<^sup>*)"
    if "i \<in> set its" for i
    using that unfolding unlocked_def set_cycle_item_ids not_acc_iff_cycle [OF finite_item_dep_rel, symmetric]
    by auto
  have same: "item_id i \<in> item_id ` {j \<in> set its. P j} \<longleftrightarrow> P i" if "i \<in> set its" for i P
    using item_by_id [OF assms] that by blast
  fix i
  assume i: "i \<in> set its"
  show "item_id i \<in> set (ready_ids (summarize_plan_graph its)) \<longleftrightarrow>
      is_runnable_status (item_status i)
      \<and> (\<forall>d \<in> set (item_blocked_by i). \<exists>j \<in> set its. item_id j = d \<and> is_completed_status (item_status j))
      \<and> \<not> (\<exists>c. (c, c) \<in> (item_dep_rel its)\<^sup>+ \<and> (c, item_id i) \<in> (item_dep_rel its)\<^sup>*)"
    using cyc [OF i] same [OF i] by (simp add: sf(1))
  assume "is_runnable_status (item_status i)"
  then show "item_id i \<in> set (ready_ids (summarize_plan_graph its)) \<union> set (blocked_ids (summarize_plan_graph its))"
    using i same [OF i] status_exclusive(1,2) [of "item_status i"] by (auto simp: sf(1,2))
next
  note sf = summary_fields [of its]
  have disj: "item_id ` {j \<in> set its. P j} \<inter> item_id ` {j \<in> set its. Q j} = {}"
    if "\<And>j. P j \<Longrightarrow> \<not> Q j" for P Q
    using item_by_id [OF assms] that by blast
  have d1: "distinct (item_ids (filter P its))" for P using assms by (simp add: distinct_map_filter)
  have d2: "distinct (completed_ids (summarize_plan_graph its))" "distinct (failed_ids (summarize_plan_graph its))"
    by (simp_all add: summarize_plan_graph_def Let_def)
  show "distinct (ready_ids (summarize_plan_graph its) @ blocked_ids (summarize_plan_graph its)
        @ active_ids (summarize_plan_graph its) @ completed_ids (summarize_plan_graph its)
        @ failed_ids (summarize_plan_graph its))"
  proof -
    let ?S = "summarize_plan_graph its"
    let ?R = "\<lambda>i. is_runnable_status (item_status i) \<and> unlocked its i"
    let ?B = "\<lambda>i. \<not> ?R i \<and> \<not> is_terminal_status (item_status i) \<and> \<not> is_active_status (item_status i)
        \<and> (\<not> unlocked its i \<or> item_status i = ''blocked'')"
    have sets: "set (ready_ids ?S) = item_id ` {j \<in> set its. ?R j}"
      "set (blocked_ids ?S) = item_id ` {j \<in> set its. ?B j}"
      "set (active_ids ?S) = item_id ` {j \<in> set its. is_active_status (item_status j)}"
      "set (completed_ids ?S) = item_id ` {j \<in> set its. is_completed_status (item_status j)}"
      "set (failed_ids ?S) = item_id ` {j \<in> set its. is_failed_status (item_status j)}"
      unfolding sf(1-5) completed_item_ids_def set_sort set_map set_filter by (rule refl)+
    have ex: "\<And>j. ?R j \<Longrightarrow> \<not> ?B j" "\<And>j. ?R j \<Longrightarrow> \<not> is_active_status (item_status j)"
      "\<And>j. ?R j \<Longrightarrow> \<not> is_completed_status (item_status j)" "\<And>j. ?R j \<Longrightarrow> \<not> is_failed_status (item_status j)"
      "\<And>j. ?B j \<Longrightarrow> \<not> is_active_status (item_status j)" "\<And>j. ?B j \<Longrightarrow> \<not> is_completed_status (item_status j)"
      "\<And>j. ?B j \<Longrightarrow> \<not> is_failed_status (item_status j)"
      "\<And>j. is_active_status (item_status j) \<Longrightarrow> \<not> is_completed_status (item_status j)"
      "\<And>j. is_active_status (item_status j) \<Longrightarrow> \<not> is_failed_status (item_status j)"
      "\<And>j. is_completed_status (item_status j) \<Longrightarrow> \<not> is_failed_status (item_status j)"
      using status_exclusive by (blast, blast, blast, blast, blast, blast, blast, blast, blast) (simp add: is_failed_status_def)
    note ds = disj [of ?R ?B, OF ex(1)] disj [of ?R "\<lambda>j. is_active_status (item_status j)", OF ex(2)]
      disj [of ?R "\<lambda>j. is_completed_status (item_status j)", OF ex(3)]
      disj [of ?R "\<lambda>j. is_failed_status (item_status j)", OF ex(4)]
      disj [of ?B "\<lambda>j. is_active_status (item_status j)", OF ex(5)]
      disj [of ?B "\<lambda>j. is_completed_status (item_status j)", OF ex(6)]
      disj [of ?B "\<lambda>j. is_failed_status (item_status j)", OF ex(7)]
      disj [of "\<lambda>j. is_active_status (item_status j)" "\<lambda>j. is_completed_status (item_status j)", OF ex(8)]
      disj [of "\<lambda>j. is_active_status (item_status j)" "\<lambda>j. is_failed_status (item_status j)", OF ex(9)]
      disj [of "\<lambda>j. is_completed_status (item_status j)" "\<lambda>j. is_failed_status (item_status j)", OF ex(10)]
    have "distinct (ready_ids ?S)" "distinct (blocked_ids ?S)" "distinct (active_ids ?S)"
      unfolding sf(1-3) distinct_sort by (rule d1)+
    with d2 ds [folded sets] show ?thesis
      by (simp only: distinct_append set_append Int_Un_distrib Un_empty simp_thms)
  qed
  show "set (terminal_ids (summarize_plan_graph its)) =
        set (completed_ids (summarize_plan_graph its)) \<union> set (failed_ids (summarize_plan_graph its))"
    using status_exclusive(5) by (auto simp: sf(4-6) completed_item_ids_def)
qed

theorem plan_summary_classifies_witness:
  "set (terminal_ids (summarize_plan_graph demo_items)) =
     set (completed_ids (summarize_plan_graph demo_items)) \<union> set (failed_ids (summarize_plan_graph demo_items))
   \<and> ready_ids (summarize_plan_graph demo_items) = [''c'', ''d'']"
proof -
  have "distinct (map item_id demo_items)" and r: "ready_ids (summarize_plan_graph demo_items) = [''c'', ''d'']"
    by code_simp+
  from plan_summary_classifies [OF this(1)] r show ?thesis by blast
qed

section \<open>Scheduling order\<close>

lemma sort_key_map: "sort_key k (map f xs) = map f (sort_key (\<lambda>x. k (f x)) xs)"
proof (induction xs)
  case (Cons x xs)
  have "insort_key k (f x) (map f ys) = map f (insort_key (\<lambda>x. k (f x)) x ys)" for ys
    by (induction ys) auto
  with Cons show ?case by simp
qed simp

lemma ready_filter:
  assumes "distinct (map item_id its)"
  shows "filter (\<lambda>i. item_id i \<in> set (ready_ids (summarize_plan_graph its))) its =
    filter (\<lambda>i. is_runnable_status (item_status i) \<and> unlocked its i) its"
proof (rule filter_cong [OF refl])
  fix i assume "i \<in> set its"
  then show "item_id i \<in> set (ready_ids (summarize_plan_graph its)) \<longleftrightarrow>
      is_runnable_status (item_status i) \<and> unlocked its i"
    using item_by_id [OF assms] by (auto simp: summary_fields)
qed

text \<open>
  Supplement: The dispatch order is right: with a limit of n the scheduler offers the first n ready items
  in the order of priority rank and then id, without a limit it offers each ready item once.
\<close>

theorem next_runnable_in_order:
  assumes "distinct (map item_id its)"
  shows "\<exists>xs. distinct xs \<and> set xs = {i \<in> set its. item_id i \<in> set (ready_ids (summarize_plan_graph its))}
    \<and> sorted (map (\<lambda>i. (priority_rank (item_priority i), item_id i)) xs)
    \<and> next_runnable_item_ids its None = map item_id xs
    \<and> next_runnable_item_ids its (Some n) = map item_id (take n xs)"
proof -
  let ?k = "\<lambda>i. (priority_rank (item_priority i), item_id i)"
  let ?xs = "sort_key ?k (filter (\<lambda>i. item_id i \<in> set (ready_ids (summarize_plan_graph its))) its)"
  have "distinct its" using assms by (simp add: distinct_map)
  then show ?thesis
    by (intro exI [of _ ?xs]) (auto simp: next_runnable_item_ids_def Let_def take_map)
qed

theorem next_runnable_in_order_witness:
  "\<exists>xs :: PlanItem list. sorted (map (\<lambda>i. (priority_rank (item_priority i), item_id i)) xs)
     \<and> map item_id xs = [''c'', ''d''] \<and> next_runnable_item_ids demo_items (Some 1) = map item_id (take 1 xs)"
proof -
  have d: "distinct (map item_id demo_items)" and n: "next_runnable_item_ids demo_items None = [''c'', ''d'']"
    by code_simp+
  from next_runnable_in_order [OF d, of 1] obtain xs :: "PlanItem list" where
    "sorted (map (\<lambda>i. (priority_rank (item_priority i), item_id i)) xs)"
    "next_runnable_item_ids demo_items None = map item_id xs"
    "next_runnable_item_ids demo_items (Some 1) = map item_id (take 1 xs)" by blast
  with n show ?thesis by (intro exI [of _ xs]) simp
qed

section \<open>Explicit assignment\<close>

text \<open>
  Supplement: The reason given when a task is assigned explicitly agrees with the summary: for a runnable
  item there is no reason exactly when the item is ready.
\<close>

theorem blocked_reason_iff_not_ready:
  assumes "distinct (map item_id (items p))" and "i \<in> set (items p)"
    and "is_runnable_status (item_status i)"
  shows "explicit_task_blocked_reason p (item_id i) = None \<longleftrightarrow>
    item_id i \<in> set (ready_ids (summarize_plan_graph (items p)))"
proof -
  have f: "find_item p (item_id i) = Some i"
    unfolding find_item_def by (rule find_distinct_key [OF assms(1,2)])
  have "explicit_task_blocked_reason p (item_id i) = None \<longleftrightarrow> unlocked (items p) i"
    unfolding explicit_task_blocked_reason_def unlocked_iff Let_def f by simp
  also have "\<dots> \<longleftrightarrow> item_id i \<in> set (ready_ids (summarize_plan_graph (items p)))"
    using item_by_id [OF assms(1,2)] assms(2,3) by (auto simp: summary_fields)
  finally show ?thesis .
qed

definition demo_plan :: VersionedPlan where
  "demo_plan = new_plan\<lparr>items := demo_items\<rparr>"

theorem blocked_reason_iff_not_ready_witness:
  "explicit_task_blocked_reason demo_plan ''c'' = None \<longleftrightarrow>
    ''c'' \<in> set (ready_ids (summarize_plan_graph (items demo_plan)))"
proof -
  have "distinct (map item_id (items demo_plan))" and "demo_item ''c'' ''queued'' [] \<in> set (items demo_plan)"
    and "is_runnable_status (item_status (demo_item ''c'' ''queued'' []))"
    and i: "item_id (demo_item ''c'' ''queued'' []) = ''c''"
    by code_simp+
  from blocked_reason_iff_not_ready [OF this(1-3)] show ?thesis unfolding i .
qed

section \<open>Stranded assignments\<close>

lemma item_dep_rel_map:
  assumes "\<And>i. item_id (f i) = item_id i \<and> item_blocked_by (f i) = item_blocked_by i"
  shows "item_dep_rel (map f its) = item_dep_rel its" "item_ids (map f its) = item_ids its"
  using assms by (auto simp: item_dep_rel_def comp_def)

lemma cycle_item_ids_map:
  assumes "\<And>i. item_id (f i) = item_id i \<and> item_blocked_by (f i) = item_blocked_by i"
  shows "cycle_item_ids (map f its) = cycle_item_ids its"
proof (rule sorted_distinct_set_unique)
  show "set (cycle_item_ids (map f its)) = set (cycle_item_ids its)"
    unfolding set_cycle_item_ids by (simp only: item_dep_rel_map [where f = f, OF assms])
qed (use cycle_ids_from_sorted in \<open>simp_all add: cycle_item_ids_def\<close>)

lemma summary_map:
  assumes f: "\<And>i. item_id (f i) = item_id i \<and> item_blocked_by (f i) = item_blocked_by i
      \<and> item_status (f i) = item_status i"
  shows "summarize_plan_graph (map f its) = summarize_plan_graph its"
proof -
  have f': "\<And>i. item_id (f i) = item_id i" "\<And>i. item_blocked_by (f i) = item_blocked_by i"
    "\<And>i. item_status (f i) = item_status i" using f by auto
  have c: "cycle_item_ids (map f its) = cycle_item_ids its" using f by (intro cycle_item_ids_map) simp
  have i: "item_ids (map f its) = item_ids its" using f' by simp
  have m: "item_ids (filter P (map f its)) = item_ids (filter (\<lambda>i. P (f i)) its)" for P
    using f' by (simp add: filter_map comp_def)
  show ?thesis
    unfolding summarize_plan_graph_def completed_item_ids_def c i m
      missing_dependencies_def unresolved_dependencies_def f'
    by (simp add: comp_def f')
qed

lemma next_runnable_map:
  assumes f: "\<And>i. item_id (f i) = item_id i \<and> item_blocked_by (f i) = item_blocked_by i
      \<and> item_status (f i) = item_status i \<and> item_priority (f i) = item_priority i"
  shows "next_runnable_item_ids (map f its) limit = next_runnable_item_ids its limit"
proof -
  have f': "\<And>i. item_id (f i) = item_id i" "\<And>i. item_priority (f i) = item_priority i" using f by auto
  have s: "summarize_plan_graph (map f its) = summarize_plan_graph its" using f by (intro summary_map) simp
  show ?thesis
    unfolding next_runnable_item_ids_def s filter_map sort_key_map by (simp add: comp_def f')
qed

lemma find_item_id: "find_item p t = Some i \<Longrightarrow> item_id i = t \<and> i \<in> set (items p)"
  unfolding find_item_def by (drule find_eq_Some_mem) auto

lemma reclaim_Some:
  assumes "find_item p t = Some i" and "item_assigned_to i = Some a"
  shows "\<exists>p'. reclaim_stranded_assignment p t = (p', True)
    \<and> items p' = update_first (\<lambda>i. item_id i = t) (\<lambda>i. i\<lparr>item_assigned_to := None\<rparr>) (items p)
    \<and> reclaims p' t = reclaims p t + 1 \<and> version p' = version p + 1
    \<and> (\<forall>t'. t' \<noteq> t \<longrightarrow> task_progress p' t' = task_progress p t')"
  using assms
  by (auto simp: reclaim_stranded_assignment_def Let_def reclaims_def default_progress_def split: option.splits)

lemma find_SomeI: "x \<in> set xs \<Longrightarrow> P x \<Longrightarrow> find P xs \<noteq> None"
  by (auto simp: find_is_none)

text \<open>
  Supplement: A runnable item whose assignee died is recovered, and only a bounded number of times. The
  item that the stranded search picks is ready, its assignee is dead and it was reclaimed fewer
  than three times; reclaiming it counts one more (never past three), leaves it ready and
  unassigned so that automatic assignment has a candidate again, and changes no other item and
  no other progress record.
\<close>

theorem stranded_item_recovers:
  assumes "distinct (map item_id (items p))" and "next_stranded_runnable_item_id p dead = Some t"
  shows "t \<in> set (ready_ids (summarize_plan_graph (items p)))
    \<and> (\<exists>i a. find_item p t = Some i \<and> item_assigned_to i = Some a \<and> dead a)
    \<and> (\<exists>p'. reclaim_stranded_assignment p t = (p', True)
        \<and> reclaims p' t = reclaims p t + 1 \<and> reclaims p' t \<le> MAX_DEAD_ASSIGNEE_RECLAIMS
        \<and> ready_ids (summarize_plan_graph (items p')) = ready_ids (summarize_plan_graph (items p))
        \<and> map_option item_assigned_to (find_item p' t) = Some None
        \<and> next_unassigned_runnable_item_id p' \<noteq> None
        \<and> (\<forall>t'. t' \<noteq> t \<longrightarrow> find_item p' t' = find_item p t' \<and> task_progress p' t' = task_progress p t'))"
proof -
  let ?f = "\<lambda>i. i\<lparr>item_assigned_to := None\<rparr>"
  from assms(2) obtain i a where i: "find_item p t = Some i" "item_assigned_to i = Some a" "dead a"
    and lt: "reclaims p t < MAX_DEAD_ASSIGNEE_RECLAIMS"
    and nr: "t \<in> set (next_runnable_item_ids (items p) None)"
    unfolding next_stranded_runnable_item_id_def
    by (auto dest!: find_eq_Some_mem split: option.splits)
  have rdy: "t \<in> set (ready_ids (summarize_plan_graph (items p)))"
    using nr by (auto simp: next_runnable_item_ids_def Let_def)
  obtain p' where p': "reclaim_stranded_assignment p t = (p', True)"
    "items p' = update_first (\<lambda>i. item_id i = t) ?f (items p)" "reclaims p' t = reclaims p t + 1"
    "\<forall>t'. t' \<noteq> t \<longrightarrow> task_progress p' t' = task_progress p t'"
    using reclaim_Some [OF i(1,2)] by blast
  let ?g = "\<lambda>i. if item_id i = t then ?f i else i"
  have its: "items p' = map ?g (items p)" unfolding p'(2) by (rule update_first_distinct [OF assms(1)])
  have keep: "item_id (?g j) = item_id j \<and> item_blocked_by (?g j) = item_blocked_by j
      \<and> item_status (?g j) = item_status j \<and> item_priority (?g j) = item_priority j" for j by simp
  have s: "summarize_plan_graph (items p') = summarize_plan_graph (items p)"
    unfolding its by (rule summary_map) simp
  have n: "next_runnable_item_ids (items p') None = next_runnable_item_ids (items p) None"
    unfolding its by (rule next_runnable_map [OF keep])
  have fi: "find_item p' t' = (if t' = t then map_option ?f (find_item p t') else find_item p t')" for t'
    unfolding find_item_def p'(2) by (rule find_update_first) simp
  have "next_unassigned_runnable_item_id p' \<noteq> None"
    unfolding next_unassigned_runnable_item_id_def n
    by (rule find_SomeI [OF nr]) (simp add: fi i)
  moreover have "reclaims p t + 1 \<le> MAX_DEAD_ASSIGNEE_RECLAIMS"
    using lt by (simp add: inc_le)
  ultimately show ?thesis using rdy i p' s fi by auto
qed

definition demo_stranded :: VersionedPlan where
  "demo_stranded = new_plan\<lparr>items := [(demo_item ''a'' ''queued'' [])\<lparr>item_assigned_to := Some ''ghost''\<rparr>]\<rparr>"

theorem stranded_item_recovers_witness:
  "\<exists>p'. reclaim_stranded_assignment demo_stranded ''a'' = (p', True) \<and> reclaims p' ''a'' = reclaims demo_stranded ''a'' + 1
     \<and> next_unassigned_runnable_item_id p' \<noteq> None"
proof -
  have "distinct (map item_id (items demo_stranded))"
    and "next_stranded_runnable_item_id demo_stranded (\<lambda>a. a = ''ghost'') = Some ''a''"
    by code_simp+
  from stranded_item_recovers [OF this] show ?thesis by blast
qed

section \<open>Sessions and side maps\<close>

text \<open>A durable reference to a session anywhere in the plan.\<close>

definition refers_to :: "VersionedPlan \<Rightarrow> str \<Rightarrow> bool" where
  "refers_to p s \<longleftrightarrow> s \<in> participants p \<or> (\<exists>i \<in> set (items p). item_assigned_to i = Some s)
     \<or> (\<exists>k q. task_progress p k = Some q \<and> assigned_session_id q = Some s)
     \<or> (\<exists>k m. node_meta p k = Some m \<and> meta_planner m = Some s)"

lemma rename_ref_back: "r \<noteq> Some new \<Longrightarrow> rename_ref new old (rename_ref old new r) = r"
  by (simp add: rename_ref_def)

lemma rename_ref_eq: "rename_ref old new r = Some s \<longleftrightarrow>
    (r = Some s \<and> s \<noteq> old) \<or> (r = Some old \<and> s = new)"
  by (auto simp: rename_ref_def)

text \<open>
  Supplement: Renaming a session rewrites every durable reference and nothing else: afterwards the plan
  refers to exactly the sessions it referred to, with the old one replaced by the new one, and
  when the new id was unused, renaming back restores the plan.
\<close>

theorem rename_session_rewrites:
  assumes "old \<noteq> new"
  shows "(refers_to (rename_session old new p) s \<longleftrightarrow> (refers_to p s \<and> s \<noteq> old) \<or> (refers_to p old \<and> s = new))
    \<and> (\<not> refers_to p new \<longrightarrow> rename_session new old (rename_session old new p) = p)"
proof (intro conjI impI)
  show "refers_to (rename_session old new p) s \<longleftrightarrow> (refers_to p s \<and> s \<noteq> old) \<or> (refers_to p old \<and> s = new)"
  proof -
    let ?p = "rename_session old new p"
    have "s \<in> participants ?p \<longleftrightarrow> (s \<in> participants p \<and> s \<noteq> old) \<or> (old \<in> participants p \<and> s = new)"
      using assms by (auto simp: rename_session_def)
    moreover have "(\<exists>i \<in> set (items ?p). item_assigned_to i = Some s) \<longleftrightarrow>
        ((\<exists>i \<in> set (items p). item_assigned_to i = Some s) \<and> s \<noteq> old)
        \<or> ((\<exists>i \<in> set (items p). item_assigned_to i = Some old) \<and> s = new)"
      by (auto simp: rename_session_def rename_ref_eq)
    moreover have "(\<exists>k q. task_progress ?p k = Some q \<and> assigned_session_id q = Some s) \<longleftrightarrow>
        ((\<exists>k q. task_progress p k = Some q \<and> assigned_session_id q = Some s) \<and> s \<noteq> old)
        \<or> ((\<exists>k q. task_progress p k = Some q \<and> assigned_session_id q = Some old) \<and> s = new)"
      by (fastforce simp: rename_session_def rename_ref_eq)
    moreover have "(\<exists>k m. node_meta ?p k = Some m \<and> meta_planner m = Some s) \<longleftrightarrow>
        ((\<exists>k m. node_meta p k = Some m \<and> meta_planner m = Some s) \<and> s \<noteq> old)
        \<or> ((\<exists>k m. node_meta p k = Some m \<and> meta_planner m = Some old) \<and> s = new)"
      by (fastforce simp: rename_session_def rename_ref_eq)
    ultimately show ?thesis unfolding refers_to_def by argo
  qed
  assume nr: "\<not> refers_to p new"
  have "map (\<lambda>i. i\<lparr>item_assigned_to := rename_ref new old (rename_ref old new (item_assigned_to i))\<rparr>) (items p) = items p"
    using nr by (intro map_idI) (auto simp: refers_to_def rename_ref_back)
  moreover have "map_option (\<lambda>q. q\<lparr>assigned_session_id := rename_ref new old (rename_ref old new (assigned_session_id q))\<rparr>)
      (task_progress p k) = task_progress p k" for k
    using nr by (cases "task_progress p k") (auto simp: refers_to_def rename_ref_back)
  moreover have "map_option (\<lambda>m. m\<lparr>meta_planner := rename_ref new old (rename_ref old new (meta_planner m))\<rparr>)
      (node_meta p k) = node_meta p k" for k
    using nr by (cases "node_meta p k") (auto simp: refers_to_def rename_ref_back)
  moreover have "new \<notin> participants p" using nr by (simp add: refers_to_def)
  ultimately show "rename_session new old (rename_session old new p) = p"
    unfolding rename_session_def using assms
    by (auto simp: comp_def option.map_comp insert_absorb)
qed

theorem rename_session_rewrites_witness:
  "\<not> refers_to (rename_session ''ghost'' ''live'' demo_stranded) ''ghost''
   \<and> rename_session ''live'' ''ghost'' (rename_session ''ghost'' ''live'' demo_stranded) = demo_stranded"
proof -
  have "\<not> refers_to demo_stranded ''live''"
    by (simp add: refers_to_def demo_stranded_def new_plan_def demo_item_def)
  with rename_session_rewrites [of "''ghost''" "''live''" demo_stranded "''ghost''"] show ?thesis by simp
qed

text \<open>
  Supplement: Replacing the items leaves no orphaned state: side-map entries survive, unchanged, exactly
  for the ids that are still items of the plan.
\<close>

theorem replace_items_prunes:
  "items (replace_items its p) = its
   \<and> task_progress (replace_items its p) k = (if k \<in> item_id ` set its then task_progress p k else None)
   \<and> node_meta (replace_items its p) k = (if k \<in> item_id ` set its then node_meta p k else None)
   \<and> dom (task_progress (replace_items its p)) \<union> dom (node_meta (replace_items its p)) \<subseteq> item_id ` set its
   \<and> replace_items its (replace_items its p) = replace_items its p"
  by (auto simp: replace_items_def prune_side_maps_def retain_keys_def fun_eq_iff split: if_splits)

section \<open>Task control\<close>

text \<open>
  Supplement: Task control names round trip, no action ever applies to completed work, and the target
  chosen for a session is sound: it is assigned to that session, its status admits the action,
  and no other candidate has a status of higher urgency.
\<close>

theorem task_control_is_safe:
  "parse_action (action_as_str a) = Some a
   \<and> (task_control_action_allows_status a s \<longrightarrow> \<not> is_completed_status s)
   \<and> (task_control_target_item_id its target a = Inr t \<longrightarrow>
       (\<exists>i \<in> set its. item_id i = t \<and> item_assigned_to i = Some target
          \<and> task_control_action_allows_status a (item_status i)
          \<and> (\<forall>j \<in> set its. item_assigned_to j = Some target
               \<and> task_control_action_allows_status a (item_status j)
               \<longrightarrow> control_rank (item_status i) \<le> control_rank (item_status j))))
   \<and> (isl (task_control_target_item_id its target a) \<longrightarrow>
       card {i \<in> set its. item_assigned_to i = Some target
          \<and> task_control_action_allows_status a (item_status i)} \<noteq> 1 \<or> \<not> distinct its)"
proof (intro conjI impI)
  show "parse_action (action_as_str a) = Some a" by (cases a) (simp_all add: parse_action_def)
  show "task_control_action_allows_status a s \<Longrightarrow> \<not> is_completed_status s"
    by (cases a) (auto simp: is_completed_status_def)
next
  let ?C = "filter (\<lambda>i. task_control_action_allows_status a (item_status i)) (filter (\<lambda>i. item_assigned_to i = Some target) its)"
  define cs where "cs = sort_key (\<lambda>i. control_rank (item_status i)) ?C"
  have set: "set cs = {i \<in> set its. item_assigned_to i = Some target
      \<and> task_control_action_allows_status a (item_status i)}" by (auto simp: cs_def)
  have so: "sorted (map (\<lambda>i. control_rank (item_status i)) cs)" by (simp add: cs_def)
  show "\<exists>i \<in> set its. item_id i = t \<and> item_assigned_to i = Some target
          \<and> task_control_action_allows_status a (item_status i)
          \<and> (\<forall>j \<in> set its. item_assigned_to j = Some target
               \<and> task_control_action_allows_status a (item_status j)
               \<longrightarrow> control_rank (item_status i) \<le> control_rank (item_status j))"
    if r: "task_control_target_item_id its target a = Inr t"
  proof -
    from r obtain i rest where c: "cs = i # rest" "item_id i = t"
      unfolding task_control_target_item_id_def cs_def [symmetric] Let_def
      by (cases cs; cases "tl cs") (auto split: if_splits)
    then have "\<forall>j \<in> set cs. control_rank (item_status i) \<le> control_rank (item_status j)" using so by auto
    with c set show ?thesis by (intro bexI [of _ i]) auto
  qed
  show "card {i \<in> set its. item_assigned_to i = Some target
          \<and> task_control_action_allows_status a (item_status i)} \<noteq> 1 \<or> \<not> distinct its"
    if r: "isl (task_control_target_item_id its target a)"
  proof -
    have "length cs \<noteq> 1"
      using r unfolding task_control_target_item_id_def cs_def [symmetric] Let_def
      by (cases cs; cases "tl cs") auto
    then show ?thesis using set distinct_card [of cs] by (auto simp: cs_def)
  qed
qed

theorem task_control_is_safe_witness:
  "\<exists>i \<in> set (items demo_stranded). item_id i = ''a'' \<and> item_assigned_to i = Some ''ghost''"
proof -
  have "task_control_target_item_id (items demo_stranded) ''ghost'' Start = Inr ''a''" by code_simp
  with task_control_is_safe [of Start "[]" "items demo_stranded" "''ghost''" "''a''"] show ?thesis by blast
qed

section \<open>Loads and affinities\<close>

text \<open>The value of a counter, absent counters being zero.\<close>

definition tally :: "(str \<rightharpoonup> nat) \<Rightarrow> str \<Rightarrow> nat" where
  "tally m v = (case m v of None \<Rightarrow> 0 | Some c \<Rightarrow> c)"

lemma bump_get: "tally (bump n k m) v = tally m v + (if v = k then n else 0)"
  by (auto simp: bump_def tally_def)

lemma tally_empty [simp]: "tally Map.empty v = 0"
  by (simp add: tally_def)

lemma fold_tally:
  assumes "\<And>x m. tally (step x m) v = tally m v + w x"
  shows "tally (fold step xs m) v = tally m v + sum_list (map w xs)"
  using assms by (induction xs arbitrary: m) simp_all

lemma load_tally: "tally (load_step i m) v = tally m v +
    (if \<not> is_terminal_status (item_status i) \<and> item_assigned_to i = Some v then 1 else 0)"
  by (auto simp: load_step_def bump_get split: option.split)

lemma bump_opt_tally: "tally (bump_opt n k m) v = tally m v + (if k = Some v then n else 0)"
  by (auto simp: bump_opt_def bump_get split: option.split)

lemma carry_tally: "tally (carry_step p d m) v = tally m v +
    ((if Option.bind (find_item p d) item_assigned_to = Some v then 1 else 0)
     + (if Option.bind (task_progress p d) assigned_session_id = Some v then 1 else 0))"
  by (simp add: carry_step_def bump_opt_tally)

lemma scope_overlap_zero: "item_file_scope task = [] \<or> item_file_scope i = [] \<Longrightarrow> scope_overlap task i = 0"
  by (auto simp: scope_overlap_def)

lemma metadata_tally: "tally (metadata_step task i m) v = tally m v +
    (if item_assigned_to i = Some v \<and> item_id i \<noteq> item_id task
     then (if same_subsystem task i then 2 else 0) + scope_overlap task i else 0)"
  using scope_overlap_zero [of task i]
  by (auto simp: metadata_step_def bump_get Let_def split: option.split)

lemma sum_list_count: "sum_list (map (\<lambda>x. if P x then 1 else 0) xs) = length (filter P xs)"
  by (induction xs) auto

text \<open>
  Supplement: The affinities used to choose a worker count what they claim: a session's load is its
  number of unfinished assigned items; its dependency carry-over counts the task's dependencies
  it is assigned, once per item and once per progress record; its metadata carry-over is two for
  each other item of the same subsystem assigned to it plus the shared file scopes.
\<close>

theorem affinities_count:
  assumes "assignment_affinities_for_task p t = Inr aff"
  shows "\<exists>task. find_item p t = Some task
    \<and> tally (loads aff) v = length (filter (\<lambda>i. \<not> is_terminal_status (item_status i)
        \<and> item_assigned_to i = Some v) (items p))
    \<and> tally (dependency_carryover aff) v =
        length (filter (\<lambda>d. Option.bind (find_item p d) item_assigned_to = Some v) (item_blocked_by task))
        + length (filter (\<lambda>d. Option.bind (task_progress p d) assigned_session_id = Some v) (item_blocked_by task))
    \<and> tally (metadata_carryover aff) v =
        sum_list (map (\<lambda>i. (if same_subsystem task i then 2 else 0) + scope_overlap task i)
          (filter (\<lambda>i. item_assigned_to i = Some v \<and> item_id i \<noteq> item_id task) (items p)))"
proof -
  from assms obtain task where t: "find_item p t = Some task"
    and a: "aff = \<lparr>loads = assignment_loads p,
          dependency_carryover = fold (carry_step p) (item_blocked_by task) Map.empty,
          metadata_carryover = fold (metadata_step task) (items p) Map.empty\<rparr>"
    by (auto simp: assignment_affinities_for_task_def split: option.splits)
  have "tally (loads aff) v = length (filter (\<lambda>i. \<not> is_terminal_status (item_status i)
        \<and> item_assigned_to i = Some v) (items p))"
    using fold_tally [where step = "load_step" and v = v and xs = "items p" and m = Map.empty, OF load_tally]
    by (simp add: a assignment_loads_def sum_list_count)
  moreover have "tally (dependency_carryover aff) v =
        length (filter (\<lambda>d. Option.bind (find_item p d) item_assigned_to = Some v) (item_blocked_by task))
        + length (filter (\<lambda>d. Option.bind (task_progress p d) assigned_session_id = Some v) (item_blocked_by task))"
    using fold_tally [where step = "carry_step p" and v = v and xs = "item_blocked_by task" and m = Map.empty, OF carry_tally]
    by (simp add: a sum_list_addf sum_list_count)
  moreover have "tally (metadata_carryover aff) v =
        sum_list (map (\<lambda>i. (if same_subsystem task i then 2 else 0) + scope_overlap task i)
          (filter (\<lambda>i. item_assigned_to i = Some v \<and> item_id i \<noteq> item_id task) (items p)))"
    using fold_tally [where step = "metadata_step task" and v = v and xs = "items p" and m = Map.empty, OF metadata_tally]
    by (simp add: a sum_list_map_filter')
  ultimately show ?thesis using t by blast
qed

theorem affinities_count_witness:
  "\<exists>aff. assignment_affinities_for_task demo_stranded ''a'' = Inr aff \<and> tally (loads aff) ''ghost'' = 1"
proof -
  have "\<not> isl (assignment_affinities_for_task demo_stranded ''a'')" by code_simp
  then obtain aff where a: "assignment_affinities_for_task demo_stranded ''a'' = Inr aff"
    by (cases "assignment_affinities_for_task demo_stranded ''a''") auto
  have "length (filter (\<lambda>i. \<not> is_terminal_status (item_status i) \<and> item_assigned_to i = Some ''ghost'')
      (items demo_stranded)) = 1" by code_simp
  with affinities_count [OF a, of "''ghost''"] a show ?thesis by auto
qed

end
