(* ===== verification/Dag_Ops.thy ===== *)
theory Dag_Ops
  imports Task_Graph
begin

text \<open>
  The validated mutations of \<^verbatim>\<open>crates/jcode-plan/src/dag/ops.rs\<close>. An operation that takes
  \<open>&mut TaskGraph\<close> becomes a function to \<open>DagError + TaskGraph\<close>: an error leaves the caller's
  graph as it was, since the source commits the staged clone only at the end.
\<close>

section \<open>Spec validation\<close>

definition validated_spec_id :: "NodeSpec \<Rightarrow> str \<Rightarrow> (DagError, str) result" where
  "validated_spec_id spec op =
     (case spec_id spec of
        None \<Rightarrow> Inl (GateMisuse (op @ '' specs must carry explicit ids''))
      | Some i \<Rightarrow>
          if trim i = [] then Inl (GateMisuse (op @ '' specs must carry non-empty ids''))
          else Inr i)"

definition spec_to_node :: "NodeSpec \<Rightarrow> str option \<Rightarrow> NodeOrigin \<Rightarrow> TaskNode" where
  "spec_to_node spec par orig =
     \<lparr>node_id = (case spec_id spec of None \<Rightarrow> [] | Some i \<Rightarrow> i),
      node_content = spec_content spec, node_kind = spec_kind spec, node_status = Queued,
      node_owner = None, node_parent = par, node_depends_on = dedup (spec_depends_on spec),
      node_expanded = False, node_is_gate = False, node_planner = None,
      node_priority = spec_priority spec, node_output = None, node_origin = Some orig\<rparr>"

definition dependency_sets_equal :: "str list \<Rightarrow> str list \<Rightarrow> bool" where
  "dependency_sets_equal l r \<longleftrightarrow> set l = set r"

definition seed_specs_equivalent :: "NodeSpec \<Rightarrow> NodeSpec \<Rightarrow> bool" where
  "seed_specs_equivalent l r \<longleftrightarrow>
     spec_id l = spec_id r \<and> spec_content l = spec_content r \<and> spec_kind l = spec_kind r
     \<and> spec_priority l = spec_priority r
     \<and> dependency_sets_equal (spec_depends_on l) (spec_depends_on r)"

definition declared_dependencies :: "TaskGraph \<Rightarrow> TaskNode \<Rightarrow> str list" where
  "declared_dependencies g n =
     filter (\<lambda>d. case get g d of None \<Rightarrow> True | Some c \<Rightarrow> node_parent c \<noteq> Some (node_id n))
       (node_depends_on n)"

definition seed_spec_matches_existing :: "TaskGraph \<Rightarrow> TaskNode \<Rightarrow> NodeSpec \<Rightarrow> bool" where
  "seed_spec_matches_existing g n spec =
     (if node_parent n \<noteq> None \<or> node_is_gate n
        \<or> \<not> (node_origin n = None \<or> node_origin n = Some Seed)
        \<or> node_content n \<noteq> spec_content spec \<or> node_kind n \<noteq> spec_kind spec
        \<or> node_priority n \<noteq> spec_priority spec
      then False
      else dependency_sets_equal (declared_dependencies g n) (spec_depends_on spec))"

section \<open>Gates\<close>

text \<open>\<open>unique_gate_id\<close>: \<open>"{node}::gate"\<close>, else the first free numbered suffix from 2.\<close>

definition suffix_fuel :: "TaskGraph \<Rightarrow> str \<Rightarrow> nat \<Rightarrow> nat" where
  "suffix_fuel g base n =
     card {i \<in> set (node_ids (nodes g)). \<exists>m \<ge> n. i = base @ show_nat m}"

function gate_suffix :: "TaskGraph \<Rightarrow> str \<Rightarrow> nat \<Rightarrow> str" where
  "gate_suffix g base n =
     (if contains g (base @ show_nat n) then gate_suffix g base (n + 1) else base @ show_nat n)"
  by pat_completeness auto
termination
proof (relation "measure (\<lambda>(g, base, n). suffix_fuel g base n)", goal_cases)
  case (2 g base n)
  let ?A = "\<lambda>k. {i \<in> set (node_ids (nodes g)). \<exists>m \<ge> k. i = base @ show_nat m}"
  have "base @ show_nat n \<notin> ?A (n + 1)" by auto
  moreover have "base @ show_nat n \<in> ?A n" using 2 by auto
  moreover have "?A (n + 1) \<subseteq> ?A n" by fastforce
  ultimately have "?A (n + 1) \<subset> ?A n" by blast
  then show ?case
    by (auto simp: suffix_fuel_def intro!: psubset_card_mono)
qed simp

declare gate_suffix.simps [simp del]

definition unique_gate_id :: "TaskGraph \<Rightarrow> str \<Rightarrow> str" where
  "unique_gate_id g i =
     (let base = i @ ''::gate'' in if contains g base then gate_suffix g base 2 else base)"

definition gate_content :: "NodeKind \<Rightarrow> str \<Rightarrow> str" where
  "gate_content k par =
     (if k = Verify then
        ''Verify the work of '' @ quote par
        @ '': run the declared acceptance checks (build, tests, lint). ''
        @ ''If anything fails, emit fix nodes back into the graph; do not pass until they drain.''
      else
        ''Critique the work of '' @ quote par @ '' adversarially. Read every child's ''
        @ quote ''what_i_did_not_check''
        @ '' and find unexplored gaps given this task's stated scope. For each gap, emit a new child node; ''
        @ ''do not pass until no gaps remain.'')"

definition root_gate_content :: "NodeKind \<Rightarrow> str" where
  "root_gate_content k =
     (if k = Verify then
        ''Final plan-wide verify: run the acceptance checks for the whole plan's declared scope ''
        @ ''(build, tests, lint) across everything the plan changed. If ''
        @ ''anything fails, inject fix nodes; the plan cannot finish until they drain.''
      else
        ''Final plan-wide critique: audit the ENTIRE plan adversarially before it may finish. ''
        @ ''Read every completed node's artifact, especially each '' @ quote ''what_i_did_not_check''
        @ '' and every open question, and hunt for whole facets the plan never covered. ''
        @ ''For each gap, inject a new node; the plan cannot finish until they drain.'')"

abbreviation is_root_work :: "TaskNode \<Rightarrow> bool" where
  "is_root_work n \<equiv> node_parent n = None \<and> \<not> node_is_gate n"

abbreviation is_root_gate :: "TaskNode \<Rightarrow> bool" where
  "is_root_gate n \<equiv> node_is_gate n \<and> node_parent n = None"

definition make_gate :: "str \<Rightarrow> str \<Rightarrow> NodeKind \<Rightarrow> str option \<Rightarrow> str list \<Rightarrow> TaskNode" where
  "make_gate i c k par deps =
     \<lparr>node_id = i, node_content = c, node_kind = k, node_status = Queued, node_owner = None,
      node_parent = par, node_depends_on = deps, node_expanded = False, node_is_gate = True,
      node_planner = None, node_priority = 0, node_output = None, node_origin = Some Gate\<rparr>"

text \<open>Widening the existing root gate: new roots are appended to its dependencies, and a gate
  that had finished is queued again.\<close>

definition widen_gate :: "str list \<Rightarrow> TaskNode \<Rightarrow> TaskNode" where
  "widen_gate ids n =
     (let deps = push_missing (node_depends_on n) ids;
          widened = (\<exists>i \<in> set ids. i \<notin> set (node_depends_on n));
          n' = n\<lparr>node_depends_on := deps\<rparr>
      in if widened \<and> node_is_terminal n then n'\<lparr>node_status := Queued, node_owner := None\<rparr> else n')"

definition ensure_root_gate :: "TaskGraph \<Rightarrow> TaskGraph" where
  "ensure_root_gate g =
     (let roots = filter is_root_work (nodes g); root_ids = node_ids roots in
      if root_ids = [] then g
      else (case find is_root_gate (nodes g) of
          Some gate \<Rightarrow> modify g (node_id gate) (widen_gate root_ids)
        | None \<Rightarrow>
            let all_code = list_all (\<lambda>n. node_kind n = Implement \<or> node_kind n = Fix) roots;
                k = (if all_code then Verify else Critique)
            in push g (make_gate (unique_gate_id g ''plan'') (root_gate_content k) k None root_ids)))"

section \<open>Seeding\<close>

definition seed_unique_step :: "NodeSpec \<Rightarrow> NodeSpec list \<Rightarrow> (DagError, NodeSpec list) result" where
  "seed_unique_step spec uniq =
     and_then (validated_spec_id spec ''seed'') (\<lambda>i.
       case find (\<lambda>s. spec_id s = Some i) uniq of
         Some s \<Rightarrow> if seed_specs_equivalent s spec then Inr uniq else Inl (DuplicateNode i)
       | None \<Rightarrow> Inr (uniq @ [spec]))"

definition unwrap_id :: "str option \<Rightarrow> str" where
  "unwrap_id i = (case i of None \<Rightarrow> [] | Some s \<Rightarrow> s)"

definition check_dependency :: "TaskGraph \<Rightarrow> str list \<Rightarrow> str \<Rightarrow> str \<Rightarrow> (DagError, unit) result" where
  "check_dependency g known i dep =
     (if dep \<notin> set known \<and> \<not> contains g dep then Inl (UnknownDependency i dep) else Inr ())"

definition check_dependencies :: "TaskGraph \<Rightarrow> str list \<Rightarrow> NodeSpec \<Rightarrow> (DagError, unit) result" where
  "check_dependencies g known spec =
     try_all (check_dependency g known (unwrap_id (spec_id spec))) (spec_depends_on spec)"

definition seed_stage_step :: "TaskGraph \<Rightarrow> NodeSpec \<Rightarrow> TaskGraph \<Rightarrow> (DagError, TaskGraph) result" where
  "seed_stage_step g spec staged =
     (case get g (unwrap_id (spec_id spec)) of
        Some existing \<Rightarrow>
          if seed_spec_matches_existing g existing spec then Inr staged
          else Inl (DuplicateNode (unwrap_id (spec_id spec)))
      | None \<Rightarrow> Inr (push staged (spec_to_node spec None Seed)))"

text \<open>The last step of every staged mutation: commit only an acyclic graph.\<close>

definition commit_acyclic :: "TaskGraph \<Rightarrow> (DagError, TaskGraph) result" where
  "commit_acyclic staged =
     (let cyc = cycle_nodes staged in if cyc \<noteq> [] then Inl (WouldCreateCycle cyc) else Inr staged)"

definition seed :: "TaskGraph \<Rightarrow> NodeSpec list \<Rightarrow> (DagError, TaskGraph) result" where
  "seed g specs =
     and_then (try_fold seed_unique_step specs []) (\<lambda>uniq.
     and_then (try_all (check_dependencies g (map (unwrap_id \<circ> spec_id) uniq)) uniq) (\<lambda>_.
     and_then (try_fold (seed_stage_step g) uniq g) (\<lambda>staged.
       commit_acyclic (if requires_gates (mode staged) then ensure_root_gate staged else staged))))"

section \<open>Decomposition\<close>

text \<open>Fresh, distinct ids of a batch of specs, in order.\<close>

definition fresh_id_step :: "TaskGraph \<Rightarrow> str \<Rightarrow> NodeSpec \<Rightarrow> str list \<Rightarrow> (DagError, str list) result" where
  "fresh_id_step g op spec ids =
     and_then (validated_spec_id spec op) (\<lambda>i.
       if contains g i \<or> i \<in> set ids then Inl (DuplicateNode i) else Inr (ids @ [i]))"

record ExpandOutcome =
  child_ids :: "str list"
  gate_id :: "str option"

definition expand_guard :: "TaskGraph \<Rightarrow> str \<Rightarrow> str \<Rightarrow> NodeSpec list \<Rightarrow> (DagError, TaskNode) result" where
  "expand_guard g i actor children =
     (case get g i of
        None \<Rightarrow> Inl (UnknownNode i)
      | Some n \<Rightarrow>
          if node_owner n \<noteq> Some actor then Inl (NotOwner i actor)
          else if node_is_gate n then Inl (GateMisuse (''gate node '' @ quote i @ '' cannot be decomposed''))
          else if node_expanded n \<or> node_status n \<noteq> Running then Inl (InvalidState i (node_status n))
          else if children = [] then Inl (GateMisuse ''expand requires at least one child'')
          else Inr n)"

text \<open>The parent becomes a join: queued, free of its owner, waiting for the new dependencies.\<close>

definition flip_composite :: "str list \<Rightarrow> TaskNode \<Rightarrow> TaskNode" where
  "flip_composite synth_deps n =
     n\<lparr>node_expanded := True, node_status := Queued,
       node_planner := (case node_planner n of None \<Rightarrow> node_owner n | Some p \<Rightarrow> Some p),
       node_owner := None,
       node_depends_on := push_missing (node_depends_on n) synth_deps\<rparr>"

definition push_specs :: "TaskGraph \<Rightarrow> NodeSpec list \<Rightarrow> str option \<Rightarrow> NodeOrigin \<Rightarrow> TaskGraph" where
  "push_specs g specs par orig = foldl push g (map (\<lambda>s. spec_to_node s par orig) specs)"

text \<open>The staged graph of an expansion, and the id of the gate it inserts in deep mode.\<close>

definition expand_staged ::
  "TaskGraph \<Rightarrow> str \<Rightarrow> TaskNode \<Rightarrow> str list \<Rightarrow> NodeSpec list \<Rightarrow> TaskGraph \<times> str option" where
  "expand_staged g i n ids children =
     (let staged = push_specs g children (Some i) Expand;
          gate = (if requires_gates (mode staged) then Some (unique_gate_id staged i) else None);
          staged = (case gate of
              None \<Rightarrow> staged
            | Some gid \<Rightarrow>
                push staged (make_gate gid (gate_content (gate_kind (node_kind n)) i)
                  (gate_kind (node_kind n)) (Some i) ids));
          synth_deps = (case gate of None \<Rightarrow> ids | Some gid \<Rightarrow> ids @ [gid])
      in (modify staged i (flip_composite synth_deps), gate))"

definition expand_node ::
  "TaskGraph \<Rightarrow> str \<Rightarrow> str \<Rightarrow> NodeSpec list \<Rightarrow> (DagError, TaskGraph \<times> ExpandOutcome) result" where
  "expand_node g i actor children =
     and_then (expand_guard g i actor children) (\<lambda>n.
     and_then (try_fold (fresh_id_step g ''expand'') children []) (\<lambda>ids.
     and_then (try_all (check_dependencies g ids) children) (\<lambda>_.
     and_then (commit_acyclic (fst (expand_staged g i n ids children))) (\<lambda>g'.
       Inr (g', \<lparr>child_ids = ids, gate_id = snd (expand_staged g i n ids children)\<rparr>)))))"

section \<open>Mentions of a node id in prose\<close>

definition is_id_char :: "char \<Rightarrow> bool" where
  "is_id_char c \<longleftrightarrow>
     is_ascii_alphanumeric c \<or> c = CHR ''-'' \<or> c = CHR ''_'' \<or> c = CHR ''.'' \<or> c = CHR '':''"

definition before_ok :: "str \<Rightarrow> nat \<Rightarrow> bool" where
  "before_ok body begin_ix \<longleftrightarrow> begin_ix = 0 \<or> \<not> is_id_char (body ! (begin_ix - 1))"

definition after_ok :: "str \<Rightarrow> bool" where
  "after_ok rest =
     (case rest of [] \<Rightarrow> True
      | c # after \<Rightarrow>
          if c = CHR ''.'' \<or> c = CHR '':'' then (case after of [] \<Rightarrow> True | d # _ \<Rightarrow> \<not> is_id_char d)
          else \<not> is_id_char c)"

function mentions_from :: "str \<Rightarrow> str \<Rightarrow> nat \<Rightarrow> bool" where
  "mentions_from body i start =
     (case find_str i (drop start body) of
        None \<Rightarrow> False
      | Some pos \<Rightarrow>
          let begin_ix = start + pos; end_ix = begin_ix + length i in
          if before_ok body begin_ix \<and> after_ok (drop end_ix body) then True
          else let start' = begin_ix + utf8_width (body ! begin_ix) in
            if length body \<le> start' then False else mentions_from body i start')"
  by pat_completeness auto
termination
proof (relation "measure (\<lambda>(body, i, start). length body - start)", goal_cases)
  case (2 body i start pos begin_ix end_ix start')
  have "0 < utf8_width (body ! begin_ix)" by simp
  with 2 show ?case by (auto simp del: utf8_width_pos)
qed simp

declare mentions_from.simps [simp del]

definition mentions_node_id :: "str \<Rightarrow> str \<Rightarrow> bool" where
  "mentions_node_id body i = (if i = [] then False else mentions_from body i 0)"

section \<open>Artifacts and passing a gate\<close>

definition validate_artifact :: "Mode \<Rightarrow> str \<Rightarrow> bool \<Rightarrow> HandoffArtifact \<Rightarrow> (DagError, unit) result" where
  "validate_artifact m i gate artifact =
     (if \<not> requires_gates m then Inr ()
      else if gate then Inr ()
      else if trim (findings artifact) = [] then
        Inl (ThinArtifact i ''deep-mode artifact requires non-empty findings'')
      else if what_i_did_not_check artifact = [] then
        Inl (ThinArtifact i (''deep-mode artifact must list '' @ quote ''what_i_did_not_check''
          @ '' (use an explicit '' @ quote ''nothing, fully covered''
          @ '' entry only when truly exhaustive)''))
      else if confidence_level artifact = None then
        Inl (ThinArtifact i (''deep-mode artifact must state a confidence of low, medium, or high (honest ''
          @ quote ''low'' @ '' is welcome: it routes follow-up work instead of penalizing you)''))
      else Inr ())"

definition GATE_COVERAGE_ENUMERATION_CAP :: nat where
  "GATE_COVERAGE_ENUMERATION_CAP = 20"

definition gate_audit_scope :: "TaskGraph \<Rightarrow> TaskNode \<Rightarrow> TaskNode list" where
  "gate_audit_scope g gate =
     filter (\<lambda>n. \<not> node_is_gate n) (List.map_filter (get g) (node_depends_on gate))"

definition addressed :: "HandoffArtifact \<Rightarrow> str \<Rightarrow> bool" where
  "addressed artifact i \<longleftrightarrow>
     mentions_node_id (findings artifact) i
     \<or> list_ex (\<lambda>q. mentions_node_id q i) (open_questions artifact)"

definition output_level :: "TaskNode \<Rightarrow> ConfidenceLevel option" where
  "output_level n = Option.bind (node_output n) confidence_level"

definition validate_gate_pass :: "TaskGraph \<Rightarrow> str \<Rightarrow> HandoffArtifact \<Rightarrow> (DagError, unit) result" where
  "validate_gate_pass g gid artifact =
     (case get g gid of None \<Rightarrow> Inr ()
      | Some gate \<Rightarrow>
          let scope = gate_audit_scope g gate in
          if scope = [] then Inr ()
          else
            let pending = node_ids (filter (\<lambda>n. \<not> is_done n) scope) in
            if pending \<noteq> [] then Inl (StaleGateScope gid pending)
            else
              let debts = node_ids (filter (\<lambda>n. \<not> addressed artifact (node_id n))
                    (filter (\<lambda>n. output_level n = Some Low) scope)) in
              if debts \<noteq> [] then Inl (UnaddressedLowConfidence gid debts)
              else
                let audited = (if length scope \<le> GATE_COVERAGE_ENUMERATION_CAP then scope
                      else filter (\<lambda>n. output_level n \<noteq> Some High) scope);
                    uncovered = node_ids (filter (\<lambda>n. \<not> addressed artifact (node_id n)) audited)
                in if uncovered \<noteq> [] then Inl (UncoveredSiblings gid uncovered) else Inr ())"

definition owned_running :: "TaskGraph \<Rightarrow> str \<Rightarrow> str \<Rightarrow> (DagError, TaskNode) result" where
  "owned_running g i actor =
     (case get g i of
        None \<Rightarrow> Inl (UnknownNode i)
      | Some n \<Rightarrow>
          if node_owner n \<noteq> Some actor then Inl (NotOwner i actor)
          else if node_status n \<noteq> Running then Inl (InvalidState i (node_status n))
          else Inr n)"

definition complete_node :: "TaskGraph \<Rightarrow> str \<Rightarrow> str \<Rightarrow> HandoffArtifact \<Rightarrow> (DagError, TaskGraph) result" where
  "complete_node g i actor artifact =
     and_then (owned_running g i actor) (\<lambda>n.
     and_then (validate_artifact (mode g) i (node_is_gate n) artifact) (\<lambda>_.
     and_then (if node_is_gate n \<and> requires_gates (mode g) then validate_gate_pass g i artifact
               else Inr ()) (\<lambda>_.
       Inr (modify g i (\<lambda>n. n\<lparr>node_status := Done, node_output := Some artifact\<rparr>)))))"

definition fail_node :: "TaskGraph \<Rightarrow> str \<Rightarrow> str \<Rightarrow> (DagError, TaskGraph) result" where
  "fail_node g i actor =
     and_then (owned_running g i actor) (\<lambda>_.
       Inr (modify g i (\<lambda>n. n\<lparr>node_status := Failed\<rparr>)))"

section \<open>Injecting gap nodes from a gate\<close>

definition inject_guard :: "TaskGraph \<Rightarrow> str \<Rightarrow> str \<Rightarrow> NodeSpec list \<Rightarrow> (DagError, TaskNode) result" where
  "inject_guard g gid actor new_nodes =
     (case get g gid of
        None \<Rightarrow> Inl (UnknownNode gid)
      | Some gate \<Rightarrow>
          if node_owner gate \<noteq> Some actor then Inl (NotOwner gid actor)
          else if \<not> node_is_gate gate then
            Inl (GateMisuse (''node '' @ quote gid @ '' is not a gate; use expand_node to decompose work''))
          else if node_status gate \<noteq> Running then Inl (InvalidState gid (node_status gate))
          else if new_nodes = [] then
            Inl (GateMisuse ''inject_from_gate requires at least one new node'')
          else Inr gate)"

definition requeue_gate :: "str list \<Rightarrow> TaskNode \<Rightarrow> TaskNode" where
  "requeue_gate ids n =
     n\<lparr>node_status := Queued, node_owner := None,
       node_depends_on := push_missing (node_depends_on n) ids\<rparr>"

definition add_join_deps :: "str list \<Rightarrow> TaskNode \<Rightarrow> TaskNode" where
  "add_join_deps ids n = n\<lparr>node_depends_on := push_missing (node_depends_on n) ids\<rparr>"

definition inject_staged :: "TaskGraph \<Rightarrow> str \<Rightarrow> TaskNode \<Rightarrow> str list \<Rightarrow> NodeSpec list \<Rightarrow> TaskGraph" where
  "inject_staged g gid gate ids new_nodes =
     (let staged = modify (push_specs g new_nodes (node_parent gate) Gap) gid (requeue_gate ids)
      in case node_parent gate of
          None \<Rightarrow> staged
        | Some p \<Rightarrow> modify staged p (add_join_deps ids))"

definition inject_from_gate ::
  "TaskGraph \<Rightarrow> str \<Rightarrow> str \<Rightarrow> NodeSpec list \<Rightarrow> (DagError, TaskGraph \<times> str list) result" where
  "inject_from_gate g gid actor new_nodes =
     and_then (inject_guard g gid actor new_nodes) (\<lambda>gate.
     and_then (try_fold (fresh_id_step g ''inject_from_gate'') new_nodes []) (\<lambda>ids.
     and_then (try_all (check_dependencies g ids) new_nodes) (\<lambda>_.
     and_then (commit_acyclic (inject_staged g gid gate ids new_nodes)) (\<lambda>g'. Inr (g', ids)))))"

definition requeue_failed :: "TaskGraph \<Rightarrow> str \<Rightarrow> (DagError, TaskGraph) result" where
  "requeue_failed g i =
     (case get g i of
        None \<Rightarrow> Inl (UnknownNode i)
      | Some n \<Rightarrow>
          if node_status n \<noteq> Failed then Inl (InvalidState i (node_status n))
          else Inr (modify g i (\<lambda>n. n\<lparr>node_status := Queued, node_owner := None\<rparr>)))"

end
