(* ===== verification/Dag_Schedule.thy ===== *)
theory Dag_Schedule
  imports Dag_Ops "HOL-Library.Product_Lexorder"
begin

text \<open>
  The scheduler of \<^verbatim>\<open>crates/jcode-plan/src/dag/schedule.rs\<close>: the ready set in scheduling
  order, dispatch, and hydration of a worker's input from the artifacts of its dependencies.
\<close>

section \<open>Definitions\<close>

definition LIGHT_MODE_SUGGESTED_WORKERS :: nat where
  "LIGHT_MODE_SUGGESTED_WORKERS = 16"

definition deps_satisfied :: "TaskGraph \<Rightarrow> TaskNode \<Rightarrow> bool" where
  "deps_satisfied g n =
     list_all (\<lambda>d. case get g d of None \<Rightarrow> False | Some m \<Rightarrow> is_done m) (node_depends_on n)"

definition ready_nodes :: "TaskGraph \<Rightarrow> TaskNode list" where
  "ready_nodes g =
     sort_key (\<lambda>n. (node_priority n, node_id n))
       (filter (\<lambda>n. node_status n = Queued \<and> deps_satisfied g n) (nodes g))"

definition dispatchable :: "TaskGraph \<Rightarrow> str \<Rightarrow> bool" where
  "dispatchable g i =
     (case get g i of None \<Rightarrow> False | Some n \<Rightarrow> node_status n = Queued \<and> deps_satisfied g n)"

definition dispatch :: "TaskGraph \<Rightarrow> str \<Rightarrow> str \<Rightarrow> TaskGraph \<times> bool" where
  "dispatch g i worker =
     (if dispatchable g i
      then (modify g i (\<lambda>n. n\<lparr>node_owner := Some worker, node_status := Running\<rparr>), True)
      else (g, False))"

fun kind_label :: "NodeKind \<Rightarrow> str" where
  "kind_label Explore = ''explore''"
| "kind_label Implement = ''implement''"
| "kind_label Verify = ''verify''"
| "kind_label Fix = ''fix''"
| "kind_label Synthesize = ''synthesize''"
| "kind_label Critique = ''critique''"

definition upstream_done :: "TaskGraph \<Rightarrow> TaskNode \<Rightarrow> TaskNode list" where
  "upstream_done g n = filter is_done (List.map_filter (get g) (node_depends_on n))"

definition input_section :: "TaskNode \<Rightarrow> str" where
  "input_section d =
     nl @ (case node_output d of
         Some a \<Rightarrow> render_section a (node_id d) (kind_label (node_kind d))
       | None \<Rightarrow> ''## '' @ node_id d @ '' ('' @ kind_label (node_kind d) @ '')'' @ nl)"

definition assemble_input :: "TaskGraph \<Rightarrow> str \<Rightarrow> str" where
  "assemble_input g i =
     (case get g i of None \<Rightarrow> []
      | Some n \<Rightarrow>
          let up = upstream_done g n in
          if up = [] then node_content n
          else node_content n @ nl @ nl @ ''# Inputs from completed dependencies'' @ nl
            @ concat (map input_section up))"

section \<open>The ready set\<close>

lemma deps_satisfied_iff:
  "deps_satisfied g n \<longleftrightarrow> (\<forall>d \<in> set (node_depends_on n). \<exists>m. get g d = Some m \<and> node_status m = Done)"
  by (auto simp: deps_satisfied_def list_all_iff is_done_def split: option.splits)

lemma set_ready_nodes:
  "set (ready_nodes g) = {n \<in> set (nodes g). node_status n = Queued \<and> deps_satisfied g n}"
  by (auto simp: ready_nodes_def)

lemma dispatchable_ready:
  assumes "distinct (node_ids (nodes g))" and "n \<in> set (ready_nodes g)"
  shows "dispatchable g (node_id n)"
proof -
  from assms(2) have n: "n \<in> set (nodes g)" "node_status n = Queued" "deps_satisfied g n"
    by (simp_all add: set_ready_nodes)
  then have "get g (node_id n) = Some n" using assms(1) by (simp add: get_distinct)
  with n show ?thesis by (simp add: dispatchable_def)
qed

end
