(* ===== verification/Dag_Sim.thy ===== *)
theory Dag_Sim
  imports Dag_Schedule
begin

text \<open>
  The deterministic driver of \<^verbatim>\<open>crates/jcode-plan/src/dag/sim.rs\<close>. A worker is a closure with
  captured state: a function of that state, the node id, its kind and the assembled input.
\<close>

section \<open>Definitions\<close>

datatype WorkerAction =
    Complete HandoffArtifact
  | ExpandInto "NodeSpec list"
  | InjectGap "NodeSpec list"
  | Fail

type_synonym 'w worker = "'w \<Rightarrow> str \<Rightarrow> NodeKind \<Rightarrow> str \<Rightarrow> 'w \<times> WorkerAction"

record SimReport =
  steps :: nat
  completed :: nat
  failed :: nat
  stalled :: bool

definition report :: "TaskGraph \<Rightarrow> nat \<Rightarrow> bool \<Rightarrow> SimReport" where
  "report g k st =
     \<lparr>steps = k, completed = length (filter is_done (nodes g)),
      failed = length (filter (\<lambda>n. node_status n = Failed) (nodes g)), stalled = st\<rparr>"

definition apply_action :: "TaskGraph \<Rightarrow> str \<Rightarrow> str \<Rightarrow> WorkerAction \<Rightarrow> (DagError, TaskGraph) result" where
  "apply_action g i name act =
     (case act of
        Complete artifact \<Rightarrow> complete_node g i name artifact
      | ExpandInto children \<Rightarrow> and_then (expand_node g i name children) (\<lambda>r. Inr (fst r))
      | InjectGap new_nodes \<Rightarrow> and_then (inject_from_gate g i name new_nodes) (\<lambda>r. Inr (fst r))
      | Fail \<Rightarrow> fail_node g i name)"

text \<open>The inner loop over one batch of ready nodes; \<open>idx\<close> is the position in the batch.\<close>

fun run_batch ::
  "nat \<Rightarrow> 'w worker \<Rightarrow> (str \<times> NodeKind) list \<Rightarrow> nat \<Rightarrow> TaskGraph \<times> 'w \<times> nat
    \<Rightarrow> (DagError, TaskGraph \<times> 'w \<times> nat) result" where
  "run_batch mw wk [] idx s = Inr s"
| "run_batch mw wk ((i, k) # rest) idx (g, w, st) =
     (let name = ''w'' @ show_nat (idx mod mw) in
      case dispatch g i name of
        (g1, False) \<Rightarrow> run_batch mw wk rest (idx + 1) (g, w, st)
      | (g1, True) \<Rightarrow>
          (case wk w i k (assemble_input g1 i) of (w', act) \<Rightarrow>
            and_then (apply_action g1 i name act) (\<lambda>g2.
              run_batch mw wk rest (idx + 1) (g2, w', st + 1))))"

definition ready_batch :: "TaskGraph \<Rightarrow> nat \<Rightarrow> (str \<times> NodeKind) list" where
  "ready_batch g mw = map (\<lambda>n. (node_id n, node_kind n)) (take mw (ready_nodes g))"

text \<open>The outer loop; \<open>None\<close> stands for a run that never returns.\<close>

partial_function (option) run_from ::
  "nat \<Rightarrow> nat \<Rightarrow> 'w worker \<Rightarrow> TaskGraph \<times> 'w \<times> nat
    \<Rightarrow> (DagError, TaskGraph \<times> SimReport) result option" where
  "run_from mw ms wk s =
     (case s of (g, w, st) \<Rightarrow>
        if all_terminal g then Some (Inr (g, report g st False))
        else if ms \<le> st then Some (Inr (g, report g st True))
        else if ready_batch g mw = [] then Some (Inr (g, report g st True))
        else (case run_batch mw wk (ready_batch g mw) 0 s of
            Inl e \<Rightarrow> Some (Inl e)
          | Inr s' \<Rightarrow> run_from mw ms wk s'))"

declare run_from.simps [code]

definition run ::
  "TaskGraph \<Rightarrow> nat \<Rightarrow> nat \<Rightarrow> 'w worker \<Rightarrow> 'w \<Rightarrow> (DagError, TaskGraph \<times> SimReport) result option" where
  "run g mw ms wk w = run_from mw ms wk (g, w, 0)"

definition deep_artifact :: "str \<Rightarrow> HandoffArtifact" where
  "deep_artifact f =
     default_artifact\<lparr>findings := f,
       what_i_did_not_check := [''nothing material; covered the stated scope''],
       confidence := Some ''high''\<rparr>"

definition audited_ids :: "str \<Rightarrow> str list" where
  "audited_ids input = map (split_first '' ('') (List.map_filter (strip_prefix ''## '') (str_lines input))"

definition gate_pass_artifact :: "str \<Rightarrow> HandoffArtifact" where
  "gate_pass_artifact input =
     (let audited = audited_ids input in
      brief (if audited = [] then ''gate passed: no audited nodes in scope''
        else ''gate passed; audited each node: '' @ join '', '' audited @ ''. No gaps remain.''))"

end
