(* ===== verification/Dag_Invariant.thy ===== *)
theory Dag_Invariant
  imports Dag_Sim
begin

text \<open>
  The invariant of the task-graph engine and its preservation by every operation, over any
  interleaving of seeds, dispatches, completions, failures, retries, expansions and gap
  injections. The invariant is stated over the lookup map of a graph.
\<close>

section \<open>The invariant\<close>

type_synonym nmap = "str \<rightharpoonup> TaskNode"

definition dep_edges :: "nmap \<Rightarrow> str rel" where
  "dep_edges M = {(u, v). u \<in> dom M \<and> (\<exists>n. M v = Some n \<and> u \<in> set (node_depends_on n))}"

text \<open>Dependencies resolve.\<close>

definition deps_closed :: "nmap \<Rightarrow> bool" where
  "deps_closed M \<longleftrightarrow> (\<forall>v n. M v = Some n \<longrightarrow> set (node_depends_on n) \<subseteq> dom M)"

text \<open>A node has an owner exactly while it is not queued.\<close>

definition owners_ok :: "nmap \<Rightarrow> bool" where
  "owners_ok M \<longleftrightarrow> (\<forall>v n. M v = Some n \<longrightarrow> (node_owner n = None \<longleftrightarrow> node_status n = Queued))"

text \<open>A finished node carries its artifact.\<close>

definition outputs_ok :: "nmap \<Rightarrow> bool" where
  "outputs_ok M \<longleftrightarrow> (\<forall>v n. M v = Some n \<longrightarrow> node_status n = Done \<longrightarrow> node_output n \<noteq> None)"

text \<open>Composites are not gates, and a composite waits for everything parented to it.\<close>

definition joins_ok :: "nmap \<Rightarrow> bool" where
  "joins_ok M \<longleftrightarrow> (\<forall>v n. M v = Some n \<longrightarrow> (node_expanded n \<longrightarrow> \<not> node_is_gate n) \<and>
     (\<forall>p. node_parent n = Some p \<longrightarrow>
        (\<exists>m. M p = Some m \<and> node_expanded m \<and> v \<in> set (node_depends_on m))))"

text \<open>Deep mode: every work node is audited by a gate of its own level. Light mode: no gates.\<close>

definition audited_ok :: "Mode \<Rightarrow> nmap \<Rightarrow> bool" where
  "audited_ok md M \<longleftrightarrow> (\<forall>v n. M v = Some n \<longrightarrow>
     (if md = Deep then
        \<not> node_is_gate n \<longrightarrow>
          (\<exists>k e. M k = Some e \<and> node_is_gate e \<and> node_parent e = node_parent n
             \<and> v \<in> set (node_depends_on e))
      else \<not> node_is_gate n))"

text \<open>The root gate is unique, nothing waits for it, and it waits for work nodes only.\<close>

definition root_gate_ok :: "nmap \<Rightarrow> bool" where
  "root_gate_ok M \<longleftrightarrow> (\<forall>k e. M k = Some e \<and> is_root_gate e \<longrightarrow>
     (\<forall>k' e'. M k' = Some e' \<and> is_root_gate e' \<longrightarrow> k' = k) \<and>
     (\<forall>v n. M v = Some n \<longrightarrow> k \<notin> set (node_depends_on n)) \<and>
     (\<forall>d \<in> set (node_depends_on e). \<exists>n. M d = Some n \<and> \<not> node_is_gate n))"

text \<open>Dataflow: a finished node, and a running one other than the root gate (which a later seed
  may widen while it runs), has only finished dependencies.\<close>

definition flow_active :: "TaskNode \<Rightarrow> bool" where
  "flow_active n \<longleftrightarrow> node_status n = Done \<or> node_status n = Running \<and> \<not> is_root_gate n"

definition flow_ok :: "nmap \<Rightarrow> bool" where
  "flow_ok M \<longleftrightarrow> (\<forall>v n. M v = Some n \<longrightarrow> flow_active n \<longrightarrow>
     (\<forall>d \<in> set (node_depends_on n). \<exists>m. M d = Some m \<and> node_status m = Done))"

definition shape_inv :: "Mode \<Rightarrow> nmap \<Rightarrow> bool" where
  "shape_inv md M \<longleftrightarrow> finite (dom M) \<and> deps_closed M \<and> acyclic (dep_edges M) \<and> joins_ok M
     \<and> audited_ok md M \<and> root_gate_ok M"

definition state_inv :: "nmap \<Rightarrow> bool" where
  "state_inv M \<longleftrightarrow> owners_ok M \<and> outputs_ok M \<and> flow_ok M"

definition engine_inv :: "TaskGraph \<Rightarrow> bool" where
  "engine_inv g \<longleftrightarrow> distinct (map node_id (nodes g)) \<and> shape_inv (mode g) (get g) \<and> state_inv (get g)"

section \<open>Facts about the lookup map\<close>

lemma dom_get: "dom (get g) = set (node_ids (nodes g))"
  using get_None by (auto simp: dom_def)

lemma finite_dom_get [simp]: "finite (dom (get g))"
  by (simp add: dom_get)

lemma dep_rel_get:
  assumes "distinct (node_ids (nodes g))"
  shows "dep_rel (nodes g) = dep_edges (get g)"
proof -
  have "(\<exists>n \<in> set (nodes g). node_id n = v \<and> u \<in> set (node_depends_on n)) \<longleftrightarrow>
      (\<exists>n. get g v = Some n \<and> u \<in> set (node_depends_on n))" for u v
    using get_distinct [OF assms] get_Some_mem get_Some_id by metis
  then show ?thesis by (auto simp: dep_rel_def dep_edges_def dom_get)
qed

lemma commit_acyclic_Inr:
  "commit_acyclic g = Inr g' \<longleftrightarrow> g' = g \<and> acyclic (dep_rel (nodes g))"
  by (auto simp: commit_acyclic_def Let_def cycle_nodes_Nil)

lemma finite_dep_edges: "finite (dom M) \<Longrightarrow> finite (dep_edges M)"
  by (rule finite_subset [of _ "dom M \<times> dom M"]) (auto simp: dep_edges_def)

lemma dep_edges_mono_node:
  "M v = Some n \<Longrightarrow> u \<in> set (node_depends_on n) \<Longrightarrow> u \<in> dom M \<Longrightarrow> (u, v) \<in> dep_edges M"
  by (auto simp: dep_edges_def)

section \<open>Every node feeds the root gate\<close>

lemma feeds_root_gate:
  assumes inv: "shape_inv Deep M" and k: "M k = Some e" "is_root_gate e"
    and v: "M v = Some n" "v \<noteq> k"
  shows "(v, k) \<in> (dep_edges M)\<^sup>+"
  using v
proof (induction v arbitrary: n rule: wf_induct [OF finite_acyclic_wf_converse,
      OF finite_dep_edges, of M])
  case 1
  show ?case using inv by (simp add: shape_inv_def)
next
  case 2
  show ?case using inv by (simp add: shape_inv_def)
next
  case (3 v)
  have jo: "joins_ok M" and ao: "audited_ok Deep M" and ro: "root_gate_ok M"
    using inv by (simp_all add: shape_inv_def)
  show ?case
  proof (cases "node_parent n")
    case None
    with 3 k ro have "\<not> node_is_gate n" unfolding root_gate_ok_def by blast
    with ao 3(2) obtain k' e' where "M k' = Some e'" "is_root_gate e'" "v \<in> set (node_depends_on e')"
      unfolding audited_ok_def using None by fastforce
    moreover from this k ro have "k' = k" unfolding root_gate_ok_def by blast
    ultimately show ?thesis using 3(2) by (auto intro!: r_into_trancl dep_edges_mono_node)
  next
    case (Some p)
    with jo 3(2) obtain m where m: "M p = Some m" "node_expanded m" "v \<in> set (node_depends_on m)"
      unfolding joins_ok_def by blast
    then have e: "(v, p) \<in> dep_edges M" using 3(2) by (auto intro: dep_edges_mono_node)
    have "p \<noteq> k" using jo m k unfolding joins_ok_def by fastforce
    with 3(1) e m(1) have "(p, k) \<in> (dep_edges M)\<^sup>+" by blast
    with e show ?thesis by (rule trancl_into_trancl2)
  qed
qed

text \<open>Finished work is closed under dependencies, so a finished root gate certifies everything.\<close>

lemma flow_step_back:
  assumes "flow_ok M" and "(u, v) \<in> dep_edges M" and "M v = Some n" and "node_status n = Done"
  shows "\<exists>m. M u = Some m \<and> node_status m = Done"
proof -
  from assms(2,3) have "u \<in> set (node_depends_on n)" by (simp add: dep_edges_def)
  with assms(1,3,4) show ?thesis by (simp add: flow_ok_def flow_active_def)
qed

lemma flow_done_back:
  assumes "flow_ok M" and "(u, v) \<in> (dep_edges M)\<^sup>+"
  shows "M v = Some n \<Longrightarrow> node_status n = Done \<Longrightarrow> \<exists>m. M u = Some m \<and> node_status m = Done"
  using assms(2)
proof (induction arbitrary: n rule: trancl_induct)
  case (base v)
  with flow_step_back [OF assms(1)] show ?case by simp
next
  case (step v w)
  with flow_step_back [OF assms(1), of v w n] show ?case by blast
qed

lemma root_gate_certifies:
  assumes "shape_inv Deep M" and "flow_ok M" and "M k = Some e" and "is_root_gate e"
    and "node_status e = Done" and "M v = Some n"
  shows "node_status n = Done"
proof (cases "v = k")
  case False
  with assms have "(v, k) \<in> (dep_edges M)\<^sup>+" by (blast intro: feeds_root_gate)
  with flow_done_back [OF assms(2)] assms show ?thesis by fastforce
qed (use assms in simp)

section \<open>Operations that keep the shape\<close>

definition same_shape :: "TaskNode \<Rightarrow> TaskNode \<Rightarrow> bool" where
  "same_shape n n' \<longleftrightarrow> node_depends_on n' = node_depends_on n \<and> node_parent n' = node_parent n
     \<and> node_expanded n' = node_expanded n \<and> node_is_gate n' = node_is_gate n"

definition reshaped :: "nmap \<Rightarrow> nmap \<Rightarrow> bool" where
  "reshaped M M' \<longleftrightarrow>
     (\<forall>v n'. M' v = Some n' \<longrightarrow> (\<exists>n. M v = Some n \<and> same_shape n n')) \<and>
     (\<forall>v n. M v = Some n \<longrightarrow> (\<exists>n'. M' v = Some n' \<and> same_shape n n'))"

lemma reshaped_old: "reshaped M M' \<Longrightarrow> M' v = Some n' \<Longrightarrow> \<exists>n. M v = Some n \<and> same_shape n n'"
  by (simp add: reshaped_def)

lemma reshaped_new: "reshaped M M' \<Longrightarrow> M v = Some n \<Longrightarrow> \<exists>n'. M' v = Some n' \<and> same_shape n n'"
  by (simp add: reshaped_def)

lemma reshaped_dom:
  assumes "reshaped M M'"
  shows "dom M' = dom M"
  using reshaped_old [OF assms] reshaped_new [OF assms] by blast

lemma reshaped_dep_edges:
  assumes r: "reshaped M M'"
  shows "dep_edges M' = dep_edges M"
proof -
  have "(\<exists>n. M' v = Some n \<and> u \<in> set (node_depends_on n)) \<longleftrightarrow>
      (\<exists>n. M v = Some n \<and> u \<in> set (node_depends_on n))" for u v
    using reshaped_old [OF r, of v] reshaped_new [OF r, of v] by (auto simp: same_shape_def)
  then show ?thesis by (simp add: dep_edges_def reshaped_dom [OF r])
qed

lemma reshaped_deps_closed:
  assumes r: "reshaped M M'" and "deps_closed M"
  shows "deps_closed M'"
  using reshaped_old [OF r] assms(2)
  by (fastforce simp: deps_closed_def reshaped_dom [OF r] same_shape_def)

lemma reshaped_joins_ok:
  assumes r: "reshaped M M'" and ok: "joins_ok M"
  shows "joins_ok M'"
  unfolding joins_ok_def
proof (intro allI impI conjI)
  fix v n'
  assume "M' v = Some n'"
  then obtain n where n: "M v = Some n" "same_shape n n'" using reshaped_old [OF r] by blast
  with ok have j: "node_expanded n \<longrightarrow> \<not> node_is_gate n"
    "\<And>p. node_parent n = Some p \<Longrightarrow> \<exists>m. M p = Some m \<and> node_expanded m \<and> v \<in> set (node_depends_on m)"
    unfolding joins_ok_def by blast+
  from j(1) n(2) show "\<not> node_is_gate n'" if "node_expanded n'" using that by (simp add: same_shape_def)
  fix p
  assume "node_parent n' = Some p"
  with n(2) j(2) [of p] obtain m where m: "M p = Some m" "node_expanded m" "v \<in> set (node_depends_on m)"
    by (auto simp: same_shape_def)
  with reshaped_new [OF r, of p m] show "\<exists>m. M' p = Some m \<and> node_expanded m \<and> v \<in> set (node_depends_on m)"
    by (auto simp: same_shape_def)
qed

lemma reshaped_audited_ok:
  assumes r: "reshaped M M'" and ok: "audited_ok md M"
  shows "audited_ok md M'"
  unfolding audited_ok_def
proof (intro allI impI)
  fix v n'
  assume "M' v = Some n'"
  then obtain n where n: "M v = Some n" "same_shape n n'" using reshaped_old [OF r] by blast
  show "if md = Deep then \<not> node_is_gate n' \<longrightarrow> (\<exists>k e. M' k = Some e \<and> node_is_gate e
      \<and> node_parent e = node_parent n' \<and> v \<in> set (node_depends_on e)) else \<not> node_is_gate n'"
  proof (cases "md = Deep \<and> \<not> node_is_gate n'")
    case True
    with ok n obtain k e where "M k = Some e" "node_is_gate e" "node_parent e = node_parent n"
      "v \<in> set (node_depends_on e)"
      unfolding audited_ok_def same_shape_def by (metis (full_types))
    with reshaped_new [OF r, of k e] n(2) True show ?thesis by (fastforce simp: same_shape_def)
  next
    case False
    with ok n show ?thesis unfolding audited_ok_def same_shape_def by (metis (full_types))
  qed
qed

lemma reshaped_root_gate_ok:
  assumes r: "reshaped M M'" and ok: "root_gate_ok M"
  shows "root_gate_ok M'"
  unfolding root_gate_ok_def
proof (intro allI impI conjI ballI)
  fix k e'
  assume k: "M' k = Some e' \<and> is_root_gate e'"
  then obtain e where e: "M k = Some e" "is_root_gate e" "node_depends_on e' = node_depends_on e"
    using reshaped_old [OF r] by (force simp: same_shape_def)
  with ok have q: "\<And>k' e'. M k' = Some e' \<Longrightarrow> is_root_gate e' \<Longrightarrow> k' = k"
    "\<And>v n. M v = Some n \<Longrightarrow> k \<notin> set (node_depends_on n)"
    "\<And>d. d \<in> set (node_depends_on e) \<Longrightarrow> \<exists>n. M d = Some n \<and> \<not> node_is_gate n"
    unfolding root_gate_ok_def by blast+
  show "k' = k" if "M' k' = Some e2 \<and> is_root_gate e2" for k' e2
    using that reshaped_old [OF r, of k' e2] q(1) by (force simp: same_shape_def)
  show "k \<notin> set (node_depends_on n)" if "M' v = Some n" for v n
    using that reshaped_old [OF r, of v n] q(2) by (force simp: same_shape_def)
  show "\<exists>n. M' d = Some n \<and> \<not> node_is_gate n" if "d \<in> set (node_depends_on e')" for d
    using that e(3) q(3) [of d] reshaped_new [OF r, of d] by (force simp: same_shape_def)
qed

lemma reshaped_shape_inv:
  assumes "reshaped M M'" and "shape_inv md M"
  shows "shape_inv md M'"
  using assms(2) reshaped_deps_closed [OF assms(1)] reshaped_joins_ok [OF assms(1)]
    reshaped_audited_ok [OF assms(1)] reshaped_root_gate_ok [OF assms(1)]
  by (simp add: shape_inv_def reshaped_dom [OF assms(1)] reshaped_dep_edges [OF assms(1)])

lemma reshaped_upd:
  assumes "M i = Some n" and "same_shape n n'"
  shows "reshaped M (M(i \<mapsto> n'))"
  using assms by (auto simp: reshaped_def same_shape_def)

text \<open>One node changes its state but not its shape.\<close>

lemma engine_inv_modify:
  assumes inv: "engine_inv g" and n: "get g i = Some n" and sh: "\<And>n. same_shape n (f n)"
    and key: "\<And>n. node_id (f n) = node_id n"
    and own: "node_owner (f n) = None \<longleftrightarrow> node_status (f n) = Queued"
    and out: "node_status (f n) = Done \<Longrightarrow> node_output (f n) \<noteq> None"
    and nd: "node_status n = Done \<Longrightarrow> node_status (f n) = Done"
    and act: "flow_active (f n) \<Longrightarrow>
      \<forall>d \<in> set (node_depends_on n). \<exists>m. get g d = Some m \<and> node_status m = Done"
  shows "engine_inv (modify g i f)"
proof -
  let ?M = "get g"
  have M': "get (modify g i f) = ?M(i \<mapsto> f n)"
    using get_modify [where f = f and g = g and i = i, OF key] n by auto
  have d: "\<exists>m. (?M(i \<mapsto> f n)) d = Some m \<and> node_status m = Done"
    if "?M d = Some m" "node_status m = Done" for d m
    using that n nd by auto
  have "flow_ok (?M(i \<mapsto> f n))"
    unfolding flow_ok_def
  proof (intro allI impI ballI)
    fix v x y
    assume v: "(?M(i \<mapsto> f n)) v = Some x" and a: "flow_active x" and y: "y \<in> set (node_depends_on x)"
    have "\<exists>m. ?M y = Some m \<and> node_status m = Done"
    proof (cases "v = i")
      case True
      with v a y act sh [of n] show ?thesis by (auto simp: same_shape_def)
    next
      case False
      with v a y inv show ?thesis by (auto simp: engine_inv_def state_inv_def flow_ok_def)
    qed
    with d show "\<exists>m. (?M(i \<mapsto> f n)) y = Some m \<and> node_status m = Done" by blast
  qed
  moreover have "owners_ok (?M(i \<mapsto> f n))" "outputs_ok (?M(i \<mapsto> f n))"
    using inv own out by (auto simp: engine_inv_def state_inv_def owners_ok_def outputs_ok_def)
  moreover have "shape_inv (mode g) (?M(i \<mapsto> f n))"
    using reshaped_shape_inv [OF reshaped_upd [where M = ?M and i = i and n = n and n' = "f n"]] n sh inv by (simp add: engine_inv_def)
  ultimately show ?thesis
    using inv node_ids_modify [where f = f and g = g and i = i, OF key]
    by (simp add: engine_inv_def state_inv_def M') (simp add: modify_def)
qed

lemma dispatch_inv:
  assumes "engine_inv g" and "dispatch g i w = (g', b)"
  shows "engine_inv g'"
proof (cases "dispatchable g i")
  case False
  with assms show ?thesis by (simp add: dispatch_def)
next
  case True
  then obtain n where n: "get g i = Some n" "node_status n = Queued" "deps_satisfied g n"
    by (auto simp: dispatchable_def split: option.splits)
  from assms True have g': "g' = modify g i (\<lambda>n. n\<lparr>node_owner := Some w, node_status := Running\<rparr>)"
    by (simp add: dispatch_def)
  show ?thesis
    unfolding g'
    by (rule engine_inv_modify [OF assms(1) n(1)])
      (use n in \<open>auto simp: same_shape_def deps_satisfied_iff\<close>)
qed

lemma owned_running_Inr:
  "owned_running g i a = Inr n \<longleftrightarrow>
    get g i = Some n \<and> node_owner n = Some a \<and> node_status n = Running"
  by (auto simp: owned_running_def split: option.splits if_splits)

lemma fail_node_inv:
  assumes "engine_inv g" and "fail_node g i a = Inr g'"
  shows "engine_inv g'"
proof -
  from assms(2) obtain n where n: "get g i = Some n" "node_owner n = Some a" "node_status n = Running"
    and g': "g' = modify g i (\<lambda>n. n\<lparr>node_status := Failed\<rparr>)"
    by (auto simp: fail_node_def and_then_eq_Inr owned_running_Inr)
  show ?thesis
    unfolding g' by (rule engine_inv_modify [OF assms(1) n(1)])
      (use n in \<open>auto simp: same_shape_def flow_active_def\<close>)
qed

lemma requeue_failed_inv:
  assumes "engine_inv g" and "requeue_failed g i = Inr g'"
  shows "engine_inv g'"
proof -
  from assms(2) obtain n where n: "get g i = Some n" "node_status n = Failed"
    and g': "g' = modify g i (\<lambda>n. n\<lparr>node_status := Queued, node_owner := None\<rparr>)"
    by (auto simp: requeue_failed_def split: option.splits if_splits)
  show ?thesis
    unfolding g' by (rule engine_inv_modify [OF assms(1) n(1)])
      (use n in \<open>auto simp: same_shape_def flow_active_def\<close>)
qed

text \<open>A gate that passes in deep mode has only finished work in its audit scope.\<close>

lemma gate_pass_scope_done:
  assumes "validate_gate_pass g k a = Inr ()" and "get g k = Some e"
    and "d \<in> set (node_depends_on e)" and "get g d = Some m" and "\<not> node_is_gate m"
  shows "node_status m = Done"
proof -
  have "m \<in> set (gate_audit_scope g e)"
    using assms(3-5) by (auto simp: gate_audit_scope_def List.map_filter_def image_iff)
  with assms(1,2) show ?thesis
    by (auto simp: validate_gate_pass_def Let_def filter_empty_conv is_done_def split: if_splits)
qed

lemma complete_node_Inr:
  assumes "complete_node g i a art = Inr g'"
  obtains n where "get g i = Some n" "node_owner n = Some a" "node_status n = Running"
    "validate_artifact (mode g) i (node_is_gate n) art = Inr ()"
    "node_is_gate n \<Longrightarrow> mode g = Deep \<Longrightarrow> validate_gate_pass g i art = Inr ()"
    "g' = modify g i (\<lambda>n. n\<lparr>node_status := Done, node_output := Some art\<rparr>)"
  using assms unfolding complete_node_def and_then_eq_Inr owned_running_Inr
  by (cases "mode g") (auto split: if_splits)

lemma complete_node_inv:
  assumes inv: "engine_inv g" and "complete_node g i a art = Inr g'"
  shows "engine_inv g'"
proof -
  from assms(2) obtain n where n: "get g i = Some n" "node_owner n = Some a" "node_status n = Running"
    and gp: "node_is_gate n \<Longrightarrow> mode g = Deep \<Longrightarrow> validate_gate_pass g i art = Inr ()"
    and g': "g' = modify g i (\<lambda>n. n\<lparr>node_status := Done, node_output := Some art\<rparr>)"
    by (metis complete_node_Inr)
  have "\<exists>m. get g d = Some m \<and> node_status m = Done" if d: "d \<in> set (node_depends_on n)" for d
  proof (cases "is_root_gate n")
    case True
    then have "mode g = Deep"
      using inv n(1) by (cases "mode g") (auto simp: engine_inv_def shape_inv_def audited_ok_def)
    moreover obtain m where "get g d = Some m" "\<not> node_is_gate m"
      using inv n(1) True d unfolding engine_inv_def shape_inv_def root_gate_ok_def by blast
    ultimately show ?thesis using gp True gate_pass_scope_done n(1) d by blast
  next
    case False
    with n(3) have "flow_active n" by (simp add: flow_active_def)
    with inv n(1) d show ?thesis unfolding engine_inv_def state_inv_def flow_ok_def by blast
  qed
  then show ?thesis
    unfolding g' by (intro engine_inv_modify [OF inv n(1)])
      (use n in \<open>auto simp: same_shape_def\<close>)
qed

end
