(* ===== verification/Dag_Growth.thy ===== *)
theory Dag_Growth
  imports Dag_Invariant
begin

text \<open>
  Preservation of the engine invariant by the operations that add nodes: seeding, expansion
  and gap injection. They share one form: existing nodes gain dependencies on new ones.
\<close>

section \<open>Operations that grow the graph\<close>

text \<open>Existing nodes are changed by \<open>h\<close>, the nodes \<open>K\<close> are appended.\<close>

definition evolve :: "nmap \<Rightarrow> (str \<Rightarrow> TaskNode \<Rightarrow> TaskNode) \<Rightarrow> TaskNode list \<Rightarrow> nmap" where
  "evolve M h K =
     (\<lambda>j. case M j of Some n \<Rightarrow> Some (h j n) | None \<Rightarrow> find (\<lambda>x. node_id x = j) K)"

lemma evolve_old: "M v = Some n \<Longrightarrow> evolve M h K v = Some (h v n)"
  by (simp add: evolve_def)

lemma evolve_new:
  assumes "evolve M h K v = Some x" and "v \<notin> dom M"
  shows "x \<in> set K" and "node_id x = v"
proof -
  have "find (\<lambda>x. node_id x = v) K = Some x"
    using assms by (auto simp: evolve_def split: option.splits)
  then show "x \<in> set K" "node_id x = v" by (auto dest!: find_eq_Some_mem)
qed

lemma evolve_mem:
  assumes "x \<in> set K" and "distinct (node_ids K)" and "node_id x \<notin> dom M"
  shows "evolve M h K (node_id x) = Some x"
  using assms find_distinct_key [of node_id K x] by (auto simp: evolve_def split: option.splits)

lemma dom_evolve: "dom (evolve M h K) = dom M \<union> set (node_ids K)"
proof -
  have "evolve M h K v = None \<longleftrightarrow> M v = None \<and> v \<notin> set (node_ids K)" for v
    by (cases "M v") (auto simp: evolve_def find_is_none)
  then show ?thesis by (simp add: set_eq_iff domIff)
qed

text \<open>The conditions under which a growth step keeps the shape; \<open>A v\<close> are the dependencies that
  the existing node \<open>v\<close> gains.\<close>

definition grown_old ::
  "nmap \<Rightarrow> (str \<Rightarrow> TaskNode \<Rightarrow> TaskNode) \<Rightarrow> (str \<Rightarrow> str set) \<Rightarrow> TaskNode list \<Rightarrow> str \<Rightarrow> TaskNode \<Rightarrow> bool" where
  "grown_old M h A K v n \<longleftrightarrow>
     set (node_depends_on (h v n)) = set (node_depends_on n) \<union> A v
     \<and> A v \<subseteq> set (node_ids K) \<and> node_parent (h v n) = node_parent n
     \<and> node_is_gate (h v n) = node_is_gate n \<and> (node_expanded n \<longrightarrow> node_expanded (h v n))
     \<and> (node_expanded (h v n) \<longrightarrow> \<not> node_is_gate n)
     \<and> (is_root_gate n \<longrightarrow> (\<forall>x \<in> set K. node_id x \<in> A v \<longrightarrow> \<not> node_is_gate x))
     \<and> node_content (h v n) = node_content n \<and> node_kind (h v n) = node_kind n
     \<and> node_priority (h v n) = node_priority n \<and> node_origin (h v n) = node_origin n
     \<and> (\<not> node_is_gate n \<longrightarrow> (\<forall>x \<in> set K. node_id x \<in> A v \<longrightarrow> node_parent x = Some v))"

definition grown_new ::
  "Mode \<Rightarrow> nmap \<Rightarrow> (str \<Rightarrow> TaskNode \<Rightarrow> TaskNode) \<Rightarrow> (str \<Rightarrow> str set) \<Rightarrow> TaskNode list \<Rightarrow> TaskNode \<Rightarrow> bool" where
  "grown_new md M h A K x \<longleftrightarrow>
     \<not> node_expanded x \<and> set (node_depends_on x) \<subseteq> dom M \<union> set (node_ids K)
     \<and> \<not> is_root_gate x \<and> (md = Light \<longrightarrow> \<not> node_is_gate x)
     \<and> (\<forall>p. node_parent x = Some p \<longrightarrow>
          (\<exists>m. M p = Some m \<and> node_expanded (h p m) \<and> node_id x \<in> A p))
     \<and> (md = Deep \<longrightarrow> (\<exists>w \<in> dom M. node_id x \<in> A w))
     \<and> (md = Deep \<and> \<not> node_is_gate x \<longrightarrow>
          (\<exists>k e. M k = Some e \<and> node_is_gate e \<and> node_parent e = node_parent x \<and> node_id x \<in> A k)
        \<or> (\<exists>e \<in> set K. node_is_gate e \<and> node_parent e = node_parent x
             \<and> node_id x \<in> set (node_depends_on e)))"

definition grows ::
  "Mode \<Rightarrow> nmap \<Rightarrow> (str \<Rightarrow> TaskNode \<Rightarrow> TaskNode) \<Rightarrow> (str \<Rightarrow> str set) \<Rightarrow> TaskNode list \<Rightarrow> bool" where
  "grows md M h A K \<longleftrightarrow>
     distinct (node_ids K) \<and> set (node_ids K) \<inter> dom M = {} \<and>
     (\<forall>v n. M v = Some n \<longrightarrow> grown_old M h A K v n) \<and> (\<forall>x \<in> set K. grown_new md M h A K x)"

lemma grows_old:
  assumes "grows md M h A K" and "M v = Some n"
  shows "set (node_depends_on (h v n)) = set (node_depends_on n) \<union> A v"
    "A v \<subseteq> set (node_ids K)" "node_parent (h v n) = node_parent n"
    "node_is_gate (h v n) = node_is_gate n" "node_expanded n \<Longrightarrow> node_expanded (h v n)"
    "node_expanded (h v n) \<Longrightarrow> \<not> node_is_gate n"
    "is_root_gate n \<Longrightarrow> x \<in> set K \<Longrightarrow> node_id x \<in> A v \<Longrightarrow> \<not> node_is_gate x"
    "node_content (h v n) = node_content n" "node_kind (h v n) = node_kind n"
    "node_priority (h v n) = node_priority n" "node_origin (h v n) = node_origin n"
    "\<not> node_is_gate n \<Longrightarrow> x \<in> set K \<Longrightarrow> node_id x \<in> A v \<Longrightarrow> node_parent x = Some v"
proof -
  have "grown_old M h A K v n" using assms by (simp add: grows_def)
  note g = this [unfolded grown_old_def]
  show "set (node_depends_on (h v n)) = set (node_depends_on n) \<union> A v"
    "A v \<subseteq> set (node_ids K)" "node_parent (h v n) = node_parent n"
    "node_is_gate (h v n) = node_is_gate n" "node_expanded n \<Longrightarrow> node_expanded (h v n)"
    "node_expanded (h v n) \<Longrightarrow> \<not> node_is_gate n"
    "is_root_gate n \<Longrightarrow> x \<in> set K \<Longrightarrow> node_id x \<in> A v \<Longrightarrow> \<not> node_is_gate x"
    "node_content (h v n) = node_content n" "node_kind (h v n) = node_kind n"
    "node_priority (h v n) = node_priority n" "node_origin (h v n) = node_origin n"
    "\<not> node_is_gate n \<Longrightarrow> x \<in> set K \<Longrightarrow> node_id x \<in> A v \<Longrightarrow> node_parent x = Some v"
    using g by blast+
qed

lemma grows_new:
  assumes "grows md M h A K" and "x \<in> set K"
  shows "\<not> node_expanded x" "set (node_depends_on x) \<subseteq> dom M \<union> set (node_ids K)"
    "\<not> is_root_gate x" "md = Light \<Longrightarrow> \<not> node_is_gate x"
    "node_parent x = Some p \<Longrightarrow> \<exists>m. M p = Some m \<and> node_expanded (h p m) \<and> node_id x \<in> A p"
    "md = Deep \<Longrightarrow> \<exists>w \<in> dom M. node_id x \<in> A w"
    "md = Deep \<Longrightarrow> \<not> node_is_gate x \<Longrightarrow>
       (\<exists>k e. M k = Some e \<and> node_is_gate e \<and> node_parent e = node_parent x \<and> node_id x \<in> A k)
       \<or> (\<exists>e \<in> set K. node_is_gate e \<and> node_parent e = node_parent x
            \<and> node_id x \<in> set (node_depends_on e))"
proof -
  have "grown_new md M h A K x" using assms by (simp add: grows_def)
  note g = this [unfolded grown_new_def]
  show "\<not> node_expanded x" "set (node_depends_on x) \<subseteq> dom M \<union> set (node_ids K)"
    "\<not> is_root_gate x" "md = Light \<Longrightarrow> \<not> node_is_gate x"
    "node_parent x = Some p \<Longrightarrow> \<exists>m. M p = Some m \<and> node_expanded (h p m) \<and> node_id x \<in> A p"
    "md = Deep \<Longrightarrow> \<exists>w \<in> dom M. node_id x \<in> A w"
    "md = Deep \<Longrightarrow> \<not> node_is_gate x \<Longrightarrow>
       (\<exists>k e. M k = Some e \<and> node_is_gate e \<and> node_parent e = node_parent x \<and> node_id x \<in> A k)
       \<or> (\<exists>e \<in> set K. node_is_gate e \<and> node_parent e = node_parent x
            \<and> node_id x \<in> set (node_depends_on e))"
    using g by blast+
qed

lemma grows_fresh:
  assumes "grows md M h A K"
  shows "distinct (node_ids K)" and "x \<in> set K \<Longrightarrow> node_id x \<notin> dom M"
  using assms by (auto simp: grows_def)

lemma grows_cases:
  assumes "evolve M h K v = Some n'"
  obtains n where "M v = Some n" "n' = h v n" | "v \<notin> dom M" "n' \<in> set K" "node_id n' = v"
  using assms evolve_new [OF assms] evolve_old [of M v] by (cases "M v") auto

lemma grows_deps_closed:
  assumes gr: "grows md M h A K" and "deps_closed M"
  shows "deps_closed (evolve M h K)"
  unfolding deps_closed_def dom_evolve
proof (intro allI impI)
  fix v n'
  assume "evolve M h K v = Some n'"
  then show "set (node_depends_on n') \<subseteq> dom M \<union> set (node_ids K)"
  proof (cases rule: grows_cases)
    case (1 n)
    with grows_old(1,2) [OF gr 1(1)] assms(2) show ?thesis unfolding deps_closed_def by blast
  next
    case 2
    with grows_new(2) [OF gr 2(2)] show ?thesis by simp
  qed
qed

lemma grows_joins_ok:
  assumes gr: "grows md M h A K" and "joins_ok M"
  shows "joins_ok (evolve M h K)"
  unfolding joins_ok_def
proof (intro allI impI conjI)
  fix v n'
  assume e: "evolve M h K v = Some n'"
  then show "\<not> node_is_gate n'" if "node_expanded n'"
  proof (cases rule: grows_cases)
    case (1 n)
    with grows_old(4,6) [OF gr 1(1)] that show ?thesis by simp
  next
    case 2
    with grows_new(1) [OF gr 2(2)] that show ?thesis by simp
  qed
  fix p
  assume p: "node_parent n' = Some p"
  from e show "\<exists>m. evolve M h K p = Some m \<and> node_expanded m \<and> v \<in> set (node_depends_on m)"
  proof (cases rule: grows_cases)
    case (1 n)
    with p have "node_parent n = Some p" using grows_old(3) [OF gr 1(1)] by simp
    with 1(1) assms(2) obtain m
      where m: "M p = Some m" "node_expanded m" "v \<in> set (node_depends_on m)"
      unfolding joins_ok_def by blast
    with grows_old(1,5) [OF gr m(1)] show ?thesis by (simp add: evolve_old)
  next
    case 2
    with p grows_new(5) [OF gr 2(2), of p] obtain m
      where m: "M p = Some m" "node_expanded (h p m)" "v \<in> A p" by blast
    with grows_old(1) [OF gr m(1)] show ?thesis by (simp add: evolve_old)
  qed
qed

lemma grows_audited_ok:
  assumes gr: "grows md M h A K" and "audited_ok md M"
  shows "audited_ok md (evolve M h K)"
  unfolding audited_ok_def
proof (intro allI impI)
  fix v n'
  assume e: "evolve M h K v = Some n'"
  show "if md = Deep then \<not> node_is_gate n' \<longrightarrow> (\<exists>k e. evolve M h K k = Some e \<and> node_is_gate e
      \<and> node_parent e = node_parent n' \<and> v \<in> set (node_depends_on e)) else \<not> node_is_gate n'"
  proof (cases md)
    case Light
    from e have "\<not> node_is_gate n'"
    proof (cases rule: grows_cases)
      case (1 n)
      with assms(2) Light grows_old(4) [OF gr 1(1)] show ?thesis
        unfolding audited_ok_def by auto
    next
      case 2
      with grows_new(4) [OF gr 2(2)] Light show ?thesis by simp
    qed
    with Light show ?thesis by simp
  next
    case Deep
    have "\<exists>k e. evolve M h K k = Some e \<and> node_is_gate e \<and> node_parent e = node_parent n'
        \<and> v \<in> set (node_depends_on e)" if ng: "\<not> node_is_gate n'"
      using e
    proof (cases rule: grows_cases)
      case (1 n)
      with ng have "\<not> node_is_gate n" using grows_old(4) [OF gr 1(1)] by simp
      with 1(1) assms(2) Deep obtain k e where
        ke: "M k = Some e" "node_is_gate e" "node_parent e = node_parent n" "v \<in> set (node_depends_on e)"
        unfolding audited_ok_def by (metis (full_types))
      then show ?thesis
        using grows_old(1,3,4) [OF gr ke(1)] 1 grows_old(3) [OF gr 1(1)] evolve_old [of M k e h K] by auto
    next
      case 2
      from grows_new(7) [OF gr 2(2) Deep ng] show ?thesis
      proof (elim disjE exE bexE conjE)
        fix k e
        assume k: "M k = Some e" "node_is_gate e" "node_parent e = node_parent n'" "node_id n' \<in> A k"
        then show ?thesis
          using grows_old(1,3,4) [OF gr k(1)] evolve_old [of M k e h K] 2 by auto
      next
        fix x
        assume x: "x \<in> set K" "node_is_gate x" "node_parent x = node_parent n'"
          "node_id n' \<in> set (node_depends_on x)"
        then have "evolve M h K (node_id x) = Some x"
          using grows_fresh [OF gr] by (intro evolve_mem) auto
        with x 2 show ?thesis by auto
      qed
    qed
    with Deep show ?thesis by simp
  qed
qed

lemma grows_dep_edges: "grows md M h A K \<Longrightarrow> dep_edges M \<subseteq> dep_edges (evolve M h K)"
proof
  fix e
  assume gr: "grows md M h A K" and "e \<in> dep_edges M"
  then obtain u v n where e: "e = (u, v)" "u \<in> dom M" "M v = Some n" "u \<in> set (node_depends_on n)"
    by (auto simp: dep_edges_def)
  with grows_old(1) [OF gr e(3)] have "evolve M h K v = Some (h v n)" "u \<in> set (node_depends_on (h v n))"
    by (auto simp: evolve_old)
  with e show "e \<in> dep_edges (evolve M h K)" by (auto simp: dep_edges_def dom_evolve)
qed

text \<open>A new dependency on the root gate would close a cycle, because every node feeds the gate.\<close>

lemma grows_no_root_gate_dep:
  assumes gr: "grows md M h A K" and inv: "shape_inv md M"
    and ac: "acyclic (dep_edges (evolve M h K))"
    and k: "M k = Some e" "is_root_gate e" and v: "evolve M h K v = Some n'"
  shows "k \<notin> set (node_depends_on n')"
proof
  assume dep: "k \<in> set (node_depends_on n')"
  have md: "md = Deep"
    using inv k by (cases md) (auto simp: shape_inv_def audited_ok_def)
  from v show False
  proof (cases rule: grows_cases)
    case (1 n)
    have "k \<notin> set (node_depends_on n)"
      using inv k 1(1) unfolding shape_inv_def root_gate_ok_def by blast
    moreover have "k \<notin> A v"
      using grows_old(2) [OF gr 1(1)] gr k(1) unfolding grows_def by blast
    ultimately show False using dep 1(2) grows_old(1) [OF gr 1(1)] by simp
  next
    case 2
    let ?E = "dep_edges (evolve M h K)"
    obtain w m where w: "M w = Some m" "node_id n' \<in> A w"
      using grows_new(6) [OF gr 2(2) md] by auto
    have "v \<in> dom (evolve M h K)" using v by auto
    then have vw: "(v, w) \<in> ?E"
      using w 2(3) grows_old(1) [OF gr w(1)] by (auto simp: dep_edges_def evolve_old)
    have "(v, k) \<in> ?E\<^sup>+"
    proof (cases "w = k")
      case False
      with inv md k w(1) have "(w, k) \<in> (dep_edges M)\<^sup>+" by (blast intro: feeds_root_gate)
      then have "(w, k) \<in> ?E\<^sup>+" using grows_dep_edges [OF gr] by (meson trancl_mono)
      with vw show ?thesis by (rule trancl_into_trancl2)
    qed (use vw in simp)
    moreover have "(k, v) \<in> ?E"
      using dep v k(1) by (auto simp: dep_edges_def dom_evolve)
    ultimately show False using ac by (meson acyclic_def trancl_into_trancl)
  qed
qed

lemma grows_root_gate_ok:
  assumes gr: "grows md M h A K" and inv: "shape_inv md M"
    and ac: "acyclic (dep_edges (evolve M h K))"
  shows "root_gate_ok (evolve M h K)"
proof -
  have ro: "root_gate_ok M" using inv by (simp add: shape_inv_def)
  have old: "\<exists>e. M k = Some e \<and> is_root_gate e \<and> e' = h k e"
    if "evolve M h K k = Some e'" "is_root_gate e'" for k e'
    using that(1)
  proof (cases rule: grows_cases)
    case (1 n)
    with that(2) grows_old(3,4) [OF gr 1(1)] show ?thesis by auto
  next
    case 2
    with that(2) grows_new(3) [OF gr 2(2)] show ?thesis by simp
  qed
  show ?thesis
    unfolding root_gate_ok_def
  proof (intro allI impI conjI ballI)
    fix k e'
    assume "evolve M h K k = Some e' \<and> is_root_gate e'"
    with old obtain e where e: "M k = Some e" "is_root_gate e" "e' = h k e" by blast
    show "k' = k" if "evolve M h K k' = Some e2 \<and> is_root_gate e2" for k' e2
      using old [of k' e2] that ro e unfolding root_gate_ok_def by blast
    show "k \<notin> set (node_depends_on n)" if "evolve M h K v = Some n" for v n
      by (rule grows_no_root_gate_dep [OF gr inv ac e(1,2) that])
    fix d
    assume "d \<in> set (node_depends_on e')"
    then consider "d \<in> set (node_depends_on e)" | "d \<in> A k"
      using e(3) grows_old(1) [OF gr e(1)] by auto
    then show "\<exists>n. evolve M h K d = Some n \<and> \<not> node_is_gate n"
    proof cases
      case 1
      with ro e obtain n where n: "M d = Some n" "\<not> node_is_gate n"
        unfolding root_gate_ok_def by blast
      with grows_old(4) [OF gr n(1)] show ?thesis by (auto simp: evolve_old)
    next
      case 2
      with grows_old(2) [OF gr e(1)] obtain x where x: "x \<in> set K" "d = node_id x" by auto
      with grows_old(7) [OF gr e(1,2)] 2 have "\<not> node_is_gate x" by blast
      with x grows_fresh [OF gr] show ?thesis by (auto intro: evolve_mem)
    qed
  qed
qed

lemma grows_shape_inv:
  assumes "grows md M h A K" and "shape_inv md M" and "acyclic (dep_edges (evolve M h K))"
  shows "shape_inv md (evolve M h K)"
  using assms grows_deps_closed grows_joins_ok grows_audited_ok grows_root_gate_ok
  by (fastforce simp: shape_inv_def dom_evolve)

text \<open>States: a changed node is queued again, or keeps its state and, if it is active, its
  dependencies.\<close>

definition settled :: "TaskNode \<Rightarrow> TaskNode \<Rightarrow> bool" where
  "settled n n' \<longleftrightarrow>
     node_owner n' = None \<and> node_status n' = Queued \<and> (node_status n = Done \<longrightarrow> is_root_gate n)
   \<or> node_owner n' = node_owner n \<and> node_status n' = node_status n \<and> node_output n' = node_output n
     \<and> node_is_gate n' = node_is_gate n \<and> node_parent n' = node_parent n
     \<and> (node_depends_on n' = node_depends_on n \<or> \<not> flow_active n)"

lemma evolve_state_inv:
  assumes st: "state_inv M" and ro: "root_gate_ok M"
    and old: "\<And>v n. M v = Some n \<Longrightarrow> settled n (h v n)"
    and new: "\<And>x. x \<in> set K \<Longrightarrow> node_owner x = None \<and> node_status x = Queued"
  shows "state_inv (evolve M h K)"
  unfolding state_inv_def
proof (intro conjI)
  have n: "node_owner n' = None \<and> node_status n' = Queued \<or>
      (\<exists>n. M v = Some n \<and> n' = h v n \<and> settled n n')" if "evolve M h K v = Some n'" for v n'
    using that by (cases rule: grows_cases) (use old new in auto)
  show "owners_ok (evolve M h K)"
    unfolding owners_ok_def
  proof (intro allI impI)
    fix v n' assume "evolve M h K v = Some n'"
    with n st show "node_owner n' = None \<longleftrightarrow> node_status n' = Queued"
      unfolding settled_def state_inv_def owners_ok_def by (metis)
  qed
  show "outputs_ok (evolve M h K)"
    unfolding outputs_ok_def
  proof (intro allI impI)
    fix v n' assume "evolve M h K v = Some n'" and "node_status n' = Done"
    with n [of v n'] st show "node_output n' \<noteq> None"
      unfolding settled_def state_inv_def outputs_ok_def by (metis NodeStatus.distinct(3))
  qed
  show "flow_ok (evolve M h K)"
    unfolding flow_ok_def
  proof (intro allI impI ballI)
    fix v n' d
    assume e: "evolve M h K v = Some n'" and a: "flow_active n'" and d: "d \<in> set (node_depends_on n')"
    then have "node_status n' \<noteq> Queued" by (auto simp: flow_active_def)
    with n [OF e] obtain n0 where n0: "M v = Some n0" "settled n0 n'" by auto
    with \<open>node_status n' \<noteq> Queued\<close> a have "flow_active n0" "node_depends_on n' = node_depends_on n0"
      unfolding settled_def flow_active_def by auto
    with d have "d \<in> set (node_depends_on n0)" by simp
    with \<open>flow_active n0\<close> n0(1) st obtain m where m: "M d = Some m" "node_status m = Done"
      unfolding state_inv_def flow_ok_def by blast
    have "\<not> is_root_gate m"
      using ro m(1) n0(1) d \<open>node_depends_on n' = node_depends_on n0\<close>
      unfolding root_gate_ok_def by metis
    with old [OF m(1)] m(2) have "node_status (h d m) = Done" unfolding settled_def by auto
    with m(1) show "\<exists>m. evolve M h K d = Some m \<and> node_status m = Done"
      by (auto simp: evolve_old)
  qed
qed

text \<open>A committed growth step, and the whole invariant for it.\<close>

definition growth_step :: "TaskGraph \<Rightarrow> TaskGraph \<Rightarrow> bool" where
  "growth_step g g' \<longleftrightarrow>
     (\<exists>h A K. grows (mode g) (get g) h A K
       \<and> (\<forall>v n. get g v = Some n \<longrightarrow> settled n (h v n))
       \<and> (\<forall>x \<in> set K. node_owner x = None \<and> node_status x = Queued)
       \<and> get g' = evolve (get g) h K \<and> mode g' = mode g
       \<and> node_ids (nodes g') = node_ids (nodes g) @ node_ids K \<and> acyclic (dep_rel (nodes g')))"

lemma growth_stepI:
  assumes "grows (mode g) (get g) h A K"
    and "\<And>v n. get g v = Some n \<Longrightarrow> settled n (h v n)"
    and "\<And>x. x \<in> set K \<Longrightarrow> node_owner x = None \<and> node_status x = Queued"
    and "get g' = evolve (get g) h K" "mode g' = mode g"
      "node_ids (nodes g') = node_ids (nodes g) @ node_ids K"
    and "acyclic (dep_rel (nodes g'))"
  shows "growth_step g g'"
  unfolding growth_step_def using assms by blast

lemma growth_step_inv:
  assumes inv: "engine_inv g" and "growth_step g g'"
  shows "engine_inv g'"
proof -
  obtain h A K where gr: "grows (mode g) (get g) h A K"
    and old: "\<And>v n. get g v = Some n \<Longrightarrow> settled n (h v n)"
    and new: "\<And>x. x \<in> set K \<Longrightarrow> node_owner x = None \<and> node_status x = Queued"
    and g': "get g' = evolve (get g) h K" "mode g' = mode g"
      "node_ids (nodes g') = node_ids (nodes g) @ node_ids K"
    and ac: "acyclic (dep_rel (nodes g'))"
    using assms(2) unfolding growth_step_def by blast
  have d: "distinct (node_ids (nodes g'))"
    using inv gr unfolding g'(3) by (auto simp: engine_inv_def grows_def dom_get)
  have "acyclic (dep_edges (evolve (get g) h K))"
    using ac by (simp add: dep_rel_get [OF d] g'(1))
  moreover have "shape_inv (mode g) (get g)" "state_inv (get g)" "root_gate_ok (get g)"
    using inv by (simp_all add: engine_inv_def shape_inv_def)
  ultimately have "shape_inv (mode g) (evolve (get g) h K)"
    by (intro grows_shape_inv [OF gr])
  moreover have "state_inv (evolve (get g) h K)"
    using \<open>state_inv (get g)\<close> \<open>root_gate_ok (get g)\<close> old new by (rule evolve_state_inv)
  ultimately show ?thesis using d by (simp add: engine_inv_def g'(1,2))
qed

lemma grown_newI:
  assumes "\<not> node_expanded x" "set (node_depends_on x) \<subseteq> dom M \<union> set (node_ids K)"
    "\<not> is_root_gate x" "md = Light \<longrightarrow> \<not> node_is_gate x"
    "\<And>p. node_parent x = Some p \<Longrightarrow> \<exists>m. M p = Some m \<and> node_expanded (h p m) \<and> node_id x \<in> A p"
    "md = Deep \<Longrightarrow> \<exists>w \<in> dom M. node_id x \<in> A w"
    "md = Deep \<and> \<not> node_is_gate x \<longrightarrow>
       (\<exists>k e. M k = Some e \<and> node_is_gate e \<and> node_parent e = node_parent x \<and> node_id x \<in> A k)
       \<or> (\<exists>e \<in> set K. node_is_gate e \<and> node_parent e = node_parent x
            \<and> node_id x \<in> set (node_depends_on e))"
  shows "grown_new md M h A K x"
  unfolding grown_new_def by (intro conjI allI impI) (use assms in auto)

section \<open>Batches of new work\<close>

lemma node_id_spec_to_node [simp]: "node_id (spec_to_node s par orig) = unwrap_id (spec_id s)"
  by (simp add: spec_to_node_def unwrap_id_def)

lemma validated_spec_id_Inr: "validated_spec_id s op = Inr i \<Longrightarrow> spec_id s = Some i \<and> trim i \<noteq> []"
  by (auto simp: validated_spec_id_def split: option.splits if_splits)

lemma fresh_id_step_Inr:
  "fresh_id_step g op s acc = Inr acc' \<Longrightarrow>
    \<exists>i. spec_id s = Some i \<and> i \<notin> set acc \<and> i \<notin> dom (get g) \<and> acc' = acc @ [i]"
  by (auto simp: fresh_id_step_def and_then_eq_Inr dom_get split: if_splits
      dest!: validated_spec_id_Inr)

lemma fresh_ids:
  assumes "try_fold (fresh_id_step g op) specs acc = Inr ids"
    and "distinct acc" and "set acc \<inter> dom (get g) = {}"
  shows "ids = acc @ map (unwrap_id \<circ> spec_id) specs \<and> distinct ids \<and> set ids \<inter> dom (get g) = {}"
  using assms
proof (induction specs arbitrary: acc)
  case (Cons s specs)
  from Cons.prems(1) obtain i where i: "spec_id s = Some i" "i \<notin> set acc" "i \<notin> dom (get g)"
    and r: "try_fold (fresh_id_step g op) specs (acc @ [i]) = Inr ids"
    using fresh_id_step_Inr [of g op s acc] by (auto simp: and_then_eq_Inr)
  have "distinct (acc @ [i])" "set (acc @ [i]) \<inter> dom (get g) = {}"
    using Cons.prems(2,3) i by auto
  note ih = Cons.IH [OF r this]
  have "(acc @ [i]) @ map (unwrap_id \<circ> spec_id) specs = acc @ map (unwrap_id \<circ> spec_id) (s # specs)"
    using i by (simp add: unwrap_id_def)
  with ih show ?case by metis
qed simp

lemma fresh_ids_Nil:
  assumes "try_fold (fresh_id_step g op) specs [] = Inr ids"
  shows "ids = map (unwrap_id \<circ> spec_id) specs" and "distinct ids" and "set ids \<inter> dom (get g) = {}"
proof -
  have "ids = map (unwrap_id \<circ> spec_id) specs \<and> distinct ids \<and> set ids \<inter> dom (get g) = {}"
    by (rule fresh_ids [OF assms, unfolded append_Nil]) simp_all
  then show "ids = map (unwrap_id \<circ> spec_id) specs" "distinct ids" "set ids \<inter> dom (get g) = {}"
    by blast+
qed

lemma fresh_ids_Some:
  assumes "try_fold (fresh_id_step g op) specs [] = Inr ids"
  shows "map Some ids = map spec_id specs"
proof -
  have "map Some ids = map Some acc @ map spec_id specs"
    if "try_fold (fresh_id_step g op) specs acc = Inr ids" for acc
    using that
  proof (induction specs arbitrary: acc)
    case (Cons s specs)
    then obtain i where i: "spec_id s = Some i"
      and r: "try_fold (fresh_id_step g op) specs (acc @ [i]) = Inr ids"
      using fresh_id_step_Inr [of g op s acc] by (auto simp: and_then_eq_Inr)
    from Cons.IH [OF r] i show ?case by simp
  qed simp
  from this [OF assms] show ?thesis by simp
qed

lemma check_dependencies_Inr:
  "check_dependencies g ids s = Inr u \<longleftrightarrow> set (spec_depends_on s) \<subseteq> set ids \<union> dom (get g)"
  by (auto simp: check_dependencies_def try_all_eq_Inr check_dependency_def dom_get split: if_splits)

text \<open>What a validated batch of specs becomes.\<close>

definition batch :: "TaskGraph \<Rightarrow> str option \<Rightarrow> str list \<Rightarrow> TaskNode list \<Rightarrow> bool" where
  "batch g par ids N \<longleftrightarrow>
     node_ids N = ids \<and> distinct ids \<and> set ids \<inter> dom (get g) = {} \<and>
     (\<forall>x \<in> set N. node_owner x = None \<and> node_status x = Queued \<and> node_parent x = par
        \<and> \<not> node_expanded x \<and> \<not> node_is_gate x \<and> set (node_depends_on x) \<subseteq> set ids \<union> dom (get g))"

lemma batchD:
  assumes "batch g par ids N"
  shows "node_ids N = ids" "distinct ids" "set ids \<inter> dom (get g) = {}"
    "x \<in> set N \<Longrightarrow> node_owner x = None \<and> node_status x = Queued \<and> node_parent x = par
        \<and> \<not> node_expanded x \<and> \<not> node_is_gate x \<and> set (node_depends_on x) \<subseteq> set ids \<union> dom (get g)"
  using assms unfolding batch_def by blast+

lemma batch_of_specs:
  assumes "ids = map (unwrap_id \<circ> spec_id) specs" and "distinct ids" and "set ids \<inter> dom (get g) = {}"
    and "try_all (check_dependencies g ids') specs = Inr u" and "set ids' \<subseteq> set ids \<union> dom (get g)"
  shows "batch g par ids (map (\<lambda>s. spec_to_node s par orig) specs)"
proof -
  have "set (spec_depends_on s) \<subseteq> set ids \<union> dom (get g)" if "s \<in> set specs" for s
    using assms(4,5) that by (auto simp: try_all_eq_Inr check_dependencies_Inr)
  with assms(1-3) show ?thesis
    unfolding batch_def by (auto simp: spec_to_node_def unwrap_id_def comp_def)
qed

lemma get_push_all: "get (foldl push g K) = evolve (get g) (\<lambda>_ n. n) K"
  by (rule ext) (simp add: gs.lookup_fold_append evolve_def split: option.split)

lemma mode_push_all [simp]: "mode (foldl push g K) = mode g"
  by (induction K arbitrary: g) (simp_all add: push_def)

lemma mode_modify [simp]: "mode (modify g i f) = mode g"
  by (simp add: modify_def)

text \<open>Changing an existing node after the pushes.\<close>

lemma get_modify_evolve:
  assumes "get g' = evolve M h K" and "i \<in> dom M" and "\<And>n. node_id (f n) = node_id n"
  shows "get (modify g' i f) = evolve M (\<lambda>j n. if j = i then f (h j n) else h j n) K"
  using assms by (auto simp: get_modify evolve_def fun_eq_iff split: option.splits)

lemma node_ids_push_all [simp]: "node_ids (nodes (foldl push g K)) = node_ids (nodes g) @ node_ids K"
  by (rule gs.keys_fold_append)

lemma unique_gate_id_fresh: "\<not> contains g (unique_gate_id g i)"
proof -
  have "\<not> contains g (gate_suffix g b n)" for b n
  proof (induction g b n rule: gate_suffix.induct)
    case (1 g b n)
    then show ?case by (subst gate_suffix.simps) auto
  qed
  then show ?thesis by (simp add: unique_gate_id_def Let_def)
qed

section \<open>Expansion\<close>

lemma expand_guard_Inr:
  "expand_guard g i a children = Inr n \<longleftrightarrow>
    get g i = Some n \<and> node_owner n = Some a \<and> \<not> node_is_gate n \<and> \<not> node_expanded n
    \<and> node_status n = Running \<and> children \<noteq> []"
  by (auto simp: expand_guard_def split: option.splits if_splits)

text \<open>The gate an expansion inserts, if any.\<close>

definition expansion_gates :: "TaskGraph \<Rightarrow> TaskNode \<Rightarrow> str \<Rightarrow> str list \<Rightarrow> TaskNode list \<Rightarrow> TaskNode list" where
  "expansion_gates g n i ids N =
     (if mode g = Deep then
        [make_gate (unique_gate_id (foldl push g N) i) (gate_content (gate_kind (node_kind n)) i)
          (gate_kind (node_kind n)) (Some i) ids]
      else [])"

lemma expand_staged_eq:
  fixes children i
  defines "N \<equiv> map (\<lambda>s. spec_to_node s (Some i) Expand) children"
  shows "expand_staged g i n ids children =
    (modify (foldl push g (N @ expansion_gates g n i ids N)) i
       (flip_composite (ids @ node_ids (expansion_gates g n i ids N))),
     if mode g = Deep then Some (unique_gate_id (foldl push g N) i) else None)"
  by (cases "mode g")
    (simp_all add: expand_staged_def push_specs_def N_def expansion_gates_def make_gate_def Let_def)

lemma expand_node_Inr:
  assumes "expand_node g i a children = Inr (g', out)"
  obtains n N ids where "get g i = Some n" "node_owner n = Some a" "\<not> node_is_gate n"
    "\<not> node_expanded n" "node_status n = Running" "ids \<noteq> []" "batch g (Some i) ids N"
    "g' = modify (foldl push g (N @ expansion_gates g n i ids N)) i
       (flip_composite (ids @ node_ids (expansion_gates g n i ids N)))"
    "acyclic (dep_rel (nodes g'))" "child_ids out = ids"
    "gate_id out = (if mode g = Deep then Some (unique_gate_id (foldl push g N) i) else None)"
proof -
  from assms obtain n ids where n: "expand_guard g i a children = Inr n"
    and ids: "try_fold (fresh_id_step g ''expand'') children [] = Inr ids"
    and ch: "try_all (check_dependencies g ids) children = Inr ()"
    and g: "g' = fst (expand_staged g i n ids children)" and ac: "acyclic (dep_rel (nodes g'))"
    and o: "child_ids out = ids" "gate_id out = snd (expand_staged g i n ids children)"
    unfolding expand_node_def and_then_eq_Inr commit_acyclic_Inr by auto
  define N where "N = map (\<lambda>s. spec_to_node s (Some i) Expand) children"
  note fi = fresh_ids_Nil [OF ids]
  then have b: "batch g (Some i) ids N"
    unfolding N_def using batch_of_specs [OF fi ch] by simp
  have ne: "ids \<noteq> []" using n fi(1) by (auto simp: expand_guard_Inr)
  show ?thesis
    using n g ac o that [OF _ _ _ _ _ ne b]
    by (simp add: expand_guard_Inr expand_staged_eq N_def)
qed

lemma expand_node_growth:
  assumes inv: "engine_inv g" and ex: "expand_node g i a children = Inr (g', out)"
  shows "growth_step g g'"
proof -
  from ex obtain n N ids where n: "get g i = Some n" "\<not> node_is_gate n" "node_status n = Running"
    and b: "batch g (Some i) ids N"
    and g': "g' = modify (foldl push g (N @ expansion_gates g n i ids N)) i
       (flip_composite (ids @ node_ids (expansion_gates g n i ids N)))"
    and ac: "acyclic (dep_rel (nodes g'))"
    by (rule expand_node_Inr)
  define G where "G = expansion_gates g n i ids N"
  define h where "h = (\<lambda>j n. if j = i then flip_composite (ids @ node_ids G) n else n)"
  define A where "A = (\<lambda>j. if j = i then set (ids @ node_ids G) else {})"
  have fresh: "unique_gate_id (foldl push g N) i \<notin> dom (get g) \<union> set ids"
    using unique_gate_id_fresh [of "foldl push g N" i] batchD(1) [OF b] by (auto simp: dom_get)
  have G: "x \<in> set G \<Longrightarrow> mode g = Deep \<and> node_id x = unique_gate_id (foldl push g N) i
      \<and> node_owner x = None \<and> node_status x = Queued \<and> node_parent x = Some i \<and> \<not> node_expanded x
      \<and> node_is_gate x \<and> node_depends_on x = ids" for x
    by (auto simp: G_def expansion_gates_def make_gate_def split: if_splits)
  have dG: "distinct (node_ids G)" by (simp add: G_def expansion_gates_def)
  have audit: "mode g = Deep \<Longrightarrow> \<exists>e \<in> set G. node_is_gate e \<and> node_parent e = Some i \<and> node_depends_on e = ids"
    by (simp add: G_def expansion_gates_def make_gate_def)
  have "grows (mode g) (get g) h A (N @ G)"
    unfolding grows_def
  proof (intro conjI allI ballI impI)
    show "distinct (node_ids (N @ G))"
      using batchD(1,2) [OF b] dG G fresh by auto
    show "set (node_ids (N @ G)) \<inter> dom (get g) = {}"
      using batchD(1,3) [OF b] G fresh by auto
    show "grown_old (get g) h A (N @ G) v m" if "get g v = Some m" for v m
    proof -
      have "node_expanded m \<longrightarrow> \<not> node_is_gate m"
        using that inv unfolding engine_inv_def shape_inv_def joins_ok_def by blast
      moreover have "\<forall>x \<in> set (N @ G). node_parent x = Some i" using batchD(4) [OF b] G by auto
      ultimately show ?thesis
        using that n batchD(1) [OF b]
        unfolding grown_old_def h_def A_def flip_composite_def by auto
    qed
    show "grown_new (mode g) (get g) h A (N @ G) x" if x: "x \<in> set (N @ G)" for x
    proof -
      have x': "\<not> node_expanded x" "node_parent x = Some i" "node_id x \<in> A i"
        "set (node_depends_on x) \<subseteq> dom (get g) \<union> set (node_ids (N @ G))"
        using x batchD(1) [OF b] batchD(4) [OF b, of x] G [of x] by (auto simp: A_def)
      have "\<not> node_is_gate x \<Longrightarrow> x \<in> set N" using x G by auto
      then have "mode g = Deep \<and> \<not> node_is_gate x \<longrightarrow> (\<exists>e \<in> set (N @ G). node_is_gate e
          \<and> node_parent e = node_parent x \<and> node_id x \<in> set (node_depends_on e))"
        using audit batchD(1) [OF b] x'(2) by fastforce
      moreover have "mode g = Light \<longrightarrow> \<not> node_is_gate x"
        using x batchD(4) [OF b, of x] G [of x] by auto
      moreover have "node_expanded (h i n)" by (simp add: h_def flip_composite_def)
      ultimately show ?thesis
        by (intro grown_newI) (use x' n(1) in \<open>auto simp: dom_def\<close>)
    qed
  qed
  moreover have "settled m (h v m)" if "get g v = Some m" for v m
    using that n by (auto simp: settled_def h_def flip_composite_def)
  moreover have "node_owner x = None \<and> node_status x = Queued" if "x \<in> set (N @ G)" for x
    using that batchD(4) [OF b] G by auto
  moreover have "get g' = evolve (get g) h (N @ G)"
    unfolding g' G_def [symmetric] h_def
    using n by (subst get_modify_evolve [OF get_push_all]) (auto simp: flip_composite_def)
  ultimately show ?thesis
    using inv ac
    by (intro growth_stepI [where g = g and g' = g'])
      (auto simp: g' G_def [symmetric] flip_composite_def node_ids_modify)
qed

section \<open>Gap injection\<close>

lemma inject_guard_Inr:
  "inject_guard g k a specs = Inr e \<longleftrightarrow>
    get g k = Some e \<and> node_owner e = Some a \<and> node_is_gate e \<and> node_status e = Running \<and> specs \<noteq> []"
  by (auto simp: inject_guard_def split: option.splits if_splits)

lemma inject_from_gate_Inr:
  assumes "inject_from_gate g k a specs = Inr (g', ids)"
  obtains e N where "get g k = Some e" "node_owner e = Some a" "node_is_gate e"
    "node_status e = Running" "ids \<noteq> []" "batch g (node_parent e) ids N"
    "N = map (\<lambda>s. spec_to_node s (node_parent e) Gap) specs"
    "g' = inject_staged g k e ids specs" "acyclic (dep_rel (nodes g'))"
proof -
  from assms obtain e where e: "inject_guard g k a specs = Inr e"
    and ids: "try_fold (fresh_id_step g ''inject_from_gate'') specs [] = Inr ids"
    and ch: "try_all (check_dependencies g ids) specs = Inr ()"
    and g: "g' = inject_staged g k e ids specs" and ac: "acyclic (dep_rel (nodes g'))"
    unfolding inject_from_gate_def and_then_eq_Inr commit_acyclic_Inr by auto
  define N where "N = map (\<lambda>s. spec_to_node s (node_parent e) Gap) specs"
  note fi = fresh_ids_Nil [OF ids]
  have b: "batch g (node_parent e) ids N"
    unfolding N_def using batch_of_specs [OF fi ch] by simp
  have "ids \<noteq> []" using e fi(1) by (auto simp: inject_guard_Inr)
  with that [OF _ _ _ _ _ b N_def g ac] e show ?thesis by (simp add: inject_guard_Inr)
qed

lemma inject_from_gate_growth:
  assumes inv: "engine_inv g" and inj: "inject_from_gate g k a specs = Inr (g', ids)"
  shows "growth_step g g'"
proof -
  from inj obtain e N where e: "get g k = Some e" "node_is_gate e" "node_status e = Running"
    and b: "batch g (node_parent e) ids N" and N: "N = map (\<lambda>s. spec_to_node s (node_parent e) Gap) specs"
    and g': "g' = inject_staged g k e ids specs" and ac: "acyclic (dep_rel (nodes g'))"
    by (rule inject_from_gate_Inr)
  define h where "h = (\<lambda>j n. if j = k then requeue_gate ids n
      else if node_parent e = Some j then add_join_deps ids n else n)"
  define A where "A = (\<lambda>j. if j = k \<or> node_parent e = Some j then set ids else {})"
  have jo: "joins_ok (get g)" and fl: "flow_ok (get g)"
    using inv by (simp_all add: engine_inv_def shape_inv_def state_inv_def)
  have p: "\<exists>m. get g p = Some m \<and> node_expanded m \<and> \<not> node_is_gate m \<and> p \<noteq> k \<and> \<not> flow_active m"
    if pp: "node_parent e = Some p" for p
  proof -
    obtain m where m: "get g p = Some m" "node_expanded m" "k \<in> set (node_depends_on m)"
      using jo e(1) pp unfolding joins_ok_def by blast
    have "\<not> node_is_gate m" using jo m unfolding joins_ok_def by blast
    moreover from this have "p \<noteq> k" using e m(1) by auto
    moreover have "\<not> flow_active m"
      using fl m(1,3) e(1,3) unfolding flow_ok_def by fastforce
    ultimately show ?thesis using m by blast
  qed
  have gr: "grows (mode g) (get g) h A N"
    unfolding grows_def
  proof (intro conjI allI ballI impI)
    show "distinct (node_ids N)" "set (node_ids N) \<inter> dom (get g) = {}"
      using batchD(1-3) [OF b] by auto
    show "grown_old (get g) h A N v m" if v: "get g v = Some m" for v m
    proof -
      have "node_expanded m \<longrightarrow> \<not> node_is_gate m" using jo v unfolding joins_ok_def by blast
      moreover have "v = k \<Longrightarrow> node_is_gate m" using v e by simp
      ultimately show ?thesis
        using batchD(1) [OF b] batchD(4) [OF b]
        unfolding grown_old_def h_def A_def requeue_gate_def add_join_deps_def by auto
    qed
    show "grown_new (mode g) (get g) h A N x" if x: "x \<in> set N" for x
    proof (rule grown_newI)
      have x': "node_parent x = node_parent e" "node_id x \<in> set ids"
        using x batchD(1,4) [OF b] by auto
      show "\<exists>m. get g q = Some m \<and> node_expanded (h q m) \<and> node_id x \<in> A q"
        if "node_parent x = Some q" for q
        using p [of q] that x' by (auto simp: h_def A_def add_join_deps_def)
      show "\<exists>w\<in>dom (get g). node_id x \<in> A w" using e(1) x' by (auto simp: A_def)
      show "mode g = Deep \<and> \<not> node_is_gate x \<longrightarrow>
         (\<exists>k e. get g k = Some e \<and> node_is_gate e \<and> node_parent e = node_parent x \<and> node_id x \<in> A k)
         \<or> (\<exists>e\<in>set N. node_is_gate e \<and> node_parent e = node_parent x \<and> node_id x \<in> set (node_depends_on e))"
        using e x' by (auto simp: A_def)
    qed (use x batchD(1) [OF b] batchD(4) [OF b, of x] in auto)
  qed
  have st: "settled m (h v m)" if "get g v = Some m" for v m
    using that e p unfolding settled_def h_def requeue_gate_def add_join_deps_def by auto
  have "get g' = evolve (get g) h N"
  proof (cases "node_parent e")
    case None
    then have h: "h = (\<lambda>j n. if j = k then requeue_gate ids n else n)" by (simp add: h_def fun_eq_iff)
    have gk: "g' = modify (foldl push g N) k (requeue_gate ids)"
      using None by (simp add: g' inject_staged_def push_specs_def N)
    show ?thesis unfolding h gk
      using e(1) by (subst get_modify_evolve [OF get_push_all]) (auto simp: requeue_gate_def)
  next
    case (Some q)
    with p obtain m where m: "get g q = Some m" "q \<noteq> k" by blast
    have s1: "get (modify (foldl push g N) k (requeue_gate ids)) =
        evolve (get g) (\<lambda>j n. if j = k then requeue_gate ids n else n) N"
      using e(1) by (subst get_modify_evolve [OF get_push_all]) (auto simp: requeue_gate_def)
    have "get g' = evolve (get g)
        (\<lambda>j n. if j = q then add_join_deps ids (if j = k then requeue_gate ids n else n)
               else if j = k then requeue_gate ids n else n) N"
      unfolding g' inject_staged_def push_specs_def N [symmetric]
      using m Some by (simp add: get_modify_evolve [OF s1] add_join_deps_def dom_def)
    also have "\<dots> = evolve (get g) h N"
      using m Some by (auto simp: evolve_def h_def fun_eq_iff split: option.split)
    finally show ?thesis .
  qed
  moreover have "node_ids (nodes g') = node_ids (nodes g) @ node_ids N" "mode g' = mode g"
    unfolding g' inject_staged_def push_specs_def N [symmetric]
    by (cases "node_parent e"; simp add: Let_def node_ids_modify requeue_gate_def add_join_deps_def)+
  ultimately show ?thesis
    using batchD(4) [OF b] ac st by (intro growth_stepI [OF gr]) auto
qed

end
