(* ===== verification/Dag_Seed.thy ===== *)
theory Dag_Seed
  imports Dag_Growth
begin

text \<open>
  Seeding: a committed seed is a growth step, or the first seed of an empty deep graph; and
  replaying a seed that was accepted changes nothing, however far the graph has evolved.
\<close>

section \<open>What an accepted seed does\<close>

abbreviation the_id :: "NodeSpec \<Rightarrow> str" where
  "the_id s \<equiv> unwrap_id (spec_id s)"

lemma seed_unique_step_Inr:
  "seed_unique_step s u = Inr u' \<Longrightarrow> spec_id s = Some (the_id s) \<and>
    (u' = u \<and> (\<exists>s' \<in> set u. spec_id s' = spec_id s \<and> seed_specs_equivalent s' s)
     \<or> u' = u @ [s] \<and> (\<forall>s' \<in> set u. spec_id s' \<noteq> spec_id s))"
proof -
  assume r: "seed_unique_step s u = Inr u'"
  then obtain i where i: "validated_spec_id s ''seed'' = Inr i"
    by (auto simp: seed_unique_step_def and_then_eq_Inr)
  then have si: "spec_id s = Some i" by (simp add: validated_spec_id_Inr)
  show ?thesis
  proof (cases "find (\<lambda>s'. spec_id s' = Some i) u")
    case None
    with r i si show ?thesis by (auto simp: seed_unique_step_def unwrap_id_def find_is_none)
  next
    case (Some s')
    with r i si find_eq_Some_mem [OF Some] show ?thesis
      by (auto simp: seed_unique_step_def unwrap_id_def split: if_splits)
  qed
qed

definition uniq_ok :: "NodeSpec list \<Rightarrow> bool" where
  "uniq_ok u \<longleftrightarrow> distinct (map the_id u) \<and> (\<forall>s \<in> set u. spec_id s = Some (the_id s))"

lemma seed_unique:
  assumes "try_fold seed_unique_step specs [] = Inr u"
  shows "uniq_ok u"
  using assms
proof (rule try_fold_preserves)
  show "uniq_ok []" by (simp add: uniq_ok_def)
  fix s u u'
  assume u: "uniq_ok u" and "seed_unique_step s u = Inr u'"
  from seed_unique_step_Inr [OF this(2)] u show "uniq_ok u'"
    unfolding uniq_ok_def by (elim conjE disjE) (simp, fastforce)
qed

lemma seed_stage:
  assumes "try_fold (seed_stage_step g) u s0 = Inr t"
  shows "t = foldl push s0 (map (\<lambda>s. spec_to_node s None Seed) (filter (\<lambda>s. get g (the_id s) = None) u))
    \<and> (\<forall>s \<in> set u. \<forall>n. get g (the_id s) = Some n \<longrightarrow> seed_spec_matches_existing g n s)"
  using assms
proof (induction u arbitrary: s0)
  case (Cons s u)
  then show ?case
    by (cases "get g (the_id s)") (auto simp: seed_stage_step_def and_then_eq_Inr split: if_splits)
qed simp

lemma seed_stage_replay:
  assumes "\<And>s. s \<in> set u \<Longrightarrow> \<exists>n. get g (the_id s) = Some n \<and> seed_spec_matches_existing g n s"
  shows "try_fold (seed_stage_step g) u g0 = Inr g0"
  using assms
proof (induction u)
  case (Cons s u)
  from Cons.prems [of s] have "seed_stage_step g s g0 = Inr g0" by (auto simp: seed_stage_step_def)
  with Cons show ?case by simp
qed simp

lemma seed_Inr:
  assumes "seed g specs = Inr g'"
  obtains u N where "try_fold seed_unique_step specs [] = Inr u"
    "N = map (\<lambda>s. spec_to_node s None Seed) (filter (\<lambda>s. get g (the_id s) = None) u)"
    "\<forall>s \<in> set u. \<forall>n. get g (the_id s) = Some n \<longrightarrow> seed_spec_matches_existing g n s"
    "\<forall>s \<in> set u. set (spec_depends_on s) \<subseteq> set (map the_id u) \<union> dom (get g)"
    "batch g None (node_ids N) N"
    "g' = (if mode g = Deep then ensure_root_gate (foldl push g N) else foldl push g N)"
    "acyclic (dep_rel (nodes g'))"
proof -
  from assms obtain u t where u: "try_fold seed_unique_step specs [] = Inr u"
    and ch: "try_all (check_dependencies g (map the_id u)) u = Inr ()"
    and t: "try_fold (seed_stage_step g) u g = Inr t"
    and g': "g' = (if requires_gates (mode t) then ensure_root_gate t else t)"
    and ac: "acyclic (dep_rel (nodes g'))"
    unfolding seed_def and_then_eq_Inr commit_acyclic_Inr comp_def by auto
  define F where "F = filter (\<lambda>s. get g (the_id s) = None) u"
  define N where "N = map (\<lambda>s. spec_to_node s None Seed) F"
  note st = seed_stage [OF t]
  have tN: "t = foldl push g N" using st by (simp add: N_def F_def)
  have uq: "uniq_ok u" by (rule seed_unique [OF u])
  have ids: "node_ids N = map (unwrap_id \<circ> spec_id) F" by (simp add: N_def)
  have dd: "distinct (node_ids N)"
    using uq unfolding ids by (auto simp: uniq_ok_def F_def comp_def distinct_map inj_on_def)
  have fr: "set (node_ids N) \<inter> dom (get g) = {}" unfolding ids by (auto simp: F_def domIff)
  have sub: "set (map the_id u) \<subseteq> set (node_ids N) \<union> dom (get g)"
    unfolding ids by (auto simp: F_def)
  have "try_all (check_dependencies g (map the_id u)) F = Inr ()"
    using ch by (simp add: try_all_eq_Inr F_def)
  from batch_of_specs [OF ids dd fr this sub, of None Seed] have b: "batch g None (node_ids N) N"
    by (simp add: N_def)
  have dp: "\<forall>s \<in> set u. set (spec_depends_on s) \<subseteq> set (map the_id u) \<union> dom (get g)"
    using ch by (simp add: try_all_eq_Inr check_dependencies_Inr)
  have "g' = (if mode g = Deep then ensure_root_gate (foldl push g N) else foldl push g N)"
    using g' tN by (cases "mode g") simp_all
  with that [OF u _ _ dp b] st ac show ?thesis by (simp add: N_def F_def)
qed

section \<open>Preservation of the invariant\<close>

lemma root_gate_exists:
  assumes inv: "shape_inv Deep M" and v: "M v = Some n"
  shows "\<exists>k e. M k = Some e \<and> is_root_gate e"
  using v
proof (induction v arbitrary: n rule: wf_induct [OF finite_acyclic_wf_converse,
      OF finite_dep_edges, of M])
  case (3 v)
  have jo: "joins_ok M" and ao: "audited_ok Deep M" using inv by (simp_all add: shape_inv_def)
  show ?case
  proof (cases "node_parent n")
    case None
    show ?thesis
    proof (cases "node_is_gate n")
      case False
      with ao 3(2) None show ?thesis unfolding audited_ok_def by fastforce
    qed (use 3(2) None in blast)
  next
    case (Some p)
    with jo 3(2) obtain m where m: "M p = Some m" "v \<in> set (node_depends_on m)"
      unfolding joins_ok_def by blast
    then have "(v, p) \<in> dep_edges M" using 3(2) by (auto intro: dep_edges_mono_node)
    with 3(1) m(1) show ?thesis by blast
  qed
qed (use inv in \<open>simp_all add: shape_inv_def\<close>)

lemma push_missing_id: "set xs \<subseteq> set v \<Longrightarrow> push_missing v xs = v"
  by (induction v xs rule: push_missing.induct) auto

lemma widen_settled:
  "is_root_gate n \<Longrightarrow> settled n (widen_gate ids n)"
  by (cases "set ids \<subseteq> set (node_depends_on n)")
    (auto simp: widen_gate_def settled_def Let_def push_missing_id flow_active_def node_is_terminal_def)

lemma widen_fields [simp]:
  "set (node_depends_on (widen_gate ids n)) = set (node_depends_on n) \<union> set ids"
  "node_id (widen_gate ids n) = node_id n"
  "node_parent (widen_gate ids n) = node_parent n" "node_is_gate (widen_gate ids n) = node_is_gate n"
  "node_expanded (widen_gate ids n) = node_expanded n" "node_content (widen_gate ids n) = node_content n"
  "node_kind (widen_gate ids n) = node_kind n" "node_priority (widen_gate ids n) = node_priority n"
  "node_origin (widen_gate ids n) = node_origin n"
  by (simp_all add: widen_gate_def Let_def)

lemma nodes_push_all [simp]: "nodes (foldl push g K) = nodes g @ K"
  by (induction K arbitrary: g) (simp_all add: push_def)

lemma ensure_root_gate_widen:
  assumes "rids = node_ids (filter is_root_work (nodes g))" "rids \<noteq> []"
    "find is_root_gate (nodes g) = Some e"
  shows "ensure_root_gate g = modify g (node_id e) (widen_gate rids)"
  using assms by (simp add: ensure_root_gate_def)

lemma ensure_root_gate_new:
  assumes "rids = node_ids (filter is_root_work (nodes g))" "rids \<noteq> []"
    "find is_root_gate (nodes g) = None"
  obtains c k where "ensure_root_gate g = push g (make_gate (unique_gate_id g ''plan'') c k None rids)"
  using assms by (auto simp: ensure_root_gate_def Let_def)

text \<open>Every existing root is already in the scope of the root gate.\<close>

lemma root_gate_covers:
  assumes inv: "engine_inv g" and md: "mode g = Deep" and k: "get g k = Some e" "is_root_gate e"
    and x: "x \<in> set (nodes g)" "is_root_work x"
  shows "node_id x \<in> set (node_depends_on e)"
proof -
  have "get g (node_id x) = Some x" using inv x by (simp add: engine_inv_def get_distinct)
  with inv md x obtain k' e' where "get g k' = Some e'" "is_root_gate e'"
    "node_id x \<in> set (node_depends_on e')"
    unfolding engine_inv_def shape_inv_def audited_ok_def by (metis (full_types))
  moreover from this k inv have "k' = k"
    unfolding engine_inv_def shape_inv_def root_gate_ok_def by blast
  ultimately show ?thesis using k by simp
qed

lemma seed_growth_light:
  assumes inv: "engine_inv g" and md: "mode g = Light" and b: "batch g None (node_ids N) N"
    and ac: "acyclic (dep_rel (nodes (foldl push g N)))"
  shows "growth_step g (foldl push g N)"
proof (rule growth_stepI [where h = "\<lambda>_ n. n" and A = "\<lambda>_. {}" and K = N])
  show "grows (mode g) (get g) (\<lambda>_ n. n) (\<lambda>_. {}) N"
    unfolding grows_def
  proof (intro conjI allI impI ballI)
    show "grown_old (get g) (\<lambda>_ n. n) (\<lambda>_. {}) N v n" if "get g v = Some n" for v n
      using that inv unfolding grown_old_def engine_inv_def shape_inv_def joins_ok_def by auto
    show "grown_new (mode g) (get g) (\<lambda>_ n. n) (\<lambda>_. {}) N x" if "x \<in> set N" for x
      using that md batchD(4) [OF b] by (auto simp: grown_new_def)
  qed (use batchD [OF b] in simp_all)
qed (use ac batchD(4) [OF b] in \<open>simp_all add: settled_def get_push_all\<close>)

lemma seed_growth_widen:
  assumes inv: "engine_inv g" and md: "mode g = Deep" and b: "batch g None (node_ids N) N"
    and k: "get g k = Some e" "is_root_gate e"
    and r: "rids = node_ids (filter is_root_work (nodes g @ N))"
    and g': "g' = modify (foldl push g N) k (widen_gate rids)"
    and ac: "acyclic (dep_rel (nodes g'))"
  shows "growth_step g g'"
proof -
  let ?h = "\<lambda>j n. if j = k then widen_gate rids n else n"
  let ?A = "\<lambda>j. if j = k then set (node_ids N) else {}"
  have rs: "set rids = node_id ` {x \<in> set (nodes g). is_root_work x} \<union> set (node_ids N)"
    using batchD(4) [OF b] unfolding r by auto
  have dk: "set (node_depends_on e) \<union> set rids = set (node_depends_on e) \<union> set (node_ids N)"
    using root_gate_covers [OF inv md k] unfolding rs by blast
  have jo: "\<And>v n. get g v = Some n \<Longrightarrow> node_expanded n \<longrightarrow> \<not> node_is_gate n"
    using inv unfolding engine_inv_def shape_inv_def joins_ok_def by blast
  have "grows (mode g) (get g) ?h ?A N"
    unfolding grows_def
  proof (intro conjI allI impI ballI)
    show "grown_old (get g) ?h ?A N v n" if "get g v = Some n" for v n
      using jo [OF that] that k dk batchD(4) [OF b] unfolding grown_old_def by auto
    show "grown_new (mode g) (get g) ?h ?A N x" if "x \<in> set N" for x
      using that k batchD(4) [OF b] by (intro grown_newI) (auto simp: dom_def)
  qed (use batchD [OF b] in simp_all)
  then show ?thesis
  proof (rule growth_stepI)
    show "get g' = evolve (get g) ?h N"
      unfolding g' using k by (subst get_modify_evolve [OF get_push_all]) auto
    show "settled n (?h v n)" if "get g v = Some n" for v n
      using that k widen_settled [of e rids] by (auto simp: settled_def)
  qed (use ac batchD(4) [OF b] in \<open>auto simp: g' node_ids_modify\<close>)
qed

text \<open>The first seed of a deep graph.\<close>

lemma first_seed_inv:
  assumes md: "mode g' = Deep" and g': "nodes g' = N @ [G]" and d: "distinct (node_ids (N @ [G]))"
    and N: "\<And>x. x \<in> set N \<Longrightarrow> node_owner x = None \<and> node_status x = Queued \<and> is_root_work x
      \<and> \<not> node_expanded x \<and> set (node_depends_on x) \<subseteq> set (node_ids N)"
    and G: "node_owner G = None" "node_status G = Queued" "is_root_gate G" "\<not> node_expanded G"
      "set (node_depends_on G) = set (node_ids N)"
    and ac: "acyclic (dep_rel (nodes g'))"
  shows "engine_inv g'"
proof -
  have dg: "distinct (node_ids (nodes g'))" using d g' by simp
  have mem: "x \<in> set N \<and> node_id x = v \<or> x = G \<and> v = node_id G" if "get g' v = Some x" for v x
    using get_Some_mem [OF that] get_Some_id [OF that] g' by auto
  have gG: "get g' (node_id G) = Some G" and gN: "\<And>x. x \<in> set N \<Longrightarrow> get g' (node_id x) = Some x"
    using get_distinct [OF dg] g' by auto
  have GN: "node_id G \<notin> set (node_ids N)" using d by auto
  have q: "node_owner x = None \<and> node_status x = Queued \<and> node_parent x = None \<and> \<not> node_expanded x"
    if "get g' v = Some x" for v x
    using mem [OF that] N [of x] G by auto
  have "state_inv (get g')"
    using q unfolding state_inv_def owners_ok_def outputs_ok_def flow_ok_def flow_active_def
    by fastforce
  moreover have "joins_ok (get g')" using q unfolding joins_ok_def by fastforce
  moreover have "deps_closed (get g')"
    unfolding deps_closed_def dom_get g' using mem N G by fastforce
  moreover have "audited_ok (mode g') (get g')"
    unfolding audited_ok_def md
  proof (intro allI impI)
    fix v x
    assume x: "get g' v = Some x"
    have "\<exists>k e. get g' k = Some e \<and> node_is_gate e \<and> node_parent e = node_parent x \<and> v \<in> set (node_depends_on e)"
      if "\<not> node_is_gate x"
      using mem [OF x] that G gG q [OF x] by fastforce
    then show "if Deep = Deep then \<not> node_is_gate x \<longrightarrow> (\<exists>k e. get g' k = Some e \<and> node_is_gate e
      \<and> node_parent e = node_parent x \<and> v \<in> set (node_depends_on e)) else \<not> node_is_gate x" by simp
  qed
  moreover have "root_gate_ok (get g')"
    unfolding root_gate_ok_def
  proof (intro allI impI conjI ballI)
    fix k e
    assume ke: "get g' k = Some e \<and> is_root_gate e"
    then have k: "e = G" "k = node_id G" using mem [of k e] N by blast+
    show "k' = k" if "get g' k' = Some e' \<and> is_root_gate e'" for k' e'
      using that mem [of k' e'] N k by blast
    show "k \<notin> set (node_depends_on n)" if "get g' v = Some n" for v n
      using mem [OF that] N G(5) GN k by blast
    show "\<exists>n. get g' d = Some n \<and> \<not> node_is_gate n" if "d \<in> set (node_depends_on e)" for d
      using that k G(5) gN N by auto
  qed
  ultimately show ?thesis
    using dg ac by (simp add: engine_inv_def shape_inv_def dep_rel_get md)
qed

lemma seed_step:
  assumes inv: "engine_inv g" and s: "seed g specs = Inr g'"
  shows "growth_step g g' \<or> g' = g \<or> nodes g = [] \<and> engine_inv g' \<and> mode g' = mode g"
proof -
  from s obtain u N where b: "batch g None (node_ids N) N"
    and g': "g' = (if mode g = Deep then ensure_root_gate (foldl push g N) else foldl push g N)"
    and ac: "acyclic (dep_rel (nodes g'))"
    by (rule seed_Inr)
  show ?thesis
  proof (cases "mode g")
    case Light
    with seed_growth_light [OF inv Light b] ac g' show ?thesis by simp
  next
    case Deep
    define rids where "rids = node_ids (filter is_root_work (nodes g @ N))"
    show ?thesis
    proof (cases "rids = []")
      case True
      then have "N = []"
        using batchD(4) [OF b, of "hd N"] by (cases N) (auto simp: rids_def)
      with True g' Deep show ?thesis by (simp add: ensure_root_gate_def rids_def)
    next
      case ne: False
      show ?thesis
      proof (cases "find is_root_gate (nodes g @ N)")
        case (Some e)
        then have e: "e \<in> set (nodes g)" "is_root_gate e"
          using batchD(4) [OF b, of e] by (auto dest!: find_eq_Some_mem)
        then have "get g (node_id e) = Some e" using inv by (simp add: engine_inv_def get_distinct)
        moreover have "g' = modify (foldl push g N) (node_id e) (widen_gate rids)"
          using g' Deep Some ne ensure_root_gate_widen [of rids "foldl push g N" e]
          by (simp add: rids_def)
        ultimately show ?thesis
          using seed_growth_widen [OF inv Deep b _ e(2) rids_def _ ac] by blast
      next
        case None
        then have nog: "\<not> (\<exists>k e. get g k = Some e \<and> is_root_gate e)"
          using get_Some_mem by (fastforce simp: find_is_none)
        have "shape_inv Deep (get g)" using inv Deep by (simp add: engine_inv_def)
        then have "get g v = None" for v using root_gate_exists nog by fastforce
        then have d0: "dom (get g) = {}" by auto
        then have g0: "nodes g = []" "dom (get g) = {}" by (simp_all add: dom_get)
        from None ne obtain c k where "ensure_root_gate (foldl push g N) =
            push (foldl push g N) (make_gate (unique_gate_id (foldl push g N) ''plan'') c k None rids)"
          using ensure_root_gate_new [of rids "foldl push g N"] by (auto simp: rids_def)
        moreover define G where "G = make_gate (unique_gate_id (foldl push g N) ''plan'') c k None rids"
        ultimately have gN: "g' = push (foldl push g N) G" using g' Deep by simp
        have "filter is_root_work N = N" using batchD(4) [OF b] by (intro filter_True) simp
        then have r: "rids = node_ids N" by (simp add: rids_def g0)
        have "engine_inv g'"
        proof (rule first_seed_inv)
          show "nodes g' = N @ [G]" "mode g' = Deep" using gN g0 Deep by (simp_all add: push_def)
          show "distinct (node_ids (N @ [G]))"
            using unique_gate_id_fresh [of "foldl push g N" "''plan''"] batchD(2) [OF b] g0
            by (auto simp: G_def make_gate_def)
        qed (use batchD(4) [OF b] ac g0 in \<open>auto simp: G_def make_gate_def r\<close>)
        moreover have "mode g' = mode g" using gN by (simp add: push_def)
        ultimately show ?thesis using g0 by simp
      qed
    qed
  qed
qed

lemma seed_inv: "engine_inv g \<Longrightarrow> seed g specs = Inr g' \<Longrightarrow> engine_inv g'"
  using seed_step growth_step_inv by blast

section \<open>Replaying a seed\<close>

text \<open>A spec is in the graph when its node is there and still matches it.\<close>

definition seeded :: "TaskGraph \<Rightarrow> NodeSpec \<Rightarrow> bool" where
  "seeded g s \<longleftrightarrow> (\<exists>n. get g (the_id s) = Some n \<and> seed_spec_matches_existing g n s)"

lemma set_declared:
  "get g v = Some n \<Longrightarrow> set (declared_dependencies g n) =
    {d \<in> set (node_depends_on n). \<forall>c. get g d = Some c \<longrightarrow> node_parent c \<noteq> Some v}"
  by (auto simp: declared_dependencies_def get_Some_id split: option.splits)

text \<open>The fields the match reads: kept by every step on a root work node.\<close>

definition same_decl :: "TaskGraph \<Rightarrow> TaskGraph \<Rightarrow> str \<Rightarrow> TaskNode \<Rightarrow> TaskNode \<Rightarrow> bool" where
  "same_decl g g' v n n' \<longleftrightarrow>
     node_parent n' = node_parent n \<and> node_is_gate n' = node_is_gate n
     \<and> node_origin n' = node_origin n \<and> node_content n' = node_content n \<and> node_kind n' = node_kind n
     \<and> node_priority n' = node_priority n
     \<and> set (declared_dependencies g' n') = set (declared_dependencies g n)"

lemma seed_spec_matches_iff:
  "seed_spec_matches_existing g n s \<longleftrightarrow>
    is_root_work n \<and> (node_origin n = None \<or> node_origin n = Some Seed)
    \<and> node_content n = spec_content s \<and> node_kind n = spec_kind s \<and> node_priority n = spec_priority s
    \<and> set (declared_dependencies g n) = set (spec_depends_on s)"
  unfolding seed_spec_matches_existing_def dependency_sets_equal_def by (simp del: not_None_eq) blast

lemma seeded_mono:
  assumes "seeded g s"
    and "\<And>v n. get g v = Some n \<Longrightarrow> is_root_work n \<Longrightarrow> \<exists>n'. get g' v = Some n' \<and> same_decl g g' v n n'"
  shows "seeded g' s"
proof -
  from assms(1) obtain n where n: "get g (the_id s) = Some n" "seed_spec_matches_existing g n s"
    by (auto simp: seeded_def)
  then have "is_root_work n" by (simp add: seed_spec_matches_iff)
  with assms(2) n(1) obtain n' where n': "get g' (the_id s) = Some n'" "same_decl g g' (the_id s) n n'"
    by blast
  with n(2) have "seed_spec_matches_existing g' n' s"
    unfolding seed_spec_matches_iff same_decl_def by metis
  with n' show ?thesis by (auto simp: seeded_def)
qed

lemma growth_step_decl:
  assumes inv: "engine_inv g" and gr: "growth_step g g'" and v: "get g v = Some n" and w: "is_root_work n"
  shows "\<exists>n'. get g' v = Some n' \<and> same_decl g g' v n n'"
proof -
  from gr obtain h A K where gw: "grows (mode g) (get g) h A K" and g': "get g' = evolve (get g) h K"
    unfolding growth_step_def by blast
  note o = grows_old [OF gw]
  have v': "get g' v = Some (h v n)" using v by (simp add: g' evolve_old)
  have dc: "set (node_depends_on n) \<subseteq> dom (get g)"
    using inv v unfolding engine_inv_def shape_inv_def deps_closed_def by blast
  have "d \<in> set (declared_dependencies g' (h v n)) \<longleftrightarrow> d \<in> set (declared_dependencies g n)" for d
  proof (cases "d \<in> dom (get g)")
    case True
    then obtain c where c: "get g d = Some c" by auto
    then have "get g' d = Some (h d c)" "node_parent (h d c) = node_parent c"
      using o(3) [OF c] by (simp_all add: g' evolve_old)
    moreover have "d \<notin> A v" using o(2) [OF v] gw True unfolding grows_def by blast
    ultimately show ?thesis
      using o(1) [OF v] c by (simp add: set_declared [OF v'] set_declared [OF v])
  next
    case False
    then have nd: "d \<notin> set (node_depends_on n)" using dc by blast
    have "\<exists>c. get g' d = Some c \<and> node_parent c = Some v" if "d \<in> A v"
    proof -
      from that o(2) [OF v] obtain x where x: "x \<in> set K" "d = node_id x" by auto
      then have "get g' d = Some x" using grows_fresh [OF gw] by (simp add: g' evolve_mem)
      moreover have "node_parent x = Some v" using o(12) [OF v _ x(1)] w x(2) that by blast
      ultimately show ?thesis by blast
    qed
    with nd show ?thesis
      using o(1) [OF v] by (auto simp: set_declared [OF v'] set_declared [OF v])
  qed
  then have "same_decl g g' v n (h v n)"
    using o(3,4,8-11) [OF v] by (simp add: same_decl_def set_eq_iff)
  with v' show ?thesis by blast
qed

text \<open>An accepted seed puts every one of its specs into the graph.\<close>

lemma new_spec_seeded:
  assumes inv: "engine_inv g'" and g: "get g' (the_id s) = Some n" and id: "spec_id s = Some (the_id s)"
    and n: "n = spec_to_node s None Seed"
  shows "seeded g' s"
proof -
  have "node_parent c \<noteq> Some (the_id s)" if "get g' d = Some c" for d c
  proof
    assume "node_parent c = Some (the_id s)"
    with inv that g have "node_expanded n"
      unfolding engine_inv_def shape_inv_def joins_ok_def by force
    then show False by (simp add: n spec_to_node_def)
  qed
  then have "set (declared_dependencies g' n) = set (spec_depends_on s)"
    by (auto simp: set_declared [OF g]) (simp_all add: n spec_to_node_def)
  with g show ?thesis
    unfolding seeded_def seed_spec_matches_iff by (simp add: n) (simp add: spec_to_node_def)
qed

lemma get_ensure_root_gate:
  assumes d: "distinct (node_ids (nodes g))" and v: "get g v = Some n" "\<not> node_is_gate n"
  shows "get (ensure_root_gate g) v = Some n"
proof (cases "node_ids (filter is_root_work (nodes g)) = []")
  case True
  with v show ?thesis by (simp add: ensure_root_gate_def)
next
  case False
  show ?thesis
  proof (cases "find is_root_gate (nodes g)")
    case None
    obtain c k where "ensure_root_gate g = push g (make_gate (unique_gate_id g ''plan'') c k None
        (node_ids (filter is_root_work (nodes g))))"
      using ensure_root_gate_new [OF refl False None] by blast
    with v show ?thesis by (simp add: get_push)
  next
    case (Some e)
    then have "get g (node_id e) = Some e" "node_is_gate e"
      using d by (auto dest!: find_eq_Some_mem simp: get_distinct)
    with v have "node_id e \<noteq> v" by auto
    with v ensure_root_gate_widen [OF refl False Some] show ?thesis by (simp add: get_modify)
  qed
qed

lemma seed_seeded:
  assumes inv: "engine_inv g" and s: "seed g specs = Inr g'"
    and u: "try_fold seed_unique_step specs [] = Inr u" and x: "x \<in> set u"
  shows "seeded g' x"
proof -
  from s obtain u' N where u': "try_fold seed_unique_step specs [] = Inr u'"
    and N: "N = map (\<lambda>s. spec_to_node s None Seed) (filter (\<lambda>s. get g (the_id s) = None) u')"
    and old: "\<forall>s \<in> set u'. \<forall>n. get g (the_id s) = Some n \<longrightarrow> seed_spec_matches_existing g n s"
    and b: "batch g None (node_ids N) N"
    and g': "g' = (if mode g = Deep then ensure_root_gate (foldl push g N) else foldl push g N)"
    by (rule seed_Inr)
  have uu: "u' = u" using u u' by simp
  have inv': "engine_inv g'" by (rule seed_inv [OF inv s])
  show ?thesis
  proof (cases "get g (the_id x)")
    case (Some n)
    then have "seeded g x" using old x by (simp add: seeded_def uu)
    moreover have "growth_step g g' \<or> g' = g"
      using seed_step [OF inv s] get_Some_mem [OF Some] by auto
    ultimately show ?thesis using seeded_mono growth_step_decl [OF inv] by blast
  next
    case None
    let ?n = "spec_to_node x None Seed"
    have xN: "?n \<in> set N" and id: "node_id ?n = the_id x" using None x by (auto simp: N uu)
    have d: "distinct (node_ids (nodes (foldl push g N)))"
      using inv batchD(2,3) [OF b] by (auto simp: engine_inv_def dom_get)
    have "get (foldl push g N) (the_id x) = Some ?n"
      using get_distinct [OF d, of ?n] xN unfolding id by simp
    moreover have "\<not> node_is_gate ?n" by (simp add: spec_to_node_def)
    ultimately have "get g' (the_id x) = Some ?n" using g' get_ensure_root_gate [OF d] by simp
    moreover have "spec_id x = Some (the_id x)"
      using seed_unique [OF u] x by (simp add: uniq_ok_def)
    ultimately show ?thesis using inv' by (blast intro: new_spec_seeded)
  qed
qed

lemma update_first_id: "(\<And>x. x \<in> set xs \<Longrightarrow> P x \<Longrightarrow> f x = x) \<Longrightarrow> update_first P f xs = xs"
  by (induction xs) auto

lemma ensure_root_gate_id:
  assumes inv: "engine_inv g" and md: "mode g = Deep"
  shows "ensure_root_gate g = g"
proof (cases "node_ids (filter is_root_work (nodes g)) = []")
  case True
  then show ?thesis by (simp add: ensure_root_gate_def)
next
  case False
  let ?r = "node_ids (filter is_root_work (nodes g))"
  obtain x where x: "x \<in> set (nodes g)" using False by (cases "nodes g") auto
  have "shape_inv Deep (get g)" "get g (node_id x) = Some x"
    using inv md x by (simp_all add: engine_inv_def get_distinct)
  then obtain k e where "get g k = Some e" "is_root_gate e" using root_gate_exists by blast
  then obtain e where f: "find is_root_gate (nodes g) = Some e"
    using get_Some_mem [of g k e] by (cases "find is_root_gate (nodes g)") (auto simp: find_is_none)
  then have e: "get g (node_id e) = Some e" "is_root_gate e"
    using inv by (auto dest!: find_eq_Some_mem simp: engine_inv_def get_distinct)
  have "set ?r \<subseteq> set (node_depends_on e)" using root_gate_covers [OF inv md e] by auto
  then have "widen_gate ?r e = e"
    unfolding widen_gate_def Let_def by (subst push_missing_id) auto
  moreover have "y = e" if "y \<in> set (nodes g)" "node_id y = node_id e" for y
  proof -
    have "get g (node_id y) = Some y" using inv that(1) by (simp add: engine_inv_def get_distinct)
    with e that(2) show ?thesis by (metis option.inject)
  qed
  ultimately have "modify g (node_id e) (widen_gate ?r) = g"
    unfolding modify_def by (subst update_first_id) auto
  then show ?thesis using ensure_root_gate_widen [OF refl False f] by simp
qed

lemma seed_replay:
  assumes inv: "engine_inv g" and u: "try_fold seed_unique_step specs [] = Inr u"
    and sd: "\<And>s. s \<in> set u \<Longrightarrow> seeded g s"
  shows "seed g specs = Inr g"
proof -
  have "set (spec_depends_on s) \<subseteq> dom (get g)" if s: "s \<in> set u" for s
  proof -
    obtain n where n: "get g (the_id s) = Some n" "set (declared_dependencies g n) = set (spec_depends_on s)"
      using sd [OF s] by (auto simp: seeded_def seed_spec_matches_iff)
    then have "set (spec_depends_on s) \<subseteq> set (node_depends_on n)"
      by (auto simp: declared_dependencies_def)
    with n(1) inv show ?thesis unfolding engine_inv_def shape_inv_def deps_closed_def by blast
  qed
  then have "try_all (check_dependencies g (map (unwrap_id \<circ> spec_id) u)) u = Inr ()"
    by (auto simp: try_all_eq_Inr check_dependencies_Inr)
  moreover have "try_fold (seed_stage_step g) u g = Inr g"
    using sd by (intro seed_stage_replay) (simp add: seeded_def)
  moreover have "(if requires_gates (mode g) then ensure_root_gate g else g) = g"
    using ensure_root_gate_id [OF inv] by (cases "mode g") auto
  moreover have "commit_acyclic g = Inr g"
    using inv by (simp add: commit_acyclic_Inr engine_inv_def shape_inv_def dep_rel_get)
  ultimately show ?thesis using u by (simp add: seed_def)
qed

lemma modify_decl:
  assumes f: "\<And>n. node_id (f n) = node_id n \<and> node_parent (f n) = node_parent n
      \<and> node_is_gate (f n) = node_is_gate n \<and> node_origin (f n) = node_origin n
      \<and> node_content (f n) = node_content n \<and> node_kind (f n) = node_kind n
      \<and> node_priority (f n) = node_priority n \<and> node_depends_on (f n) = node_depends_on n"
    and v: "get g v = Some n"
  shows "\<exists>n'. get (modify g i f) v = Some n' \<and> same_decl g (modify g i f) v n n'"
proof -
  let ?n = "if v = i then f n else n"
  have g: "get (modify g i f) d = (if d = i then map_option f (get g d) else get g d)" for d
    using f by (simp add: get_modify)
  then have v': "get (modify g i f) v = Some ?n" using v by auto
  have "(\<forall>c. get (modify g i f) d = Some c \<longrightarrow> node_parent c \<noteq> Some v) \<longleftrightarrow>
      (\<forall>c. get g d = Some c \<longrightarrow> node_parent c \<noteq> Some v)" for d
    using f by (auto simp: g)
  moreover have "node_depends_on ?n = node_depends_on n" using f by simp
  ultimately have "set (declared_dependencies (modify g i f) ?n) = set (declared_dependencies g n)"
    unfolding set_declared [OF v'] set_declared [OF v] by simp
  moreover have "node_parent ?n = node_parent n \<and> node_is_gate ?n = node_is_gate n
      \<and> node_origin ?n = node_origin n \<and> node_content ?n = node_content n \<and> node_kind ?n = node_kind n
      \<and> node_priority ?n = node_priority n"
    using f by (cases "v = i") simp_all
  ultimately show ?thesis using v' unfolding same_decl_def by blast
qed

end
