(* ===== verification/Dag_Engine.thy ===== *)
theory Dag_Engine
  imports Dag_Seed
begin

text \<open>
  The engine as a transition system: any interleaving of the validated mutations and of the
  scheduler's dispatch, from an empty graph. The properties of every reachable graph.
\<close>

section \<open>The step relation\<close>

inductive engine_step :: "TaskGraph \<Rightarrow> TaskGraph \<Rightarrow> bool" where
  step_seed: "seed g specs = Inr g' \<Longrightarrow> engine_step g g'"
| step_dispatch: "dispatch g i w = (g', True) \<Longrightarrow> engine_step g g'"
| step_complete: "complete_node g i a art = Inr g' \<Longrightarrow> engine_step g g'"
| step_fail: "fail_node g i a = Inr g' \<Longrightarrow> engine_step g g'"
| step_requeue: "requeue_failed g i = Inr g' \<Longrightarrow> engine_step g g'"
| step_expand: "expand_node g i a specs = Inr (g', out) \<Longrightarrow> engine_step g g'"
| step_inject: "inject_from_gate g i a specs = Inr (g', ids) \<Longrightarrow> engine_step g g'"

inductive_cases engine_stepE: "engine_step g g'"

lemma engine_step_inv: "engine_inv g \<Longrightarrow> engine_step g g' \<Longrightarrow> engine_inv g'"
  by (erule engine_stepE)
    (blast intro: seed_inv dispatch_inv complete_node_inv fail_node_inv requeue_failed_inv
      growth_step_inv expand_node_growth inject_from_gate_growth)+

lemma new_graph_inv: "engine_inv (new_graph m)"
  by (simp add: engine_inv_def new_graph_def shape_inv_def state_inv_def deps_closed_def joins_ok_def
      audited_ok_def root_gate_ok_def owners_ok_def outputs_ok_def flow_ok_def get_def dep_edges_def
      acyclic_def)

interpretation eng: transition_system "\<lambda>g. g = new_graph m" engine_step engine_inv for m
  by unfold_locales (auto intro: new_graph_inv engine_step_inv)

section \<open>What no step undoes\<close>

text \<open>The state changes that keep the shape, in one form.\<close>

definition keeps_decl :: "TaskNode \<Rightarrow> TaskNode \<Rightarrow> bool" where
  "keeps_decl n n' \<longleftrightarrow> node_id n' = node_id n \<and> node_parent n' = node_parent n
     \<and> node_is_gate n' = node_is_gate n \<and> node_origin n' = node_origin n
     \<and> node_content n' = node_content n \<and> node_kind n' = node_kind n
     \<and> node_priority n' = node_priority n \<and> node_depends_on n' = node_depends_on n"

definition relabels :: "TaskGraph \<Rightarrow> TaskGraph \<Rightarrow> bool" where
  "relabels g g' \<longleftrightarrow> (\<exists>i f n. get g i = Some n \<and> node_status n \<noteq> Done
     \<and> (\<forall>n. keeps_decl n (f n)) \<and> g' = modify g i f)"

lemma relabelsI:
  assumes "get g i = Some n" and "node_status n \<noteq> Done" and "g' = modify g i f"
    and "\<And>n. keeps_decl n (f n)"
  shows "relabels g g'"
  unfolding relabels_def using assms by blast

lemma engine_step_cases:
  assumes inv: "engine_inv g" and st: "engine_step g g'"
  obtains "growth_step g g'" | "relabels g g'" | "g' = g" | "nodes g = []" "mode g' = mode g"
proof -
  note thesis = that
  from st show ?thesis
  proof cases
    case (step_seed specs)
    with seed_step [OF inv] thesis show ?thesis by blast
  next
    case (step_dispatch i w)
    then obtain n where n: "get g i = Some n" "node_status n = Queued"
      and g': "g' = modify g i (\<lambda>n. n\<lparr>node_owner := Some w, node_status := Running\<rparr>)"
      by (auto simp: dispatch_def dispatchable_def split: if_splits option.splits)
    show ?thesis
      by (rule thesis(2), rule relabelsI [OF n(1) _ g']) (use n in \<open>simp_all add: keeps_decl_def\<close>)
  next
    case (step_complete i a art)
    then obtain n where n: "get g i = Some n" "node_status n = Running"
      and g': "g' = modify g i (\<lambda>n. n\<lparr>node_status := Done, node_output := Some art\<rparr>)"
      by (metis complete_node_Inr)
    show ?thesis
      by (rule thesis(2), rule relabelsI [OF n(1) _ g']) (use n in \<open>simp_all add: keeps_decl_def\<close>)
  next
    case (step_fail i a)
    then obtain n where n: "get g i = Some n" "node_status n = Running"
      and g': "g' = modify g i (\<lambda>n. n\<lparr>node_status := Failed\<rparr>)"
      by (auto simp: fail_node_def and_then_eq_Inr owned_running_Inr)
    show ?thesis
      by (rule thesis(2), rule relabelsI [OF n(1) _ g']) (use n in \<open>simp_all add: keeps_decl_def\<close>)
  next
    case (step_requeue i)
    then obtain n where n: "get g i = Some n" "node_status n = Failed"
      and g': "g' = modify g i (\<lambda>n. n\<lparr>node_status := Queued, node_owner := None\<rparr>)"
      by (auto simp: requeue_failed_def split: option.splits if_splits)
    show ?thesis
      by (rule thesis(2), rule relabelsI [OF n(1) _ g']) (use n in \<open>simp_all add: keeps_decl_def\<close>)
  next
    case (step_expand i a specs out)
    with thesis(1) expand_node_growth [OF inv] show ?thesis by blast
  next
    case (step_inject i a specs ids)
    with thesis(1) inject_from_gate_growth [OF inv] show ?thesis by blast
  qed
qed

lemma seeded_stable:
  assumes inv: "engine_inv g" and st: "engine_step g g'" and s: "seeded g s"
  shows "seeded g' s"
  using inv st
proof (cases rule: engine_step_cases)
  case 1
  from s show ?thesis by (rule seeded_mono) (rule growth_step_decl [OF inv 1])
next
  case 2
  then obtain i f where g': "g' = modify g i f" and f: "\<And>n. keeps_decl n (f n)"
    unfolding relabels_def by blast
  from s show ?thesis
    unfolding g' by (rule seeded_mono, intro modify_decl) (use f in \<open>simp_all add: keeps_decl_def\<close>)
next
  case 4
  with s show ?thesis by (auto simp: seeded_def get_def)
qed (use s in simp)

text \<open>Finished work, with its artifact. The root gate alone may be queued again.\<close>

definition finished_with :: "str \<Rightarrow> HandoffArtifact \<Rightarrow> TaskGraph \<Rightarrow> bool" where
  "finished_with v art g \<longleftrightarrow>
     (\<exists>n. get g v = Some n \<and> node_status n = Done \<and> node_output n = Some art \<and> \<not> is_root_gate n)"

lemma finished_stable:
  assumes inv: "engine_inv g" and st: "engine_step g g'" and f: "finished_with v art g"
  shows "finished_with v art g'"
proof -
  from f obtain n where n: "get g v = Some n" "node_status n = Done" "node_output n = Some art"
    "\<not> is_root_gate n" by (auto simp: finished_with_def)
  from inv st show ?thesis
  proof (cases rule: engine_step_cases)
    case 1
    then obtain h A K where gw: "grows (mode g) (get g) h A K" and se: "settled n (h v n)"
      and g': "get g' = evolve (get g) h K"
      using n(1) unfolding growth_step_def by blast
    have "get g' v = Some (h v n)" using n(1) by (simp add: g' evolve_old)
    moreover have "node_status (h v n) = Done" "node_output (h v n) = Some art"
      using se n unfolding settled_def by auto
    moreover have "\<not> is_root_gate (h v n)" using grows_old(3,4) [OF gw n(1)] n(4) by simp
    ultimately show ?thesis by (auto simp: finished_with_def)
  next
    case 2
    then obtain i m f where m: "get g i = Some m" "node_status m \<noteq> Done"
      and g': "g' = modify g i f" and f: "\<And>n. keeps_decl n (f n)"
      unfolding relabels_def by blast
    have "v \<noteq> i" using m n by auto
    then have "get g' v = Some n" using n(1) f by (simp add: g' get_modify keeps_decl_def)
    with n show ?thesis by (auto simp: finished_with_def)
  next
    case 4
    with n show ?thesis by (simp add: get_def)
  qed (use f in simp)
qed

interpretation eng_seeded: stable_property "\<lambda>g. g = new_graph m" engine_step engine_inv "\<lambda>g. seeded g s"
  for m s
  by unfold_locales (rule seeded_stable)

interpretation eng_finished: stable_property "\<lambda>g. g = new_graph m" engine_step engine_inv "finished_with v art"
  for m v art
  by unfold_locales (rule finished_stable)

lemma engine_step_mode: "engine_inv g \<Longrightarrow> engine_step g g' \<Longrightarrow> mode g' = mode g"
  by (erule (1) engine_step_cases) (auto simp: growth_step_def relabels_def)

interpretation eng_mode: stable_property "\<lambda>g. g = new_graph m" engine_step engine_inv "\<lambda>g. mode g = m"
  for m
  by unfold_locales (simp add: engine_step_mode)

lemma reachable_mode: "engine_step\<^sup>*\<^sup>* (new_graph m) g \<Longrightarrow> mode g = m"
  by (rule eng_mode.steps_stable [OF _ new_graph_inv]) (simp_all add: new_graph_def)

lemma reachable_get:
  "engine_step\<^sup>*\<^sup>* (new_graph m) g \<Longrightarrow> n \<in> set (nodes g) \<Longrightarrow> get g (node_id n) = Some n"
  by (drule eng.reachable_inv [OF refl]) (simp add: engine_inv_def get_distinct)

lemmas engine_inv_parts = engine_inv_def shape_inv_def state_inv_def

section \<open>A concrete run\<close>

text \<open>One piece of work and the plan-wide gate, both completed.\<close>

definition demo_specs :: "NodeSpec list" where
  "demo_specs = [new_spec ''a'' ''look'' Explore]"

definition demo_seeded :: TaskGraph where
  "demo_seeded = projr (seed (new_graph Deep) demo_specs)"

definition demo_running :: TaskGraph where
  "demo_running = fst (dispatch demo_seeded ''a'' ''w0'')"

definition demo_worked :: TaskGraph where
  "demo_worked = projr (complete_node demo_running ''a'' ''w0'' (deep_artifact ''found''))"

definition demo_gate :: TaskGraph where
  "demo_gate = fst (dispatch demo_worked ''plan::gate'' ''w0'')"

definition demo_done :: TaskGraph where
  "demo_done = projr (complete_node demo_gate ''plan::gate'' ''w0'' (brief ''a is fine''))"

lemma demo_steps:
  "seed (new_graph Deep) demo_specs = Inr demo_seeded"
  "dispatch demo_seeded ''a'' ''w0'' = (demo_running, True)"
  "complete_node demo_running ''a'' ''w0'' (deep_artifact ''found'') = Inr demo_worked"
  "dispatch demo_worked ''plan::gate'' ''w0'' = (demo_gate, True)"
  "complete_node demo_gate ''plan::gate'' ''w0'' (brief ''a is fine'') = Inr demo_done"
  by code_simp+

lemma demo_reachable:
  "engine_step\<^sup>*\<^sup>* (new_graph Deep) demo_seeded"
  "engine_step\<^sup>*\<^sup>* demo_seeded demo_worked"
  "engine_step\<^sup>*\<^sup>* demo_worked demo_done"
  using demo_steps by (meson r_into_rtranclp rtranclp.rtrancl_into_rtrancl engine_step.intros)+

lemma demo_reachable_done: "engine_step\<^sup>*\<^sup>* (new_graph Deep) demo_done"
  using demo_reachable by (meson rtranclp_trans)

section \<open>Reachable graphs\<close>

text \<open>
  C2: Every graph that any interleaving of seeds, dispatches, completions, failures, retries,
  expansions and gap injections can produce from an empty graph is well formed: ids are unique,
  dependencies resolve and never form a cycle, a node has an owner exactly while it is not
  queued, finished nodes carry an artifact, everything parented to a node is a dependency of
  that composite, and in deep mode every work node is a dependency of a gate of its own level
  while light mode has no gates.
\<close>

theorem reachable_well_formed:
  assumes "engine_step\<^sup>*\<^sup>* (new_graph m) g"
  shows "mode g = m \<and> distinct (map node_id (nodes g)) \<and> cycle_nodes g = [] \<and>
    (\<forall>n \<in> set (nodes g).
       set (node_depends_on n) \<subseteq> node_id ` set (nodes g)
       \<and> (node_owner n = None \<longleftrightarrow> node_status n = Queued)
       \<and> (is_done n \<longrightarrow> node_output n \<noteq> None)
       \<and> (\<forall>p. node_parent n = Some p \<longrightarrow>
            (\<exists>c. get g p = Some c \<and> is_composite c \<and> node_id n \<in> set (node_depends_on c)))
       \<and> (if requires_gates m
          then node_is_gate n \<or> (\<exists>e \<in> set (nodes g). node_is_gate e \<and> node_parent e = node_parent n
                 \<and> node_id n \<in> set (node_depends_on e))
          else \<not> node_is_gate n))"
proof -
  have inv: "engine_inv g" by (rule eng.reachable_inv [OF refl assms])
  have md: "mode g = m" by (rule reachable_mode [OF assms])
  have "cycle_nodes g = []"
    using inv by (simp add: cycle_nodes_Nil engine_inv_parts dep_rel_get)
  moreover
  have "set (node_depends_on n) \<subseteq> node_id ` set (nodes g)
       \<and> (node_owner n = None \<longleftrightarrow> node_status n = Queued) \<and> (is_done n \<longrightarrow> node_output n \<noteq> None)
       \<and> (\<forall>p. node_parent n = Some p \<longrightarrow>
            (\<exists>c. get g p = Some c \<and> is_composite c \<and> node_id n \<in> set (node_depends_on c)))
       \<and> (if requires_gates m
          then node_is_gate n \<or> (\<exists>e \<in> set (nodes g). node_is_gate e \<and> node_parent e = node_parent n
                 \<and> node_id n \<in> set (node_depends_on e))
          else \<not> node_is_gate n)" if "n \<in> set (nodes g)" for n
  proof (intro conjI)
    note n = reachable_get [OF assms that]
    from inv n show "set (node_depends_on n) \<subseteq> node_id ` set (nodes g)"
      unfolding engine_inv_parts deps_closed_def dom_get by fastforce
    from inv n show "node_owner n = None \<longleftrightarrow> node_status n = Queued"
      unfolding engine_inv_parts owners_ok_def by blast
    from inv n show "is_done n \<longrightarrow> node_output n \<noteq> None"
      unfolding engine_inv_parts outputs_ok_def is_done_def by blast
    from inv n show "\<forall>p. node_parent n = Some p \<longrightarrow>
            (\<exists>c. get g p = Some c \<and> is_composite c \<and> node_id n \<in> set (node_depends_on c))"
      unfolding engine_inv_parts joins_ok_def is_composite_def by blast
    have a: "audited_ok m (get g)" using inv md by (simp add: engine_inv_parts)
    show "if requires_gates m
          then node_is_gate n \<or> (\<exists>e \<in> set (nodes g). node_is_gate e \<and> node_parent e = node_parent n
                 \<and> node_id n \<in> set (node_depends_on e))
          else \<not> node_is_gate n"
    proof (cases m)
      case Deep
      with a n have "\<not> node_is_gate n \<longrightarrow> (\<exists>k e. get g k = Some e \<and> node_is_gate e
          \<and> node_parent e = node_parent n \<and> node_id n \<in> set (node_depends_on e))"
        unfolding audited_ok_def by simp
      with Deep get_Some_mem show ?thesis by fastforce
    qed (use a n in \<open>auto simp: audited_ok_def\<close>)
  qed
  ultimately show ?thesis using inv md by (simp add: engine_inv_def)
qed

theorem reachable_well_formed_witness:
  "mode demo_done = Deep \<and> distinct (map node_id (nodes demo_done)) \<and> cycle_nodes demo_done = []"
  using reachable_well_formed [OF demo_reachable_done] by blast

text \<open>
  C1: A deep plan that is not empty has exactly one plan-wide gate, and when that gate is done,
  every node of the plan is done. Nothing can be finished around the audit.
\<close>

theorem root_gate_certifies_plan:
  assumes "engine_step\<^sup>*\<^sup>* (new_graph Deep) g" and "nodes g \<noteq> []"
  shows "\<exists>e \<in> set (nodes g). is_root_gate e
    \<and> (\<forall>e' \<in> set (nodes g). is_root_gate e' \<longrightarrow> e' = e)
    \<and> (is_done e \<longrightarrow> list_all is_done (nodes g))"
proof -
  have inv: "engine_inv g" by (rule eng.reachable_inv [OF refl assms(1)])
  have sh: "shape_inv Deep (get g)" and fl: "flow_ok (get g)"
    using inv reachable_mode [OF assms(1)] by (simp_all add: engine_inv_parts)
  have "get g (node_id (hd (nodes g))) = Some (hd (nodes g))"
    using assms by (simp add: reachable_get)
  from root_gate_exists [OF sh this] obtain k e where e: "get g k = Some e" "is_root_gate e" by blast
  have "e' = e" if "e' \<in> set (nodes g)" "is_root_gate e'" for e'
  proof -
    have g': "get g (node_id e') = Some e'" using assms(1) that(1) by (rule reachable_get)
    with sh e that have "node_id e' = k" unfolding shape_inv_def root_gate_ok_def by blast
    with g' e show ?thesis by simp
  qed
  moreover have "list_all is_done (nodes g)" if "is_done e"
    using root_gate_certifies [OF sh fl e] that reachable_get [OF assms(1)]
    unfolding list_all_iff is_done_def by blast
  ultimately show ?thesis using e get_Some_mem by blast
qed

theorem root_gate_certifies_plan_witness:
  "\<exists>e \<in> set (nodes demo_done). is_root_gate e \<and> is_done e \<and> list_all is_done (nodes demo_done)"
proof -
  have "nodes demo_done \<noteq> []" by code_simp
  moreover have "\<forall>e \<in> set (nodes demo_done). is_root_gate e \<longrightarrow> is_done e" by code_simp
  ultimately show ?thesis using root_gate_certifies_plan [OF demo_reachable_done] by blast
qed

text \<open>
  Supplement: A finished node has only finished work upstream of it, along any chain of dependencies.
\<close>

theorem done_upstream_done:
  assumes "engine_step\<^sup>*\<^sup>* (new_graph m) g" and "(u, v) \<in> (dep_rel (nodes g))\<^sup>+"
    and "get g v = Some n" and "is_done n"
  shows "\<exists>d. get g u = Some d \<and> is_done d \<and> node_output d \<noteq> None"
proof -
  have inv: "engine_inv g" by (rule eng.reachable_inv [OF refl assms(1)])
  then have "flow_ok (get g)" "outputs_ok (get g)" "dep_rel (nodes g) = dep_edges (get g)"
    by (simp_all add: engine_inv_parts dep_rel_get)
  with flow_done_back [of "get g" u v n] assms show ?thesis
    unfolding is_done_def outputs_ok_def by metis
qed

theorem done_upstream_done_witness:
  "\<exists>d. get demo_done ''a'' = Some d \<and> is_done d \<and> node_output d \<noteq> None"
proof -
  have "case get demo_done ''plan::gate'' of None \<Rightarrow> False | Some n \<Rightarrow> is_done n"
    and "\<exists>n \<in> set (nodes demo_done). node_id n = ''plan::gate'' \<and> ''a'' \<in> set (node_depends_on n)"
    and "''a'' \<in> set (node_ids (nodes demo_done))"
    by code_simp+
  moreover from this have "(''a'', ''plan::gate'') \<in> (dep_rel (nodes demo_done))\<^sup>+"
    by (intro r_into_trancl) (simp add: dep_rel_def)
  ultimately show ?thesis
    using done_upstream_done [OF demo_reachable_done] by (auto split: option.splits)
qed

text \<open>
  C3: The scheduler never stalls by itself. When no node is ready and none is running, every
  node still queued waits, through its dependencies, for a node that failed; so a plan with no
  failed node always has a ready or a running node until everything is done.
\<close>

theorem stall_only_behind_failure:
  assumes "engine_step\<^sup>*\<^sup>* (new_graph m) g" and "ready_nodes g = []"
    and "\<forall>n \<in> set (nodes g). node_status n \<noteq> Running"
    and "n \<in> set (nodes g)" and "node_status n = Queued"
  shows "\<exists>f \<in> set (nodes g). node_status f = Failed \<and> (node_id f, node_id n) \<in> (dep_rel (nodes g))\<^sup>+"
proof -
  have inv: "engine_inv g" by (rule eng.reachable_inv [OF refl assms(1)])
  let ?E = "dep_rel (nodes g)"
  have "wf ?E"
    using inv by (intro finite_acyclic_wf finite_dep_rel) (simp add: engine_inv_parts dep_rel_get)
  then show ?thesis using assms(4,5)
  proof (induction "node_id n" arbitrary: n rule: wf_induct_rule)
    case less
    note gn = reachable_get [OF assms(1) less(2)]
    have "\<not> deps_satisfied g n" using assms(2) less(2,3) set_ready_nodes [of g] by auto
    then obtain d where d: "d \<in> set (node_depends_on n)"
      "\<not> (\<exists>m. get g d = Some m \<and> node_status m = Done)" by (auto simp: deps_satisfied_iff)
    have "d \<in> dom (get g)" using inv gn d(1) unfolding engine_inv_parts deps_closed_def by blast
    then obtain x where x: "get g d = Some x" by blast
    then have xm: "x \<in> set (nodes g)" "node_id x = d" by (simp_all add: get_Some_mem get_Some_id)
    have e: "(d, node_id n) \<in> ?E" using xm less(2) d(1) by (auto simp: dep_rel_def)
    have "node_status x = Queued \<or> node_status x = Failed"
      using assms(3) xm(1) d(2) x by (cases "node_status x") auto
    then show ?case
    proof
      assume "node_status x = Failed"
      with e xm show ?thesis by blast
    next
      assume "node_status x = Queued"
      with less(1) [of x] e xm obtain f where "f \<in> set (nodes g)" "node_status f = Failed"
        "(node_id f, d) \<in> ?E\<^sup>+" by blast
      with e show ?thesis by (blast intro: trancl_into_trancl)
    qed
  qed
qed


definition demo_failed :: TaskGraph where
  "demo_failed = projr (fail_node demo_running ''a'' ''w0'')"

lemma demo_reachable_failed: "engine_step\<^sup>*\<^sup>* (new_graph Deep) demo_failed"
proof -
  have "fail_node demo_running ''a'' ''w0'' = Inr demo_failed" by code_simp
  with demo_steps show ?thesis
    by (meson r_into_rtranclp rtranclp.rtrancl_into_rtrancl engine_step.intros)
qed

theorem stall_only_behind_failure_witness:
  "\<exists>f \<in> set (nodes demo_failed). node_status f = Failed"
proof -
  have "ready_nodes demo_failed = []" and "\<forall>n \<in> set (nodes demo_failed). node_status n \<noteq> Running"
    and "\<exists>n \<in> set (nodes demo_failed). node_status n = Queued"
    by code_simp+
  then show ?thesis using stall_only_behind_failure [OF demo_reachable_failed] by blast
qed

text \<open>
  C5: Seeding is idempotent over the life of a plan: once a seed was accepted, replaying the same
  specs at any later time, whatever was dispatched, completed, failed, expanded or injected in
  between, succeeds and changes nothing.
\<close>

theorem seed_replay_is_noop:
  assumes "engine_step\<^sup>*\<^sup>* (new_graph m) g" and "seed g specs = Inr g1"
    and "engine_step\<^sup>*\<^sup>* g1 g2"
  shows "seed g2 specs = Inr g2"
proof -
  have inv: "engine_inv g" by (rule eng.reachable_inv [OF refl assms(1)])
  then have inv1: "engine_inv g1" using assms(2) by (rule seed_inv)
  obtain u where u: "try_fold seed_unique_step specs [] = Inr u"
    using assms(2) by (rule seed_Inr)
  have "seeded g1 s" if "s \<in> set u" for s by (rule seed_seeded [OF inv assms(2) u that])
  then have "seeded g2 s" if "s \<in> set u" for s
    using eng_seeded.steps_stable [OF assms(3) inv1] that by blast
  with eng.steps_inv [OF assms(3) inv1] u show ?thesis by (rule seed_replay)
qed

theorem seed_replay_is_noop_witness: "seed demo_done demo_specs = Inr demo_done"
  by (rule seed_replay_is_noop [OF rtranclp.rtrancl_refl demo_steps(1)])
    (meson demo_reachable rtranclp_trans)

text \<open>
  C17: Finished work is final: no later step changes a finished node's status or artifact. The
  plan-wide gate is the exception, because a later seed re-opens it.
\<close>

theorem finished_work_is_final:
  assumes "engine_step\<^sup>*\<^sup>* (new_graph m) g" and "engine_step\<^sup>*\<^sup>* g g'"
    and "get g v = Some n" and "is_done n" and "\<not> is_root_gate n"
  shows "\<exists>n'. get g' v = Some n' \<and> is_done n' \<and> node_output n' = node_output n"
proof -
  have inv: "engine_inv g" by (rule eng.reachable_inv [OF refl assms(1)])
  then obtain art where art: "node_output n = Some art"
    using assms(3,4) unfolding engine_inv_parts outputs_ok_def is_done_def by blast
  then have "finished_with v art g" using assms(3-5) by (simp add: finished_with_def is_done_def)
  then have "finished_with v art g'" by (rule eng_finished.steps_stable [OF assms(2) inv])
  with art show ?thesis by (auto simp: finished_with_def is_done_def)
qed

theorem finished_work_is_final_witness:
  "\<exists>n n'. get demo_worked ''a'' = Some n \<and> get demo_done ''a'' = Some n' \<and> node_output n' = node_output n"
proof -
  have "case get demo_worked ''a'' of None \<Rightarrow> False | Some n \<Rightarrow> is_done n \<and> \<not> is_root_gate n" by code_simp
  then obtain n where "get demo_worked ''a'' = Some n" "is_done n" "\<not> is_root_gate n"
    by (auto split: option.splits)
  moreover have "engine_step\<^sup>*\<^sup>* (new_graph Deep) demo_worked"
    using demo_reachable by (meson rtranclp_trans)
  ultimately show ?thesis using finished_work_is_final [OF _ demo_reachable(3)] by blast
qed

end
