(* ===== verification/Dag_Contracts.thy ===== *)
theory Dag_Contracts
  imports Dag_Engine
begin

text \<open>
  Contracts of the single operations: what a gate's prose must mention, which completions are
  accepted, what expansion and gap injection leave behind, dispatch, and the driver loop.
\<close>

section \<open>Mentions of a node id\<close>

text \<open>A mention: an occurrence of the id that neither continues nor is continued by an id.\<close>

definition mention_at :: "str \<Rightarrow> str \<Rightarrow> nat \<Rightarrow> bool" where
  "mention_at body i k \<longleftrightarrow>
     prefix i (drop k body) \<and> before_ok body k \<and> after_ok (drop (k + length i) body)"

lemma mentions_from_iff:
  assumes i: "i \<noteq> []" "\<not> is_cont (hd i)" and v: "utf8_valid body"
  shows "mentions_from body i start \<longleftrightarrow> (\<exists>k \<ge> start. mention_at body i k)"
  using assms
proof (induction body i start rule: mentions_from.induct)
  case (1 body i start)
  show ?case
  proof (cases "find_str i (drop start body)")
    case None
    then have "\<not> prefix i (drop k body)" if "start \<le> k" for k
      using that unfolding find_str_None by (metis drop_drop le_add_diff_inverse2)
    with None show ?thesis by (subst mentions_from.simps) (auto simp: mention_at_def)
  next
    case (Some pos)
    let ?b = "start + pos"
    have pb: "prefix i (drop ?b body)" using find_str_Some [OF Some] by (simp add: add.commute)
    have first: "\<not> prefix i (drop k body)" if "start \<le> k" "k < ?b" for k
      using find_str_first [OF Some, of "k - start"] that by (simp add: add.commute)
    show ?thesis
    proof (cases "before_ok body ?b \<and> after_ok (drop (?b + length i) body)")
      case True
      then have "mention_at body i ?b" using pb by (simp add: mention_at_def)
      then have "\<exists>k \<ge> start. mention_at body i k" by (meson le_add1)
      with True Some show ?thesis by (subst mentions_from.simps) (simp add: Let_def)
    next
      case bad: False
      let ?s = "?b + utf8_width (body ! ?b)"
      have bl: "?b < length body" "body ! ?b = hd i" using is_cont_nth_prefix [OF pb 1(2)] by auto
      have skip: "\<not> mention_at body i k" if k: "start \<le> k" "k < ?s" for k
      proof (cases "k < ?b \<or> k = ?b")
        case False
        then have c: "is_cont (body ! k)"
          using utf8_valid_inside [OF 1(4) bl(1), of k] bl(2) 1(3) k by auto
        show ?thesis
        proof
          assume "mention_at body i k"
          then have "body ! k = hd i" using is_cont_nth_prefix 1(2) by (auto simp: mention_at_def)
          with c 1(3) show False by simp
        qed
      qed (use first k bad in \<open>auto simp: mention_at_def\<close>)
      have "mentions_from body i start \<longleftrightarrow> \<not> length body \<le> ?s \<and> mentions_from body i ?s"
        using Some bad by (subst mentions_from.simps) (auto simp: Let_def)
      also have "\<dots> \<longleftrightarrow> (\<exists>k \<ge> ?s. mention_at body i k)"
      proof (cases "length body \<le> ?s")
        case True
        have "\<not> mention_at body i k" if "?s \<le> k" for k
          using is_cont_nth_prefix [OF _ 1(2), of k body] that True by (auto simp: mention_at_def)
        with True show ?thesis by auto
      next
        case False
        with 1(1) [OF Some refl refl bad refl] 1(2-4) show ?thesis by simp
      qed
      also have "\<dots> \<longleftrightarrow> (\<exists>k \<ge> start. mention_at body i k)"
        using skip by (meson le_add1 le_trans not_le add.assoc)
      finally show ?thesis .
    qed
  qed
qed


lemma mention_at_split:
  assumes "i \<noteq> []"
  shows "(\<exists>k. mention_at body i k) \<longleftrightarrow>
    (\<exists>pre post. body = pre @ i @ post \<and> (pre = [] \<or> \<not> is_id_char (last pre)) \<and> after_ok post)"
proof
  assume "\<exists>k. mention_at body i k"
  then obtain k post where k: "drop k body = i @ post" "before_ok body k" "after_ok (drop (k + length i) body)"
    by (auto simp: mention_at_def prefix_def)
  then have "drop (k + length i) body = post" by (metis append_eq_conv_conj drop_drop add.commute)
  moreover have "k < length body" using k(1) assms by (metis append_is_Nil_conv drop_eq_Nil not_le)
  then have "take k body = [] \<or> \<not> is_id_char (last (take k body))"
    using k(2) by (auto simp: before_ok_def last_conv_nth)
  ultimately show "\<exists>pre post. body = pre @ i @ post \<and> (pre = [] \<or> \<not> is_id_char (last pre)) \<and> after_ok post"
    using k by (metis append_take_drop_id)
next
  assume "\<exists>pre post. body = pre @ i @ post \<and> (pre = [] \<or> \<not> is_id_char (last pre)) \<and> after_ok post"
  then obtain pre post where b: "body = pre @ i @ post" "pre = [] \<or> \<not> is_id_char (last pre)" "after_ok post"
    by blast
  then have "mention_at body i (length pre)"
    by (auto simp: mention_at_def before_ok_def last_conv_nth nth_append)
  then show "\<exists>k. mention_at body i k" by blast
qed

text \<open>
  C37: The scan that decides whether a gate's prose mentions a node id is exact on Rust strings:
  it answers true precisely when the id occurs with no id character before it, and after it the
  end of the text, a character that is no id character, or a full stop or colon that no id
  character follows. In particular an id is never found inside a longer id.
\<close>

theorem mentions_node_id_exact:
  assumes "utf8_valid body" and "utf8_valid i"
  shows "mentions_node_id body i \<longleftrightarrow> i \<noteq> [] \<and>
    (\<exists>pre post. body = pre @ i @ post \<and> (pre = [] \<or> \<not> is_id_char (last pre)) \<and>
       (post = [] \<or> \<not> is_id_char (hd post)
        \<or> hd post \<in> {CHR ''.'', CHR '':''} \<and> (length post = 1 \<or> \<not> is_id_char (post ! 1))))"
proof (cases "i = []")
  case False
  then have "\<not> is_cont (hd i)" using assms(2) by (cases i) auto
  moreover have "after_ok post \<longleftrightarrow> post = [] \<or> \<not> is_id_char (hd post)
        \<or> hd post \<in> {CHR ''.'', CHR '':''} \<and> (length post = 1 \<or> \<not> is_id_char (post ! 1))" for post
    by (auto simp: after_ok_def is_id_char_def split: list.splits)
  ultimately show ?thesis
    using False assms(1) mention_at_split [OF False, of body]
    by (simp add: mentions_node_id_def mentions_from_iff)
qed (simp add: mentions_node_id_def)

theorem mentions_node_id_exact_witness:
  "mentions_node_id ''checked explore.hot.udev.'' ''explore.hot.udev''
   \<and> \<not> mentions_node_id ''checked explore.hot.udev.'' ''explore.hot''"
proof -
  have u: "utf8_valid ''checked explore.hot.udev.''" "utf8_valid ''explore.hot.udev''" "utf8_valid ''explore.hot''"
    by code_simp+
  have "mentions_node_id ''checked explore.hot.udev.'' ''explore.hot.udev''"
    unfolding mentions_node_id_exact [OF u(1,2)]
    by (intro conjI exI [of _ "''checked ''"] exI [of _ "''.''"]) (simp_all add: is_id_char_def is_ascii_alphanumeric_def is_ascii_digit_def)
  moreover have "\<not> mentions_node_id ''checked explore.hot.udev.'' ''explore.hot''" by code_simp
  ultimately show ?thesis by blast
qed

section \<open>Completing a node\<close>

lemma validate_gate_pass_Inr:
  assumes "get g k = Some e"
  shows "validate_gate_pass g k art = Inr () \<longleftrightarrow>
    (\<forall>d \<in> set (gate_audit_scope g e). is_done d \<and>
       (length (gate_audit_scope g e) \<le> 20 \<or> output_level d \<noteq> Some High \<longrightarrow> addressed art (node_id d)))"
proof -
  let ?S = "gate_audit_scope g e"
  let ?A = "if length ?S \<le> 20 then ?S else filter (\<lambda>n. output_level n \<noteq> Some High) ?S"
  have "validate_gate_pass g k art = Inr () \<longleftrightarrow> ?S = [] \<or>
      (\<forall>d \<in> set ?S. is_done d)
      \<and> (\<forall>d \<in> set ?S. output_level d = Some Low \<longrightarrow> addressed art (node_id d))
      \<and> (\<forall>d \<in> set ?A. addressed art (node_id d))"
    unfolding validate_gate_pass_def Let_def GATE_COVERAGE_ENUMERATION_CAP_def assms
    by (auto simp: filter_empty_conv)
  then show ?thesis by auto
qed

lemma set_gate_audit_scope:
  "set (gate_audit_scope g e) = {d. \<not> node_is_gate d \<and> (\<exists>i \<in> set (node_depends_on e). get g i = Some d)}"
  by (auto simp: gate_audit_scope_def List.map_filter_def image_iff)

text \<open>
  C4: A completion is accepted exactly when the actor owns the running node and, in deep mode,
  the work is honest: a work node states findings, what it did not check and a confidence; a
  gate has only finished nodes in its audit scope and addresses each of them by id (over the
  enumeration cap, each one not reported at high confidence). Then only that node changes.
\<close>

theorem complete_node_accepts:
  "complete_node g i actor art = Inr g' \<longleftrightarrow>
    (\<exists>n. get g i = Some n \<and> node_owner n = Some actor \<and> node_status n = Running
      \<and> (requires_gates (mode g) \<and> \<not> node_is_gate n \<longrightarrow>
           trim (findings art) \<noteq> [] \<and> what_i_did_not_check art \<noteq> [] \<and> confidence_level art \<noteq> None)
      \<and> (requires_gates (mode g) \<and> node_is_gate n \<longrightarrow>
           (\<forall>k \<in> set (node_depends_on n). \<forall>d. get g k = Some d \<and> \<not> node_is_gate d \<longrightarrow>
              is_done d \<and> (length (gate_audit_scope g n) \<le> 20 \<or> output_level d \<noteq> Some High
                \<longrightarrow> addressed art k)))
      \<and> g' = modify g i (\<lambda>n. n\<lparr>node_status := Done, node_output := Some art\<rparr>))"
proof -
  have va: "validate_artifact (mode g) i gt art = Inr () \<longleftrightarrow> (requires_gates (mode g) \<and> \<not> gt \<longrightarrow>
      trim (findings art) \<noteq> [] \<and> what_i_did_not_check art \<noteq> [] \<and> confidence_level art \<noteq> None)" for gt
    by (auto simp: validate_artifact_def)
  have gp: "validate_gate_pass g i art = Inr () \<longleftrightarrow>
      (\<forall>k \<in> set (node_depends_on n). \<forall>d. get g k = Some d \<and> \<not> node_is_gate d \<longrightarrow>
         is_done d \<and> (length (gate_audit_scope g n) \<le> 20 \<or> output_level d \<noteq> Some High
           \<longrightarrow> addressed art k))" if "get g i = Some n" for n
    unfolding validate_gate_pass_Inr [OF that] set_gate_audit_scope
    using get_Some_id by blast
  show ?thesis
  proof (cases "get g i")
    case None
    then show ?thesis by (simp add: complete_node_def owned_running_def)
  next
    case (Some n)
    show ?thesis
      using va gp [OF Some] Some
      by (cases "requires_gates (mode g)"; cases "node_is_gate n")
        (auto simp: complete_node_def and_then_eq_Inr owned_running_Inr)
  qed
qed

theorem complete_node_accepts_witness:
  "\<exists>n. get demo_gate ''plan::gate'' = Some n \<and> node_is_gate n
     \<and> (\<forall>k \<in> set (node_depends_on n). \<forall>d. get demo_gate k = Some d \<and> \<not> node_is_gate d \<longrightarrow>
          is_done d \<and> (length (gate_audit_scope demo_gate n) \<le> 20 \<or> output_level d \<noteq> Some High
            \<longrightarrow> addressed (brief ''a is fine'') k))"
proof -
  have "case get demo_gate ''plan::gate'' of None \<Rightarrow> False | Some n \<Rightarrow> node_is_gate n"
    and "requires_gates (mode demo_gate)" by code_simp+
  with demo_steps(5) show ?thesis
    unfolding complete_node_accepts by (auto split: option.splits)
qed

section \<open>Dispatch\<close>

lemma get_dispatch:
  assumes "dispatch g i w = (g', True)"
  obtains n where "get g i = Some n" "node_status n = Queued" "deps_satisfied g n"
    "get g' = (get g)(i \<mapsto> n\<lparr>node_owner := Some w, node_status := Running\<rparr>)"
    "nodes g' = update_first (\<lambda>n. node_id n = i) (\<lambda>n. n\<lparr>node_owner := Some w, node_status := Running\<rparr>) (nodes g)"
proof -
  from assms obtain n where n: "get g i = Some n" "node_status n = Queued" "deps_satisfied g n"
    and g': "g' = modify g i (\<lambda>n. n\<lparr>node_owner := Some w, node_status := Running\<rparr>)"
    by (auto simp: dispatch_def dispatchable_def split: option.splits if_splits)
  have "get g' = (get g)(i \<mapsto> n\<lparr>node_owner := Some w, node_status := Running\<rparr>)"
    using n(1) by (auto simp: g' get_modify)
  with that [OF n] g' show ?thesis by (simp add: modify_def)
qed

text \<open>
  C16: The ready set is exact and ordered, and claiming from it is exclusive. It lists the queued
  nodes whose dependencies are all done, by priority and then id; dispatching one of them
  succeeds, makes the worker its owner, removes exactly that node from the ready set, and a
  second dispatch of the same node is refused and changes nothing.
\<close>

theorem dispatch_is_exclusive:
  assumes "engine_step\<^sup>*\<^sup>* (new_graph m) g" and "n \<in> set (nodes g)"
  shows "(n \<in> set (ready_nodes g) \<longleftrightarrow> node_status n = Queued
       \<and> (\<forall>d \<in> set (node_depends_on n). \<exists>x. get g d = Some x \<and> is_done x))
    \<and> sorted (map (\<lambda>n. (node_priority n, node_id n)) (ready_nodes g))
    \<and> (n \<in> set (ready_nodes g) \<longrightarrow>
        (\<exists>g'. dispatch g (node_id n) w = (g', True)
          \<and> get g' (node_id n) = Some (n\<lparr>node_owner := Some w, node_status := Running\<rparr>)
          \<and> set (ready_nodes g') = set (ready_nodes g) - {n}
          \<and> dispatch g' (node_id n) w' = (g', False)))"
proof (intro conjI impI)
  note gn = reachable_get [OF assms]
  have inv: "engine_inv g" by (rule eng.reachable_inv [OF refl assms(1)])
  show "n \<in> set (ready_nodes g) \<longleftrightarrow> node_status n = Queued
       \<and> (\<forall>d \<in> set (node_depends_on n). \<exists>x. get g d = Some x \<and> is_done x)"
    using assms(2) by (simp add: set_ready_nodes deps_satisfied_iff is_done_def)
  show "sorted (map (\<lambda>n. (node_priority n, node_id n)) (ready_nodes g))"
    by (simp add: ready_nodes_def)
  assume r: "n \<in> set (ready_nodes g)"
  then have "dispatchable g (node_id n)"
    using inv by (intro dispatchable_ready) (simp add: engine_inv_def)
  then obtain g' where d: "dispatch g (node_id n) w = (g', True)" by (simp add: dispatch_def)
  let ?n = "n\<lparr>node_owner := Some w, node_status := Running\<rparr>"
  obtain x where x: "get g (node_id n) = Some x"
    "get g' = (get g)(node_id n \<mapsto> x\<lparr>node_owner := Some w, node_status := Running\<rparr>)"
    using d by (rule get_dispatch)
  then have g': "get g' = (get g)(node_id n \<mapsto> ?n)" using gn by simp
  have inv': "engine_inv g'" by (rule dispatch_inv [OF inv d])
  have ds: "deps_satisfied g' y \<longleftrightarrow> deps_satisfied g y" for y
    using r gn by (auto simp: deps_satisfied_iff g' set_ready_nodes)
  have mem: "y \<in> set (nodes h) \<longleftrightarrow> get h (node_id y) = Some y" if "engine_inv h" for h y
    using that get_distinct [of h y] get_Some_mem [of h "node_id y" y] by (auto simp: engine_inv_def)
  have "y \<in> set (ready_nodes g') \<longleftrightarrow> y \<in> set (ready_nodes g) - {n}" for y
    using gn by (cases "node_id y = node_id n")
      (auto simp: set_ready_nodes ds mem [OF inv] mem [OF inv'] g'
        dest: arg_cong [where f = node_status])
  then have "set (ready_nodes g') = set (ready_nodes g) - {n}" by blast
  moreover have "dispatch g' (node_id n) w' = (g', False)"
    by (simp add: dispatch_def dispatchable_def g')
  ultimately show "\<exists>g'. dispatch g (node_id n) w = (g', True)
          \<and> get g' (node_id n) = Some ?n \<and> set (ready_nodes g') = set (ready_nodes g) - {n}
          \<and> dispatch g' (node_id n) w' = (g', False)"
    using d g' by auto
qed

theorem dispatch_is_exclusive_witness:
  "\<exists>n \<in> set (nodes demo_seeded). \<exists>g'. dispatch demo_seeded (node_id n) ''w1'' = (g', True)
     \<and> dispatch g' (node_id n) ''w2'' = (g', False)"
proof -
  have "\<exists>n \<in> set (nodes demo_seeded). node_id n \<in> node_id ` set (ready_nodes demo_seeded)" by code_simp
  then obtain x where "x \<in> set (ready_nodes demo_seeded)" by auto
  then have x: "x \<in> set (nodes demo_seeded)" "x \<in> set (ready_nodes demo_seeded)"
    by (simp_all add: set_ready_nodes)
  from dispatch_is_exclusive [OF demo_reachable(1) x(1), of "''w1''" "''w2''"] x show ?thesis by blast
qed

section \<open>Decomposition and gap injection\<close>

lemma get_push_new:
  assumes "distinct (node_ids (nodes g @ K))" and "x \<in> set K"
  shows "get (foldl push g K) (node_id x) = Some x"
  using assms by (intro get_distinct) auto

text \<open>
  C13: An accepted expansion turns the running leaf into a join: it is queued again without owner,
  remembers who planned it and waits for the children (and, in deep mode, for a fresh gate of its
  own that waits for exactly the children). The children are queued under it, in the order given,
  nothing else changes, and the join cannot be dispatched before they are done.
\<close>

theorem expand_node_effect:
  assumes "engine_step\<^sup>*\<^sup>* (new_graph m) g" and "expand_node g i actor specs = Inr (g', out)"
  shows "map Some (child_ids out) = map spec_id specs
    \<and> (gate_id out = None \<longleftrightarrow> m = Light)
    \<and> (\<exists>n. get g i = Some n \<and> node_owner n = Some actor \<and> node_status n = Running
         \<and> get g' i = Some (flip_composite
             (child_ids out @ (case gate_id out of None \<Rightarrow> [] | Some k \<Rightarrow> [k])) n))
    \<and> (\<forall>c \<in> set (child_ids out). get g c = None \<and>
         (\<exists>x. get g' c = Some x \<and> node_parent x = Some i \<and> node_status x = Queued \<and> \<not> node_is_gate x))
    \<and> (\<forall>k. gate_id out = Some k \<longrightarrow> get g k = None \<and>
         (\<exists>e. get g' k = Some e \<and> node_parent e = Some i \<and> node_status e = Queued \<and> node_is_gate e
            \<and> node_depends_on e = child_ids out))
    \<and> (\<forall>v. v \<noteq> i \<and> get g v \<noteq> None \<longrightarrow> get g' v = get g v)
    \<and> \<not> dispatchable g' i"
proof -
  have inv: "engine_inv g" by (rule eng.reachable_inv [OF refl assms(1)])
  have md: "mode g = m" by (rule reachable_mode [OF assms(1)])
  from assms(2) obtain n N ids where n: "get g i = Some n" "node_owner n = Some actor" "node_status n = Running"
    and ne: "ids \<noteq> []" and b: "batch g (Some i) ids N"
    and g': "g' = modify (foldl push g (N @ expansion_gates g n i ids N)) i
       (flip_composite (ids @ node_ids (expansion_gates g n i ids N)))"
    and o: "child_ids out = ids" "gate_id out = (if mode g = Deep then Some (unique_gate_id (foldl push g N) i) else None)"
    by (rule expand_node_Inr)
  let ?G = "expansion_gates g n i ids N"
  let ?d = "ids @ node_ids ?G"
  have sid: "map Some ids = map spec_id specs"
    unfolding o(1) [symmetric] using assms(2) fresh_ids_Some
    by (auto simp: expand_node_def and_then_eq_Inr)
  have gi: "node_ids ?G = (case gate_id out of None \<Rightarrow> [] | Some k \<Rightarrow> [k])"
    by (simp add: o expansion_gates_def make_gate_def)
  have fr: "unique_gate_id (foldl push g N) i \<notin> dom (get g) \<union> set ids"
    using unique_gate_id_fresh [of "foldl push g N" i] batchD(1) [OF b] by (auto simp: dom_get)
  have ds: "distinct (node_ids (nodes g @ (N @ ?G)))"
    using inv batchD(1-3) [OF b] fr
    by (auto simp: engine_inv_def dom_get expansion_gates_def make_gate_def)
  have iN: "i \<notin> set ids" using n(1) batchD(3) [OF b] by blast
  have iG: "i \<notin> set (node_ids ?G)" using n(1) fr by (auto simp: expansion_gates_def make_gate_def)
  have g'v: "get g' v = (if v = i then Some (flip_composite ?d n) else get (foldl push g (N @ ?G)) v)" for v
    using n(1) unfolding g' by (subst get_modify) (simp_all add: flip_composite_def get_push_all evolve_old)
  have new: "get g' (node_id x) = Some x" if "x \<in> set (N @ ?G)" for x
  proof -
    have "node_id x \<noteq> i" using that iN iG batchD(1) [OF b] by auto
    with get_push_new [OF ds that] show ?thesis by (simp add: g'v)
  qed
  have ch: "\<exists>x. get g' c = Some x \<and> node_parent x = Some i \<and> node_status x = Queued \<and> \<not> node_is_gate x"
    if c: "c \<in> set ids" for c
  proof -
    from c batchD(1) [OF b] obtain x where "x \<in> set N" "node_id x = c" by auto
    with new [of x] batchD(4) [OF b, of x] show ?thesis by auto
  qed
  have gt: "\<exists>e. get g' k = Some e \<and> node_parent e = Some i \<and> node_status e = Queued \<and> node_is_gate e
            \<and> node_depends_on e = ids" if k: "gate_id out = Some k" for k
    using k new [of "hd ?G"] by (auto simp: o expansion_gates_def make_gate_def split: if_splits)
  have "\<not> deps_satisfied g' (flip_composite ?d n)"
    using ch [of "hd ids"] ne by (auto simp: deps_satisfied_iff flip_composite_def intro!: bexI [of _ "hd ids"])
  then have "\<not> dispatchable g' i" by (simp add: dispatchable_def g'v)
  moreover have "get g' v = get g v" if "v \<noteq> i" "get g v \<noteq> None" for v
    using that by (auto simp: g'v get_push_all evolve_def)
  moreover have "get g c = None" if "c \<in> set ids" for c using that batchD(3) [OF b] by blast
  moreover have "get g k = None" if "gate_id out = Some k" for k
    using that fr by (auto simp: o domIff split: if_splits)
  moreover have "gate_id out = None \<longleftrightarrow> m = Light" using md by (cases m) (simp_all add: o)
  moreover have "get g' i = Some (flip_composite (ids @ (case gate_id out of None \<Rightarrow> [] | Some k \<Rightarrow> [k])) n)"
    using g'v [of i] gi by simp
  ultimately show ?thesis using n ch gt sid unfolding o(1) by blast
qed

definition demo_children :: "NodeSpec list" where
  "demo_children = [new_spec ''b'' ''left'' Explore, with_depends_on [''b''] (new_spec ''c'' ''right'' Fix)]"

lemma demo_reachable_running: "engine_step\<^sup>*\<^sup>* (new_graph Deep) demo_running"
  using demo_reachable(1) demo_steps(2) by (meson rtranclp.rtrancl_into_rtrancl step_dispatch)

theorem expand_node_effect_witness:
  "\<exists>g' out. expand_node demo_running ''a'' ''w0'' demo_children = Inr (g', out)
     \<and> gate_id out \<noteq> None \<and> \<not> dispatchable g' ''a''"
proof -
  have "\<not> isl (expand_node demo_running ''a'' ''w0'' demo_children)" by code_simp
  then obtain g' out where e: "expand_node demo_running ''a'' ''w0'' demo_children = Inr (g', out)"
    by (blast dest: not_isl_pair)
  have "gate_id out = None \<longleftrightarrow> Deep = Light" "\<not> dispatchable g' ''a''"
    using expand_node_effect [OF demo_reachable_running e] by blast+
  with e show ?thesis by simp
qed

text \<open>
  C14: An accepted injection re-opens the audit: the new nodes are queued under the gate's own
  parent, the gate is queued again without owner and waits for them, and so does the composite
  the gate belongs to. Nothing else changes and the gate cannot be dispatched before the new
  nodes are done.
\<close>

theorem inject_from_gate_effect:
  assumes "engine_step\<^sup>*\<^sup>* (new_graph m) g" and "inject_from_gate g k actor specs = Inr (g', ids)"
  shows "map Some ids = map spec_id specs
    \<and> (\<exists>e. get g k = Some e \<and> node_is_gate e \<and> node_owner e = Some actor \<and> node_status e = Running
         \<and> get g' k = Some (requeue_gate ids e)
         \<and> (\<forall>c \<in> set ids. get g c = None \<and> (\<exists>x. get g' c = Some x \<and> node_parent x = node_parent e
               \<and> node_status x = Queued \<and> \<not> node_is_gate x))
         \<and> (\<forall>p. node_parent e = Some p \<longrightarrow>
              (\<exists>c. get g p = Some c \<and> is_composite c \<and> get g' p = Some (add_join_deps ids c)))
         \<and> (\<forall>v. v \<noteq> k \<and> node_parent e \<noteq> Some v \<and> get g v \<noteq> None \<longrightarrow> get g' v = get g v))
    \<and> \<not> dispatchable g' k"
proof -
  have inv: "engine_inv g" by (rule eng.reachable_inv [OF refl assms(1)])
  from assms(2) obtain e N where e: "get g k = Some e" "node_owner e = Some actor" "node_is_gate e"
    "node_status e = Running" and ne: "ids \<noteq> []" and b: "batch g (node_parent e) ids N"
    and N: "N = map (\<lambda>s. spec_to_node s (node_parent e) Gap) specs"
    and g': "g' = inject_staged g k e ids specs"
    by (rule inject_from_gate_Inr)
  have sid: "map Some ids = map spec_id specs"
    using assms(2) fresh_ids_Some by (auto simp: inject_from_gate_def and_then_eq_Inr)
  have jo: "joins_ok (get g)" using inv by (simp add: engine_inv_parts)
  have par: "\<exists>c. get g p = Some c \<and> is_composite c \<and> p \<noteq> k" if p: "node_parent e = Some p" for p
  proof -
    obtain c where c: "get g p = Some c" "node_expanded c" using jo e(1) p unfolding joins_ok_def by blast
    then have "\<not> node_is_gate c" using jo unfolding joins_ok_def by blast
    with c e show ?thesis by (auto simp: is_composite_def)
  qed
  have ds: "distinct (node_ids (nodes g @ N))"
    using inv batchD(1-3) [OF b] by (auto simp: engine_inv_def dom_get)
  have g'v: "get g' v = (if v = k then Some (requeue_gate ids e)
      else if node_parent e = Some v then map_option (add_join_deps ids) (get g v)
      else get (foldl push g N) v)" for v
    unfolding g' inject_staged_def push_specs_def N [symmetric]
    using e(1) par by (cases "node_parent e")
      (auto simp: get_modify requeue_gate_def add_join_deps_def get_push_all evolve_old Let_def)
  have fr: "get g c = None" if "c \<in> set ids" for c using that batchD(3) [OF b] by blast
  have ch: "\<exists>x. get g' c = Some x \<and> node_parent x = node_parent e \<and> node_status x = Queued \<and> \<not> node_is_gate x"
    if c: "c \<in> set ids" for c
  proof -
    from c batchD(1) [OF b] obtain x where x: "x \<in> set N" "node_id x = c" by auto
    have "c \<noteq> k" "node_parent e \<noteq> Some c" using fr [OF c] e(1) par by fastforce+
    with get_push_new [OF ds x(1)] x(2) have "get g' c = Some x" by (simp add: g'v)
    with batchD(4) [OF b x(1)] show ?thesis by auto
  qed
  have "\<not> deps_satisfied g' (requeue_gate ids e)"
    using ch [of "hd ids"] ne by (auto simp: deps_satisfied_iff requeue_gate_def intro!: bexI [of _ "hd ids"])
  then have "\<not> dispatchable g' k" by (simp add: dispatchable_def g'v)
  moreover have "get g' k = Some (requeue_gate ids e)" by (simp add: g'v)
  moreover have "\<exists>c. get g p = Some c \<and> is_composite c \<and> get g' p = Some (add_join_deps ids c)"
    if "node_parent e = Some p" for p
    using par [OF that] that by (auto simp: g'v)
  moreover have "get g' v = get g v" if "v \<noteq> k" "node_parent e \<noteq> Some v" "get g v \<noteq> None" for v
    using that by (auto simp: g'v get_push_all evolve_def)
  ultimately show ?thesis using e ch sid fr by blast
qed

theorem inject_from_gate_effect_witness:
  "\<exists>g' ids. inject_from_gate demo_gate ''plan::gate'' ''w0'' demo_children = Inr (g', ids)
     \<and> map Some ids = map spec_id demo_children \<and> \<not> dispatchable g' ''plan::gate''"
proof -
  have "\<not> isl (inject_from_gate demo_gate ''plan::gate'' ''w0'' demo_children)" by code_simp
  then obtain g' ids where e: "inject_from_gate demo_gate ''plan::gate'' ''w0'' demo_children = Inr (g', ids)"
    by (blast dest: not_isl_pair)
  have "engine_step\<^sup>*\<^sup>* (new_graph Deep) demo_gate"
    using demo_reachable demo_steps(4) by (meson rtranclp_trans rtranclp.rtrancl_into_rtrancl step_dispatch)
  from inject_from_gate_effect [OF this e] e show ?thesis by blast
qed

section \<open>The driver\<close>

lemma apply_action_step: "apply_action g i a act = Inr g' \<Longrightarrow> engine_step g g'"
  by (cases act) (auto simp: apply_action_def and_then_eq_Inr intro: engine_step.intros)

lemma run_batch_steps:
  assumes "run_batch mw wk xs idx (g, w, st) = Inr (g', w', st')"
  shows "engine_step\<^sup>*\<^sup>* g g' \<and> st \<le> st' \<and> st' \<le> st + length xs
    \<and> (xs \<noteq> [] \<and> dispatchable g (fst (hd xs)) \<longrightarrow> st < st')"
  using assms
proof (induction xs arbitrary: idx g w st)
  case (Cons x xs)
  obtain i k where x: "x = (i, k)" by fastforce
  define nm where "nm = ''w'' @ show_nat (idx mod mw)"
  have eq: "run_batch mw wk (x # xs) idx (g, w, st) =
    (case dispatch g i nm of (g1, False) \<Rightarrow> run_batch mw wk xs (idx + 1) (g, w, st)
      | (g1, True) \<Rightarrow> (case wk w i k (assemble_input g1 i) of (w', act) \<Rightarrow>
          and_then (apply_action g1 i nm act) (\<lambda>g2. run_batch mw wk xs (idx + 1) (g2, w', st + 1))))"
    by (simp only: x run_batch.simps Let_def nm_def)
  show ?case
  proof (cases "dispatchable g i")
    case False
    then have "run_batch mw wk xs (idx + 1) (g, w, st) = Inr (g', w', st')"
      using Cons.prems unfolding eq by (simp add: dispatch_def)
    from Cons.IH [OF this] False show ?thesis by (simp add: x)
  next
    case True
    then obtain g1 where d: "dispatch g i nm = (g1, True)" by (simp add: dispatch_def)
    obtain w1 act where wk: "wk w i k (assemble_input g1 i) = (w1, act)" by fastforce
    from Cons.prems obtain g2 where a: "apply_action g1 i nm act = Inr g2"
      and r: "run_batch mw wk xs (idx + 1) (g2, w1, st + 1) = Inr (g', w', st')"
      unfolding eq by (auto simp: d wk and_then_eq_Inr)
    have "engine_step g g1" "engine_step g1 g2"
      using d a by (auto intro: step_dispatch apply_action_step)
    with Cons.IH [OF r] show ?thesis by (auto intro: converse_rtranclp_into_rtranclp)
  qed
qed simp

text \<open>What a finished run reports.\<close>

definition run_report_ok :: "TaskGraph \<Rightarrow> nat \<Rightarrow> nat \<Rightarrow> (DagError, TaskGraph \<times> SimReport) result \<Rightarrow> bool" where
  "run_report_ok g mw ms r \<longleftrightarrow> (case r of Inl _ \<Rightarrow> True
     | Inr (g', rep) \<Rightarrow> engine_step\<^sup>*\<^sup>* g g' \<and> (\<not> stalled rep \<longleftrightarrow> all_terminal g')
        \<and> (stalled rep \<longrightarrow> ms \<le> steps rep \<or> mw = 0 \<or> ready_nodes g' = [])
        \<and> completed rep = length (filter is_done (nodes g'))
        \<and> failed rep = length (filter (\<lambda>n. node_status n = Failed) (nodes g'))
        \<and> steps rep < ms + mw + 1)"

lemma run_from_returns:
  assumes "engine_inv g" and "st < ms + mw + 1"
  shows "\<exists>r. run_from mw ms wk (g, w, st) = Some r \<and> run_report_ok g mw ms r"
  using assms
proof (induction "ms - st" arbitrary: g w st rule: less_induct)
  case less
  consider (fin) "all_terminal g" | (cap) "\<not> all_terminal g" "ms \<le> st \<or> ready_batch g mw = []"
    | (go) "\<not> all_terminal g" "st < ms" "ready_batch g mw \<noteq> []" by fastforce
  then show ?case
  proof cases
    case fin
    then have "run_from mw ms wk (g, w, st) = Some (Inr (g, report g st False))"
      by (subst run_from.simps) simp
    with fin less(3) show ?thesis by (simp add: run_report_ok_def report_def)
  next
    case cap
    then have "run_from mw ms wk (g, w, st) = Some (Inr (g, report g st True))"
      by (subst run_from.simps) auto
    with cap less(3) show ?thesis
      by (cases mw) (auto simp: run_report_ok_def report_def ready_batch_def)
  next
    case go
    show ?thesis
    proof (cases "run_batch mw wk (ready_batch g mw) 0 (g, w, st)")
      case (Inl e)
      with go have "run_from mw ms wk (g, w, st) = Some (Inl e)" by (subst run_from.simps) simp
      then show ?thesis by (simp add: run_report_ok_def)
    next
      case (Inr s)
      obtain g1 w1 st1 where s: "s = (g1, w1, st1)" by (cases s)
      have e: "run_from mw ms wk (g, w, st) = run_from mw ms wk (g1, w1, st1)"
        using go Inr s by (subst run_from.simps) simp
      let ?R = "take mw (ready_nodes g)"
      have R: "?R \<noteq> []" using go(3) by (simp add: ready_batch_def)
      then have "hd ?R \<in> set (ready_nodes g)" by (metis hd_in_set in_set_takeD)
      then have "dispatchable g (node_id (hd ?R))"
        using less(2) by (intro dispatchable_ready) (simp_all add: engine_inv_def)
      moreover have "fst (hd (ready_batch g mw)) = node_id (hd ?R)"
        using R by (simp add: ready_batch_def hd_map)
      ultimately have st: "engine_step\<^sup>*\<^sup>* g g1" "st < st1" "st1 \<le> st + mw"
        using run_batch_steps [OF Inr [unfolded s]] go(3) by (auto simp: ready_batch_def)
      have "engine_inv g1" by (rule eng.steps_inv [OF st(1) less(2)])
      moreover have "ms - st1 < ms - st" "st1 < ms + mw + 1" using st go(2) by simp_all
      ultimately obtain r where r: "run_from mw ms wk (g1, w1, st1) = Some r" "run_report_ok g1 mw ms r"
        using less(1) [of st1 g1 w1] by blast
      then have "run_report_ok g mw ms r"
        using st(1) unfolding run_report_ok_def by (auto split: sum.splits dest: rtranclp_trans)
      with r e show ?thesis by simp
    qed
  qed
qed

text \<open>
  C15: The driver always returns, for any worker, and its report is right: the final graph is
  reached by engine steps alone, the run is not stalled exactly when every node is terminal, a
  stalled run hit its step cap or has no ready node, the counters count, and the number of steps
  exceeds the cap by less than one batch.
\<close>

theorem run_returns_and_reports:
  assumes "engine_step\<^sup>*\<^sup>* (new_graph m) g"
  shows "\<exists>r. run g mw ms wk w = Some r \<and> (\<forall>g' rep. r = Inr (g', rep) \<longrightarrow>
     engine_step\<^sup>*\<^sup>* (new_graph m) g' \<and> (\<not> stalled rep \<longleftrightarrow> all_terminal g')
     \<and> (stalled rep \<longrightarrow> ms \<le> steps rep \<or> mw = 0 \<or> ready_nodes g' = [])
     \<and> completed rep = length (filter is_done (nodes g'))
     \<and> failed rep = length (filter (\<lambda>n. node_status n = Failed) (nodes g'))
     \<and> steps rep \<le> ms + mw)"
proof -
  have "engine_inv g" by (rule eng.reachable_inv [OF refl assms])
  from run_from_returns [OF this, of 0 ms mw wk w] obtain r
    where r: "run_from mw ms wk (g, w, 0) = Some r" "run_report_ok g mw ms r" by auto
  with assms show ?thesis
    unfolding run_def run_report_ok_def by (auto dest: rtranclp_trans)
qed

definition demo_worker :: "unit worker" where
  "demo_worker = (\<lambda>_ i k input.
     ((), if i = ''plan::gate'' then Complete (gate_pass_artifact input) else Complete (deep_artifact ''found'')))"

theorem run_returns_and_reports_witness:
  "\<exists>g' rep. run demo_seeded 2 10 demo_worker () = Some (Inr (g', rep))
     \<and> \<not> stalled rep \<and> completed rep = 2 \<and> all_terminal g'"
proof -
  define r where "r = (case run demo_seeded 2 10 demo_worker () of Some (Inr (g', rep)) \<Rightarrow>
      (\<not> stalled rep \<and> completed rep = 2) | _ \<Rightarrow> False)"
  have "r" unfolding r_def by code_simp
  then obtain g' rep where "run demo_seeded 2 10 demo_worker () = Some (Inr (g', rep))"
    "\<not> stalled rep" "completed rep = 2"
    by (auto simp: r_def split: option.splits sum.splits)
  moreover from this have "all_terminal g'"
    using run_returns_and_reports [OF demo_reachable(1), of 2 10 demo_worker "()"] by auto
  ultimately show ?thesis by blast
qed

section \<open>Hydration\<close>

lemma contains_concat: "x \<in> set xs \<Longrightarrow> contains_str (concat xs) x"
  by (metis concat.simps(2) concat_append contains_str_sublist split_list sublist_append_leftI
      sublist_append_rightI sublist_def)

text \<open>
  Supplement: A worker that is running a node (the plan-wide gate apart, which a later seed may widen
  while it runs) is given everything upstream: each of the node's dependencies is done, and the
  assembled input contains the node's own content and the rendered artifact of every one of them.
\<close>

theorem running_input_is_complete:
  assumes "engine_step\<^sup>*\<^sup>* (new_graph m) g" and "get g i = Some n" and "node_status n = Running"
    and "\<not> is_root_gate n" and "d \<in> set (node_depends_on n)"
  shows "\<exists>x art. get g d = Some x \<and> is_done x \<and> node_output x = Some art
    \<and> contains_str (assemble_input g i) (render_section art d (kind_label (node_kind x)))
    \<and> contains_str (assemble_input g i) (node_content n)"
proof -
  have inv: "engine_inv g" by (rule eng.reachable_inv [OF refl assms(1)])
  have "flow_active n" using assms(3,4) by (simp add: flow_active_def)
  then obtain x where x: "get g d = Some x" "node_status x = Done"
    using inv assms(2,5) unfolding engine_inv_parts flow_ok_def by blast
  then obtain art where art: "node_output x = Some art"
    using inv unfolding engine_inv_parts outputs_ok_def by blast
  have up: "x \<in> set (upstream_done g n)"
    using x assms(5) by (auto simp: upstream_done_def List.map_filter_def is_done_def image_iff intro!: bexI [of _ d])
  let ?secs = "concat (map input_section (upstream_done g n))"
  have "contains_str (input_section x) (render_section art d (kind_label (node_kind x)))"
    using art get_Some_id [OF x(1)] unfolding input_section_def contains_str_sublist
    by (simp only: option.case sublist_append_leftI)
  moreover have "contains_str ?secs (input_section x)" using up by (intro contains_concat) simp
  ultimately have s: "contains_str ?secs (render_section art d (kind_label (node_kind x)))"
    unfolding contains_str_sublist using sublist_order.order_trans by blast
  have i: "assemble_input g i = (node_content n @ nl @ nl @ ''# Inputs from completed dependencies'' @ nl) @ ?secs"
    using assms(2) up by (auto simp: assemble_input_def Let_def)
  have "contains_str (assemble_input g i) (render_section art d (kind_label (node_kind x)))"
    unfolding i using s by (blast intro: contains_str_append)
  moreover have "contains_str (assemble_input g i) (node_content n)"
    unfolding i contains_str_sublist by simp
  ultimately show ?thesis using x art by (auto simp: is_done_def)
qed

definition demo_chain :: "NodeSpec list" where
  "demo_chain = [new_spec ''a'' ''look'' Explore, with_depends_on [''a''] (new_spec ''b'' ''use it'' Implement)]"

definition demo_light :: "nat \<Rightarrow> TaskGraph" where
  "demo_light k =
     (let g1 = projr (seed (new_graph Light) demo_chain);
          g2 = fst (dispatch g1 ''a'' ''w0'');
          g3 = projr (complete_node g2 ''a'' ''w0'' (brief ''seen''))
      in if k = 1 then g1 else if k = 2 then g2 else if k = 3 then g3 else fst (dispatch g3 ''b'' ''w1''))"

lemma demo_light_reachable: "engine_step\<^sup>*\<^sup>* (new_graph Light) (demo_light 4)"
proof -
  have "seed (new_graph Light) demo_chain = Inr (demo_light 1)"
    and "dispatch (demo_light 1) ''a'' ''w0'' = (demo_light 2, True)"
    and "complete_node (demo_light 2) ''a'' ''w0'' (brief ''seen'') = Inr (demo_light 3)"
    and "dispatch (demo_light 3) ''b'' ''w1'' = (demo_light 4, True)"
    by code_simp+
  then show ?thesis
    by (meson r_into_rtranclp rtranclp.rtrancl_into_rtrancl engine_step.intros)
qed

theorem running_input_is_complete_witness:
  "\<exists>x art. get (demo_light 4) ''a'' = Some x \<and> node_output x = Some art
     \<and> contains_str (assemble_input (demo_light 4) ''b'') (render_section art ''a'' (kind_label (node_kind x)))"
proof -
  have "case get (demo_light 4) ''b'' of None \<Rightarrow> False
    | Some n \<Rightarrow> node_status n = Running \<and> \<not> is_root_gate n \<and> ''a'' \<in> set (node_depends_on n)"
    by code_simp
  then obtain n where "get (demo_light 4) ''b'' = Some n" "node_status n = Running" "\<not> is_root_gate n"
    "''a'' \<in> set (node_depends_on n)" by (auto split: option.splits)
  from running_input_is_complete [OF demo_light_reachable this] show ?thesis by blast
qed

end
