(* ===== verification/Plan_Bridge.thy ===== *)
theory Plan_Bridge
  imports Plan_Schedule Dag_Contracts
begin

text \<open>
  The bridge of \<^verbatim>\<open>crates/jcode-plan/src/bridge.rs\<close> between the validated task graph and the
  stored plan: string codecs, lifting, lowering, hydration and accounting. The JSON codec of
  artifacts is third-party code: \<open>to_json\<close> and \<open>from_json\<close> are parameters.
\<close>

section \<open>Definitions\<close>

definition parse_mode :: "str \<Rightarrow> Mode" where
  "parse_mode m = (if to_ascii_lowercase (trim m) = ''deep'' then Deep else Light)"

fun mode_str :: "Mode \<Rightarrow> str" where
  "mode_str Deep = ''deep''"
| "mode_str Light = ''light''"

definition parse_kind :: "str option \<Rightarrow> NodeKind" where
  "parse_kind k =
     (case map_option (\<lambda>k. to_ascii_lowercase (trim k)) k of
        None \<Rightarrow> Explore
      | Some s \<Rightarrow>
          if s = ''implement'' then Implement else if s = ''verify'' then Verify
          else if s = ''fix'' then Fix else if s = ''synthesize'' then Synthesize
          else if s = ''critique'' then Critique else Explore)"

fun kind_str :: "NodeKind \<Rightarrow> str" where
  "kind_str Explore = ''explore''"
| "kind_str Implement = ''implement''"
| "kind_str Verify = ''verify''"
| "kind_str Fix = ''fix''"
| "kind_str Synthesize = ''synthesize''"
| "kind_str Critique = ''critique''"

definition parse_origin :: "str option \<Rightarrow> NodeOrigin option" where
  "parse_origin orig =
     (case map_option (\<lambda>k. to_ascii_lowercase (trim k)) orig of
        None \<Rightarrow> None
      | Some s \<Rightarrow>
          if s = ''seed'' then Some Seed else if s = ''expand'' then Some Expand
          else if s = ''gap'' then Some Gap else if s = ''gate'' then Some Gate else None)"

fun origin_str :: "NodeOrigin \<Rightarrow> str" where
  "origin_str Seed = ''seed''"
| "origin_str Expand = ''expand''"
| "origin_str Gap = ''gap''"
| "origin_str Gate = ''gate''"

definition status_from_plan :: "str \<Rightarrow> NodeStatus" where
  "status_from_plan s =
     (if s \<in> {''running'', ''running_stale''} then Running
      else if s \<in> {''completed'', ''done''} then Done
      else if s \<in> {''failed'', ''stopped'', ''crashed''} then Failed else Queued)"

fun status_to_plan :: "NodeStatus \<Rightarrow> str" where
  "status_to_plan Queued = ''queued''"
| "status_to_plan Running = ''running''"
| "status_to_plan Done = ''completed''"
| "status_to_plan Failed = ''failed''"

type_synonym to_json = "HandoffArtifact \<Rightarrow> str option"
type_synonym from_json = "str \<Rightarrow> HandoffArtifact option"

definition meta_of :: "VersionedPlan \<Rightarrow> str \<Rightarrow> NodeMeta" where
  "meta_of p i = (case node_meta p i of None \<Rightarrow> default_meta | Some m \<Rightarrow> m)"

definition lift_item :: "from_json \<Rightarrow> VersionedPlan \<Rightarrow> PlanItem \<Rightarrow> TaskNode" where
  "lift_item dec p i =
     (let m = meta_of p (item_id i) in
      \<lparr>node_id = item_id i, node_content = item_content i, node_kind = parse_kind (meta_kind m),
       node_status = status_from_plan (item_status i), node_owner = item_assigned_to i,
       node_parent = meta_parent m, node_depends_on = item_blocked_by i,
       node_expanded = meta_expanded m, node_is_gate = meta_is_gate m, node_planner = meta_planner m,
       node_priority = priority_rank (item_priority i),
       node_output = Option.bind (meta_artifact_json m) dec, node_origin = parse_origin (meta_origin m)\<rparr>)"

definition to_task_graph :: "from_json \<Rightarrow> VersionedPlan \<Rightarrow> TaskGraph" where
  "to_task_graph dec p = foldl push (new_graph (parse_mode (plan_mode p))) (map (lift_item dec p) (items p))"

definition priority_string :: "nat \<Rightarrow> str" where
  "priority_string r = (if r = 0 then ''high'' else if r = 2 then ''low'' else ''medium'')"

text \<open>The index of the prior items: a later item with the same id replaces an earlier one.\<close>

definition prior_index :: "PlanItem list \<Rightarrow> (str \<rightharpoonup> PlanItem)" where
  "prior_index its = fold (\<lambda>i m. m(item_id i \<mapsto> i)) its Map.empty"

definition lower_item :: "(str \<rightharpoonup> PlanItem) \<Rightarrow> TaskNode \<Rightarrow> PlanItem" where
  "lower_item prior n =
     (let prev = prior (node_id n) in
      \<lparr>item_content = node_content n, item_status = status_to_plan (node_status n),
       item_priority = (case prev of Some q \<Rightarrow> item_priority q | None \<Rightarrow> priority_string (node_priority n)),
       item_id = node_id n, item_subsystem = Option.bind prev item_subsystem,
       item_file_scope = (case prev of Some q \<Rightarrow> item_file_scope q | None \<Rightarrow> []),
       item_blocked_by = node_depends_on n, item_assigned_to = node_owner n\<rparr>)"

definition lower_meta :: "to_json \<Rightarrow> TaskNode \<Rightarrow> NodeMeta" where
  "lower_meta enc n =
     \<lparr>meta_kind = Some (kind_str (node_kind n)), meta_parent = node_parent n,
      meta_expanded = node_expanded n, meta_is_gate = node_is_gate n, meta_planner = node_planner n,
      meta_artifact_json = Option.bind (node_output n) enc,
      meta_origin = map_option origin_str (node_origin n)\<rparr>"

definition apply_task_graph :: "to_json \<Rightarrow> TaskGraph \<Rightarrow> VersionedPlan \<Rightarrow> VersionedPlan" where
  "apply_task_graph enc g p =
     (let p1 = p\<lparr>plan_mode := mode_str (mode g)\<rparr>;
          its = map (lower_item (prior_index (items p))) (nodes g);
          metas = fold (\<lambda>n m. m(node_id n \<mapsto> lower_meta enc n)) (nodes g) Map.empty
      in (replace_items its p1)\<lparr>node_meta := metas\<rparr>)"

definition upstream_section :: "from_json \<Rightarrow> VersionedPlan \<Rightarrow> str \<Rightarrow> str option" where
  "upstream_section dec p d =
     (case find_item p d of None \<Rightarrow> None
      | Some dep \<Rightarrow>
          if \<not> is_completed_status (item_status dep) then None
          else Option.bind (node_meta p d) (\<lambda>m.
            Option.bind (meta_artifact_json m) (\<lambda>json.
              map_option (\<lambda>a. render_section a d (case meta_kind m of None \<Rightarrow> ''task'' | Some k \<Rightarrow> k))
                (dec json))))"

definition upstream_context :: "from_json \<Rightarrow> VersionedPlan \<Rightarrow> str \<Rightarrow> str option" where
  "upstream_context dec p t =
     Option.bind (find_item p t) (\<lambda>i.
       if item_blocked_by i = [] then None
       else
         let sections = List.map_filter (upstream_section dec p) (item_blocked_by i) in
         if sections = [] then None
         else Some (''# Inputs from completed dependencies'' @ nl @ nl @ join nl sections))"

definition hydrate_assignment :: "from_json \<Rightarrow> VersionedPlan \<Rightarrow> str \<Rightarrow> str \<Rightarrow> str" where
  "hydrate_assignment dec p t content =
     (case upstream_context dec p t of None \<Rightarrow> content | Some c \<Rightarrow> content @ nl @ nl @ c)"

record GrowthStats =
  seeded_count :: nat
  from_expansion :: nat
  from_gaps :: nat
  gates :: nat

definition growth_total :: "GrowthStats \<Rightarrow> nat" where
  "growth_total s = seeded_count s + from_expansion s + from_gaps s + gates s"

definition growth_grown :: "GrowthStats \<Rightarrow> nat" where
  "growth_grown s = from_expansion s + from_gaps s + gates s"

definition growth_summary_line :: "GrowthStats \<Rightarrow> str" where
  "growth_summary_line s =
     show_nat (seeded_count s) @ '' seeded -> '' @ show_nat (growth_total s) @ '' nodes (+''
     @ show_nat (from_expansion s) @ '' expansion, +'' @ show_nat (from_gaps s) @ '' gap, +''
     @ show_nat (gates s) @ '' gates)''"

definition growth_step_stats :: "VersionedPlan \<Rightarrow> PlanItem \<Rightarrow> GrowthStats \<Rightarrow> GrowthStats" where
  "growth_step_stats p i s =
     (case Option.bind (node_meta p (item_id i)) (\<lambda>m. parse_origin (meta_origin m)) of
        Some Expand \<Rightarrow> s\<lparr>from_expansion := from_expansion s + 1\<rparr>
      | Some Gap \<Rightarrow> s\<lparr>from_gaps := from_gaps s + 1\<rparr>
      | Some Gate \<Rightarrow> s\<lparr>gates := gates s + 1\<rparr>
      | Some Seed \<Rightarrow> s\<lparr>seeded_count := seeded_count s + 1\<rparr>
      | None \<Rightarrow> s\<lparr>seeded_count := seeded_count s + 1\<rparr>)"

definition growth_stats :: "VersionedPlan \<Rightarrow> GrowthStats" where
  "growth_stats p =
     fold (growth_step_stats p) (items p) \<lparr>seeded_count = 0, from_expansion = 0, from_gaps = 0, gates = 0\<rparr>"

definition low_confidence_completed_ids :: "from_json \<Rightarrow> VersionedPlan \<Rightarrow> str list" where
  "low_confidence_completed_ids dec p =
     item_ids (filter (\<lambda>i. case node_meta p (item_id i) of None \<Rightarrow> False
         | Some m \<Rightarrow> \<not> meta_is_gate m \<and>
             Option.bind (Option.bind (meta_artifact_json m) dec) confidence_level = Some Low)
       (filter (\<lambda>i. is_completed_status (item_status i)) (items p)))"

section \<open>String codecs\<close>

lemma parse_words:
  "parse_kind (Some ''explore'') = Explore" "parse_kind (Some ''implement'') = Implement"
  "parse_kind (Some ''verify'') = Verify" "parse_kind (Some ''fix'') = Fix"
  "parse_kind (Some ''synthesize'') = Synthesize" "parse_kind (Some ''critique'') = Critique"
  "parse_origin (Some ''seed'') = Some Seed" "parse_origin (Some ''expand'') = Some Expand"
  "parse_origin (Some ''gap'') = Some Gap" "parse_origin (Some ''gate'') = Some Gate"
  "parse_mode ''deep'' = Deep" "parse_mode ''light'' = Light"
  by code_simp+

lemma parse_kind_str [simp]: "parse_kind (Some (kind_str k)) = k"
  by (cases k) (simp_all only: kind_str.simps parse_words)

lemma parse_origin_str [simp]: "parse_origin (map_option origin_str r) = r"
proof (cases r)
  case None
  then show ?thesis by (simp add: parse_origin_def)
next
  case (Some x)
  have "parse_origin (Some (origin_str x)) = Some x"
    by (cases x) (simp_all only: origin_str.simps parse_words)
  with Some show ?thesis by simp
qed

lemma parse_mode_str [simp]: "parse_mode (mode_str m) = m"
  by (cases m) (simp_all only: mode_str.simps parse_words)

lemma status_roundtrip [simp]: "status_from_plan (status_to_plan s) = s"
  by (cases s) (simp_all add: status_from_plan_def)

lemma kind_str_label: "kind_str k = kind_label k"
  by (cases k) simp_all

lemma status_to_plan_classes:
  "is_completed_status (status_to_plan s) \<longleftrightarrow> s = Done" "is_runnable_status (status_to_plan s) \<longleftrightarrow> s = Queued"
  by (cases s; simp add: status_defs)+

section \<open>Lowering and lifting\<close>

definition codec_ok :: "to_json \<Rightarrow> from_json \<Rightarrow> bool" where
  "codec_ok enc dec \<longleftrightarrow> (\<forall>a. \<exists>s. enc a = Some s \<and> dec s = Some a)"

lemma codec_enc:
  assumes "codec_ok enc dec"
  shows "Option.bind (enc a) dec = Some a"
proof -
  from assms obtain s where "enc a = Some s" "dec s = Some a" unfolding codec_ok_def by blast
  then show ?thesis by simp
qed

lemma codec_bind: "codec_ok enc dec \<Longrightarrow> Option.bind (Option.bind r enc) dec = r"
  by (cases r) (simp_all add: codec_enc)

lemma fold_upd_key:
  assumes "distinct (map k xs)"
  shows "fold (\<lambda>x m. m(k x \<mapsto> f x)) xs m v =
    (case find (\<lambda>x. k x = v) xs of None \<Rightarrow> m v | Some x \<Rightarrow> Some (f x))"
  using assms
proof (induction xs arbitrary: m)
  case (Cons x xs)
  have "k x = v \<Longrightarrow> find (\<lambda>y. k y = v) xs = None"
    using Cons.prems by (auto simp: find_is_none) (metis image_eqI)
  with Cons show ?case by (auto split: option.split)
qed simp

lemma node_meta_apply:
  assumes "distinct (node_ids (nodes g))"
  shows "node_meta (apply_task_graph enc g p) v = map_option (lower_meta enc) (get g v)"
  unfolding apply_task_graph_def Let_def get_def
  by (simp add: fold_upd_key [OF assms] split: option.split)

lemma items_apply: "items (apply_task_graph enc g p) = map (lower_item (prior_index (items p))) (nodes g)"
  by (simp add: apply_task_graph_def Let_def replace_items_def prune_side_maps_def)

lemma lower_item_fields [simp]:
  "item_id (lower_item prior n) = node_id n" "item_blocked_by (lower_item prior n) = node_depends_on n"
  "item_status (lower_item prior n) = status_to_plan (node_status n)"
  "item_content (lower_item prior n) = node_content n" "item_assigned_to (lower_item prior n) = node_owner n"
  by (simp_all add: lower_item_def Let_def)

text \<open>The rank that survives the string priorities: the prior item's, else the nearest of three.\<close>

definition stored_rank :: "VersionedPlan \<Rightarrow> TaskNode \<Rightarrow> nat" where
  "stored_rank p n = priority_rank (item_priority (lower_item (prior_index (items p)) n))"

lemma nodes_to_task_graph [simp]: "nodes (to_task_graph dec p) = map (lift_item dec p) (items p)"
  "mode (to_task_graph dec p) = parse_mode (plan_mode p)"
  by (simp_all add: to_task_graph_def new_graph_def)

text \<open>
  C8: Storing a graph and lifting it again loses nothing but the resolution of priorities: nodes,
  order, mode, states, edges, gates, planners, artifacts and origins come back, given a JSON codec
  that decodes what it encodes; the priority is the rank of the stored priority word, and the
  identity when that word already carries the node's rank.
\<close>

theorem bridge_roundtrip:
  assumes "codec_ok enc dec" and "distinct (map node_id (nodes g))"
  shows "to_task_graph dec (apply_task_graph enc g p) =
      g\<lparr>nodes := map (\<lambda>n. n\<lparr>node_priority := stored_rank p n\<rparr>) (nodes g)\<rparr>
    \<and> ((\<forall>n \<in> set (nodes g). stored_rank p n = node_priority n) \<longrightarrow>
         to_task_graph dec (apply_task_graph enc g p) = g)"
proof -
  let ?p = "apply_task_graph enc g p"
  have "lift_item dec ?p (lower_item (prior_index (items p)) n) = n\<lparr>node_priority := stored_rank p n\<rparr>"
    if "n \<in> set (nodes g)" for n
  proof -
    have "meta_of ?p (node_id n) = lower_meta enc n"
      using node_meta_apply [OF assms(2)] get_distinct [OF assms(2) that] by (simp add: meta_of_def)
    then show ?thesis
      by (cases n) (simp add: lift_item_def lower_meta_def codec_enc [OF assms(1)] stored_rank_def)
  qed
  then have n: "nodes (to_task_graph dec ?p) = map (\<lambda>n. n\<lparr>node_priority := stored_rank p n\<rparr>) (nodes g)"
    by (simp add: items_apply)
  have "plan_mode ?p = mode_str (mode g)"
    by (simp add: apply_task_graph_def Let_def replace_items_def prune_side_maps_def)
  then have m: "mode (to_task_graph dec ?p) = mode g" by simp
  have "to_task_graph dec ?p = g\<lparr>nodes := map (\<lambda>n. n\<lparr>node_priority := stored_rank p n\<rparr>) (nodes g)\<rparr>"
    using n m by (simp del: nodes_to_task_graph)
  moreover have "map (\<lambda>n. n\<lparr>node_priority := stored_rank p n\<rparr>) (nodes g) = nodes g"
    if "\<forall>n \<in> set (nodes g). stored_rank p n = node_priority n"
    using that by (intro map_idI) simp
  ultimately show ?thesis by simp
qed

section \<open>A codec\<close>

text \<open>
  An artifact codec that satisfies \<^const>\<open>codec_ok\<close>: every byte is tagged, strings and lists are
  terminated. It stands in for the JSON codec where the properties are applied to concrete plans.
\<close>

definition enc_chars :: "str \<Rightarrow> str" where
  "enc_chars s = concat (map (\<lambda>c. [CHR ''c'', c]) s) @ [CHR ''.'']"

fun dec_chars :: "str \<Rightarrow> (str \<times> str) option" where
  "dec_chars (t # c # r) =
     (if t = CHR ''c'' then map_option (\<lambda>(s, u). (c # s, u)) (dec_chars r) else Some ([], c # r))"
| "dec_chars [t] = Some ([], [])"
| "dec_chars [] = None"

lemma dec_enc_chars: "dec_chars (enc_chars s @ r) = Some (s, r)"
proof (induction s)
  case Nil
  then show ?case by (cases r) (simp_all add: enc_chars_def)
next
  case (Cons c s)
  then show ?case by (simp add: enc_chars_def)
qed

definition enc_list :: "str list \<Rightarrow> str" where
  "enc_list xs = concat (map (\<lambda>s. CHR ''l'' # enc_chars s) xs) @ [CHR ''.'']"

fun dec_list :: "nat \<Rightarrow> str \<Rightarrow> (str list \<times> str) option" where
  "dec_list (Suc n) (t # r) =
     (if t = CHR ''l'' then Option.bind (dec_chars r) (\<lambda>(s, u).
        map_option (\<lambda>(xs, v). (s # xs, v)) (dec_list n u)) else Some ([], r))"
| "dec_list _ _ = None"

lemma dec_enc_list: "length xs < n \<Longrightarrow> dec_list n (enc_list xs @ r) = Some (xs, r)"
proof (induction xs arbitrary: n)
  case Nil
  then show ?case by (cases n) (simp_all add: enc_list_def)
next
  case (Cons s xs)
  then obtain m where m: "n = Suc m" "length xs < m" by (cases n) auto
  have "enc_list (s # xs) @ r = CHR ''l'' # enc_chars s @ enc_list xs @ r" by (simp add: enc_list_def)
  with Cons.IH [OF m(2)] show ?case by (simp add: m(1) dec_enc_chars)
qed

lemma length_enc_list: "length xs < length (enc_list xs)"
  by (induction xs) (simp_all add: enc_list_def)

abbreviation opt_list :: "str option \<Rightarrow> str list" where
  "opt_list v \<equiv> (case v of None \<Rightarrow> [] | Some x \<Rightarrow> [x])"

abbreviation list_opt :: "str list \<Rightarrow> str option" where
  "list_opt xs \<equiv> (case xs of [] \<Rightarrow> None | x # _ \<Rightarrow> Some x)"

definition artifact_lists :: "HandoffArtifact \<Rightarrow> str list list" where
  "artifact_lists a = [[findings a], evidence a, edge_cases_considered a, opt_list (validation a),
     open_questions a, opt_list (confidence a), what_i_did_not_check a]"

definition demo_enc :: to_json where
  "demo_enc a = Some (concat (map enc_list (artifact_lists a)))"

fun dec_lists :: "nat \<Rightarrow> str \<Rightarrow> str list list option" where
  "dec_lists 0 s = Some []"
| "dec_lists (Suc k) s = Option.bind (dec_list (length s) s) (\<lambda>(xs, r). map_option (\<lambda>xss. xs # xss) (dec_lists k r))"

lemma dec_enc_lists: "dec_lists (length xss) (concat (map enc_list xss)) = Some xss"
proof (induction xss)
  case (Cons xs xss)
  have "length xs < length (concat (map enc_list (xs # xss)))"
    using length_enc_list [of xs] by simp
  from dec_enc_list [OF this, of "concat (map enc_list xss)"] Cons show ?case by simp
qed simp

definition demo_dec :: from_json where
  "demo_dec s = (case dec_lists 7 s of
     Some [[f], ev, ed, va, oq, co, wh] \<Rightarrow>
       Some \<lparr>findings = f, evidence = ev, edge_cases_considered = ed, validation = list_opt va,
         open_questions = oq, confidence = list_opt co, what_i_did_not_check = wh\<rparr>
   | _ \<Rightarrow> None)"

lemma demo_codec_ok: "codec_ok demo_enc demo_dec"
  unfolding codec_ok_def
proof
  fix a
  have "dec_lists 7 (concat (map enc_list (artifact_lists a))) = Some (artifact_lists a)"
  proof -
    have "length (artifact_lists a) = 7" by (simp add: artifact_lists_def)
    then show ?thesis using dec_enc_lists [of "artifact_lists a"] by simp
  qed
  moreover have "list_opt (opt_list v) = v" for v by (cases v) simp_all
  ultimately show "\<exists>s. demo_enc a = Some s \<and> demo_dec s = Some a"
    by (cases a) (simp add: demo_enc_def demo_dec_def, simp add: artifact_lists_def)
qed

theorem bridge_roundtrip_witness:
  "to_task_graph demo_dec (apply_task_graph demo_enc demo_done new_plan) = demo_done"
proof -
  have "distinct (map node_id (nodes demo_done))"
    and "\<forall>n \<in> set (nodes demo_done). stored_rank new_plan n = node_priority n"
    by code_simp+
  with bridge_roundtrip [OF demo_codec_ok] show ?thesis by blast
qed

section \<open>The live counterparts agree with the engine\<close>

lemma find_item_apply:
  "find_item (apply_task_graph enc g p) v = map_option (lower_item (prior_index (items p))) (get g v)"
proof -
  have "find (\<lambda>i. item_id i = v) (map (lower_item pr) ns) =
      map_option (lower_item pr) (find (\<lambda>n. node_id n = v) ns)" for pr ns
    by (induction ns) auto
  then show ?thesis by (simp add: find_item_def items_apply get_def)
qed

lemma item_dep_rel_apply: "item_dep_rel (items (apply_task_graph enc g p)) = dep_rel (nodes g)"
  by (auto simp: item_dep_rel_def dep_rel_def items_apply)

lemma unlocked_apply:
  assumes inv: "engine_inv g" and n: "n \<in> set (nodes g)"
  shows "unlocked (items (apply_task_graph enc g p)) (lower_item (prior_index (items p)) n) \<longleftrightarrow> deps_satisfied g n"
proof -
  let ?its = "items (apply_task_graph enc g p)"
  have d: "distinct (node_ids (nodes g))" using inv by (simp add: engine_inv_def)
  have "acyclic (item_dep_rel ?its)"
    using inv by (simp add: item_dep_rel_apply engine_inv_parts dep_rel_get)
  then have "\<not> (\<exists>c. (c, c) \<in> (item_dep_rel ?its)\<^sup>+)" by (simp add: acyclic_def)
  then have "cycle_item_ids ?its = []"
    using set_cycle_item_ids [of ?its] not_acc_iff_cycle [OF finite_item_dep_rel [of ?its]]
    by (metis Diff_eq_empty_iff set_empty subsetI)
  moreover have "(\<exists>j \<in> set ?its. item_id j = v \<and> is_completed_status (item_status j)) \<longleftrightarrow>
      (\<exists>m. get g v = Some m \<and> node_status m = Done)" for v
    using get_distinct [OF d] get_Some_mem get_Some_id
    by (auto simp: items_apply status_to_plan_classes) blast
  ultimately show ?thesis by (simp add: unlocked_def deps_satisfied_iff)
qed

lemma sort_key_cong: "(\<And>x. x \<in> set xs \<Longrightarrow> k x = k' x) \<Longrightarrow> sort_key k xs = sort_key k' xs"
proof (induction xs)
  case (Cons x xs)
  have "insort_key k x ys = insort_key k' x ys" if "k x = k' x" "\<And>y. y \<in> set ys \<Longrightarrow> k y = k' y" for ys
    using that by (induction ys) auto
  from this [of "sort_key k xs"] Cons show ?case by simp
qed simp

lemma filter_ready_apply:
  assumes inv: "engine_inv g"
  shows "filter (\<lambda>i. is_runnable_status (item_status i) \<and> unlocked (items (apply_task_graph enc g p)) i)
      (items (apply_task_graph enc g p)) =
    map (lower_item (prior_index (items p))) (filter (\<lambda>n. node_status n = Queued \<and> deps_satisfied g n) (nodes g))"
proof -
  let ?its = "items (apply_task_graph enc g p)" and ?low = "lower_item (prior_index (items p))"
  have "filter (\<lambda>i. is_runnable_status (item_status i) \<and> unlocked ?its i) (map ?low (nodes g)) =
      map ?low (filter (\<lambda>n. is_runnable_status (item_status (?low n)) \<and> unlocked ?its (?low n)) (nodes g))"
    by (simp add: filter_map comp_def)
  also have "filter (\<lambda>n. is_runnable_status (item_status (?low n)) \<and> unlocked ?its (?low n)) (nodes g) =
      filter (\<lambda>n. node_status n = Queued \<and> deps_satisfied g n) (nodes g)"
    by (rule filter_cong [OF refl]) (simp add: unlocked_apply [OF inv] status_to_plan_classes)
  finally show ?thesis by (simp add: items_apply)
qed

text \<open>
  C6: The stored plan's scheduler agrees with the engine. For every graph the engine can produce,
  stored into any plan, the ready ids of the plan are the engine's ready nodes and the completed
  ids its finished nodes; where the priority words carry the nodes' ranks, the plan's dispatch
  order is exactly the engine's.
\<close>

theorem plan_schedule_refines_engine:
  assumes "engine_step\<^sup>*\<^sup>* (new_graph m) g"
  shows "ready_ids (summarize_plan_graph (items (apply_task_graph enc g p))) = sort (map node_id (ready_nodes g))
    \<and> set (completed_ids (summarize_plan_graph (items (apply_task_graph enc g p)))) =
        node_id ` {n \<in> set (nodes g). is_done n}
    \<and> ((\<forall>n \<in> set (ready_nodes g). stored_rank p n = node_priority n) \<longrightarrow>
        next_runnable_item_ids (items (apply_task_graph enc g p)) None = map node_id (ready_nodes g))"
proof (intro conjI impI)
  let ?its = "items (apply_task_graph enc g p)" and ?low = "lower_item (prior_index (items p))"
  let ?R = "filter (\<lambda>n. node_status n = Queued \<and> deps_satisfied g n) (nodes g)"
  have inv: "engine_inv g" by (rule eng.reachable_inv [OF refl assms])
  then have d: "distinct (node_ids (nodes g))" by (simp add: engine_inv_def)
  then have di: "distinct (item_ids ?its)" by (simp add: items_apply comp_def)
  have dR: "distinct (node_ids ?R)" using d by (simp add: distinct_map_filter)
  have dk: "distinct (node_ids (sort_key (\<lambda>n. (node_priority n, node_id n)) ?R))"
    using dR by (simp add: distinct_map)
  show "ready_ids (summarize_plan_graph ?its) = sort (map node_id (ready_nodes g))"
    unfolding summary_fields(1) filter_ready_apply [OF inv] ready_nodes_def
    by (rule sorted_distinct_set_unique) (use dR dk in \<open>simp_all add: comp_def\<close>)
  show "set (completed_ids (summarize_plan_graph ?its)) = node_id ` {n \<in> set (nodes g). is_done n}"
    unfolding summary_fields(4) completed_item_ids_def
    by (simp add: items_apply filter_map comp_def status_to_plan_classes is_done_def image_image)
  assume pr: "\<forall>n \<in> set (ready_nodes g). stored_rank p n = node_priority n"
  have "next_runnable_item_ids ?its None =
      item_ids (sort_key (\<lambda>i. (priority_rank (item_priority i), item_id i)) (map ?low ?R))"
    unfolding next_runnable_item_ids_def Let_def ready_filter [OF di] filter_ready_apply [OF inv] by simp
  also have "\<dots> = node_ids (sort_key (\<lambda>n. (stored_rank p n, node_id n)) ?R)"
    by (simp add: sort_key_map comp_def stored_rank_def)
  also have "sort_key (\<lambda>n. (stored_rank p n, node_id n)) ?R = ready_nodes g"
    unfolding ready_nodes_def by (rule sort_key_cong) (use pr set_ready_nodes in auto)
  finally show "next_runnable_item_ids ?its None = map node_id (ready_nodes g)" .
qed

theorem plan_schedule_refines_engine_witness:
  "ready_ids (summarize_plan_graph (items (apply_task_graph demo_enc demo_seeded new_plan))) = [''a'']
   \<and> next_runnable_item_ids (items (apply_task_graph demo_enc demo_seeded new_plan)) None = [''a'']"
proof -
  have "map node_id (ready_nodes demo_seeded) = [''a'']"
    and "\<forall>n \<in> set (ready_nodes demo_seeded). stored_rank new_plan n = node_priority n"
    by code_simp+
  with plan_schedule_refines_engine [OF demo_reachable(1), of demo_enc new_plan] show ?thesis by simp
qed

lemma upstream_section_apply:
  assumes inv: "engine_inv g" and c: "codec_ok enc dec"
  shows "upstream_section dec (apply_task_graph enc g p) d =
    (case get g d of None \<Rightarrow> None | Some x \<Rightarrow>
       if is_done x then Some (render_section (the (node_output x)) d (kind_label (node_kind x))) else None)"
proof (cases "get g d")
  case None
  then show ?thesis by (simp add: upstream_section_def find_item_apply)
next
  case (Some x)
  have dn: "distinct (node_ids (nodes g))" using inv by (simp add: engine_inv_def)
  show ?thesis
  proof (cases "is_done x")
    case False
    then show ?thesis
      using Some by (simp add: upstream_section_def find_item_apply status_to_plan_classes is_done_def)
  next
    case True
    then obtain a where a: "node_output x = Some a"
      using inv Some unfolding engine_inv_parts outputs_ok_def is_done_def by blast
    obtain s where s: "enc a = Some s" "dec s = Some a" using c unfolding codec_ok_def by blast
    show ?thesis
      using Some True a s by (simp add: upstream_section_def find_item_apply status_to_plan_classes
          is_done_def node_meta_apply [OF dn] lower_meta_def kind_str_label is_completed_status_def)
  qed
qed

lemma map_filter_upstream:
  assumes inv: "engine_inv g" and c: "codec_ok enc dec"
  shows "List.map_filter (upstream_section dec (apply_task_graph enc g p)) ds =
    map (\<lambda>x. render_section (the (node_output x)) (node_id x) (kind_label (node_kind x)))
      (filter is_done (List.map_filter (get g) ds))"
proof (induction ds)
  case (Cons d ds)
  then show ?case
    by (cases "get g d") (simp_all add: map_filter_simps upstream_section_apply [OF inv c] get_Some_id)
qed (simp add: map_filter_simps)

lemma concat_join: "xs \<noteq> [] \<Longrightarrow> concat (map (\<lambda>s. sep @ s) xs) = sep @ join sep xs"
proof (induction xs)
  case (Cons x xs)
  then show ?case by (cases xs) simp_all
qed simp

text \<open>
  C7: The live hydration path and the engine's build the same prompt: for every graph the engine
  can produce, stored into any plan, the assignment text hydrated from the plan's side maps is,
  byte for byte, the input the engine assembles for that node.
\<close>

theorem hydrate_refines_assemble_input:
  assumes "engine_step\<^sup>*\<^sup>* (new_graph m) g" and "codec_ok enc dec" and "get g i = Some n"
  shows "hydrate_assignment dec (apply_task_graph enc g p) i (node_content n) = assemble_input g i"
proof -
  have inv: "engine_inv g" by (rule eng.reachable_inv [OF refl assms(1)])
  let ?sec = "\<lambda>x. render_section (the (node_output x)) (node_id x) (kind_label (node_kind x))"
  have out: "node_output x \<noteq> None" if "x \<in> set (upstream_done g n)" for x
    using that inv unfolding upstream_done_def engine_inv_parts outputs_ok_def
    by (auto simp: List.map_filter_def is_done_def)
  have secs: "List.map_filter (upstream_section dec (apply_task_graph enc g p)) (node_depends_on n) =
      map ?sec (upstream_done g n)"
    unfolding upstream_done_def by (rule map_filter_upstream [OF inv assms(2)])
  show ?thesis
  proof (cases "upstream_done g n = []")
    case True
    then show ?thesis
      using secs assms(3) by (simp add: hydrate_assignment_def upstream_context_def find_item_apply
          assemble_input_def Let_def)
  next
    case False
    then have ne: "node_depends_on n \<noteq> []" by (auto simp: upstream_done_def map_filter_simps)
    have "concat (map input_section (upstream_done g n)) = concat (map (\<lambda>s. nl @ s) (map ?sec (upstream_done g n)))"
      unfolding map_map comp_def using out
      by (intro arg_cong [where f = concat] map_cong) (force simp: input_section_def)+
    also have "\<dots> = nl @ join nl (map ?sec (upstream_done g n))"
      using False by (intro concat_join) simp
    finally have "assemble_input g i = node_content n @ nl @ nl @ ''# Inputs from completed dependencies'' @ nl
        @ nl @ join nl (map ?sec (upstream_done g n))"
      using False assms(3) by (simp add: assemble_input_def Let_def)
    moreover have "upstream_context dec (apply_task_graph enc g p) i =
        Some (''# Inputs from completed dependencies'' @ nl @ nl @ join nl (map ?sec (upstream_done g n)))"
      using secs False ne assms(3) by (simp add: upstream_context_def find_item_apply Let_def)
    ultimately show ?thesis by (simp add: hydrate_assignment_def)
  qed
qed

theorem hydrate_refines_assemble_input_witness:
  "\<exists>n. get (demo_light 4) ''b'' = Some n \<and>
     hydrate_assignment demo_dec (apply_task_graph demo_enc (demo_light 4) new_plan) ''b'' (node_content n) =
       assemble_input (demo_light 4) ''b''"
proof -
  have "get (demo_light 4) ''b'' \<noteq> None" by code_simp
  then obtain n where "get (demo_light 4) ''b'' = Some n" by blast
  with hydrate_refines_assemble_input [OF demo_light_reachable demo_codec_ok this] show ?thesis by blast
qed

text \<open>
  Supplement: The low-confidence report of the stored plan is the engine's: the same finished work nodes,
  in the same order, gates excluded.
\<close>

theorem low_confidence_refines:
  assumes "codec_ok enc dec" and "distinct (map node_id (nodes g))"
  shows "low_confidence_completed_ids dec (apply_task_graph enc g p) = low_confidence_done_ids g"
proof -
  let ?p = "apply_task_graph enc g p" and ?low = "lower_item (prior_index (items p))"
  have m: "node_meta ?p (node_id n) = Some (lower_meta enc n)" if "n \<in> set (nodes g)" for n
    using node_meta_apply [OF assms(2)] get_distinct [OF assms(2) that] by simp
  let ?Q = "\<lambda>i. is_completed_status (item_status i) \<and> (case node_meta ?p (item_id i) of None \<Rightarrow> False
         | Some m \<Rightarrow> \<not> meta_is_gate m \<and>
             Option.bind (Option.bind (meta_artifact_json m) dec) confidence_level = Some Low)"
  have "low_confidence_completed_ids dec ?p = node_ids (filter (\<lambda>n. ?Q (?low n)) (nodes g))"
    by (simp add: low_confidence_completed_ids_def items_apply filter_map comp_def conj_commute)
  also have "filter (\<lambda>n. ?Q (?low n)) (nodes g) =
      filter (\<lambda>n. (is_done n \<and> \<not> node_is_gate n) \<and> Option.bind (node_output n) confidence_level = Some Low) (nodes g)"
    by (rule filter_cong [OF refl])
      (use m codec_bind [OF assms(1)] in \<open>auto simp: status_to_plan_classes is_done_def lower_meta_def\<close>)
  finally show ?thesis by (simp add: low_confidence_done_ids_def conj_commute)
qed

theorem low_confidence_refines_witness:
  "low_confidence_completed_ids demo_dec (apply_task_graph demo_enc demo_done new_plan) = low_confidence_done_ids demo_done"
proof -
  have "distinct (map node_id (nodes demo_done))" by code_simp
  with low_confidence_refines [OF demo_codec_ok] show ?thesis by blast
qed

end
