(* ===== verification/Channel_Index.thy ===== *)
theory Channel_Index
  imports Rust_Str "HOL-Library.Finite_Map"
begin

text \<open>
  The bidirectional index of swarm channel subscriptions, \<open>ChannelIndex\<close> of
  \<^verbatim>\<open>src/crates/jcode-swarm-core/src/lib.rs\<close>: one nested hash map from swarm and channel to
  sessions, one from session and swarm to channels. A \<open>HashMap\<close> is a finite map, a \<open>HashSet\<close> a
  finite set; the order in which \<open>remove_session\<close> iterates over them is an argument of the model.
  The theory shows that the pair of maps implements a ternary subscription relation.
\<close>

section \<open>Nested maps\<close>

type_synonym nested = "(str, (str, str fset) fmap) fmap"

definition members_at :: "nested \<Rightarrow> str \<Rightarrow> str \<Rightarrow> str fset" where
  "members_at m a b =
     (case fmlookup m a of None \<Rightarrow> {||}
      | Some n \<Rightarrow> (case fmlookup n b of None \<Rightarrow> {||} | Some s \<Rightarrow> s))"

text \<open>\<open>m.entry(a).or_default().entry(b).or_default().insert(x)\<close>.\<close>

definition insert_at :: "str \<Rightarrow> str \<Rightarrow> str \<Rightarrow> nested \<Rightarrow> nested" where
  "insert_at a b x m =
     (let n = (case fmlookup m a of None \<Rightarrow> fmempty | Some n \<Rightarrow> n);
          s = (case fmlookup n b of None \<Rightarrow> {||} | Some s \<Rightarrow> s)
      in fmupd a (fmupd b (finsert x s) n) m)"

text \<open>Removing one member of an inner map, and the entry when it was the last one.\<close>

definition discard_inner :: "str \<Rightarrow> str \<Rightarrow> (str, str fset) fmap \<Rightarrow> (str, str fset) fmap" where
  "discard_inner x b n =
     (case fmlookup n b of None \<Rightarrow> n
      | Some s \<Rightarrow> (let s' = s - {|x|} in if s' = {||} then fmdrop b n else fmupd b s' n))"

text \<open>Writing an inner map back, or dropping its entry when it became empty.\<close>

definition put_inner :: "str \<Rightarrow> (str, str fset) fmap \<Rightarrow> nested \<Rightarrow> nested" where
  "put_inner a n m = (if n = fmempty then fmdrop a m else fmupd a n m)"

definition discard_at :: "str \<Rightarrow> str \<Rightarrow> str \<Rightarrow> nested \<Rightarrow> nested" where
  "discard_at a b x m =
     (case fmlookup m a of None \<Rightarrow> m | Some n \<Rightarrow> put_inner a (discard_inner x b n) m)"

section \<open>The index\<close>

record ChannelIndex =
  by_swarm_channel :: nested
  by_session :: nested

definition empty_index :: ChannelIndex where
  "empty_index = \<lparr>by_swarm_channel = fmempty, by_session = fmempty\<rparr>"

definition subscribe :: "str \<Rightarrow> str \<Rightarrow> str \<Rightarrow> ChannelIndex \<Rightarrow> ChannelIndex" where
  "subscribe session_id swarm_id channel idx =
     \<lparr>by_swarm_channel = insert_at swarm_id channel session_id (by_swarm_channel idx),
      by_session = insert_at session_id swarm_id channel (by_session idx)\<rparr>"

definition unsubscribe :: "str \<Rightarrow> str \<Rightarrow> str \<Rightarrow> ChannelIndex \<Rightarrow> ChannelIndex" where
  "unsubscribe session_id swarm_id channel idx =
     \<lparr>by_swarm_channel = discard_at swarm_id channel session_id (by_swarm_channel idx),
      by_session = discard_at session_id swarm_id channel (by_session idx)\<rparr>"

text \<open>One turn of either loop of \<open>remove_session\<close>: the session leaves channels of a swarm, which
  \<open>channels\<close> lists given the swarm's current subscriptions.\<close>

definition leave_swarm ::
  "str \<Rightarrow> (str \<Rightarrow> (str, str fset) fmap \<Rightarrow> str list) \<Rightarrow> str \<Rightarrow> nested \<Rightarrow> nested" where
  "leave_swarm session_id channels swarm_id m =
     (case fmlookup m swarm_id of None \<Rightarrow> m
      | Some subs \<Rightarrow>
          put_inner swarm_id (fold (discard_inner session_id) (channels swarm_id subs) subs) m)"

text \<open>
  \<open>ord\<close> is the iteration order of the hash tables: \<open>ord None K\<close> for the outer loop over the keys
  \<open>K\<close>, \<open>ord (Some w) K\<close> for the inner loop in swarm \<open>w\<close>. All that is known of it is that it lists
  the keys.
\<close>

type_synonym hash_order = "str option \<Rightarrow> str fset \<Rightarrow> str list"

definition hash_order_ok :: "hash_order \<Rightarrow> bool" where
  "hash_order_ok ord \<longleftrightarrow> (\<forall>t K. set (ord t K) = fset K)"

definition remove_session :: "hash_order \<Rightarrow> str \<Rightarrow> ChannelIndex \<Rightarrow> ChannelIndex" where
  "remove_session ord session_id idx =
     (case fmlookup (by_session idx) session_id of
        Some subscriptions \<Rightarrow>
          \<lparr>by_swarm_channel =
             fold (leave_swarm session_id
                     (\<lambda>w _. case fmlookup subscriptions w of None \<Rightarrow> [] | Some cs \<Rightarrow> ord (Some w) cs))
               (ord None (fmdom subscriptions)) (by_swarm_channel idx),
           by_session = fmdrop session_id (by_session idx)\<rparr>
      | None \<Rightarrow>
          idx\<lparr>by_swarm_channel :=
             fold (leave_swarm session_id (\<lambda>w subs. ord (Some w) (fmdom subs)))
               (ord None (fmdom (by_swarm_channel idx))) (by_swarm_channel idx)\<rparr>)"

definition members :: "str \<Rightarrow> str \<Rightarrow> ChannelIndex \<Rightarrow> str list" where
  "members swarm_id channel idx = sorted_list_of_fset (members_at (by_swarm_channel idx) swarm_id channel)"

section \<open>Nested maps as ternary relations\<close>

text \<open>
  The contract of a two-level index: a ternary relation with insertion and removal of single
  facts, and a canonical form (no empty inner maps or sets) that every operation keeps.
\<close>

locale ternary_index =
  fixes rel :: "'m \<Rightarrow> 'a \<Rightarrow> 'b \<Rightarrow> 'c \<Rightarrow> bool" and canonical :: "'m \<Rightarrow> bool"
    and add :: "'a \<Rightarrow> 'b \<Rightarrow> 'c \<Rightarrow> 'm \<Rightarrow> 'm" and discard :: "'a \<Rightarrow> 'b \<Rightarrow> 'c \<Rightarrow> 'm \<Rightarrow> 'm"
  assumes rel_add: "rel (add a b c m) a' b' c' \<longleftrightarrow> (a', b', c') = (a, b, c) \<or> rel m a' b' c'"
    and rel_discard: "rel (discard a b c m) a' b' c' \<longleftrightarrow> (a', b', c') \<noteq> (a, b, c) \<and> rel m a' b' c'"
    and canonical_add: "canonical m \<Longrightarrow> canonical (add a b c m)"
    and canonical_discard: "canonical m \<Longrightarrow> canonical (discard a b c m)"
    and canonical_ext: "canonical m \<Longrightarrow> canonical n \<Longrightarrow>
      (\<And>a b c. rel m a b c \<longleftrightarrow> rel n a b c) \<Longrightarrow> m = n"
begin

lemma discard_add: "canonical m \<Longrightarrow> \<not> rel m a b c \<Longrightarrow> discard a b c (add a b c m) = m"
  by (rule canonical_ext) (auto simp: canonical_add canonical_discard rel_add rel_discard)

lemma add_idem: "canonical m \<Longrightarrow> rel m a b c \<Longrightarrow> add a b c m = m"
  by (rule canonical_ext) (auto simp: canonical_add rel_add)

lemma discard_absent: "canonical m \<Longrightarrow> \<not> rel m a b c \<Longrightarrow> discard a b c m = m"
  by (rule canonical_ext) (auto simp: canonical_discard rel_discard)

lemma add_commute:
  "canonical m \<Longrightarrow> add a b c (add a' b' c' m) = add a' b' c' (add a b c m)"
  by (rule canonical_ext) (auto simp: canonical_add rel_add)

end

definition canonical_nested :: "nested \<Rightarrow> bool" where
  "canonical_nested m \<longleftrightarrow>
     fmpred (\<lambda>_ n. n \<noteq> fmempty \<and> fmpred (\<lambda>_ s. s \<noteq> {||}) n) m"

lemma members_at_empty [simp]: "members_at fmempty a b = {||}"
  by (simp add: members_at_def)

lemma members_at_insert_at:
  "members_at (insert_at a b x m) a' b' =
     (if a' = a \<and> b' = b then finsert x (members_at m a b) else members_at m a' b')"
  by (auto simp: members_at_def insert_at_def Let_def split: option.split)

lemma fmlookup_discard_inner:
  "fmlookup (discard_inner x b n) b' =
     (if b' = b then (case fmlookup n b of None \<Rightarrow> None
        | Some s \<Rightarrow> if s - {|x|} = {||} then None else Some (s - {|x|}))
      else fmlookup n b')"
  by (auto simp: discard_inner_def Let_def split: option.split)

lemma fmlookup_put_inner:
  "fmlookup (put_inner a n m) a' =
     (if a' = a then (if n = fmempty then None else Some n) else fmlookup m a')"
  by (auto simp: put_inner_def)

definition inner_members :: "(str, str fset) fmap \<Rightarrow> str \<Rightarrow> str fset" where
  "inner_members n b = (case fmlookup n b of None \<Rightarrow> {||} | Some s \<Rightarrow> s)"

lemma inner_members_empty [simp]: "inner_members fmempty b = {||}"
  by (simp add: inner_members_def)

lemma members_at_inner: "members_at m a b =
    (case fmlookup m a of None \<Rightarrow> {||} | Some n \<Rightarrow> inner_members n b)"
  by (auto simp: members_at_def inner_members_def split: option.split)

lemma inner_members_discard:
  "inner_members (discard_inner x b n) b' =
     (if b' = b then inner_members n b - {|x|} else inner_members n b')"
  by (auto simp: inner_members_def fmlookup_discard_inner split: option.split)

lemma members_at_put_inner:
  "members_at (put_inner a n m) a' b = (if a' = a then inner_members n b else members_at m a' b)"
  by (auto simp: members_at_inner fmlookup_put_inner)

lemma members_at_discard_at:
  "members_at (discard_at a b x m) a' b' =
     (if a' = a \<and> b' = b then members_at m a b - {|x|} else members_at m a' b')"
proof (cases "fmlookup m a")
  case None
  then show ?thesis by (auto simp: discard_at_def members_at_inner)
next
  case (Some n)
  have "members_at (discard_at a b x m) a' b' =
      (if a' = a then inner_members (discard_inner x b n) b' else members_at m a' b')"
    using Some by (simp add: discard_at_def members_at_put_inner)
  with Some show ?thesis by (auto simp: inner_members_discard members_at_inner)
qed

lemma fmempty_iff: "n = fmempty \<longleftrightarrow> (\<forall>b. fmlookup n b = None)"
  by (metis fmap_ext fmempty_lookup)

lemma fmupd_not_empty [simp]: "fmupd k v m \<noteq> fmempty"
  by (metis fmempty_iff fmupd_lookup option.distinct(1))

lemma discard_inner_nonempty:
  "fmpred (\<lambda>_ s. s \<noteq> {||}) n \<Longrightarrow> fmpred (\<lambda>_ s. s \<noteq> {||}) (discard_inner x b n)"
  by (auto simp: fmpred_iff fmlookup_discard_inner split: if_splits option.splits)

lemma canonical_put_inner:
  "canonical_nested m \<Longrightarrow> fmpred (\<lambda>_ s. s \<noteq> {||}) n \<Longrightarrow> canonical_nested (put_inner a n m)"
  unfolding canonical_nested_def fmpred_iff by (simp add: fmlookup_put_inner)

lemma canonicalD:
  assumes "canonical_nested m" and "fmlookup m a = Some n"
  shows "n \<noteq> fmempty" "fmpred (\<lambda>_ s. s \<noteq> {||}) n"
  using assms by (auto simp: canonical_nested_def)

lemma canonical_discard_at: "canonical_nested m \<Longrightarrow> canonical_nested (discard_at a b x m)"
  by (auto simp: discard_at_def split: option.split
      intro!: canonical_put_inner discard_inner_nonempty dest: canonicalD(2))

lemma canonical_insert_at:
  assumes "canonical_nested m"
  shows "canonical_nested (insert_at a b x m)"
proof -
  let ?n = "case fmlookup m a of None \<Rightarrow> fmempty | Some n \<Rightarrow> n"
  let ?s = "case fmlookup ?n b of None \<Rightarrow> {||} | Some s \<Rightarrow> s"
  have "fmpred (\<lambda>_ s. s \<noteq> {||}) ?n"
    using assms by (auto split: option.split dest: canonicalD(2))
  then have "fmpred (\<lambda>_ s. s \<noteq> {||}) (fmupd b (finsert x ?s) ?n)"
    by (intro fmpred_upd) simp_all
  with assms show ?thesis
    unfolding insert_at_def Let_def canonical_nested_def by (intro fmpred_upd) simp_all
qed

lemma inner_ext:
  assumes "fmpred (\<lambda>_ s. s \<noteq> {||}) n" and "fmpred (\<lambda>_ s. s \<noteq> {||}) n'"
    and "\<And>b. inner_members n b = inner_members n' b"
  shows "n = n'"
proof (rule fmap_ext)
  fix b
  show "fmlookup n b = fmlookup n' b"
    using assms(1,2) assms(3) [of b]
    by (cases "fmlookup n b"; cases "fmlookup n' b") (auto simp: inner_members_def fmpred_iff)
qed

lemma canonical_members:
  assumes "canonical_nested m"
  shows "fmlookup m a = None \<longleftrightarrow> (\<forall>b. members_at m a b = {||})"
proof (cases "fmlookup m a")
  case (Some n)
  obtain b s where b: "fmlookup n b = Some s"
    using canonicalD(1) [OF assms Some] unfolding fmempty_iff by auto
  moreover have "s \<noteq> {||}" using fmpredD [OF canonicalD(2) [OF assms Some] b] .
  ultimately have "members_at m a b \<noteq> {||}" using Some by (simp add: members_at_def)
  with Some show ?thesis by auto
qed (simp add: members_at_def)

lemma canonical_nested_ext:
  assumes "canonical_nested m" and "canonical_nested m'"
    and "\<And>a b. members_at m a b = members_at m' a b"
  shows "m = m'"
proof (rule fmap_ext)
  fix a
  show "fmlookup m a = fmlookup m' a"
  proof (cases "fmlookup m a")
    case None
    with assms show ?thesis by (metis canonical_members)
  next
    case (Some n)
    with assms obtain n' where n': "fmlookup m' a = Some n'" by (metis canonical_members option.exhaust)
    have "n = n'"
    proof (rule inner_ext)
      show "fmpred (\<lambda>_ s. s \<noteq> {||}) n" "fmpred (\<lambda>_ s. s \<noteq> {||}) n'"
        using canonicalD(2) [OF assms(1) Some] canonicalD(2) [OF assms(2) n'] by auto
      show "inner_members n b = inner_members n' b" for b
        using assms(3) [of a b] Some n' by (simp add: members_at_inner)
    qed
    with Some n' show ?thesis by simp
  qed
qed

interpretation nested: ternary_index
  "\<lambda>m a b x. x |\<in>| members_at m a b" canonical_nested insert_at discard_at
proof
  show "m = n" if "canonical_nested m" "canonical_nested n"
    "\<And>a b c. c |\<in>| members_at m a b \<longleftrightarrow> c |\<in>| members_at n a b" for m n
    using that by (intro canonical_nested_ext) (auto intro: fset_eqI)
qed (auto simp: members_at_insert_at members_at_discard_at canonical_insert_at canonical_discard_at
    split: if_splits)

section \<open>Leaving the channels of a swarm\<close>

lemma inner_members_fold:
  "inner_members (fold (discard_inner x) bs n) b =
     (if b \<in> set bs then inner_members n b - {|x|} else inner_members n b)"
  by (induction bs arbitrary: n) (auto simp: inner_members_discard)

lemma fold_discard_nonempty:
  "fmpred (\<lambda>_ s. s \<noteq> {||}) n \<Longrightarrow> fmpred (\<lambda>_ s. s \<noteq> {||}) (fold (discard_inner x) bs n)"
  by (induction bs arbitrary: n) (auto intro: discard_inner_nonempty)

lemma members_at_leave_swarm:
  assumes "\<And>subs c. c |\<in>| fmdom subs \<Longrightarrow> c \<in> set (channels w subs) \<longleftrightarrow> P w c"
  shows "members_at (leave_swarm s channels w m) w' c =
    members_at m w' c - (if w' = w \<and> P w c then {|s|} else {||})"
proof (cases "fmlookup m w")
  case None
  then show ?thesis by (auto simp: leave_swarm_def members_at_def)
next
  case (Some subs)
  have "inner_members subs c = {||}" if "c |\<notin>| fmdom subs"
    using that by (simp add: inner_members_def fmdom_notD)
  then have "inner_members (fold (discard_inner s) (channels w subs) subs) c =
      inner_members subs c - (if P w c then {|s|} else {||})"
    using assms [of c subs] by (cases "c |\<in>| fmdom subs") (auto simp: inner_members_fold)
  moreover have "members_at m w c = inner_members subs c" using Some by (simp add: members_at_inner)
  ultimately show ?thesis using Some by (simp add: leave_swarm_def members_at_put_inner)
qed

lemma members_at_fold_leave:
  assumes "\<And>w subs c. c |\<in>| fmdom subs \<Longrightarrow> c \<in> set (channels w subs) \<longleftrightarrow> P w c"
  shows "members_at (fold (leave_swarm s channels) ws m) w c =
    members_at m w c - (if w \<in> set ws \<and> P w c then {|s|} else {||})"
proof (induction ws arbitrary: m)
  case (Cons v ws)
  have "members_at (leave_swarm s channels v m) w c =
      members_at m w c - (if w = v \<and> P v c then {|s|} else {||})"
    by (rule members_at_leave_swarm) (rule assms)
  with Cons show ?case by auto
qed simp

lemma canonical_fold_leave:
  "canonical_nested m \<Longrightarrow> canonical_nested (fold (leave_swarm s channels) ws m)"
proof (induction ws arbitrary: m)
  case (Cons w ws)
  have "canonical_nested (leave_swarm s channels w m)"
    using Cons.prems
    by (auto simp: leave_swarm_def split: option.split
        intro!: canonical_put_inner fold_discard_nonempty dest: canonicalD(2))
  with Cons show ?case by simp
qed simp

lemma members_at_fmdrop: "members_at (fmdrop a m) a' b = (if a' = a then {||} else members_at m a' b)"
  by (auto simp: members_at_def)

lemma canonical_fmdrop: "canonical_nested m \<Longrightarrow> canonical_nested (fmdrop a m)"
  by (auto simp: canonical_nested_def intro: fmpred_drop)

section \<open>The index as a subscription relation\<close>

definition subscribed :: "ChannelIndex \<Rightarrow> (str \<times> str \<times> str) set" where
  "subscribed idx = {(s, w, c). s |\<in>| members_at (by_swarm_channel idx) w c}"

definition index_ok :: "ChannelIndex \<Rightarrow> bool" where
  "index_ok idx \<longleftrightarrow>
     canonical_nested (by_swarm_channel idx) \<and> canonical_nested (by_session idx) \<and>
     (\<forall>s w c. s |\<in>| members_at (by_swarm_channel idx) w c \<longleftrightarrow> c |\<in>| members_at (by_session idx) s w)"

lemma members_remove_session:
  assumes "hash_order_ok ord"
  shows "members_at (by_swarm_channel (remove_session ord s idx)) w c =
    members_at (by_swarm_channel idx) w c -
      (if fmlookup (by_session idx) s = None \<or> c |\<in>| members_at (by_session idx) s w
       then {|s|} else {||})"
proof (cases "fmlookup (by_session idx) s")
  case None
  let ?m = "by_swarm_channel idx"
  have "members_at (fold (leave_swarm s (\<lambda>w subs. ord (Some w) (fmdom subs))) (ord None (fmdom ?m)) ?m) w c
      = members_at ?m w c - (if w \<in> set (ord None (fmdom ?m)) \<and> True then {|s|} else {||})"
    using assms by (intro members_at_fold_leave) (simp add: hash_order_ok_def)
  moreover have "members_at ?m w c = {||}" if "w |\<notin>| fmdom ?m"
    using that by (simp add: members_at_def fmdom_notD)
  ultimately show ?thesis
    using assms None by (auto simp: remove_session_def hash_order_ok_def)
next
  case (Some subs)
  let ?m = "by_swarm_channel idx" and ?ws = "ord None (fmdom subs)"
  let ?ch = "\<lambda>w. case fmlookup subs w of None \<Rightarrow> [] | Some cs \<Rightarrow> ord (Some w) cs"
  have "members_at (fold (leave_swarm s (\<lambda>w _. ?ch w)) ?ws ?m) w c
      = members_at ?m w c - (if w \<in> set ?ws \<and> c \<in> set (?ch w) then {|s|} else {||})"
    by (rule members_at_fold_leave) simp
  moreover have "w \<in> set ?ws \<and> c \<in> set (?ch w) \<longleftrightarrow> c |\<in>| members_at (by_session idx) s w"
    using assms Some
    by (auto simp: hash_order_ok_def members_at_inner inner_members_def fmlookup_dom_iff
        split: option.split)
  ultimately show ?thesis using Some by (simp add: remove_session_def)
qed

lemma by_session_remove: "by_session (remove_session ord s idx) = fmdrop s (by_session idx)"
  by (auto simp: remove_session_def split: option.split intro!: fmdrop_idle [symmetric] fmdom_notI)

lemma index_ok_None:
  "index_ok idx \<Longrightarrow> fmlookup (by_session idx) s = None \<Longrightarrow> s |\<notin>| members_at (by_swarm_channel idx) w c"
  by (auto simp: index_ok_def members_at_def)

lemma members_remove_session_ok:
  assumes "hash_order_ok ord" and "index_ok idx"
  shows "members_at (by_swarm_channel (remove_session ord s idx)) w c =
    members_at (by_swarm_channel idx) w c - {|s|}"
proof -
  let ?m = "members_at (by_swarm_channel idx) w c"
  have "?m - {||} = ?m - {|s|}" if "s |\<notin>| ?m" using that by auto
  moreover have "s |\<notin>| ?m" if "c |\<notin>| members_at (by_session idx) s w"
    using that assms(2) by (simp add: index_ok_def)
  ultimately show ?thesis
    unfolding members_remove_session [OF assms(1)] by presburger
qed

lemma canonical_remove_session:
  "canonical_nested (by_swarm_channel idx) \<Longrightarrow>
   canonical_nested (by_swarm_channel (remove_session ord s idx))"
  by (auto simp: remove_session_def intro: canonical_fold_leave split: option.split)

lemma index_ok_empty: "index_ok empty_index"
  by (simp add: index_ok_def empty_index_def canonical_nested_def)

lemma index_ok_subscribe [inv_intros]: "index_ok idx \<Longrightarrow> index_ok (subscribe s w c idx)"
  by (auto simp: index_ok_def subscribe_def members_at_insert_at intro: nested.canonical_add)

lemma index_ok_unsubscribe [inv_intros]: "index_ok idx \<Longrightarrow> index_ok (unsubscribe s w c idx)"
  by (auto simp: index_ok_def unsubscribe_def members_at_discard_at intro: nested.canonical_discard)

lemma index_ok_remove_session [inv_intros]:
  assumes "hash_order_ok ord" and "index_ok idx"
  shows "index_ok (remove_session ord s idx)"
  using assms(2) members_remove_session_ok [OF assms]
  by (auto simp: index_ok_def by_session_remove members_at_fmdrop
      intro: canonical_remove_session canonical_fmdrop)

lemma index_ext:
  assumes "index_ok i" and "index_ok j" and "subscribed i = subscribed j"
  shows "i = j"
proof -
  have e: "s |\<in>| members_at (by_swarm_channel i) w c \<longleftrightarrow> s |\<in>| members_at (by_swarm_channel j) w c"
    for s w c
    using arg_cong [OF assms(3), of "\<lambda>R. (s, w, c) \<in> R"] by (simp add: subscribed_def)
  have "by_swarm_channel i = by_swarm_channel j"
    using assms e by (intro nested.canonical_ext) (auto simp: index_ok_def)
  moreover have "by_session i = by_session j"
    using assms e by (intro nested.canonical_ext) (auto simp: index_ok_def)
  ultimately show ?thesis by simp
qed

section \<open>Every history of the index\<close>

inductive index_step :: "ChannelIndex \<Rightarrow> ChannelIndex \<Rightarrow> bool" where
  step_subscribe: "index_step idx (subscribe s w c idx)"
| step_unsubscribe: "index_step idx (unsubscribe s w c idx)"
| step_remove_session: "hash_order_ok ord \<Longrightarrow> index_step idx (remove_session ord s idx)"

inductive_cases index_stepE: "index_step idx jdx"

interpretation index: transition_system "\<lambda>idx. idx = empty_index" index_step index_ok
proof
  show "index_ok t" if "index_ok s" and "index_step s t" for s t
    using that(2,1) by (cases rule: index_step.cases) (auto intro: inv_intros)
qed (simp add: index_ok_empty)

lemma subscribed_subscribe: "subscribed (subscribe s w c idx) = insert (s, w, c) (subscribed idx)"
  by (auto simp: subscribed_def subscribe_def members_at_insert_at split: if_splits)

lemma subscribed_unsubscribe: "subscribed (unsubscribe s w c idx) = subscribed idx - {(s, w, c)}"
  by (auto simp: subscribed_def unsubscribe_def members_at_discard_at split: if_splits)

lemma subscribed_remove_session:
  assumes "hash_order_ok ord" and "index_ok idx"
  shows "subscribed (remove_session ord s idx) = {(s', w, c) \<in> subscribed idx. s' \<noteq> s}"
  by (auto simp: subscribed_def members_remove_session_ok [OF assms])

lemma members_sorted:
  "sorted (members w c idx)" "distinct (members w c idx)"
  "set (members w c idx) = {s. (s, w, c) \<in> subscribed idx}"
  by (simp_all add: members_def sorted_list_of_fset.rep_eq subscribed_def)

section \<open>Properties\<close>

text \<open>
  C30: after any history of operations, and whatever the iteration order of the hash maps, the two
  maps of the index agree and hold no empty entries, each operation changes the subscription
  relation exactly as its name says (\<open>remove_session\<close> drops every subscription of that session and
  no other), and \<open>members\<close> lists the subscribers of a channel sorted and without repetition.
\<close>

theorem channel_index_refines:
  assumes "index_step\<^sup>*\<^sup>* empty_index idx" and "hash_order_ok ord"
  shows "index_ok idx
    \<and> subscribed (subscribe s w c idx) = insert (s, w, c) (subscribed idx)
    \<and> subscribed (unsubscribe s w c idx) = subscribed idx - {(s, w, c)}
    \<and> subscribed (remove_session ord s idx) = {(s', w', c') \<in> subscribed idx. s' \<noteq> s}
    \<and> sorted (members w c idx) \<and> distinct (members w c idx)
    \<and> set (members w c idx) = {s'. (s', w, c) \<in> subscribed idx}"
proof -
  have ok: "index_ok idx" using index.reachable_inv [OF refl assms(1)] .
  with assms(2) show ?thesis
    by (simp add: subscribed_subscribe subscribed_unsubscribe subscribed_remove_session members_sorted)
qed

text \<open>
  Supplement: the index is a canonical form of the subscription relation, so that on every index reached
  by a history of operations subscribing twice is subscribing once, unsubscribing undoes a new
  subscription, unsubscribing when not subscribed changes nothing, the order of subscriptions is
  irrelevant, and the outcome of \<open>remove_session\<close> does not depend on hash order.
\<close>

theorem channel_index_canonical:
  assumes "index_step\<^sup>*\<^sup>* empty_index idx" and "hash_order_ok ord" and "hash_order_ok ord'"
  shows "((s, w, c) \<in> subscribed idx \<longrightarrow> subscribe s w c idx = idx)
    \<and> ((s, w, c) \<notin> subscribed idx \<longrightarrow>
        unsubscribe s w c (subscribe s w c idx) = idx \<and> unsubscribe s w c idx = idx)
    \<and> subscribe s w c (subscribe s' w' c' idx) = subscribe s' w' c' (subscribe s w c idx)
    \<and> remove_session ord s idx = remove_session ord' s idx
    \<and> remove_session ord s (remove_session ord s idx) = remove_session ord s idx
    \<and> (\<forall>jdx. index_step\<^sup>*\<^sup>* empty_index jdx \<longrightarrow> subscribed jdx = subscribed idx \<longrightarrow> jdx = idx)"
proof -
  have ok: "index_ok idx" using index.reachable_inv [OF refl assms(1)] .
  note rules = index_ext inv_intros ok assms(2,3)
  note eqs = subscribed_subscribe subscribed_unsubscribe subscribed_remove_session
    index_ok_remove_session ok assms(2,3)
  have "(s, w, c) \<in> subscribed idx \<Longrightarrow> subscribe s w c idx = idx"
    by (intro rules) (auto simp: eqs)
  moreover have "(s, w, c) \<notin> subscribed idx \<Longrightarrow> unsubscribe s w c (subscribe s w c idx) = idx"
    by (intro rules) (auto simp: eqs)
  moreover have "(s, w, c) \<notin> subscribed idx \<Longrightarrow> unsubscribe s w c idx = idx"
    by (intro rules) (auto simp: eqs)
  moreover have "subscribe s w c (subscribe s' w' c' idx) = subscribe s' w' c' (subscribe s w c idx)"
    by (intro rules) (auto simp: eqs)
  moreover have "remove_session ord s idx = remove_session ord' s idx"
    by (intro rules) (simp add: eqs)
  moreover have "remove_session ord s (remove_session ord s idx) = remove_session ord s idx"
    by (intro rules) (auto simp: eqs)
  moreover have "index_step\<^sup>*\<^sup>* empty_index jdx \<Longrightarrow> subscribed jdx = subscribed idx \<Longrightarrow> jdx = idx" for jdx
    using index.reachable_inv [OF refl, of jdx] ok by (intro index_ext) auto
  ultimately show ?thesis by blast
qed

definition demo_order :: hash_order where
  "demo_order t K = sorted_list_of_fset K"

definition demo_index :: ChannelIndex where
  "demo_index = subscribe ''a'' ''w'' ''c'' (subscribe ''b'' ''w'' ''c'' empty_index)"

lemma demo_order_ok: "hash_order_ok demo_order"
  by (simp add: hash_order_ok_def demo_order_def)

lemma demo_index_reachable: "index_step\<^sup>*\<^sup>* empty_index demo_index"
proof -
  have "index_step empty_index (subscribe ''b'' ''w'' ''c'' empty_index)" by (rule step_subscribe)
  moreover have "index_step (subscribe ''b'' ''w'' ''c'' empty_index) demo_index"
    unfolding demo_index_def by (rule step_subscribe)
  ultimately show ?thesis by (meson rtranclp.rtrancl_into_rtrancl rtranclp.rtrancl_refl)
qed

lemma demo_index_subscribed: "subscribed demo_index = {(''a'', ''w'', ''c''), (''b'', ''w'', ''c'')}"
  unfolding demo_index_def subscribed_subscribe by (auto simp: subscribed_def empty_index_def)

lemma demo_index_members: "members ''w'' ''c'' demo_index = [''a'', ''b'']"
  by code_simp

theorem channel_index_refines_witness:
  "subscribed (remove_session demo_order ''a'' demo_index) = {(''b'', ''w'', ''c'')}
    \<and> subscribed (unsubscribe ''b'' ''w'' ''c'' demo_index) = {(''a'', ''w'', ''c'')}
    \<and> members ''w'' ''c'' demo_index = [''a'', ''b'']"
proof -
  note a = channel_index_refines [OF demo_index_reachable demo_order_ok, of "''a''" "''w''" "''c''"]
  note b = channel_index_refines [OF demo_index_reachable demo_order_ok, of "''b''" "''w''" "''c''"]
  have "subscribed (remove_session demo_order ''a'' demo_index) =
      {(s', w', c') \<in> subscribed demo_index. s' \<noteq> ''a''}" using a by (elim conjE)
  moreover have "subscribed (unsubscribe ''b'' ''w'' ''c'' demo_index) =
      subscribed demo_index - {(''b'', ''w'', ''c'')}" using b by (elim conjE)
  ultimately show ?thesis by (auto simp: demo_index_subscribed demo_index_members)
qed

theorem channel_index_canonical_witness:
  "subscribe ''a'' ''w'' ''c'' demo_index = demo_index
    \<and> unsubscribe ''z'' ''w'' ''c'' (subscribe ''z'' ''w'' ''c'' demo_index) = demo_index"
proof -
  note canon = channel_index_canonical [OF demo_index_reachable demo_order_ok demo_order_ok]
  have "(''a'', ''w'', ''c'') \<in> subscribed demo_index" "(''z'', ''w'', ''c'') \<notin> subscribed demo_index"
    by (simp_all add: demo_index_subscribed)
  with canon [of "''a''" "''w''" "''c''"] canon [of "''z''" "''w''" "''c''"] show ?thesis by blast
qed

text \<open>
  Supplement: cleaning up after a session does not rely on the two maps agreeing. On any index at all, when
  the session side has no record of the session, \<open>remove_session\<close> still removes it from every
  channel of every swarm, keeps every other subscriber, and leaves no trace of it on either side.
\<close>

theorem remove_session_sweeps:
  assumes "hash_order_ok ord" and "fmlookup (by_session idx) s = None"
  shows "subscribed (remove_session ord s idx) = {(s', w, c) \<in> subscribed idx. s' \<noteq> s}
    \<and> by_session (remove_session ord s idx) = by_session idx
    \<and> (\<forall>w c. s \<notin> set (members w c (remove_session ord s idx)))"
proof -
  have m: "members_at (by_swarm_channel (remove_session ord s idx)) w c =
      members_at (by_swarm_channel idx) w c - {|s|}" for w c
    using members_remove_session [OF assms(1), of s idx w c] assms(2) by simp
  have "by_session (remove_session ord s idx) = by_session idx"
    using assms(2) by (simp add: by_session_remove fmdrop_idle fmdom_notI)
  then show ?thesis by (auto simp: m members_sorted subscribed_def)
qed

definition demo_half_index :: ChannelIndex where
  "demo_half_index = demo_index\<lparr>by_session := fmempty\<rparr>"

theorem remove_session_sweeps_witness:
  "''a'' \<in> set (members ''w'' ''c'' demo_half_index)
    \<and> ''a'' \<notin> set (members ''w'' ''c'' (remove_session demo_order ''a'' demo_half_index))"
proof -
  have "fmlookup (by_session demo_half_index) ''a'' = None" by (simp add: demo_half_index_def)
  moreover have "''a'' \<in> set (members ''w'' ''c'' demo_half_index)" by code_simp
  ultimately show ?thesis using remove_session_sweeps [OF demo_order_ok, of demo_half_index "''a''"] by blast
qed

end
