(* ===== verification/Rust_Chars.thy ===== *)
theory Rust_Chars
  imports Rust_Str
begin

text \<open>
  Rust strings as sequences of characters: \<open>chars()\<close>, \<open>chars().count()\<close>, \<open>chars().take(n)\<close>,
  \<open>split_whitespace\<close> and trimming by a pattern, over the UTF-8 bytes of \<^verbatim>\<open>Rust_Str\<close>. A character
  is the list of its bytes. The lemmas relate characters and bytes on valid UTF-8: decoding is
  compositional, and trimming, truncation and re-joining keep a string valid.
\<close>

section \<open>Characters\<close>

function chars :: "str \<Rightarrow> str list" where
  "chars [] = []"
| "chars (c # s) = (c # take (utf8_width c - 1) s) # chars (drop (utf8_width c - 1) s)"
  by pat_completeness auto
termination by (relation "measure length") auto

definition char_count :: "str \<Rightarrow> nat" where
  "char_count s = length (chars s)"

definition take_chars :: "nat \<Rightarrow> str \<Rightarrow> str" where
  "take_chars n s = concat (take n (chars s))"

definition is_whitespace :: "str \<Rightarrow> bool" where
  "is_whitespace c \<longleftrightarrow> c \<noteq> [] \<and> ws_width c = length c"

fun words_from :: "str \<Rightarrow> str list \<Rightarrow> str list" where
  "words_from acc [] = (if acc = [] then [] else [acc])"
| "words_from acc (c # cs) =
     (if is_whitespace c then (if acc = [] then words_from [] cs else acc # words_from [] cs)
      else words_from (acc @ c) cs)"

definition split_whitespace :: "str \<Rightarrow> str list" where
  "split_whitespace s = words_from [] (chars s)"

text \<open>\<open>split_whitespace().collect::<Vec<_>>().join(" ")\<close>.\<close>

definition collapse_whitespace :: "str \<Rightarrow> str" where
  "collapse_whitespace s = join '' '' (split_whitespace s)"

text \<open>Trimming by a set of ASCII characters, or by one.\<close>

definition trim_start_matches :: "char list \<Rightarrow> str \<Rightarrow> str" where
  "trim_start_matches cs s = dropWhile (\<lambda>c. c \<in> set cs) s"

definition trim_end_matches :: "char \<Rightarrow> str \<Rightarrow> str" where
  "trim_end_matches p s = rev (dropWhile (\<lambda>c. c = p) (rev s))"

section \<open>Valid strings are lists of valid characters\<close>

definition char_ok :: "str \<Rightarrow> bool" where
  "char_ok c \<longleftrightarrow> c \<noteq> [] \<and> \<not> is_cont (hd c) \<and> length c = utf8_width (hd c) \<and> list_all is_cont (tl c)"

lemma concat_chars [simp]: "concat (chars s) = s"
  by (induction s rule: chars.induct) simp_all

lemma chars_eq_Nil [simp]: "chars s = [] \<longleftrightarrow> s = []"
  by (cases s) simp_all

lemma char_count_Nil [simp]: "char_count [] = 0"
  by (simp add: char_count_def)

lemma utf8_valid_chars: "utf8_valid s \<longleftrightarrow> list_all char_ok (chars s)"
proof (induction s rule: utf8_valid.induct)
  case (2 c s)
  have "char_ok (c # take (utf8_width c - 1) s) \<longleftrightarrow>
      \<not> is_cont c \<and> utf8_width c - 1 \<le> length s \<and> list_all is_cont (take (utf8_width c - 1) s)"
  proof -
    obtain n where "utf8_width c = Suc n" using utf8_width_pos [of c] gr0_implies_Suc by blast
    then show ?thesis by (auto simp: char_ok_def min_def)
  qed
  with 2 show ?case by simp
qed simp

lemma chars_char_append: "char_ok c \<Longrightarrow> chars (c @ s) = c # chars s"
  using utf8_width_pos [of "hd c"] by (cases c) (auto simp: char_ok_def)

lemma chars_concat_append: "list_all char_ok cs \<Longrightarrow> chars (concat cs @ b) = cs @ chars b"
  by (induction cs) (simp_all add: chars_char_append)

lemma chars_concat: "list_all char_ok cs \<Longrightarrow> chars (concat cs) = cs"
  using chars_concat_append [of cs "[]"] by simp

lemma chars_append: "utf8_valid a \<Longrightarrow> chars (a @ b) = chars a @ chars b"
  using chars_concat_append [of "chars a" b] by (simp add: utf8_valid_chars)

lemma utf8_valid_append: "utf8_valid a \<Longrightarrow> utf8_valid (a @ b) \<longleftrightarrow> utf8_valid b"
  by (simp add: utf8_valid_chars chars_append)

lemma char_count_append: "utf8_valid a \<Longrightarrow> char_count (a @ b) = char_count a + char_count b"
  by (simp add: char_count_def chars_append)

lemma utf8_valid_concat: "list_all char_ok cs \<Longrightarrow> utf8_valid (concat cs)"
  by (simp add: utf8_valid_chars chars_concat)

text \<open>Cutting a valid string before a byte that starts a character gives two valid strings.\<close>

lemma utf8_valid_cut:
  assumes "utf8_valid (a @ b)" and "b = [] \<or> \<not> is_cont (hd b)"
  shows "utf8_valid a \<and> utf8_valid b"
  using assms
proof (induction a rule: utf8_valid.induct)
  case (2 c s)
  let ?w = "utf8_width c - 1"
  have v: "?w \<le> length (s @ b)" "list_all is_cont (take ?w (s @ b))" "\<not> is_cont c"
    "utf8_valid (drop ?w (s @ b))"
    using 2(2) by auto
  have w: "?w \<le> length s"
  proof (rule ccontr)
    assume "\<not> ?w \<le> length s"
    then have "b \<noteq> []" "take ?w (s @ b) ! length s = b ! 0" "length s < length (take ?w (s @ b))"
      using v(1) by (auto simp: nth_append)
    with v(2) have "is_cont (b ! 0)" by (metis list_all_length)
    with 2(3) \<open>b \<noteq> []\<close> show False by (simp add: hd_conv_nth)
  qed
  with v have "utf8_valid (drop ?w s @ b)" by simp
  with 2 have "utf8_valid (drop ?w s) \<and> utf8_valid b" by blast
  with v w show ?case by simp
qed simp

lemma utf8_valid_hd: "utf8_valid s \<Longrightarrow> s = [] \<or> \<not> is_cont (hd s)"
  by (cases s) simp_all

section \<open>Truncation\<close>

lemma take_chars_prefix: "prefix (take_chars n s) s"
  by (metis append_take_drop_id concat_append concat_chars prefixI take_chars_def)

lemma chars_take_chars: "utf8_valid s \<Longrightarrow> chars (take_chars n s) = take n (chars s)"
  unfolding take_chars_def
  by (rule chars_concat) (auto simp: utf8_valid_chars list_all_iff dest: in_set_takeD)

lemma utf8_valid_take_chars: "utf8_valid s \<Longrightarrow> utf8_valid (take_chars n s)"
  by (auto simp: utf8_valid_chars chars_take_chars list_all_iff dest: in_set_takeD)

lemma char_count_take_chars: "utf8_valid s \<Longrightarrow> char_count (take_chars n s) = min (char_count s) n"
  by (simp add: char_count_def chars_take_chars)

section \<open>Trimming\<close>

lemma ws_width_le: "ws_width s \<le> length s" "ws_width_back r \<le> length r"
  by (auto simp: ws_width_def ws_width_back_def split: list.split)

lemma ws_start_byte:
  "ascii_ws (byte c) \<Longrightarrow> \<not> is_cont c"
  "ws2 (byte c) b \<Longrightarrow> \<not> is_cont c"
  "ws3 (byte c) b d \<Longrightarrow> \<not> is_cont c"
  by (auto simp: ascii_ws_def ws2_def ws3_def is_cont_def)

lemma ws_back_start:
  assumes "ws_width_back r = w" and "0 < w"
  shows "\<not> is_cont (hd (rev (take w r)))"
  using assms ws_start_byte
  by (auto simp: ws_width_back_def numeral_2_eq_2 numeral_3_eq_3 split: list.splits if_splits)

lemma trim_end_valid:
  assumes "utf8_valid s"
  shows "utf8_valid (trim_end s) \<and> prefix (trim_end s) s"
proof -
  have "utf8_valid (rev r) \<Longrightarrow>
      utf8_valid (rev (drop_ws ws_width_back r)) \<and> prefix (rev (drop_ws ws_width_back r)) (rev r)" for r
  proof (induction "ws_width_back" r rule: drop_ws.induct)
    case (1 r)
    show ?case
    proof (cases "ws_width_back r = 0 \<or> r = []")
      case True
      with 1 show ?thesis by (subst (1 2) drop_ws.simps) simp
    next
      case False
      let ?w = "ws_width_back r"
      have split: "rev r = rev (drop ?w r) @ rev (take ?w r)"
        by (metis append_take_drop_id rev_append)
      have "\<not> is_cont (hd (rev (take ?w r)))" using False by (intro ws_back_start) auto
      with 1(2) have "utf8_valid (rev (drop ?w r))" using utf8_valid_cut split by metis
      with 1(1) False have "utf8_valid (rev (drop_ws ws_width_back (drop ?w r)))"
        and "prefix (rev (drop_ws ws_width_back (drop ?w r))) (rev (drop ?w r))"
        by auto
      moreover have "drop_ws ws_width_back r = drop_ws ws_width_back (drop ?w r)"
        using False by (subst drop_ws.simps) simp
      ultimately show ?thesis
        using split by (metis prefix_order.trans prefixI)
    qed
  qed
  from this [of "rev s"] assms show ?thesis by (simp add: trim_end_def)
qed

lemma ws_utf8_width:
  "ascii_ws (byte c) \<Longrightarrow> utf8_width c = 1"
  "ws2 (byte c) b \<Longrightarrow> utf8_width c = 2"
  "ws3 (byte c) b d \<Longrightarrow> utf8_width c = 3"
  by (auto simp: ascii_ws_def ws2_def ws3_def utf8_width_def)

lemma ws_width_char: "0 < ws_width (c # s) \<Longrightarrow> ws_width (c # s) = utf8_width c"
  by (auto simp: ws_width_def ws_utf8_width split: list.splits if_splits)

lemma ws_width_first:
  assumes "utf8_valid s" and "0 < ws_width s"
  shows "utf8_valid (drop (ws_width s) s)"
proof (cases s)
  case (Cons c t)
  obtain n where n: "utf8_width c = Suc n" using utf8_width_pos [of c] gr0_implies_Suc by blast
  have "ws_width s = utf8_width c" using assms(2) Cons by (simp add: ws_width_char)
  with assms(1) Cons n show ?thesis by simp
qed simp

lemma drop_ws_suffix: "suffix (drop_ws w s) s"
proof (induction w s rule: drop_ws.induct)
  case (1 w s)
  then show ?case
    by (subst drop_ws.simps) (auto intro: suffix_order.trans suffix_drop)
qed

lemma trim_start_valid:
  assumes "utf8_valid s"
  shows "utf8_valid (trim_start s) \<and> suffix (trim_start s) s"
proof -
  have "utf8_valid s \<Longrightarrow> utf8_valid (drop_ws ws_width s)" for s
  proof (induction "ws_width" s rule: drop_ws.induct)
    case (1 s)
    then show ?case by (subst drop_ws.simps) (auto intro: ws_width_first)
  qed
  with assms show ?thesis by (simp add: trim_start_def drop_ws_suffix)
qed

lemma trim_valid: "utf8_valid s \<Longrightarrow> utf8_valid (trim s)"
  by (simp add: trim_def trim_end_valid trim_start_valid)

lemma char_count_prefix:
  assumes "utf8_valid p" and "prefix p s"
  shows "char_count p \<le> char_count s"
  using assms by (auto simp: prefix_def char_count_append)

section \<open>Words\<close>

definition word_ok :: "str \<Rightarrow> bool" where
  "word_ok w \<longleftrightarrow> w \<noteq> [] \<and> utf8_valid w \<and> list_all (\<lambda>c. \<not> is_whitespace c) (chars w)"

lemma words_from_ok:
  assumes "list_all char_ok cs" and "acc = [] \<or> word_ok acc"
  shows "list_all word_ok (words_from acc cs)"
  using assms
proof (induction acc cs rule: words_from.induct)
  case (2 acc c cs)
  have one: "chars c = [c]" "utf8_valid c"
    using 2(4) chars_concat [of "[c]"] utf8_valid_concat [of "[c]"] by auto
  have "word_ok (acc @ c)" if "\<not> is_whitespace c"
    using that 2(4,5) one
    by (auto simp: word_ok_def utf8_valid_append chars_append char_ok_def)
  with 2 show ?case by auto
qed auto

lemma split_whitespace_ok: "utf8_valid s \<Longrightarrow> list_all word_ok (split_whitespace s)"
  by (simp add: split_whitespace_def words_from_ok utf8_valid_chars)

lemma words_from_Nil:
  "words_from acc cs = [] \<longleftrightarrow> acc = [] \<and> (\<forall>c \<in> set cs. is_whitespace c \<or> c = [])"
  by (induction acc cs rule: words_from.induct) auto

text \<open>What \<^const>\<open>collapse_whitespace\<close> returns: valid text whose only whitespace is single spaces
  between words.\<close>

lemma chars_space: "chars ('' '' @ s) = '' '' # chars s"
  by (simp add: utf8_width_def)

lemma chars_join:
  assumes "list_all word_ok ws"
  shows "utf8_valid (join '' '' ws) \<and>
    (\<forall>c \<in> set (chars (join '' '' ws)). c = '' '' \<or> \<not> is_whitespace c)"
  using assms
proof (induction "'' ''" ws rule: join.induct)
  case (2 x)
  then show ?case by (auto simp: word_ok_def list_all_iff)
next
  case (3 x y ys)
  let ?r = "join '' '' (y # ys)"
  have x: "utf8_valid x" "\<forall>c \<in> set (chars x). \<not> is_whitespace c"
    using 3(2) by (auto simp: word_ok_def list_all_iff)
  have r: "utf8_valid ?r" "\<forall>c \<in> set (chars ?r). c = '' '' \<or> \<not> is_whitespace c"
    using 3 by auto
  have "utf8_valid ('' '' @ ?r)" using r(1) by (simp add: utf8_width_def is_cont_def)
  moreover have "chars (x @ '' '' @ ?r) = chars x @ '' '' # chars ?r"
    using x(1) by (simp only: chars_append chars_space)
  ultimately show ?case using x r by (simp add: utf8_valid_append ball_Un del: append_Cons append_Nil)
qed simp

lemma collapse_valid: "utf8_valid s \<Longrightarrow> utf8_valid (collapse_whitespace s)"
  using chars_join split_whitespace_ok by (simp add: collapse_whitespace_def)

lemma ascii_byte_char:
  assumes "utf8_valid s" and "c \<in> set s" and "byte c < 128"
  shows "[c] \<in> set (chars s)"
proof -
  from assms(2) obtain d where d: "d \<in> set (chars s)" "c \<in> set d"
    using concat_chars [of s] by (metis UN_E set_concat)
  with assms(1) have ok: "char_ok d" by (simp add: utf8_valid_chars list_all_iff)
  with d(2) assms(3) have "c = hd d" "utf8_width c = 1"
    by (cases d; auto simp: char_ok_def list_all_iff is_cont_def utf8_width_def)+
  with ok have "d = [c]" by (cases d) (auto simp: char_ok_def)
  with d show ?thesis by simp
qed

lemma collapse_one_line:
  assumes "utf8_valid s"
  shows "\<forall>c \<in> set (collapse_whitespace s). ascii_ws (byte c) \<longrightarrow> c = CHR '' ''"
proof (intro ballI impI)
  fix c assume c: "c \<in> set (collapse_whitespace s)" "ascii_ws (byte c)"
  then have "[c] \<in> set (chars (collapse_whitespace s))"
    using ascii_byte_char [OF collapse_valid [OF assms]] by (auto simp: ascii_ws_def)
  moreover have "is_whitespace [c]" using c(2) by (simp add: is_whitespace_def ws_width_def)
  ultimately show "c = CHR '' ''"
    using chars_join [OF split_whitespace_ok [OF assms]] by (auto simp: collapse_whitespace_def)
qed

lemma join_Nil_iff: "list_all (\<lambda>w. w \<noteq> []) ws \<Longrightarrow> join '' '' ws = [] \<longleftrightarrow> ws = []"
  by (cases "('' '', ws)" rule: join.cases) auto

text \<open>Collapsed text is empty exactly when there is nothing but whitespace.\<close>

lemma collapse_Nil_iff:
  assumes "utf8_valid s"
  shows "collapse_whitespace s = [] \<longleftrightarrow> (\<forall>c \<in> set (chars s). is_whitespace c)"
proof -
  have "list_all (\<lambda>w. w \<noteq> []) (split_whitespace s)"
    using split_whitespace_ok [OF assms] by (auto simp: list_all_iff word_ok_def)
  moreover have "\<forall>c \<in> set (chars s). c \<noteq> []"
    using assms by (auto simp: utf8_valid_chars list_all_iff char_ok_def)
  ultimately show ?thesis
    by (auto simp: collapse_whitespace_def join_Nil_iff split_whitespace_def words_from_Nil)
qed

section \<open>Trimming is idempotent\<close>

lemma drop_ws_done: "w (drop_ws w s) = 0 \<or> drop_ws w s = []"
proof (induction w s rule: drop_ws.induct)
  case (1 w s)
  then show ?case by (subst (1 2) drop_ws.simps) auto
qed

lemma ws_width_mono: "prefix p s \<Longrightarrow> 0 < ws_width p \<Longrightarrow> 0 < ws_width s"
  by (auto simp: ws_width_def prefix_def split: list.splits if_splits)

lemma trim_start_id: "ws_width s = 0 \<Longrightarrow> trim_start s = s"
  by (simp add: trim_start_def drop_ws_id)

lemma trim_end_id: "ws_width_back (rev s) = 0 \<Longrightarrow> trim_end s = s"
  by (simp add: trim_end_def drop_ws_id)

lemma trim_end_prefix: "prefix (trim_end s) s"
proof -
  have "suffix (drop_ws ws_width_back (rev s)) (rev s)" by (rule drop_ws_suffix)
  then show ?thesis by (simp add: trim_end_def suffix_to_prefix)
qed

lemma ws_width_trim: "ws_width (trim s) = 0"
proof -
  have "ws_width (trim_start s) = 0"
    using drop_ws_done [of ws_width s] by (auto simp: trim_start_def)
  with ws_width_mono [OF trim_end_prefix, of "trim_start s"] show ?thesis by (auto simp: trim_def)
qed

lemma ws_width_back_trim: "ws_width_back (rev (trim s)) = 0"
  using drop_ws_done [of ws_width_back "rev (trim_start s)"] by (auto simp: trim_def trim_end_def)

lemma trim_idem: "trim (trim s) = trim s"
  using trim_start_id [OF ws_width_trim] trim_end_id [OF ws_width_back_trim]
  by (metis trim_def)

lemma ws_width_cong: "length s \<ge> 3 \<Longrightarrow> ws_width (s @ u) = ws_width s"
  by (auto simp: ws_width_def split: list.splits)

lemma utf8_width_neq [simp]: "utf8_width c \<noteq> 0"
  using utf8_width_pos [of c] by linarith

text \<open>Whether a valid string starts with whitespace is decided by its first character.\<close>

lemma ws_width_append:
  assumes "utf8_valid a" and "a \<noteq> []"
  shows "ws_width (a @ b) = 0 \<longleftrightarrow> ws_width a = 0"
proof -
  obtain c t where a: "a = c # t" using assms(2) by (cases a) auto
  have "0 < ws_width a" if "0 < ws_width (a @ b)"
  proof -
    have "ws_width (a @ b) = utf8_width c" using that a ws_width_char by simp
    moreover have "utf8_width c \<le> length a" using assms(1) a by auto
    ultimately show ?thesis using a
      by (auto simp: ws_width_def split: list.splits if_splits)
  qed
  moreover have "0 < ws_width (a @ b)" if "0 < ws_width a"
    using ws_width_mono [of a "a @ b"] that by simp
  ultimately show ?thesis by (metis not_gr0)
qed

section \<open>Validity of pieces\<close>

lemma utf8_valid_ascii_Cons: "byte c < 128 \<Longrightarrow> utf8_valid (c # s) = utf8_valid s"
  by (simp add: utf8_width_def is_cont_def)

lemma utf8_valid_ascii: "\<forall>b \<in> set u. byte b < 128 \<Longrightarrow> utf8_valid u"
  by (induction u) (simp_all add: utf8_valid_ascii_Cons del: utf8_valid.simps(2))

lemma trim_start_matches_valid:
  "utf8_valid s \<Longrightarrow> list_all (\<lambda>c. byte c < 128) cs \<Longrightarrow> utf8_valid (trim_start_matches cs s)"
  unfolding trim_start_matches_def
  by (induction s) (auto simp: utf8_valid_ascii_Cons list_all_iff simp del: utf8_valid.simps(2))

lemma trim_end_matches_valid:
  assumes "utf8_valid s" and "byte p < 128"
  shows "utf8_valid (trim_end_matches p s)"
proof -
  let ?u = "rev (takeWhile (\<lambda>c. c = p) (rev s))"
  have "s = trim_end_matches p s @ ?u"
    unfolding trim_end_matches_def by (metis rev_append rev_rev_ident takeWhile_dropWhile_id)
  moreover have "?u = [] \<or> \<not> is_cont (hd ?u)"
  proof (cases "?u = []")
    case False
    then have "hd ?u \<in> set ?u" by (rule hd_in_set)
    then have "hd ?u = p" by (auto dest: set_takeWhileD)
    then show ?thesis using assms(2) by (simp add: is_cont_def)
  qed simp
  ultimately show ?thesis using utf8_valid_cut assms(1) by metis
qed

lemma strip_cr_valid: "utf8_valid s \<Longrightarrow> utf8_valid (strip_cr s)"
proof -
  assume v: "utf8_valid s"
  have "utf8_valid (butlast s)" if "s \<noteq> []" and "last s = CHR 0x0D"
  proof -
    have "s = butlast s @ [CHR 0x0D]" using that by (metis append_butlast_last_id)
    with v have "utf8_valid (butlast s @ [CHR 0x0D])" by metis
    then have "utf8_valid (butlast s) \<and> utf8_valid [CHR 0x0D]"
      by (rule utf8_valid_cut) (simp add: is_cont_def)
    then show ?thesis ..
  qed
  with v show ?thesis by (simp add: strip_cr_def)
qed

lemma lines_from_valid: "utf8_valid (acc @ s) \<Longrightarrow> list_all utf8_valid (lines_from acc s)"
proof (induction acc s rule: lines_from.induct)
  case (2 acc c s)
  show ?case
  proof (cases "c = CHR 0x0A")
    case True
    then have "utf8_valid acc \<and> utf8_valid (c # s)"
      using 2(3) by (intro utf8_valid_cut) (auto simp: is_cont_def)
    moreover from this True have "utf8_valid s"
      using utf8_valid_ascii_Cons [of c s] by (simp del: utf8_valid.simps)
    ultimately show ?thesis using True 2(1) by (simp add: strip_cr_valid)
  qed (use 2 in simp)
qed simp

lemma str_lines_valid: "utf8_valid s \<Longrightarrow> list_all utf8_valid (str_lines s)"
  by (simp add: str_lines_def lines_from_valid)

lemma join_sublist: "x \<in> set xs \<Longrightarrow> sublist x (join sep xs)"
proof (induction sep xs rule: join.induct)
  case (3 sep y z zs)
  then have "x = y \<or> sublist x (join sep (z # zs))" by auto
  then show ?case unfolding join.simps(3) by (metis sublist_append sublist_order.order_refl)
qed auto

section \<open>What trimming keeps\<close>

text \<open>Text that trims to nothing is nothing but whitespace.\<close>

lemma drop_back_Nil:
  "drop_ws ws_width_back r = [] \<Longrightarrow> r \<noteq> [] \<Longrightarrow> 0 < ws_width (rev r)"
proof (induction "ws_width_back" r rule: drop_ws.induct)
  case (1 r)
  let ?w = "ws_width_back r"
  have w: "?w \<noteq> 0" "drop_ws ws_width_back (drop ?w r) = []"
    using 1(2,3) by (metis drop_ws.simps)+
  show ?case
  proof (cases "drop ?w r = []")
    case True
    then have "length r \<le> ?w" by simp
    then show ?thesis using w(1) 1(3)
      by (auto simp: ws_width_def ws_width_back_def split: list.splits if_splits)
  next
    case False
    have "prefix (rev (drop ?w r)) (rev r)" by (metis append_take_drop_id prefixI rev_append)
    with 1(1) w 1(3) False show ?thesis by (auto intro: ws_width_mono)
  qed
qed

lemma ws_width_take: "0 < ws_width s \<Longrightarrow> is_whitespace (take (ws_width s) s)"
  by (cases s; cases "tl s"; cases "tl (tl s)")
    (auto simp: is_whitespace_def ws_width_def numeral_2_eq_2 numeral_3_eq_3 split: if_splits)

lemma drop_ws_Nil:
  "utf8_valid s \<Longrightarrow> drop_ws ws_width s = [] \<Longrightarrow> \<forall>c \<in> set (chars s). is_whitespace c"
proof (induction "ws_width" s rule: drop_ws.induct)
  case (1 s)
  show ?case
  proof (cases s)
    case (Cons c t)
    have w: "ws_width s = utf8_width c" "drop_ws ws_width (drop (ws_width s) s) = []"
      using 1(3) Cons ws_width_char [of c t] by (metis drop_ws.simps list.distinct(1) not_gr0)+
    have "\<forall>c \<in> set (chars (drop (ws_width s) s)). is_whitespace c"
      using 1(1,2) w Cons ws_width_first [OF 1(2)] by simp
    moreover have "is_whitespace (take (ws_width s) s)"
      using w(1) by (intro ws_width_take) simp
    moreover have "chars s = take (ws_width s) s # chars (drop (ws_width s) s)"
    proof -
      obtain n where "utf8_width c = Suc n" using utf8_width_pos [of c] gr0_implies_Suc by blast
      then show ?thesis using Cons w(1) by simp
    qed
    ultimately show ?thesis by simp
  qed simp
qed

lemma trim_Nil:
  assumes "utf8_valid s" and "trim s = []"
  shows "\<forall>c \<in> set (chars s). is_whitespace c"
proof (rule drop_ws_Nil [OF assms(1)], rule ccontr)
  assume "drop_ws ws_width s \<noteq> []"
  moreover from this have "ws_width (drop_ws ws_width s) = 0" using drop_ws_done by blast
  ultimately show False using assms(2) drop_back_Nil [of "rev (drop_ws ws_width s)"]
    by (simp add: trim_def trim_start_def trim_end_def)
qed

text \<open>Trimming never cuts into text that is followed by a line feed and does not end in whitespace.\<close>

lemma ws_back_newline:
  "ws_width_back (y @ CHR 0x0A # x) \<le> Suc (length y)"
proof (cases y)
  case (Cons a z)
  then show ?thesis
    by (cases z; cases x) (simp_all add: ws_width_back_def ws2_def ws3_def split: list.split)
qed (simp add: ws_width_back_def ascii_ws_def)

lemma drop_back_newline:
  assumes "ws_width_back x = 0"
  shows "suffix x (drop_ws ws_width_back (y @ CHR 0x0A # x))"
proof (induction "length y" arbitrary: y rule: less_induct)
  case less
  let ?s = "y @ CHR 0x0A # x" and ?w = "ws_width_back (y @ CHR 0x0A # x)"
  consider "?w = 0" | "?w = Suc (length y)" | "0 < ?w" "?w \<le> length y" using ws_back_newline [of y x] by linarith
  then show ?case
  proof cases
    case 1 then show ?thesis by (simp add: drop_ws_id suffix_def)
  next
    case 2
    then have "drop_ws ws_width_back ?s = drop_ws ws_width_back x" by (subst drop_ws.simps) simp
    then show ?thesis using assms by (simp add: drop_ws_id)
  next
    case 3
    then have "drop_ws ws_width_back ?s = drop_ws ws_width_back (drop ?w y @ CHR 0x0A # x)"
      by (subst drop_ws.simps) simp
    with less [of "drop ?w y"] 3 show ?thesis by simp
  qed
qed

lemma trim_end_keeps:
  assumes "ws_width_back (rev a) = 0"
  shows "prefix a (trim_end (a @ CHR 0x0A # b))"
  using drop_back_newline [OF assms, of "rev b"] by (simp add: trim_end_def suffix_to_prefix)

lemma ws_back_space:
  "ws_width_back r = 0 \<Longrightarrow> r \<noteq> [] \<Longrightarrow> ws_width_back (r @ CHR '' '' # x) = 0"
proof -
  assume r: "ws_width_back r = 0" "r \<noteq> []"
  then obtain a z where "r = a # z" by (cases r) auto
  with r(1) show ?thesis
    by (cases z; cases "tl z"; cases x)
      (simp_all add: ws_width_back_def ws2_def ws3_def split: if_splits list.splits)
qed

end
