(* ===== verification/Swarm_Text.thy ===== *)
theory Swarm_Text
  imports Rust_Chars Plan
begin

text \<open>
  Swarm roles, lifecycle statuses, member records and the text routines of
  \<^verbatim>\<open>src/crates/jcode-swarm-core/src/lib.rs\<close>: validation of one-line summaries, task labels,
  the instruction blocks appended to assignments, completion reports and notifications, and
  truncation. Limits are counted in characters, not bytes.
\<close>

section \<open>Limits\<close>

definition MAX_SWARM_COMPLETION_REPORT_CHARS :: nat where
  "MAX_SWARM_COMPLETION_REPORT_CHARS = 4000"

definition SWARM_TLDR_REQUIRED_OVER_CHARS :: nat where
  "SWARM_TLDR_REQUIRED_OVER_CHARS = 240"

definition MAX_SWARM_TLDR_CHARS :: nat where
  "MAX_SWARM_TLDR_CHARS = 200"

definition MAX_SWARM_MEMBERS :: nat where
  "MAX_SWARM_MEMBERS = 1000"

definition MAX_SWARM_TASK_LABEL_CHARS :: nat where
  "MAX_SWARM_TASK_LABEL_CHARS = 48"

definition SWARM_COMPLETION_REPORT_MARKER :: str where
  "SWARM_COMPLETION_REPORT_MARKER = ''SWARM COMPLETION REPORT REQUIRED''"

definition SWARM_DEEP_NODE_MARKER :: str where
  "SWARM_DEEP_NODE_MARKER = ''DEEP TASK GRAPH NODE''"

lemmas swarm_limits = MAX_SWARM_COMPLETION_REPORT_CHARS_def SWARM_TLDR_REQUIRED_OVER_CHARS_def
  MAX_SWARM_TLDR_CHARS_def MAX_SWARM_MEMBERS_def MAX_SWARM_TASK_LABEL_CHARS_def

section \<open>One-line summaries\<close>

definition tldr_too_long :: "str \<Rightarrow> nat \<Rightarrow> str" where
  \<open>tldr_too_long ctx n =
     [CHR 0x27] @ ''tldr'' @ [CHR 0x27] @ '' for '' @ ctx @ '' is too long (''
     @ show_nat n @ '' chars, max '' @ show_nat MAX_SWARM_TLDR_CHARS
     @ ''). Provide a single short line summarizing the message.''\<close>

definition tldr_required :: "str \<Rightarrow> nat \<Rightarrow> str" where
  \<open>tldr_required ctx n =
     [CHR 0x27] @ ''tldr'' @ [CHR 0x27] @ '' is required for '' @ ctx
     @ '' because the body is '' @ show_nat n @ '' chars (over ''
     @ show_nat SWARM_TLDR_REQUIRED_OVER_CHARS @ ''). Add a one-line '' @ [CHR 0x27]
     @ ''tldr'' @ [CHR 0x27] @ '' (under '' @ show_nat MAX_SWARM_TLDR_CHARS
     @ '' chars) summarizing it; recipients see the tldr collapsed with an expand ''
     @ ''control.''\<close>

definition normalized_tldr :: "str option \<Rightarrow> str option" where
  "normalized_tldr tldr =
     (case map_option collapse_whitespace tldr of
        Some t \<Rightarrow> if t = [] then None else Some t
      | None \<Rightarrow> None)"

definition validate_swarm_tldr :: "str option \<Rightarrow> str \<Rightarrow> str \<Rightarrow> (str, str option) result" where
  "validate_swarm_tldr tldr body ctx =
     (case normalized_tldr tldr of
        Some t \<Rightarrow>
          if char_count t > MAX_SWARM_TLDR_CHARS then Inl (tldr_too_long ctx (char_count t))
          else Inr (Some t)
      | None \<Rightarrow>
          if char_count body > SWARM_TLDR_REQUIRED_OVER_CHARS
          then Inl (tldr_required ctx (char_count body))
          else Inr None)"

section \<open>Task labels\<close>

definition ellipsis :: str where
  "ellipsis = [CHR 0xE2, CHR 0x80, CHR 0xA6]"

definition derive_swarm_task_label :: "str \<Rightarrow> str option" where
  "derive_swarm_task_label body =
     (case find (\<lambda>line. line \<noteq> []) (map trim (str_lines body)) of
        None \<Rightarrow> None
      | Some line \<Rightarrow>
          (let collapsed =
             collapse_whitespace (trim (trim_end_matches CHR '':'' (trim_start_matches ''#-*> '' line)))
           in if collapsed = [] then None
              else if char_count collapsed \<le> MAX_SWARM_TASK_LABEL_CHARS then Some collapsed
              else Some (trim_end (take_chars (MAX_SWARM_TASK_LABEL_CHARS - 1) collapsed) @ ellipsis)))"

section \<open>Roles and lifecycle statuses\<close>

datatype SwarmRole = Agent | Coordinator | OtherRole str

definition role_as_str :: "SwarmRole \<Rightarrow> str" where
  "role_as_str r =
     (case r of Agent \<Rightarrow> ''agent'' | Coordinator \<Rightarrow> ''coordinator'' | OtherRole v \<Rightarrow> v)"

definition role_from :: "str \<Rightarrow> SwarmRole" where
  "role_from v =
     (if v = ''agent'' then Agent else if v = ''coordinator'' then Coordinator else OtherRole v)"

datatype SwarmLifecycleStatus =
    Spawned | Ready | Running | RunningStale | Completed | Done | Failed | Stopped | Crashed
  | Queued | Blocked | Pending | Todo | OtherStatus str

definition lifecycle_as_str :: "SwarmLifecycleStatus \<Rightarrow> str" where
  "lifecycle_as_str s =
     (case s of
        Spawned \<Rightarrow> ''spawned'' | Ready \<Rightarrow> ''ready'' | Running \<Rightarrow> ''running''
      | RunningStale \<Rightarrow> ''running_stale'' | Completed \<Rightarrow> ''completed'' | Done \<Rightarrow> ''done''
      | Failed \<Rightarrow> ''failed'' | Stopped \<Rightarrow> ''stopped'' | Crashed \<Rightarrow> ''crashed''
      | Queued \<Rightarrow> ''queued'' | Blocked \<Rightarrow> ''blocked'' | Pending \<Rightarrow> ''pending'' | Todo \<Rightarrow> ''todo''
      | OtherStatus v \<Rightarrow> v)"

definition lifecycle_from :: "str \<Rightarrow> SwarmLifecycleStatus" where
  "lifecycle_from v =
     (if v = ''spawned'' then Spawned else if v = ''ready'' then Ready
      else if v = ''running'' then Running else if v = ''running_stale'' then RunningStale
      else if v = ''completed'' then Completed else if v = ''done'' then Done
      else if v = ''failed'' then Failed else if v = ''stopped'' then Stopped
      else if v = ''crashed'' then Crashed else if v = ''queued'' then Queued
      else if v = ''blocked'' then Blocked else if v = ''pending'' then Pending
      else if v = ''todo'' then Todo else OtherStatus v)"

record SwarmMemberRecord =
  member_session_id :: str
  member_working_dir :: "str option"
  member_swarm_id :: "str option"
  member_swarm_enabled :: bool
  member_status :: SwarmLifecycleStatus
  member_detail :: "str option"
  member_task_label :: "str option"
  member_friendly_name :: "str option"
  member_report_back_to_session_id :: "str option"
  member_latest_completion_report :: "str option"
  member_role :: SwarmRole
  member_is_headless :: bool

section \<open>Instruction blocks\<close>

text \<open>The common opening: the message without trailing whitespace, a blank line unless it is
  empty, the opening tag and the marker.\<close>

definition open_reminder :: "str \<Rightarrow> str \<Rightarrow> str" where
  "open_reminder message marker =
     (let out = trim_end message
      in (if out = [] then out else out @ nl @ nl) @ ''<system-reminder>'' @ nl @ marker)"

definition completion_report_instructions :: str where
  \<open>completion_report_instructions =
     nl @ ''Before finishing, call the swarm tool with action="report" to submit your ''
     @ ''completion report. Include a concise message, validation/tests performed, and ''
     @ ''blockers or follow-ups. After the report tool succeeds, also write a brief ''
     @ ''final assistant response. Do not finish with only tool output, a lifecycle ''
     @ ''status change, or no final response. Do not send a separate DM for the final ''
     @ ''report unless you need interactive coordination before finishing.'' @ nl\<close>

definition append_swarm_completion_report_instructions :: "str \<Rightarrow> str" where
  "append_swarm_completion_report_instructions message =
     (if contains_str message SWARM_COMPLETION_REPORT_MARKER then message
      else open_reminder message SWARM_COMPLETION_REPORT_MARKER
        @ completion_report_instructions @ ''</system-reminder>'')"

definition bounded_node_instructions :: "str \<Rightarrow> str" where
  \<open>bounded_node_instructions nid =
     nl @ ''You are executing node '' @ [CHR 0x27] @ nid @ [CHR 0x27]
     @ '' of a deep task graph. The planner explicitly marked this node as bounded and ''
     @ ''non-expandable. Do NOT call expand_node, even if the node contains multiple ''
     @ ''concerns. Execute the assigned scope atomically, then call the swarm tool ''
     @ ''with action="complete_node", node_id="'' @ nid
     @ ''", and a typed artifact containing findings, evidence (file:line refs), ''
     @ ''validation, open_questions, a REQUIRED confidence (low, medium, or high), and ''
     @ ''an honest what_i_did_not_check list. A turn that ends without complete_node ''
     @ ''gets re-queued and may fail.'' @ nl\<close>

definition deep_node_instructions :: "str \<Rightarrow> str" where
  \<open>deep_node_instructions nid =
     nl @ ''You are executing node '' @ [CHR 0x27] @ nid @ [CHR 0x27]
     @ '' of a deep task graph with a configurable parallel agent budget (32 live ''
     @ ''workers by default, with a hard maximum of '' @ show_nat MAX_SWARM_MEMBERS
     @ ''; use available parallelism deliberately, but do not spawn redundant agents). ''
     @ ''Choose one of exactly two finishes for this node:'' @ nl
     @ ''1. Decompose for parallelism: if this node contains more than one ''
     @ ''independently checkable concern, do NOT work through it serially. Call the ''
     @ ''swarm tool with action="expand_node", node_id="'' @ nid
     @ ''", and MANY independent children (add depends_on edges only for real data ''
     @ ''dependencies, so the ready set stays wide). Then finish your turn; the ''
     @ ''children fan out to parallel agents and you will be re-woken to synthesize ''
     @ ''their results.'' @ nl
     @ ''2. Execute atomically: do the work, then call the swarm tool with ''
     @ ''action="complete_node", node_id="'' @ nid
     @ ''", and a typed artifact: findings, evidence (file:line refs), validation, ''
     @ ''open_questions, a REQUIRED confidence (low, medium, or high; report low ''
     @ ''honestly, it routes follow-up work to shore up your scope instead of counting ''
     @ ''against you), and an honest what_i_did_not_check (the critique gate turns ''
     @ ''those into new nodes, so listing them is how coverage grows).'' @ nl
     @ ''These are the ONLY two ways this node can close: a turn that ends without ''
     @ ''expand_node or complete_node gets the node re-queued to a fresh agent, and a ''
     @ ''repeat fails it.'' @ nl\<close>

definition append_deep_node_instructions :: "str \<Rightarrow> str \<Rightarrow> str" where
  "append_deep_node_instructions message nid =
     (if contains_str message SWARM_DEEP_NODE_MARKER then message
      else open_reminder message SWARM_DEEP_NODE_MARKER
        @ (if contains_str (to_ascii_lowercase message) ''do not expand this node''
           then bounded_node_instructions nid else deep_node_instructions nid)
        @ ''</system-reminder>'')"

definition gate_instructions :: "str \<Rightarrow> str" where
  \<open>gate_instructions gid =
     nl @ ''You are executing critique/verify gate '' @ [CHR 0x27] @ gid @ [CHR 0x27]
     @ '' of a deep task graph. Your job is to find gaps, not to pass work through. ''
     @ ''Read every audited artifact, especially each what_i_did_not_check list, and ''
     @ ''probe them. Finish in one of exactly two ways:'' @ nl
     @ ''1. Gaps or failures found: call the swarm tool with action="inject_gap", ''
     @ ''gate_id="'' @ gid
     @ ''", and one new node per gap (they run in parallel and you re-run afterwards). ''
     @ ''The parent cannot close until they drain, so be thorough now. Injecting nodes ''
     @ ''is SUCCESS for a gate, not failure: a growing graph is the system working.'' @ nl
     @ ''2. Genuinely clean: call the swarm tool with action="complete_node", node_id="''
     @ gid @ ''", and an artifact whose findings account for EVERY node you audited BY ID ''
     @ ''with what you checked and why no gaps remain. The server rejects a pass whose ''
     @ ''findings/open_questions do not name each audited node id.'' @ nl\<close>

definition audit_scope_line :: "str list \<Rightarrow> str" where
  \<open>audit_scope_line audited_ids =
     ''AUDIT SCOPE: you are auditing node(s) ['' @ join '', '' audited_ids
     @ '']. A passing artifact must address each of these ids explicitly.'' @ nl\<close>

definition priority_line :: "str list \<Rightarrow> str" where
  \<open>priority_line low_confidence_siblings =
     ''PRIORITY: sibling node(s) ['' @ join '', '' low_confidence_siblings
     @ ''] completed with LOW confidence. The server will REJECT your pass unless you ''
     @ ''either inject follow-up nodes that shore up that work, or name each of those ''
     @ ''ids in your artifact findings with why the low confidence is acceptable. ''
     @ ''Injecting follow-ups adds breadth but does not erase the record: when you ''
     @ ''re-run after they drain, your passing artifact must STILL name each ''
     @ ''low-confidence id (e.g. '' @ [CHR 0x27] @ ''X was shored up by Y'' @ [CHR 0x27]
     @ '').'' @ nl\<close>

definition append_deep_gate_instructions :: "str \<Rightarrow> str \<Rightarrow> str list \<Rightarrow> str list \<Rightarrow> str" where
  "append_deep_gate_instructions message gid audited_ids low_confidence_siblings =
     (if contains_str message SWARM_DEEP_NODE_MARKER then message
      else open_reminder message SWARM_DEEP_NODE_MARKER @ gate_instructions gid
        @ (if audited_ids = [] then [] else audit_scope_line audited_ids)
        @ (if low_confidence_siblings = [] then [] else priority_line low_confidence_siblings)
        @ ''Do not pass the gate without doing one of these.'' @ nl @ ''</system-reminder>'')"

section \<open>Completion reports\<close>

text \<open>One optional section of a report: dropped when blank, set off by a blank line otherwise.\<close>

definition push_report_section :: "str \<Rightarrow> str option \<Rightarrow> str \<Rightarrow> str" where
  "push_report_section heading value report =
     (case map_option trim value of
        None \<Rightarrow> report
      | Some v \<Rightarrow> if v = [] then report
          else (if report = [] then report else report @ nl @ nl) @ heading @ nl @ v)"

definition format_structured_completion_report :: "str \<Rightarrow> str option \<Rightarrow> str option \<Rightarrow> str" where
  "format_structured_completion_report message checked follow_up =
     push_report_section ''Follow-ups/blockers:'' follow_up
       (push_report_section ''Validation:'' checked (trim message))"

definition report_suffix :: str where
  "report_suffix = nl @ nl @ ''[Report truncated by jcode before delivery.]''"

definition normalize_completion_report :: "str option \<Rightarrow> str option" where
  "normalize_completion_report report =
     (case map_option trim report of
        None \<Rightarrow> None
      | Some r \<Rightarrow>
          if r = [] then None
          else if char_count r \<le> MAX_SWARM_COMPLETION_REPORT_CHARS then Some r
          else Some (take_chars (MAX_SWARM_COMPLETION_REPORT_CHARS - char_count report_suffix) r
            @ report_suffix))"

definition completion_status_intro :: "str \<Rightarrow> str \<Rightarrow> str" where
  "completion_status_intro name status =
     ''Agent '' @ name @
     (if status = ''ready'' then '' finished their work and is ready for more.''
      else if status = ''failed'' then '' finished with status failed.''
      else if status = ''stopped'' then '' stopped.''
      else if status = ''crashed'' then '' crashed while working.''
      else '' completed their work.'')"

definition completion_followup :: "str \<Rightarrow> bool \<Rightarrow> str" where
  "completion_followup status has_report =
     (if status = ''ready'' then
        (if has_report then ''Use assign_task to give them more work, stop to remove them, or ''
             @ ''summary/read_context for full context.''
         else ''Use summary/read_context to inspect results, assign_task for more work, or ''
             @ ''stop to remove them.'')
      else if status = ''failed'' then
        (if has_report then ''Use summary/read_context for full context, retry with guidance, or stop to ''
             @ ''remove them.''
         else ''Use summary/read_context to inspect results, assign_task to retry with ''
             @ ''guidance, or stop to remove them.'')
      else if status = ''stopped'' then
        ''Use summary/read_context to inspect results or stop to remove them.''
      else if status = ''crashed'' then
        ''Any swarm task assignments they held are requeued automatically where ''
         @ ''possible. Check plan_status, and spawn a replacement or use retry/assign_task ''
         @ ''if work remains.''
      else if has_report then
        ''Use assign_task to give them new work, stop to remove them, or ''
         @ ''summary/read_context for full context.''
      else ''Use assign_task to give them new work, or stop to remove them.'')"

definition completion_notification_message :: "str \<Rightarrow> str \<Rightarrow> str option \<Rightarrow> str" where
  "completion_notification_message name status report =
     (let intro = completion_status_intro name status;
          followup = completion_followup status (report \<noteq> None)
      in case report of
           Some r \<Rightarrow> intro @ nl @ nl @ ''Report:'' @ nl @ r @ nl @ nl @ followup
         | None \<Rightarrow> intro @ nl @ nl @ ''No final textual report was produced. '' @ followup)"

section \<open>Truncation\<close>

definition truncate_detail :: "str \<Rightarrow> nat \<Rightarrow> str" where
  "truncate_detail body max_len =
     (let trimmed = trim (collapse_whitespace body); m = max max_len 1
      in if char_count trimmed \<le> m then trimmed
         else if m \<le> 3 then take_chars m trimmed
         else take_chars (m - 3) trimmed @ ''...'')"

definition summarize_plan_items :: "PlanItem list \<Rightarrow> nat \<Rightarrow> str" where
  "summarize_plan_items its max_items =
     (if its = [] then ''no items''
      else join ''; '' (map item_content (take (max max_items 1) its))
        @ (if length its > max max_items 1
           then '' (+'' @ show_nat (length its - max max_items 1) @ '' more)'' else []))"

section \<open>Lemmas\<close>

lemma ellipsis_valid: "utf8_valid ellipsis" "char_count ellipsis = 1" "nl \<noteq> ellipsis"
  by code_simp+

lemma report_suffix_valid: "utf8_valid report_suffix" "char_count report_suffix = 46"
  by code_simp+

lemma normalized_tldr_Some:
  "normalized_tldr tldr = Some t \<longleftrightarrow> (\<exists>raw. tldr = Some raw \<and> t = collapse_whitespace raw \<and> t \<noteq> [])"
  by (auto simp: normalized_tldr_def split: option.split)

lemma open_reminder_prefix: "prefix (trim_end message) (open_reminder message marker)"
  by (auto simp: open_reminder_def Let_def)

lemma open_reminder_marker: "contains_str (open_reminder message marker @ rest) marker"
proof -
  have "open_reminder message marker @ rest =
      ((let out = trim_end message in if out = [] then out else out @ nl @ nl)
        @ ''<system-reminder>'' @ nl) @ marker @ rest"
    by (simp add: open_reminder_def Let_def)
  then show ?thesis unfolding contains_str_sublist by (metis sublist_appendI)
qed

lemma contains_deep_node:
  "contains_str (append_deep_node_instructions message nid) SWARM_DEEP_NODE_MARKER"
  by (simp add: append_deep_node_instructions_def open_reminder_marker)

lemma contains_deep_gate:
  "contains_str (append_deep_gate_instructions message gid ids low) SWARM_DEEP_NODE_MARKER"
  by (simp add: append_deep_gate_instructions_def open_reminder_marker)

lemma contains_report:
  "contains_str (append_swarm_completion_report_instructions message) SWARM_COMPLETION_REPORT_MARKER"
  by (simp add: append_swarm_completion_report_instructions_def open_reminder_marker)

lemma sublist_mid: "sublist x b \<Longrightarrow> sublist x (a @ b @ c)"
  by (auto simp: sublist_append)

lemma gate_names_audited:
  assumes "\<not> contains_str message SWARM_DEEP_NODE_MARKER" and "i \<in> set ids \<union> set low"
  shows "contains_str (append_deep_gate_instructions message gid ids low) i"
proof -
  have a: "sublist i (audit_scope_line ids)" if "i \<in> set ids"
    unfolding audit_scope_line_def by (intro sublist_mid join_sublist that)
  have p: "sublist i (priority_line low)" if "i \<in> set low"
    unfolding priority_line_def by (intro sublist_mid join_sublist that)
  from assms(2) consider "i \<in> set ids" | "i \<in> set low" by auto
  then show ?thesis
  proof cases
    case 1
    then show ?thesis using a assms(1)
      by (auto simp: append_deep_gate_instructions_def contains_str_sublist sublist_append)
  next
    case 2
    then show ?thesis using p assms(1)
      by (auto simp: append_deep_gate_instructions_def contains_str_sublist sublist_append)
  qed
qed

section \<open>Properties\<close>

text \<open>
  Supplement: when a summary is accepted, rejected or not needed. A usable summary (one with a character
  that is not whitespace) is accepted exactly when its collapsed form has at most 200 characters,
  and that form is what is returned; without one, a body of up to 240 characters needs none and a
  longer one is an error. An accepted summary is one line.
\<close>

theorem swarm_tldr_validation:
  assumes "\<And>raw. tldr = Some raw \<Longrightarrow> utf8_valid raw"
  shows "(validate_swarm_tldr tldr body ctx = Inr (Some t) \<longleftrightarrow>
      (\<exists>raw. tldr = Some raw \<and> (\<exists>c \<in> set (chars raw). \<not> is_whitespace c)
        \<and> t = collapse_whitespace raw \<and> char_count t \<le> 200))
    \<and> (validate_swarm_tldr tldr body ctx = Inr None \<longleftrightarrow>
      (\<forall>raw. tldr = Some raw \<longrightarrow> (\<forall>c \<in> set (chars raw). is_whitespace c)) \<and> char_count body \<le> 240)
    \<and> (isl (validate_swarm_tldr tldr body ctx) \<longleftrightarrow>
      (case normalized_tldr tldr of Some u \<Rightarrow> 200 < char_count u | None \<Rightarrow> 240 < char_count body))
    \<and> (validate_swarm_tldr tldr body ctx = Inr (Some t) \<longrightarrow>
        (\<forall>c \<in> set t. ascii_ws (byte c) \<longrightarrow> c = CHR '' ''))"
proof (cases tldr)
  case None
  then show ?thesis by (simp add: validate_swarm_tldr_def normalized_tldr_def swarm_limits)
next
  case (Some raw)
  have e: "collapse_whitespace raw = [] \<longleftrightarrow> (\<forall>c \<in> set (chars raw). is_whitespace c)"
    using collapse_Nil_iff assms [OF Some] .
  note one = collapse_one_line [OF assms [OF Some]]
  show ?thesis
  proof (cases "collapse_whitespace raw = []")
    case True
    with Some e show ?thesis by (simp add: validate_swarm_tldr_def normalized_tldr_def swarm_limits)
  next
    case False
    then have "\<exists>c \<in> set (chars raw). \<not> is_whitespace c" using e by blast
    with False Some one show ?thesis
      by (auto simp: validate_swarm_tldr_def normalized_tldr_def swarm_limits)
  qed
qed

theorem swarm_tldr_validation_witness:
  "validate_swarm_tldr (Some ('' all'' @ nl @ ''done '')) [] ''report'' = Inr (Some ''all done'')"
proof -
  have "\<exists>c \<in> set (chars ('' all'' @ nl @ ''done '')). \<not> is_whitespace c"
    "collapse_whitespace ('' all'' @ nl @ ''done '') = ''all done''" "char_count ''all done'' \<le> 200"
    by code_simp+
  moreover have "utf8_valid ('' all'' @ nl @ ''done '')" by code_simp
  ultimately show ?thesis
    using swarm_tldr_validation [where tldr = "Some ('' all'' @ nl @ ''done '')" and body = "[]"
        and ctx = "''report''" and t = "''all done''"]
    by auto
qed

definition label_source :: "str \<Rightarrow> str option" where
  "label_source body =
     map_option (\<lambda>l. trim (trim_end_matches CHR '':'' (trim_start_matches ''#-*> '' l)))
       (find (\<lambda>l. l \<noteq> []) (map trim (str_lines body)))"

lemma label_source_valid:
  assumes "utf8_valid body" and "label_source body = Some l"
  shows "utf8_valid l"
proof -
  from assms(2) obtain k where k: "find (\<lambda>l. l \<noteq> []) (map trim (str_lines body)) = Some k"
    and l: "l = trim (trim_end_matches CHR '':'' (trim_start_matches ''#-*> '' k))"
    by (auto simp: label_source_def)
  from find_eq_Some_mem [OF k] have "utf8_valid k"
    using str_lines_valid [OF assms(1)] by (auto simp: list_all_iff intro: trim_valid)
  then have "utf8_valid (trim_start_matches ''#-*> '' k)"
    by (intro trim_start_matches_valid) simp_all
  then show ?thesis unfolding l by (intro trim_valid trim_end_matches_valid) simp_all
qed

lemma derive_label_eq:
  "derive_swarm_task_label body =
     (case map_option collapse_whitespace (label_source body) of
        None \<Rightarrow> None
      | Some c \<Rightarrow> if c = [] then None else if char_count c \<le> 48 then Some c
          else Some (trim_end (take_chars 47 c) @ ellipsis))"
  by (auto simp: derive_swarm_task_label_def label_source_def Let_def swarm_limits split: option.split)

text \<open>
  Supplement: a task label is a non-empty line of at most 48 characters, never cut inside a character; the
  label of a text is missing exactly when the text is blank or its first non-blank line consists of
  list and heading marks only.
\<close>

theorem task_label_bounded:
  assumes "utf8_valid body"
  shows "(\<forall>l. derive_swarm_task_label body = Some l \<longrightarrow>
      l \<noteq> [] \<and> utf8_valid l \<and> char_count l \<le> 48
      \<and> (\<forall>c \<in> set l. ascii_ws (byte c) \<longrightarrow> c = CHR '' ''))
    \<and> (derive_swarm_task_label body = None \<longleftrightarrow>
      (\<forall>l. label_source body = Some l \<longrightarrow> (\<forall>c \<in> set (chars l). is_whitespace c)))"
proof (cases "label_source body")
  case None
  then show ?thesis by (simp add: derive_label_eq)
next
  case (Some l)
  let ?c = "collapse_whitespace l"
  have v: "utf8_valid l" "utf8_valid ?c"
    using label_source_valid [OF assms Some] by (auto intro: collapse_valid)
  have e: "?c = [] \<longleftrightarrow> (\<forall>c \<in> set (chars l). is_whitespace c)" using collapse_Nil_iff [OF v(1)] .
  let ?t = "trim_end (take_chars 47 ?c)"
  have t: "utf8_valid ?t" "prefix ?t (take_chars 47 ?c)"
    using trim_end_valid [OF utf8_valid_take_chars [OF v(2)]] by auto
  have "char_count ?t \<le> 47"
    using char_count_prefix [OF t] char_count_take_chars [OF v(2), of 47] by simp
  then have long: "char_count (?t @ ellipsis) \<le> 48" "utf8_valid (?t @ ellipsis)"
    using t(1) by (simp_all add: char_count_append utf8_valid_append ellipsis_valid)
  have "set ?t \<subseteq> set ?c"
    using t(2) take_chars_prefix [of 47 ?c] by (meson prefix_order.trans set_mono_prefix)
  then have "\<forall>c \<in> set (?t @ ellipsis). ascii_ws (byte c) \<longrightarrow> c = CHR '' ''"
    using collapse_one_line [OF v(1)] by (auto simp: ellipsis_def ascii_ws_def)
  with long v(2) collapse_one_line [OF v(1)] e Some show ?thesis
    by (auto simp: derive_label_eq ellipsis_def)
qed

theorem task_label_bounded_witness:
  "derive_swarm_task_label (nl @ ''## Fix  the parser:'' @ nl @ ''details'') = Some ''Fix the parser''
    \<and> char_count ''Fix the parser'' \<le> 48"
proof -
  have "utf8_valid (nl @ ''## Fix  the parser:'' @ nl @ ''details'')" by code_simp
  note task_label_bounded [OF this]
  moreover have "derive_swarm_task_label (nl @ ''## Fix  the parser:'' @ nl @ ''details'') =
      Some ''Fix the parser''" by code_simp
  ultimately show ?thesis by blast
qed

text \<open>A text with content below a rule or a bare heading mark has no label at all.\<close>

lemma label_lost_after_rule: "derive_swarm_task_label (''---'' @ nl @ ''Fix the parser'') = None"
  by code_simp

lemma take_chars_nonempty: "0 < n \<Longrightarrow> s \<noteq> [] \<Longrightarrow> take_chars n s \<noteq> []"
  by (cases s; cases n) (simp_all add: take_chars_def)

lemma report_suffix_end:
  assumes "utf8_valid a" and "a \<noteq> []" and "ws_width a = 0"
  shows "trim (a @ report_suffix) = a @ report_suffix"
proof -
  have "ws_width (a @ report_suffix) = 0" using assms by (simp add: ws_width_append)
  moreover have "ws_width_back (rev (a @ report_suffix)) = 0"
    by (simp add: report_suffix_def ws_width_plain)
  ultimately show ?thesis by (simp add: trim_def trim_start_id trim_end_id)
qed

lemma normalize_cases:
  assumes "utf8_valid r" and "normalize_completion_report (Some r) = Some q"
  shows "q \<noteq> [] \<and> utf8_valid q \<and> char_count q \<le> 4000 \<and> trim q = q"
proof -
  let ?t = "trim r" and ?k = "take_chars 3954 (trim r)"
  have v: "utf8_valid ?t" using assms(1) by (rule trim_valid)
  have ne: "?t \<noteq> []" using assms(2) by (auto simp: normalize_completion_report_def)
  show ?thesis
  proof (cases "char_count ?t \<le> 4000")
    case True
    with assms(2) ne v show ?thesis
      by (simp add: normalize_completion_report_def swarm_limits, metis trim_idem)
  next
    case False
    with assms(2) ne have q: "q = ?k @ report_suffix"
      by (simp add: normalize_completion_report_def swarm_limits report_suffix_valid)
    have kv: "utf8_valid ?k" "?k \<noteq> []" using utf8_valid_take_chars [OF v] take_chars_nonempty [OF _ ne] by simp_all
    have "ws_width ?k = 0" using ws_width_mono [OF take_chars_prefix] ws_width_trim by fastforce
    moreover have "char_count ?k \<le> 3954" using char_count_take_chars [OF v] by simp
    ultimately show ?thesis unfolding q using kv
      by (simp add: report_suffix_end char_count_append utf8_valid_append report_suffix_valid)
  qed
qed

text \<open>
  Supplement: limits on delivered text. On valid text, a truncated detail has at most the requested number
  of characters (at least one); a normalised completion report is missing exactly when the report is
  blank, has at most 4000 characters, is the trimmed report whenever that fits, and normalising it
  again changes nothing. No result is cut inside a character.
\<close>

theorem swarm_text_limits:
  assumes "utf8_valid r"
  shows "char_count (truncate_detail r n) \<le> max n 1 \<and> utf8_valid (truncate_detail r n)
    \<and> (normalize_completion_report (Some r) = None \<longleftrightarrow> trim r = [])
    \<and> (trim r \<noteq> [] \<and> char_count (trim r) \<le> 4000 \<longrightarrow>
        normalize_completion_report (Some r) = Some (trim r))
    \<and> (\<forall>q. normalize_completion_report (Some r) = Some q \<longrightarrow>
        q \<noteq> [] \<and> utf8_valid q \<and> char_count q \<le> 4000 \<and> normalize_completion_report (Some q) = Some q)"
proof -
  let ?t = "trim (collapse_whitespace r)"
  have v: "utf8_valid ?t" using assms by (intro trim_valid collapse_valid)
  have dots: "utf8_valid ''...''" "char_count ''...'' = 3" by code_simp+
  have "utf8_valid (truncate_detail r n)"
    using v dots utf8_valid_take_chars [OF v]
    by (simp add: truncate_detail_def Let_def utf8_valid_append del: utf8_valid.simps)
  moreover have "char_count (truncate_detail r n) \<le> max n 1"
    using utf8_valid_take_chars [OF v] dots(2)
    by (auto simp: truncate_detail_def Let_def char_count_append char_count_take_chars [OF v])
  moreover have "\<forall>q. normalize_completion_report (Some r) = Some q \<longrightarrow>
      q \<noteq> [] \<and> utf8_valid q \<and> char_count q \<le> 4000 \<and> normalize_completion_report (Some q) = Some q"
  proof (intro allI impI)
    fix q assume "normalize_completion_report (Some r) = Some q"
    note q = normalize_cases [OF assms this]
    then have "normalize_completion_report (Some q) = Some q"
      by (simp add: normalize_completion_report_def swarm_limits)
    with q show "q \<noteq> [] \<and> utf8_valid q \<and> char_count q \<le> 4000 \<and>
      normalize_completion_report (Some q) = Some q" by blast
  qed
  moreover have "normalize_completion_report (Some r) = None \<longleftrightarrow> trim r = []"
    by (simp add: normalize_completion_report_def)
  moreover have "trim r \<noteq> [] \<and> char_count (trim r) \<le> 4000 \<longrightarrow>
      normalize_completion_report (Some r) = Some (trim r)"
    by (simp add: normalize_completion_report_def swarm_limits)
  ultimately show ?thesis by (intro conjI)
qed


theorem swarm_text_limits_witness:
  "char_count (truncate_detail ''one  two three'' 8) \<le> 8
    \<and> truncate_detail ''one  two three'' 8 = ''one t...''
    \<and> normalize_completion_report (Some '' done '') = Some ''done''"
proof -
  have v: "utf8_valid ''one  two three''" "utf8_valid '' done ''" by code_simp+
  have t: "trim '' done '' = ''done''" "char_count ''done'' \<le> 4000" by code_simp+
  have "char_count (truncate_detail ''one  two three'' 8) \<le> max 8 1"
    using swarm_text_limits [OF v(1), of 8] by (elim conjE)
  moreover have "trim '' done '' \<noteq> [] \<and> char_count (trim '' done '') \<le> 4000 \<longrightarrow>
      normalize_completion_report (Some '' done '') = Some (trim '' done '')"
    using swarm_text_limits [OF v(2), of 0] by (elim conjE)
  moreover have "truncate_detail ''one  two three'' 8 = ''one t...''" by code_simp
  ultimately show ?thesis using t by simp
qed

text \<open>
  Supplement: the instruction blocks are added once. Each of the three routines keeps the message (up to
  trailing whitespace) in front, leaves its marker behind and returns a message that has the marker
  unchanged, so applying it again, or applying the gate block after the node block and conversely,
  adds nothing; and the gate block names every audited and every low-confidence node id.
\<close>

theorem instructions_added_once:
  "append_swarm_completion_report_instructions (append_swarm_completion_report_instructions m) =
      append_swarm_completion_report_instructions m
    \<and> append_deep_node_instructions (append_deep_node_instructions m n) n' =
        append_deep_node_instructions m n
    \<and> append_deep_gate_instructions (append_deep_node_instructions m n) g ids low =
        append_deep_node_instructions m n
    \<and> append_deep_node_instructions (append_deep_gate_instructions m g ids low) n =
        append_deep_gate_instructions m g ids low
    \<and> prefix (trim_end m) (append_swarm_completion_report_instructions m)
    \<and> prefix (trim_end m) (append_deep_node_instructions m n)
    \<and> prefix (trim_end m) (append_deep_gate_instructions m g ids low)
    \<and> contains_str (append_swarm_completion_report_instructions m) SWARM_COMPLETION_REPORT_MARKER
    \<and> contains_str (append_deep_node_instructions m n) SWARM_DEEP_NODE_MARKER
    \<and> (\<not> contains_str m SWARM_DEEP_NODE_MARKER \<longrightarrow>
        (\<forall>i \<in> set ids \<union> set low. contains_str (append_deep_gate_instructions m g ids low) i))"
proof -
  have keep: "prefix (trim_end m) m" by (rule trim_end_prefix)
  have "append_swarm_completion_report_instructions (append_swarm_completion_report_instructions m) =
      append_swarm_completion_report_instructions m"
    by (subst append_swarm_completion_report_instructions_def) (simp add: contains_report)
  moreover have "append_deep_node_instructions (append_deep_node_instructions m n) n' =
      append_deep_node_instructions m n"
    by (subst append_deep_node_instructions_def) (simp add: contains_deep_node)
  moreover have "append_deep_gate_instructions (append_deep_node_instructions m n) g ids low =
      append_deep_node_instructions m n"
    by (subst append_deep_gate_instructions_def) (simp add: contains_deep_node)
  moreover have "append_deep_node_instructions (append_deep_gate_instructions m g ids low) n =
      append_deep_gate_instructions m g ids low"
    by (subst append_deep_node_instructions_def) (simp add: contains_deep_gate)
  moreover have "prefix (trim_end m) (append_swarm_completion_report_instructions m)"
    using keep open_reminder_prefix
    by (simp add: append_swarm_completion_report_instructions_def prefix_prefix)
  moreover have "prefix (trim_end m) (append_deep_node_instructions m n)"
    using keep open_reminder_prefix by (simp add: append_deep_node_instructions_def prefix_prefix)
  moreover have "prefix (trim_end m) (append_deep_gate_instructions m g ids low)"
    using keep open_reminder_prefix by (simp add: append_deep_gate_instructions_def prefix_prefix)
  ultimately show ?thesis
    using contains_report contains_deep_node gate_names_audited by simp
qed

theorem instructions_added_once_witness:
  "contains_str (append_deep_gate_instructions ''audit'' ''g'' [''a'', ''b''] [''b'']) ''a''
    \<and> append_deep_node_instructions (append_deep_node_instructions ''audit'' ''n'') ''n'' =
        append_deep_node_instructions ''audit'' ''n''"
proof -
  note once = instructions_added_once [where m = "''audit''" and g = "''g''" and ids = "[''a'', ''b'']"
      and low = "[''b'']" and n = "''n''" and n' = "''n''"]
  have "\<not> contains_str ''audit'' SWARM_DEEP_NODE_MARKER" by code_simp
  moreover have "\<not> contains_str ''audit'' SWARM_DEEP_NODE_MARKER \<longrightarrow>
      (\<forall>i \<in> set [''a'', ''b''] \<union> set [''b''].
        contains_str (append_deep_gate_instructions ''audit'' ''g'' [''a'', ''b''] [''b'']) i)"
    using once by (elim conjE)
  moreover have "append_deep_node_instructions (append_deep_node_instructions ''audit'' ''n'') ''n'' =
        append_deep_node_instructions ''audit'' ''n''"
    using once by (elim conjE)
  ultimately show ?thesis by simp
qed

text \<open>
  Supplement: roles and lifecycle statuses survive serialisation. Printing what was parsed gives the text
  back for every text, and parsing what was printed gives the value back for every value that does
  not hide a reserved word in the catch-all constructor.
\<close>

theorem swarm_labels_roundtrip:
  "role_as_str (role_from v) = v \<and> lifecycle_as_str (lifecycle_from v) = v
    \<and> (role_from (role_as_str r) = r \<longleftrightarrow> r \<notin> OtherRole ` {''agent'', ''coordinator''})
    \<and> (lifecycle_from (lifecycle_as_str s) = s \<longleftrightarrow> s \<notin> OtherStatus ` lifecycle_as_str `
        {Spawned, Ready, Running, RunningStale, Completed, Done, Failed, Stopped, Crashed, Queued,
         Blocked, Pending, Todo})"
proof -
  have "role_as_str (role_from v) = v" by (simp add: role_as_str_def role_from_def)
  moreover have "lifecycle_as_str (lifecycle_from v) = v"
    by (simp add: lifecycle_as_str_def lifecycle_from_def)
  moreover have "role_from (role_as_str r) = r \<longleftrightarrow> r \<notin> OtherRole ` {''agent'', ''coordinator''}"
    by (cases r) (auto simp: role_as_str_def role_from_def)
  moreover have "lifecycle_from (lifecycle_as_str s) = s \<longleftrightarrow> s \<notin> OtherStatus ` lifecycle_as_str `
        {Spawned, Ready, Running, RunningStale, Completed, Done, Failed, Stopped, Crashed, Queued,
         Blocked, Pending, Todo}"
    by (cases s) (simp_all add: lifecycle_as_str_def lifecycle_from_def image_iff)
  ultimately show ?thesis by simp
qed

end
