(* ===== verification/Message_Types.thy ===== *)
theory Message_Types
  imports Rust_Chars Rust_F64 "HOL-Library.Word"
begin

unbundle bit_operations_syntax

text \<open>
  Conversation messages (\<^verbatim>\<open>src/crates/jcode-message-types/src/lib.rs\<close>): roles, content blocks,
  messages and tool calls, the injection of timestamps and of dynamic system context, the test for
  a fresh user turn, the stable message hash, the cache projection and the sanitising of tool ids.
  A \<open>serde_json::Value\<close> is a tree with the six constructors the code matches on; numbers stay
  opaque. A \<open>chrono\<close> instant is an integer, and what the code asks of \<open>chrono\<close> (rendering an
  instant, subtracting milliseconds) is an argument.
\<close>

section \<open>JSON values and tool calls\<close>

datatype json =
    JNull | JBool bool | JNumber str | JString str | JArray "json list" | JObject "(str \<times> json) list"

fun is_object :: "json \<Rightarrow> bool" where
  "is_object (JObject _) = True"
| "is_object _ = False"

fun as_str :: "json \<Rightarrow> str option" where
  "as_str (JString s) = Some s"
| "as_str _ = None"

fun json_get :: "str \<Rightarrow> json \<Rightarrow> json option" where
  "json_get k (JObject kvs) = map_of kvs k"
| "json_get k _ = None"

fun json_value_kind :: "json \<Rightarrow> str" where
  "json_value_kind JNull = ''null''"
| "json_value_kind (JBool _) = ''boolean''"
| "json_value_kind (JNumber _) = ''number''"
| "json_value_kind (JString _) = ''string''"
| "json_value_kind (JArray _) = ''array''"
| "json_value_kind (JObject _) = ''object''"

record ToolCall =
  call_id :: str
  call_name :: str
  call_input :: json
  call_intent :: "str option"
  call_thought_signature :: "str option"

definition normalize_input_to_object :: "json \<Rightarrow> json" where
  "normalize_input_to_object v = (if is_object v then v else JObject [])"

definition input_as_object :: "json \<Rightarrow> json" where
  "input_as_object v = normalize_input_to_object v"

text \<open>\<open>from_str\<close> is the JSON parser, \<open>None\<close> on a syntax error.\<close>

definition parse_streamed_input_to_object :: "(str \<Rightarrow> json option) \<Rightarrow> str \<Rightarrow> json" where
  "parse_streamed_input_to_object from_str input =
     (let trimmed = trim input in
      if trimmed = [] then JObject []
      else case from_str trimmed of
             Some v \<Rightarrow> normalize_input_to_object v
           | None \<Rightarrow> JNull)"

definition validation_error :: "ToolCall \<Rightarrow> str option" where
  "validation_error c =
     (if trim (call_name c) = [] then Some ''Invalid tool call: tool name must not be empty.''
      else if \<not> is_object (call_input c) then
        Some (''Invalid tool call for '' @ [CHR 0x27] @ call_name c @ [CHR 0x27]
          @ '': arguments must be a JSON object, got '' @ json_value_kind (call_input c) @ ''.'')
      else None)"

definition intent_from_input :: "json \<Rightarrow> str option" where
  "intent_from_input v =
     (case Option.bind (json_get ''intent'' v) as_str of
        None \<Rightarrow> None
      | Some s \<Rightarrow> if trim s = [] then None else Some (trim s))"

definition refresh_intent_from_input :: "ToolCall \<Rightarrow> ToolCall" where
  "refresh_intent_from_input c = c\<lparr>call_intent := intent_from_input (call_input c)\<rparr>"

section \<open>Messages\<close>

datatype Role = User | Assistant

record CacheControl =
  cache_kind :: str
  cache_ttl :: "str option"

definition ephemeral :: "str option \<Rightarrow> CacheControl" where
  "ephemeral ttl = \<lparr>cache_kind = ''ephemeral'', cache_ttl = ttl\<rparr>"

datatype ContentBlock =
    Text str "CacheControl option"
  | Reasoning str
  | ReasoningTrace str
  | AnthropicThinking str str
  | OpenAIReasoning str "str list" "str option" "str option"
  | ToolUse str str json "str option"
  | ToolResult str str "bool option"
  | Image str str
  | OpenAICompaction str

type_synonym instant = int

record Message =
  msg_role :: Role
  msg_content :: "ContentBlock list"
  msg_timestamp :: "instant option"
  msg_duration :: "64 word option"

text \<open>The constructors read the clock; \<open>now\<close> is what it returns.\<close>

definition user :: "instant \<Rightarrow> str \<Rightarrow> Message" where
  "user now s = \<lparr>msg_role = User, msg_content = [Text s None], msg_timestamp = Some now,
     msg_duration = None\<rparr>"

definition user_with_images :: "instant \<Rightarrow> str \<Rightarrow> (str \<times> str) list \<Rightarrow> Message" where
  "user_with_images now s images =
     \<lparr>msg_role = User, msg_content = map (\<lambda>(m, d). Image m d) images @ [Text s None],
      msg_timestamp = Some now, msg_duration = None\<rparr>"

definition assistant_text :: "instant \<Rightarrow> str \<Rightarrow> Message" where
  "assistant_text now s = \<lparr>msg_role = Assistant, msg_content = [Text s None],
     msg_timestamp = Some now, msg_duration = None\<rparr>"

definition tool_result_with_duration :: "instant \<Rightarrow> str \<Rightarrow> str \<Rightarrow> bool \<Rightarrow> 64 word option \<Rightarrow> Message" where
  "tool_result_with_duration now tool_use_id content is_error duration =
     \<lparr>msg_role = User,
      msg_content = [ToolResult tool_use_id content (if is_error then Some True else None)],
      msg_timestamp = Some now, msg_duration = duration\<rparr>"

definition tool_result :: "instant \<Rightarrow> str \<Rightarrow> str \<Rightarrow> bool \<Rightarrow> Message" where
  "tool_result now tool_use_id content is_error =
     tool_result_with_duration now tool_use_id content is_error None"

section \<open>Timestamps\<close>

record chrono =
  format_timestamp :: "instant \<Rightarrow> str"
  checked_sub_ms :: "instant \<Rightarrow> int \<Rightarrow> instant option"

text \<open>\<open>{:.1}\<close> of a finite non-negative double: its exact value rounded to one decimal, ties to
  even.\<close>

definition show_tenths :: "rat \<Rightarrow> str" where
  "show_tenths q = (let n = nat (round_half_even (q * 10)) in show_nat (n div 10) @ ''.'' @ show_nat (n mod 10))"

definition show_f64_1 :: "f64 \<Rightarrow> str" where
  "show_f64_1 x = (case x of Fin q \<Rightarrow> show_tenths q | PInf \<Rightarrow> ''inf'' | NaN \<Rightarrow> ''NaN'')"

definition format_duration :: "64 word \<Rightarrow> str" where
  "format_duration d =
     (let ms = unat d in
      if ms \<le> 999 then show_nat ms @ ''ms''
      else if ms \<le> 9999 then
        show_f64_1 (f64_div (f64_round (of_nat ms)) (f64_round 1000)) @ ''s''
      else if ms \<le> 59999 then show_nat (ms div 1000) @ ''s''
      else let total = ms div 1000; minutes = total div 60; seconds = total mod 60
           in if seconds = 0 then show_nat minutes @ ''m''
              else show_nat minutes @ ''m '' @ show_nat seconds @ ''s'')"

fun first_text :: "ContentBlock list \<Rightarrow> str option" where
  "first_text [] = None"
| "first_text (Text s _ # bs) = Some (trim_start s)"
| "first_text (b # bs) = first_text bs"

definition is_internal_system_reminder :: "Message \<Rightarrow> bool" where
  "is_internal_system_reminder m =
     (case first_text (msg_content m) of None \<Rightarrow> False | Some s \<Rightarrow> prefix ''<system-reminder>'' s)"

definition tool_result_tag :: "chrono \<Rightarrow> Message \<Rightarrow> instant \<Rightarrow> str" where
  "tool_result_tag ch m ts =
     (case msg_duration m of
        Some d \<Rightarrow>
          (let ms = min (uint d) (2 ^ 63 - 1);
               start = (case checked_sub_ms ch ts ms of Some t \<Rightarrow> t | None \<Rightarrow> ts)
           in ''[tool timing: start='' @ format_timestamp ch start @ '' finish=''
              @ format_timestamp ch ts @ '' duration='' @ format_duration d @ '']'')
      | None \<Rightarrow> ''['' @ format_timestamp ch ts @ '']'')"

fun tag_first :: "str \<Rightarrow> str \<Rightarrow> ContentBlock list \<Rightarrow> ContentBlock list" where
  "tag_first tt rt [] = []"
| "tag_first tt rt (Text s c # bs) = Text (tt @ '' '' @ s) c # bs"
| "tag_first tt rt (ToolResult i s e # bs) = ToolResult i (rt @ '' '' @ s) e # bs"
| "tag_first tt rt (b # bs) = b # tag_first tt rt bs"

definition with_timestamp :: "chrono \<Rightarrow> Message \<Rightarrow> Message" where
  "with_timestamp ch m =
     (case msg_timestamp m of
        None \<Rightarrow> m
      | Some ts \<Rightarrow>
          if msg_role m \<noteq> User \<or> is_internal_system_reminder m then m
          else m\<lparr>msg_content := tag_first (''['' @ format_timestamp ch ts @ '']'')
                   (tool_result_tag ch m ts) (msg_content m)\<rparr>)"

definition with_timestamps :: "chrono \<Rightarrow> Message list \<Rightarrow> Message list" where
  "with_timestamps ch ms = map (with_timestamp ch) ms"

section \<open>Stable hashes\<close>

definition TOOL_OUTPUT_MISSING_TEXT :: str where
  "TOOL_OUTPUT_MISSING_TEXT =
     ''Tool output missing (session interrupted before tool execution completed)''"

definition STABLE_HASH_SEED :: "64 word" where
  "STABLE_HASH_SEED = 0xcbf29ce484222325"

definition STABLE_HASH_PRIME :: "64 word" where
  "STABLE_HASH_PRIME = 0x100000001b3"

definition hash_step :: "64 word \<Rightarrow> char \<Rightarrow> 64 word" where
  "hash_step h c = (h XOR of_nat (byte c)) * STABLE_HASH_PRIME"

definition stable_hash_bytes :: "str \<Rightarrow> 64 word" where
  "stable_hash_bytes bs = foldl hash_step STABLE_HASH_SEED bs"

definition to_le_bytes :: "64 word \<Rightarrow> str" where
  "to_le_bytes w = map (\<lambda>i. char_of (unat (drop_bit (8 * i) w))) [0..<8]"

definition extend_stable_hash :: "64 word \<Rightarrow> 64 word \<Rightarrow> 64 word" where
  "extend_stable_hash acc next_hash = stable_hash_bytes (to_le_bytes acc @ to_le_bytes next_hash)"

text \<open>\<open>to_vec\<close> is the JSON encoder (\<open>None\<close> when it fails) and \<open>debug\<close> the derived \<open>Debug\<close> text.\<close>

definition stable_message_hash :: "(Message \<Rightarrow> str option) \<Rightarrow> (Message \<Rightarrow> str) \<Rightarrow> Message \<Rightarrow> 64 word" where
  "stable_message_hash to_vec debug m =
     (case to_vec m of Some bs \<Rightarrow> stable_hash_bytes bs | None \<Rightarrow> stable_hash_bytes (debug m))"

section \<open>The cache projection\<close>

definition remove_key :: "str \<Rightarrow> (str \<times> json) list \<Rightarrow> (str \<times> json) list" where
  "remove_key k kvs = filter (\<lambda>kv. fst kv \<noteq> k) kvs"

definition block_type :: "json \<Rightarrow> str option" where
  "block_type b = Option.bind (json_get ''type'' b) as_str"

definition project_block :: "json \<Rightarrow> json" where
  "project_block b =
     (case b of
        JObject kvs \<Rightarrow>
          if block_type b = Some ''text'' then JObject (remove_key ''cache_control'' kvs) else b
      | _ \<Rightarrow> b)"

definition project_content :: "json \<Rightarrow> json" where
  "project_content v =
     (case v of
        JArray blocks \<Rightarrow>
          JArray (map project_block (filter (\<lambda>b. block_type b \<noteq> Some ''reasoning_trace'') blocks))
      | _ \<Rightarrow> v)"

definition cache_projection :: "json \<Rightarrow> json" where
  "cache_projection v =
     (case v of
        JObject kvs \<Rightarrow>
          JObject (map (\<lambda>(k, x). (k, if k = ''content'' then project_content x else x))
            (remove_key ''tool_duration_ms'' (remove_key ''timestamp'' kvs)))
      | _ \<Rightarrow> v)"

text \<open>\<open>to_value\<close> is the derived serialisation.\<close>

definition cache_relevant_message_value :: "(Message \<Rightarrow> json option) \<Rightarrow> Message \<Rightarrow> json" where
  "cache_relevant_message_value to_value m =
     cache_projection (case to_value m of Some v \<Rightarrow> v | None \<Rightarrow> JNull)"

definition cache_relevant_messages :: "(Message \<Rightarrow> json option) \<Rightarrow> Message list \<Rightarrow> json list" where
  "cache_relevant_messages to_value ms = map (cache_relevant_message_value to_value) ms"

section \<open>Fresh user turns and dynamic context\<close>

definition is_user_text :: "str \<Rightarrow> bool" where
  "is_user_text s = (let t = trim s in t \<noteq> [] \<and> \<not> prefix ''<system-reminder>'' t)"

text \<open>The scan of a message's blocks: \<open>None\<close> for a block other than text (or image, where images
  are tolerated), otherwise whether some block is user text.\<close>

fun scan_blocks :: "bool \<Rightarrow> bool \<Rightarrow> ContentBlock list \<Rightarrow> bool option" where
  "scan_blocks images saw [] = Some saw"
| "scan_blocks images saw (Text s c # bs) = scan_blocks images (saw \<or> is_user_text s) bs"
| "scan_blocks images saw (Image m d # bs) = (if images then scan_blocks images saw bs else None)"
| "scan_blocks images saw (b # bs) = None"

fun is_tool_result :: "ContentBlock \<Rightarrow> bool" where
  "is_tool_result (ToolResult _ _ _) = True"
| "is_tool_result _ = False"

text \<open>The backward loop of \<open>ends_with_fresh_user_turn\<close>, on the reversed messages.\<close>

fun fresh_turn_back :: "Message list \<Rightarrow> bool" where
  "fresh_turn_back [] = False"
| "fresh_turn_back (m # ms) =
     (if msg_role m \<noteq> User \<or> list_ex is_tool_result (msg_content m) \<or> msg_content m = [] then False
      else case scan_blocks False False (msg_content m) of
             None \<Rightarrow> False
           | Some saw \<Rightarrow> if saw then True
               else if is_internal_system_reminder m then fresh_turn_back ms else False)"

definition ends_with_fresh_user_turn :: "Message list \<Rightarrow> bool" where
  "ends_with_fresh_user_turn ms = fresh_turn_back (rev ms)"

definition is_fresh_user_text_message :: "Message \<Rightarrow> bool" where
  "is_fresh_user_text_message m \<longleftrightarrow>
     msg_role m = User \<and> scan_blocks True False (msg_content m) = Some True"

definition dynamic_system_context_message :: "instant \<Rightarrow> str \<Rightarrow> Message option" where
  "dynamic_system_context_message now system_dynamic =
     (let trimmed = trim system_dynamic in
      if trimmed = [] then None
      else Some (user now (''<system-reminder>'' @ nl @ trimmed @ nl @ ''</system-reminder>'')))"

definition rposition :: "('a \<Rightarrow> bool) \<Rightarrow> 'a list \<Rightarrow> nat option" where
  "rposition P xs =
     (let n = length (takeWhile (\<lambda>x. \<not> P x) (rev xs))
      in if n = length xs then None else Some (length xs - 1 - n))"

definition insert_at_index :: "nat \<Rightarrow> 'a \<Rightarrow> 'a list \<Rightarrow> 'a list" where
  "insert_at_index i x xs = take i xs @ x # drop i xs"

definition messages_with_dynamic_system_context :: "instant \<Rightarrow> Message list \<Rightarrow> str \<Rightarrow> Message list" where
  "messages_with_dynamic_system_context now ms system_dynamic =
     (case dynamic_system_context_message now system_dynamic of
        None \<Rightarrow> ms
      | Some d \<Rightarrow>
          insert_at_index
            (case rposition is_fresh_user_text_message ms of Some i \<Rightarrow> Suc i | None \<Rightarrow> length ms) d ms)"

section \<open>Tool ids\<close>

definition tool_id_char :: "str \<Rightarrow> bool" where
  "tool_id_char c \<longleftrightarrow>
     (case c of [b] \<Rightarrow> is_ascii_alphanumeric b \<or> b = CHR ''_'' \<or> b = CHR ''-'' | _ \<Rightarrow> False)"

definition sanitize_tool_id :: "str \<Rightarrow> str" where
  "sanitize_tool_id s =
     (if s = [] then ''unknown''
      else let sanitized = concat (map (\<lambda>c. if tool_id_char c then c else ''_'') (chars s))
           in if sanitized = [] then ''unknown'' else sanitized)"

datatype ConnectionPhase =
    Authenticating | Connecting | WaitingForResponse | Streaming | Retrying "32 word" "32 word"

definition phase_text :: "ConnectionPhase \<Rightarrow> str" where
  "phase_text p =
     (case p of
        Authenticating \<Rightarrow> ''authenticating'' | Connecting \<Rightarrow> ''connecting''
      | WaitingForResponse \<Rightarrow> ''waiting for response'' | Streaming \<Rightarrow> ''streaming''
      | Retrying attempt max_attempts \<Rightarrow>
          ''retrying ('' @ show_nat (unat attempt) @ ''/'' @ show_nat (unat max_attempts) @ '')'')"

section \<open>Timestamps change one block\<close>

fun taggable :: "ContentBlock \<Rightarrow> bool" where
  "taggable (Text _ _) = True"
| "taggable (ToolResult _ _ _) = True"
| "taggable _ = False"

fun tag_block :: "str \<Rightarrow> str \<Rightarrow> ContentBlock \<Rightarrow> ContentBlock" where
  "tag_block tt rt (Text s c) = Text (tt @ '' '' @ s) c"
| "tag_block tt rt (ToolResult i s e) = ToolResult i (rt @ '' '' @ s) e"
| "tag_block tt rt b = b"

lemma tag_first_split:
  "tag_first tt rt bs =
     (case dropWhile (\<lambda>b. \<not> taggable b) bs of
        [] \<Rightarrow> bs
      | b # post \<Rightarrow> takeWhile (\<lambda>b. \<not> taggable b) bs @ tag_block tt rt b # post)"
  by (induction tt rt bs rule: tag_first.induct)
    (auto simp del: dropWhile_eq_Nil_conv split: list.split)

section \<open>Transparent messages\<close>

lemma fresh_turn_back_insert:
  assumes "\<And>ms. fresh_turn_back (d # ms) = fresh_turn_back ms"
  shows "fresh_turn_back (xs @ d # ys) = fresh_turn_back (xs @ ys)"
proof (induction xs)
  case (Cons m xs)
  show ?case by (simp only: append_Cons fresh_turn_back.simps(2) Cons)
qed (simp only: append_Nil assms)

lemma dynamic_transparent:
  assumes "dynamic_system_context_message now s = Some d"
  shows "fresh_turn_back (d # ms) = fresh_turn_back ms"
    and "\<not> is_fresh_user_text_message d" and "is_internal_system_reminder d"
proof -
  let ?t = "''<system-reminder>'' @ nl @ trim s @ nl @ ''</system-reminder>''"
  have d: "d = user now ?t"
    using assms by (auto simp: dynamic_system_context_message_def Let_def split: if_splits)
  have "ws_width ?t = 0" by (simp add: ws_width_plain)
  moreover have "ws_width_back (rev ?t) = 0" by (simp add: ws_width_plain)
  ultimately have t: "trim ?t = ?t" "trim_start ?t = ?t"
    by (simp_all add: trim_def trim_start_id trim_end_id del: append.simps)
  have u: "\<not> is_user_text ?t"
    unfolding is_user_text_def Let_def t(1) by simp
  show i: "is_internal_system_reminder d"
    unfolding d is_internal_system_reminder_def user_def
    by (simp only: Message.simps first_text.simps option.simps t(2)) simp
  have s: "scan_blocks b False [Text ?t None] = Some False" for b
    using u by (simp only: scan_blocks.simps) simp
  show "\<not> is_fresh_user_text_message d"
    unfolding d is_fresh_user_text_message_def user_def by (simp only: Message.simps s) simp
  have c: "msg_role d = User" "msg_content d = [Text ?t None]" by (simp_all add: d user_def)
  show "fresh_turn_back (d # ms) = fresh_turn_back ms"
    unfolding fresh_turn_back.simps(2) c(2) s by (simp add: c(1) i)
qed

lemma takeWhile_rev_index:
  assumes "n = length (takeWhile (\<lambda>x. \<not> P x) (rev xs))" and "n < length xs"
  shows "P (xs ! (length xs - 1 - n))" and "\<And>j. length xs - 1 - n < j \<Longrightarrow> j < length xs \<Longrightarrow> \<not> P (xs ! j)"
proof -
  have "P (rev xs ! n)" using assms nth_length_takeWhile [of "\<lambda>x. \<not> P x" "rev xs"] by simp
  then show "P (xs ! (length xs - 1 - n))" using assms(2) by (simp add: rev_nth)
  fix j assume j: "length xs - 1 - n < j" "j < length xs"
  then have k: "length xs - 1 - j < n" by linarith
  then have "takeWhile (\<lambda>x. \<not> P x) (rev xs) ! (length xs - 1 - j) = rev xs ! (length xs - 1 - j)"
    using assms(1) by (intro takeWhile_nth) simp
  moreover have "rev xs ! (length xs - 1 - j) = xs ! j" using j by (simp add: rev_nth)
  moreover have "\<not> P (takeWhile (\<lambda>x. \<not> P x) (rev xs) ! (length xs - 1 - j))"
    using k assms(1) nth_mem set_takeWhileD by metis
  ultimately show "\<not> P (xs ! j)" by simp
qed

lemma rposition_Some:
  assumes "rposition P xs = Some i"
  shows "i < length xs \<and> P (xs ! i) \<and> (\<forall>j. i < j \<and> j < length xs \<longrightarrow> \<not> P (xs ! j))"
proof -
  let ?n = "length (takeWhile (\<lambda>x. \<not> P x) (rev xs))"
  have "?n \<le> length xs" using length_takeWhile_le [of _ "rev xs"] by simp
  with assms have n: "?n < length xs" "i = length xs - 1 - ?n"
    by (auto simp: rposition_def Let_def split: if_splits)
  with takeWhile_rev_index [OF refl n(1)] show ?thesis by auto
qed

lemma rposition_None: "rposition P xs = None \<longleftrightarrow> (\<forall>x \<in> set xs. \<not> P x)"
proof -
  have "length (takeWhile (\<lambda>x. \<not> P x) (rev xs)) = length xs \<longleftrightarrow> (\<forall>x \<in> set xs. \<not> P x)"
    by (metis length_rev set_rev takeWhile_eq_all_conv length_takeWhile_le takeWhile_eq_take take_all order_refl)
  then show ?thesis by (simp add: rposition_def Let_def)
qed

section \<open>The hash step is invertible\<close>

lemma prime_inverse: "STABLE_HASH_PRIME * 0xce965057aff6957b = 1"
  by (simp add: STABLE_HASH_PRIME_def)

lemma prime_cancel: "(a :: 64 word) * STABLE_HASH_PRIME = b * STABLE_HASH_PRIME \<longleftrightarrow> a = b"
proof
  assume "a * STABLE_HASH_PRIME = b * STABLE_HASH_PRIME"
  from arg_cong [OF this, of "\<lambda>x. x * 0xce965057aff6957b"]
  have "a * (STABLE_HASH_PRIME * 0xce965057aff6957b) = b * (STABLE_HASH_PRIME * 0xce965057aff6957b)"
    by (simp only: mult.assoc)
  then show "a = b" by (simp only: prime_inverse mult_1_right)
qed simp

lemma xor_cancel_left: "(h :: 64 word) XOR a = h XOR b \<longleftrightarrow> a = b"
  by (metis bit.xor_left_self)

lemma xor_cancel_right: "(a :: 64 word) XOR h = b XOR h \<longleftrightarrow> a = b"
  by (metis xor_cancel_left xor.commute)

lemma of_nat_byte_inject: "(of_nat (byte c) :: 64 word) = of_nat (byte d) \<longleftrightarrow> c = d"
proof -
  have "byte x < 2 ^ 64" for x by (rule less_trans [OF nat_of_char_less_256]) simp
  then have "unat (of_nat (byte c) :: 64 word) = byte c" "unat (of_nat (byte d) :: 64 word) = byte d"
    by (simp_all add: unat_of_nat take_bit_nat_eq_self)
  then show ?thesis by (metis of_char_eq_iff)
qed

lemma hash_step_inject [simp]:
  "hash_step h c = hash_step h' c \<longleftrightarrow> h = h'"
  "hash_step h c = hash_step h d \<longleftrightarrow> c = d"
  by (simp_all add: hash_step_def prime_cancel xor_cancel_left xor_cancel_right of_nat_byte_inject)

lemma foldl_hash_inject: "foldl hash_step h bs = foldl hash_step h' bs \<longleftrightarrow> h = h'"
  by (induction bs arbitrary: h h') simp_all

text \<open>
  Supplement: the stable hash detects every single-byte change: two byte strings of equal length that
  differ in exactly one byte have different hashes, and appending equal bytes neither merges nor
  separates hashes. Chaining with \<open>extend_stable_hash\<close> therefore confuses two accumulators only if
  their own byte hashes collide.
\<close>

theorem stable_hash_detects_byte_change:
  "(stable_hash_bytes (xs @ a # ys) = stable_hash_bytes (xs @ b # ys) \<longleftrightarrow> a = b)
    \<and> (stable_hash_bytes (xs @ ys) = stable_hash_bytes (zs @ ys) \<longleftrightarrow>
        stable_hash_bytes xs = stable_hash_bytes zs)
    \<and> (extend_stable_hash u n = extend_stable_hash v n \<longleftrightarrow>
        stable_hash_bytes (to_le_bytes u) = stable_hash_bytes (to_le_bytes v))"
  by (simp add: stable_hash_bytes_def extend_stable_hash_def foldl_hash_inject)

section \<open>Sanitised ids\<close>

lemma tool_id_char_width: "tool_id_char c \<Longrightarrow> \<exists>b. c = [b] \<and> byte b < 128"
  by (auto simp: tool_id_char_def is_ascii_alphanumeric_def is_ascii_digit_def split: list.splits)

lemma chars_ascii: "list_all (\<lambda>b. byte b < 128) s \<Longrightarrow> chars s = map (\<lambda>b. [b]) s"
  by (induction s) (simp_all add: utf8_width_def)

definition tool_id_ok :: "str \<Rightarrow> bool" where
  "tool_id_ok s \<longleftrightarrow> s \<noteq> [] \<and> list_all (\<lambda>b. tool_id_char [b]) s"

lemma tool_id_ok_fixed: "tool_id_ok s \<Longrightarrow> sanitize_tool_id s = s"
proof -
  assume ok: "tool_id_ok s"
  then have "list_all (\<lambda>b. byte b < 128) s"
    by (auto simp: tool_id_ok_def list_all_iff dest!: tool_id_char_width)
  then have "concat (map (\<lambda>c. if tool_id_char c then c else ''_'') (chars s)) = s"
    using ok by (simp add: chars_ascii tool_id_ok_def list_all_iff o_def cong: map_cong)
  with ok show ?thesis by (simp add: sanitize_tool_id_def Let_def tool_id_ok_def)
qed

lemma sanitize_ok: "tool_id_ok (sanitize_tool_id s)"
proof -
  have u: "tool_id_ok ''unknown''" by code_simp
  have sub: "tool_id_char ''_''" by code_simp
  let ?f = "\<lambda>c. if tool_id_char c then c else ''_''"
  have "list_all (\<lambda>b. tool_id_char [b]) (concat (map ?f cs))" for cs
  proof (induction cs)
    case (Cons c cs)
    have "list_all (\<lambda>b. tool_id_char [b]) (?f c)" using sub tool_id_char_width [of c] by auto
    with Cons show ?case by simp
  qed simp
  with u show ?thesis by (auto simp: sanitize_tool_id_def Let_def tool_id_ok_def)
qed

text \<open>
  Supplement: every sanitised tool id is non-empty and consists of ASCII letters, digits, underscores and
  hyphens only; ids already of that form are returned unchanged, so sanitising twice is sanitising
  once, and a sanitised id has as many characters as the original.
\<close>

theorem sanitize_tool_id_sound:
  "tool_id_ok (sanitize_tool_id s) \<and> sanitize_tool_id (sanitize_tool_id s) = sanitize_tool_id s
    \<and> (sanitize_tool_id s = s \<longleftrightarrow> tool_id_ok s)
    \<and> (s \<noteq> [] \<longrightarrow> char_count (sanitize_tool_id s) = char_count s)"
proof -
  have "char_count (sanitize_tool_id s) = char_count s" if "s \<noteq> []"
  proof -
    let ?f = "\<lambda>c. if tool_id_char c then c else ''_''"
    have ascii: "list_all (\<lambda>b. byte b < 128) (sanitize_tool_id s)"
      using sanitize_ok [of s] by (auto simp: tool_id_ok_def list_all_iff dest!: tool_id_char_width)
    have one: "length (?f c) = 1" for c using tool_id_char_width [of c] by auto
    have "length (concat (map ?f cs)) = length cs" for cs
      using one by (induction cs) simp_all
    moreover from this [of "chars s"] that have "concat (map ?f (chars s)) \<noteq> []"
      by (metis chars_eq_Nil length_0_conv)
    ultimately have "length (sanitize_tool_id s) = length (chars s)"
      using that by (simp add: sanitize_tool_id_def Let_def del: concat_eq_Nil_conv)
    then show ?thesis using ascii by (simp add: char_count_def chars_ascii)
  qed
  then show ?thesis using sanitize_ok [of s] tool_id_ok_fixed by metis
qed

theorem sanitize_tool_id_sound_witness:
  "sanitize_tool_id ''call.1:x'' = ''call_1_x'' \<and> char_count (sanitize_tool_id ''call.1:x'') = 8"
proof -
  have "''call.1:x'' \<noteq> [] \<longrightarrow> char_count (sanitize_tool_id ''call.1:x'') = char_count ''call.1:x''"
    using sanitize_tool_id_sound [of "''call.1:x''"] by (elim conjE)
  moreover have "char_count ''call.1:x'' = 8" by code_simp
  moreover have "sanitize_tool_id ''call.1:x'' = ''call_1_x''" by code_simp
  ultimately show ?thesis by simp
qed

section \<open>Context injection\<close>

text \<open>
  Supplement: dynamic system context is inserted without disturbing the history. A blank context changes
  nothing; otherwise exactly one message is inserted, a system reminder, directly behind the last
  fresh user prompt (at the end when there is none), every other message stays, and whether the
  conversation ends with a fresh user turn is the same as before.
\<close>

theorem dynamic_context_preserves_history:
  "(trim s = [] \<longrightarrow> messages_with_dynamic_system_context now ms s = ms)
    \<and> (trim s \<noteq> [] \<longrightarrow> (\<exists>d k. k \<le> length ms
        \<and> messages_with_dynamic_system_context now ms s = take k ms @ d # drop k ms
        \<and> is_internal_system_reminder d \<and> \<not> is_fresh_user_text_message d
        \<and> list_all (\<lambda>m. \<not> is_fresh_user_text_message m) (drop k ms)
        \<and> (k < length ms \<longrightarrow> 0 < k \<and> is_fresh_user_text_message (ms ! (k - 1)))))
    \<and> ends_with_fresh_user_turn (messages_with_dynamic_system_context now ms s) =
        ends_with_fresh_user_turn ms"
proof (cases "dynamic_system_context_message now s")
  case None
  then have "trim s = []" by (auto simp: dynamic_system_context_message_def Let_def split: if_splits)
  with None show ?thesis by (simp add: messages_with_dynamic_system_context_def)
next
  case (Some d)
  then have s: "trim s \<noteq> []" by (auto simp: dynamic_system_context_message_def Let_def)
  define k where "k = (case rposition is_fresh_user_text_message ms of Some i \<Rightarrow> Suc i | None \<Rightarrow> length ms)"
  have out: "messages_with_dynamic_system_context now ms s = take k ms @ d # drop k ms"
    using Some by (simp add: messages_with_dynamic_system_context_def insert_at_index_def k_def)
  have k: "k \<le> length ms" "list_all (\<lambda>m. \<not> is_fresh_user_text_message m) (drop k ms)"
    "k < length ms \<longrightarrow> 0 < k \<and> is_fresh_user_text_message (ms ! (k - 1))"
    using rposition_Some [of is_fresh_user_text_message ms]
    by (auto simp: k_def list_all_length Suc_le_eq split: option.split)
  have "fresh_turn_back (rev (drop k ms) @ d # rev (take k ms)) =
      fresh_turn_back (rev (drop k ms) @ rev (take k ms))"
    by (rule fresh_turn_back_insert) (rule dynamic_transparent(1) [OF Some])
  moreover have "rev (drop k ms) @ rev (take k ms) = rev ms" by (metis append_take_drop_id rev_append)
  ultimately have "ends_with_fresh_user_turn (messages_with_dynamic_system_context now ms s) =
      ends_with_fresh_user_turn ms"
    by (simp add: ends_with_fresh_user_turn_def out)
  moreover have "\<exists>d k. k \<le> length ms
        \<and> messages_with_dynamic_system_context now ms s = take k ms @ d # drop k ms
        \<and> is_internal_system_reminder d \<and> \<not> is_fresh_user_text_message d
        \<and> list_all (\<lambda>m. \<not> is_fresh_user_text_message m) (drop k ms)
        \<and> (k < length ms \<longrightarrow> 0 < k \<and> is_fresh_user_text_message (ms ! (k - 1)))"
    using k out dynamic_transparent(2,3) [OF Some] by blast
  ultimately show ?thesis using s by blast
qed

definition demo_chat :: "Message list" where
  "demo_chat = [user 0 ''fix it'', assistant_text 1 ''ok'']"

theorem dynamic_context_preserves_history_witness:
  "length (messages_with_dynamic_system_context 5 demo_chat ''today'') = 3
    \<and> messages_with_dynamic_system_context 5 demo_chat '' '' = demo_chat
    \<and> is_fresh_user_text_message (hd demo_chat)"
proof -
  note hist = dynamic_context_preserves_history [of "''today''" 5 demo_chat]
  have "trim ''today'' \<noteq> []" by code_simp
  then have "\<exists>d k. k \<le> length demo_chat \<and>
      messages_with_dynamic_system_context 5 demo_chat ''today'' = take k demo_chat @ d # drop k demo_chat"
    using hist by blast
  then have "length (messages_with_dynamic_system_context 5 demo_chat ''today'') = Suc (length demo_chat)"
    by auto
  moreover have "messages_with_dynamic_system_context 5 demo_chat '' '' = demo_chat"
  proof -
    have "trim '' '' = []" by code_simp
    then show ?thesis using dynamic_context_preserves_history [of "'' ''" 5 demo_chat] by blast
  qed
  moreover have "is_fresh_user_text_message (hd demo_chat)" by code_simp
  ultimately show ?thesis by (simp add: demo_chat_def)
qed

section \<open>Timestamps\<close>

fun block_tool_ids :: "ContentBlock \<Rightarrow> (bool \<times> str) list" where
  "block_tool_ids (ToolUse i _ _ _) = [(True, i)]"
| "block_tool_ids (ToolResult i _ _) = [(False, i)]"
| "block_tool_ids _ = []"

definition tool_ids :: "Message \<Rightarrow> (bool \<times> str) list" where
  "tool_ids m = concat (map block_tool_ids (msg_content m))"

lemma block_tool_ids_tag [simp]: "block_tool_ids (tag_block tt rt b) = block_tool_ids b"
  by (cases b) simp_all

lemma tag_first_tool_ids:
  "map block_tool_ids (tag_first tt rt bs) = map block_tool_ids bs"
  by (induction tt rt bs rule: tag_first.induct) simp_all

text \<open>
  Supplement: timestamp injection edits at most one block per message. Messages keep their number, roles,
  tool-call and tool-result ids; a message without a timestamp, of the assistant, or holding a
  system reminder is unchanged; any other message with a text or tool-result block has the first
  such block prefixed by its tag and every other block unchanged.
\<close>

theorem with_timestamps_edits_one_block:
  "map msg_role (with_timestamps ch ms) = map msg_role ms
    \<and> map tool_ids (with_timestamps ch ms) = map tool_ids ms
    \<and> (msg_timestamp m = None \<or> msg_role m = Assistant \<or> is_internal_system_reminder m \<longrightarrow>
        with_timestamps ch [m] = [m])
    \<and> (msg_timestamp m = Some ts \<and> msg_role m = User \<and> \<not> is_internal_system_reminder m
        \<and> msg_content m = pre @ b # post \<and> list_all (\<lambda>x. \<not> taggable x) pre \<and> taggable b \<longrightarrow>
        with_timestamps ch [m] = [m\<lparr>msg_content := pre @ tag_block
          (''['' @ format_timestamp ch ts @ '']'') (tool_result_tag ch m ts) b # post\<rparr>])"
proof -
  have a: "map msg_role (with_timestamps ch ms) = map msg_role ms"
    by (simp add: with_timestamps_def with_timestamp_def split: option.split)
  have "tool_ids (with_timestamp ch x) = tool_ids x" for x
    by (simp add: with_timestamp_def tool_ids_def tag_first_tool_ids split: option.split)
  then have i: "map tool_ids (with_timestamps ch ms) = map tool_ids ms" by (simp add: with_timestamps_def)
  have u: "msg_timestamp m = None \<or> msg_role m = Assistant \<or> is_internal_system_reminder m \<longrightarrow>
        with_timestamps ch [m] = [m]"
    by (auto simp: with_timestamps_def with_timestamp_def split: option.split)
  have "tag_first tt rt (pre @ b # post) = pre @ tag_block tt rt b # post"
    if "list_all (\<lambda>x. \<not> taggable x) pre" and "taggable b" for tt rt
  proof -
    have "takeWhile (\<lambda>b. \<not> taggable b) (pre @ b # post) = pre"
      "dropWhile (\<lambda>b. \<not> taggable b) (pre @ b # post) = b # post"
      using that by (simp_all add: list_all_iff takeWhile_append dropWhile_append)
    then show ?thesis by (simp add: tag_first_split)
  qed
  then have "msg_timestamp m = Some ts \<and> msg_role m = User \<and> \<not> is_internal_system_reminder m
        \<and> msg_content m = pre @ b # post \<and> list_all (\<lambda>x. \<not> taggable x) pre \<and> taggable b \<longrightarrow>
        with_timestamps ch [m] = [m\<lparr>msg_content := pre @ tag_block
          (''['' @ format_timestamp ch ts @ '']'') (tool_result_tag ch m ts) b # post\<rparr>]"
    by (simp add: with_timestamps_def with_timestamp_def)
  with a i u show ?thesis by (intro conjI)
qed

definition demo_chrono :: chrono where
  "demo_chrono = \<lparr>format_timestamp = (\<lambda>t. show_nat (nat t)), checked_sub_ms = (\<lambda>t d. Some (t - d))\<rparr>"

theorem with_timestamps_edits_one_block_witness:
  "with_timestamps demo_chrono [user_with_images 7 ''hi'' [(''png'', ''x'')]] =
     [(user_with_images 7 ''hi'' [(''png'', ''x'')])\<lparr>msg_content := [Image ''png'' ''x'', Text ''[7] hi'' None]\<rparr>]"
proof -
  let ?m = "user_with_images 7 ''hi'' [(''png'', ''x'')]"
  have "msg_timestamp ?m = Some 7 \<and> msg_role ?m = User \<and> \<not> is_internal_system_reminder ?m
      \<and> msg_content ?m = [Image ''png'' ''x''] @ Text ''hi'' None # []
      \<and> list_all (\<lambda>x. \<not> taggable x) [Image ''png'' ''x''] \<and> taggable (Text ''hi'' None)"
    by code_simp
  with with_timestamps_edits_one_block [where ch = demo_chrono and m = ?m and ts = 7
      and pre = "[Image ''png'' ''x'']" and b = "Text ''hi'' None" and post = "[]"]
  have "with_timestamps demo_chrono [?m] = [?m\<lparr>msg_content := [Image ''png'' ''x''] @ tag_block
      (''['' @ format_timestamp demo_chrono 7 @ '']'') (tool_result_tag demo_chrono ?m 7)
      (Text ''hi'' None) # []\<rparr>]" by blast
  moreover have "format_timestamp demo_chrono 7 = ''7''" by code_simp
  ultimately show ?thesis by simp
qed

section \<open>Tool calls\<close>


end
