(* ===== verification/Compaction.thy ===== *)
theory Compaction
  imports Message_Types
begin

text \<open>
  The pure core of context compaction (\<^verbatim>\<open>src/crates/jcode-compaction-core/src/lib.rs\<close>): token
  estimates, the safe cutoff that keeps tool calls and results together, the summary prompt, and
  the emergency reductions of tool results and images. \<open>usize\<close> quantities that are lengths or counts
  of data in memory are natural numbers; additions the code saturates are saturated at \<open>2^64 - 1\<close>.
  The JSON printer, Unicode lower-casing and Unicode \<open>is_alphanumeric\<close> are arguments.
\<close>

section \<open>Constants and data\<close>

definition DEFAULT_TOKEN_BUDGET :: nat where "DEFAULT_TOKEN_BUDGET = 200000"
definition RECENT_TURNS_TO_KEEP :: nat where "RECENT_TURNS_TO_KEEP = 10"
definition MIN_TURNS_TO_KEEP :: nat where "MIN_TURNS_TO_KEEP = 2"
definition EMERGENCY_TOOL_RESULT_MAX_CHARS :: nat where "EMERGENCY_TOOL_RESULT_MAX_CHARS = 4000"
definition EMERGENCY_IMAGE_MAX_CHARS :: nat where "EMERGENCY_IMAGE_MAX_CHARS = 1024"
definition PAYLOAD_IMAGE_CHAR_BUDGET :: nat where "PAYLOAD_IMAGE_CHAR_BUDGET = 12 * 1024 * 1024"
definition CHARS_PER_TOKEN :: nat where "CHARS_PER_TOKEN = 4"
definition IMAGE_TOKEN_COST :: nat where "IMAGE_TOKEN_COST = 1600"
definition SYSTEM_OVERHEAD_TOKENS :: nat where "SYSTEM_OVERHEAD_TOKENS = 18000"
definition EMBED_MAX_CHARS_PER_MSG :: nat where "EMBED_MAX_CHARS_PER_MSG = 512"

lemmas compaction_limits = DEFAULT_TOKEN_BUDGET_def RECENT_TURNS_TO_KEEP_def MIN_TURNS_TO_KEEP_def
  EMERGENCY_TOOL_RESULT_MAX_CHARS_def EMERGENCY_IMAGE_MAX_CHARS_def PAYLOAD_IMAGE_CHAR_BUDGET_def
  CHARS_PER_TOKEN_def IMAGE_TOKEN_COST_def SYSTEM_OVERHEAD_TOKENS_def EMBED_MAX_CHARS_PER_MSG_def

definition SUMMARY_PROMPT :: str where
  \<open>SUMMARY_PROMPT =
     ''Summarize our conversation so you can continue this work later.'' @ nl @ nl
     @ ''Write in natural language with these sections:'' @ nl @ ''- **Context:** What we''
     @ [CHR 0x27] @ ''re working on and why (1-2 sentences)'' @ nl
     @ ''- **What we did:** Key actions taken, files changed, problems solved'' @ nl
     @ ''- **Current state:** What works, what'' @ [CHR 0x27] @ ''s broken, what''
     @ [CHR 0x27] @ ''s next'' @ nl
     @ ''- **User preferences:** Specific requirements or decisions they made'' @ nl @ nl
     @ ''Be concise but preserve important details. You can search the full ''
     @ ''conversation later if you need exact error messages or code snippets.''\<close>

record Summary =
  summary_text :: str
  openai_encrypted_content :: "str option"
  covers_up_to_turn :: nat
  original_turn_count :: nat

datatype CompactionAction =
    NoAction
  | BackgroundStarted str
  | HardCompacted nat

definition compacted_summary_text_block :: "str \<Rightarrow> str" where
  "compacted_summary_text_block summary =
     ''## Previous Conversation Summary'' @ nl @ nl @ summary @ nl @ nl @ ''---'' @ nl @ nl"

section \<open>Cutting at character boundaries\<close>

definition is_char_boundary :: "str \<Rightarrow> nat \<Rightarrow> bool" where
  "is_char_boundary s i \<longleftrightarrow> i = 0 \<or> i = length s \<or> (i < length s \<and> \<not> is_cont (s ! i))"

fun boundary_before :: "str \<Rightarrow> nat \<Rightarrow> nat" where
  "boundary_before s 0 = 0"
| "boundary_before s (Suc e) = (if is_char_boundary s (Suc e) then Suc e else boundary_before s e)"

definition truncate_str_boundary :: "str \<Rightarrow> nat \<Rightarrow> str" where
  "truncate_str_boundary v max_bytes =
     (if length v \<le> max_bytes then v else take (boundary_before v (min max_bytes (length v))) v)"

function boundary_after :: "str \<Rightarrow> nat \<Rightarrow> nat" where
  "boundary_after s i =
     (if i < length s \<and> \<not> is_char_boundary s i then boundary_after s (Suc i) else i)"
  by pat_completeness auto
termination by (relation "measure (\<lambda>(s, i). length s - i)") auto

declare boundary_after.simps [simp del]

definition tail_str_boundary :: "str \<Rightarrow> nat \<Rightarrow> str" where
  "tail_str_boundary v max_bytes =
     (if length v \<le> max_bytes then v else drop (boundary_after v (length v - max_bytes)) v)"

section \<open>The summary prompt\<close>

fun role_name :: "Role \<Rightarrow> str" where
  "role_name User = ''User''"
| "role_name Assistant = ''Assistant''"

fun block_text :: "(json \<Rightarrow> str) \<Rightarrow> ContentBlock \<Rightarrow> str" where
  "block_text json_text (Text s _) = s @ nl"
| "block_text json_text (ToolUse _ n i _) = ''[Tool: '' @ n @ '' - '' @ json_text i @ '']'' @ nl"
| "block_text json_text (ToolResult _ c _) =
     ''[Result: '' @ (if length c > 500 then truncate_str_boundary c 500 @ ''... (truncated)'' else c)
       @ '']'' @ nl"
| "block_text json_text (Image _ _) = ''[Image]'' @ nl"
| "block_text json_text (OpenAICompaction _) = ''[OpenAI native compaction]'' @ nl"
| "block_text json_text _ = []"

definition message_section :: "(json \<Rightarrow> str) \<Rightarrow> Message \<Rightarrow> str" where
  "message_section json_text m =
     ''**'' @ role_name (msg_role m) @ '':**'' @ nl
     @ concat (map (block_text json_text) (msg_content m)) @ nl"

definition build_compaction_conversation_text ::
  "(json \<Rightarrow> str) \<Rightarrow> Message list \<Rightarrow> Summary option \<Rightarrow> str" where
  "build_compaction_conversation_text json_text ms existing =
     (case existing of None \<Rightarrow> []
      | Some s \<Rightarrow> ''## Previous Summary'' @ nl @ nl @ summary_text s @ nl @ nl
          @ ''## New Conversation'' @ nl @ nl)
     @ concat (map (message_section json_text) ms)"

definition prompt_truncation_marker :: str where
  "prompt_truncation_marker =
     nl @ nl @ ''... [earlier conversation truncated to fit context window]'' @ nl"

definition build_compaction_prompt ::
  "(json \<Rightarrow> str) \<Rightarrow> Message list \<Rightarrow> Summary option \<Rightarrow> nat \<Rightarrow> str" where
  "build_compaction_prompt json_text ms existing max_prompt_chars =
     (let conversation = build_compaction_conversation_text json_text ms existing;
          overhead = length SUMMARY_PROMPT + 50;
          conversation' =
            (if length conversation + overhead > max_prompt_chars \<and> max_prompt_chars > overhead
             then truncate_str_boundary conversation (max_prompt_chars - overhead)
               @ prompt_truncation_marker
             else conversation)
      in conversation' @ nl @ nl @ ''---'' @ nl @ nl @ SUMMARY_PROMPT)"

section \<open>The safe cutoff\<close>

text \<open>The state of the scan: ids of the tool calls seen, and of results still lacking theirs.\<close>

type_synonym scan_state = "str set \<times> str set"

fun scan_tool_block :: "ContentBlock \<Rightarrow> scan_state \<Rightarrow> scan_state" where
  "scan_tool_block (ToolUse i _ _ _) (available, missing) = (insert i available, missing - {i})"
| "scan_tool_block (ToolResult i _ _) (available, missing) =
     (available, if i \<in> available then missing else insert i missing)"
| "scan_tool_block _ st = st"

definition scan_message :: "Message \<Rightarrow> scan_state \<Rightarrow> scan_state" where
  "scan_message m st = fold scan_tool_block (msg_content m) st"

text \<open>The walk backwards from index \<open>n - 1\<close> to 0.\<close>

fun walk_back :: "Message list \<Rightarrow> nat \<Rightarrow> scan_state \<Rightarrow> nat" where
  "walk_back ms 0 st = 0"
| "walk_back ms (Suc n) st =
     (let st' = scan_message (ms ! n) st in if snd st' = {} then n else walk_back ms n st')"

definition safe_compaction_cutoff :: "Message list \<Rightarrow> nat \<Rightarrow> nat" where
  "safe_compaction_cutoff ms initial_cutoff =
     (let cutoff = min initial_cutoff (length ms);
          st = fold scan_message (drop cutoff ms) ({}, {})
      in if snd st = {} then cutoff else walk_back ms cutoff st)"

section \<open>Size estimates\<close>

fun block_char_count :: "(json \<Rightarrow> str) \<Rightarrow> ContentBlock \<Rightarrow> nat" where
  "block_char_count json_text (Text s _) = length s"
| "block_char_count json_text (Reasoning s) = length s"
| "block_char_count json_text (ReasoningTrace s) = length s"
| "block_char_count json_text (AnthropicThinking t s) = length t + length s"
| "block_char_count json_text (OpenAIReasoning i su enc st) =
     length i + sum_list (map length su) + (case enc of None \<Rightarrow> 0 | Some e \<Rightarrow> length e)
     + (case st of None \<Rightarrow> 0 | Some x \<Rightarrow> length x)"
| "block_char_count json_text (ToolUse _ _ i _) = length (json_text i) + 50"
| "block_char_count json_text (ToolResult _ c _) = length c + 20"
| "block_char_count json_text (Image _ _) = IMAGE_TOKEN_COST * CHARS_PER_TOKEN"
| "block_char_count json_text (OpenAICompaction e) = length e"

definition content_char_count :: "(json \<Rightarrow> str) \<Rightarrow> ContentBlock list \<Rightarrow> nat" where
  "content_char_count json_text bs = sum_list (map (block_char_count json_text) bs)"

definition message_char_count :: "(json \<Rightarrow> str) \<Rightarrow> Message \<Rightarrow> nat" where
  "message_char_count json_text m = content_char_count json_text (msg_content m)"

definition summary_payload_char_count :: "Summary \<Rightarrow> nat" where
  "summary_payload_char_count s =
     (case openai_encrypted_content s of Some v \<Rightarrow> length v | None \<Rightarrow> length (summary_text s))"

definition estimate_compaction_tokens_from_chars :: "nat \<Rightarrow> nat \<Rightarrow> nat" where
  "estimate_compaction_tokens_from_chars total_chars token_budget =
     total_chars div CHARS_PER_TOKEN
     + (if token_budget \<ge> DEFAULT_TOKEN_BUDGET div 2 then SYSTEM_OVERHEAD_TOKENS else 0)"

definition estimate_compaction_tokens :: "Summary option \<Rightarrow> nat \<Rightarrow> nat \<Rightarrow> nat" where
  "estimate_compaction_tokens summary active_message_chars token_budget =
     estimate_compaction_tokens_from_chars
       ((case summary of None \<Rightarrow> 0 | Some s \<Rightarrow> summary_payload_char_count s) + active_message_chars)
       token_budget"

definition saturating_add :: "64 word \<Rightarrow> 64 word \<Rightarrow> 64 word" where
  "saturating_add a b = (if a + b < a then - 1 else a + b)"

definition effective_context_tokens_from_usage ::
  "(str \<Rightarrow> str) \<Rightarrow> str \<Rightarrow> 64 word \<Rightarrow> 64 word option \<Rightarrow> 64 word option \<Rightarrow> 64 word" where
  "effective_context_tokens_from_usage to_lowercase provider_name input_tokens cache_read_opt cache_creation_opt =
     (if input_tokens = 0 then 0
      else let cache_read = (case cache_read_opt of Some n \<Rightarrow> n | None \<Rightarrow> 0);
               cache_creation = (case cache_creation_opt of Some n \<Rightarrow> n | None \<Rightarrow> 0);
               name = to_lowercase provider_name;
               split = contains_str name ''anthropic'' \<or> contains_str name ''claude''
                 \<or> cache_creation > 0 \<or> cache_read > input_tokens
           in if split then saturating_add (saturating_add input_tokens cache_read) cache_creation
              else input_tokens)"

section \<open>Text for embeddings\<close>

definition push_semantic_excerpt :: "str \<Rightarrow> str \<Rightarrow> nat \<Rightarrow> str" where
  "push_semantic_excerpt target source max_chars =
     (if source = [] then target
      else (if target = [] then target else target @ '' '') @ take_chars max_chars source)"

fun goal_block :: "ContentBlock \<Rightarrow> str \<Rightarrow> str" where
  "goal_block (Text s _) acc = push_semantic_excerpt acc s 200"
| "goal_block (ToolResult _ c _) acc = push_semantic_excerpt acc c 100"
| "goal_block _ acc = acc"

definition semantic_goal_text :: "Message list \<Rightarrow> str" where
  "semantic_goal_text ms = fold (\<lambda>m acc. fold goal_block (msg_content m) acc) ms []"

fun message_text_block :: "ContentBlock \<Rightarrow> str \<Rightarrow> str" where
  "message_text_block (Text s _) acc = push_semantic_excerpt acc s EMBED_MAX_CHARS_PER_MSG"
| "message_text_block _ acc = acc"

definition semantic_message_text :: "Message \<Rightarrow> str" where
  "semantic_message_text m = fold message_text_block (msg_content m) []"

section \<open>The emergency summary\<close>

definition looks_like_file_reference :: "str \<Rightarrow> bool" where
  "looks_like_file_reference w \<longleftrightarrow>
     (contains_str w ''/'' \<or> contains_str w ''.'') \<and> length w > 3 \<and> length w < 120
     \<and> \<not> prefix ''http'' w
     \<and> (contains_str w ''.rs'' \<or> contains_str w ''.ts'' \<or> contains_str w ''.py''
        \<or> contains_str w ''.toml'' \<or> contains_str w ''.json''
        \<or> prefix ''src/'' w \<or> prefix ''./'' w)"

text \<open>\<open>trim_matches\<close> with a predicate on characters.\<close>

definition trim_matches :: "(str \<Rightarrow> bool) \<Rightarrow> str \<Rightarrow> str" where
  "trim_matches P s = concat (rev (dropWhile P (rev (dropWhile P (chars s)))))"

definition clean_file_reference :: "(str \<Rightarrow> bool) \<Rightarrow> str \<Rightarrow> str" where
  "clean_file_reference is_alphanumeric w =
     trim_matches (\<lambda>c. \<not> is_alphanumeric c \<and> c \<noteq> ''/'' \<and> c \<noteq> ''.'' \<and> c \<noteq> ''_'' \<and> c \<noteq> ''-'') w"

definition extract_file_mentions :: "(str \<Rightarrow> bool) \<Rightarrow> str \<Rightarrow> str list \<Rightarrow> str list" where
  "extract_file_mentions is_alphanumeric s mentions =
     mentions @ filter (\<lambda>c. c \<noteq> [])
       (map (clean_file_reference is_alphanumeric) (filter looks_like_file_reference (split_whitespace s)))"

fun hint_block :: "(str \<Rightarrow> bool) \<Rightarrow> ContentBlock \<Rightarrow> str set \<times> str list \<Rightarrow> str set \<times> str list" where
  "hint_block al (ToolUse _ n _ _) (tools, files) = (insert n tools, files)"
| "hint_block al (Text s _) (tools, files) = (tools, extract_file_mentions al s files)"
| "hint_block al _ st = st"

definition collect_emergency_summary_hints ::
  "(str \<Rightarrow> bool) \<Rightarrow> Message \<Rightarrow> str set \<times> str list \<Rightarrow> str set \<times> str list" where
  "collect_emergency_summary_hints al m st = fold (hint_block al) (msg_content m) st"

definition build_emergency_summary_text ::
  "(str \<Rightarrow> bool) \<Rightarrow> str option \<Rightarrow> nat \<Rightarrow> 64 word \<Rightarrow> nat \<Rightarrow> Message list \<Rightarrow> str" where
  "build_emergency_summary_text al existing dropped_count pre_tokens token_budget dropped =
     (let (tools, mentions) = fold (collect_emergency_summary_hints al) dropped ({}, []);
          files = remdups_adj (sort mentions)
      in join (nl @ nl)
        ((case existing of Some e \<Rightarrow> if e = [] then [] else [e] | None \<Rightarrow> [])
         @ [''**[Emergency compaction]**: '' @ show_nat dropped_count
            @ '' messages were dropped to recover from context overflow. The conversation had ~''
            @ show_nat (unat pre_tokens div 1000) @ ''k tokens which exceeded the ''
            @ show_nat (token_budget div 1000) @ ''k limit.'']
         @ (if tools = {} then [] else [''Tools used: '' @ join '', '' (sorted_list_of_set tools)])
         @ (if files = [] then [] else [''Files referenced: '' @ join '', '' (take 30 files)])))"

section \<open>Emergency reduction of payloads\<close>

definition emergency_truncated_tool_result :: "str \<Rightarrow> nat \<Rightarrow> str" where
  "emergency_truncated_tool_result c max_chars =
     (let head = truncate_str_boundary c (max_chars div 2);
          tail = tail_str_boundary c (max_chars div 4);
          truncated_len = length c - (length head + length tail)
      in head @ nl @ nl @ ''... ['' @ show_nat truncated_len
         @ '' chars truncated for context recovery] ...'' @ nl @ nl @ tail)"

text \<open>Mutating every block of every message and counting the changes.\<close>

definition update_blocks ::
  "(ContentBlock \<Rightarrow> ContentBlock option) \<Rightarrow> Message list \<Rightarrow> Message list \<times> nat" where
  "update_blocks f ms =
     (map (\<lambda>m. m\<lparr>msg_content := map (\<lambda>b. case f b of Some b' \<Rightarrow> b' | None \<Rightarrow> b) (msg_content m)\<rparr>) ms,
      length (filter (\<lambda>b. f b \<noteq> None) (concat (map msg_content ms))))"

fun shrink_result :: "nat \<Rightarrow> ContentBlock \<Rightarrow> ContentBlock option" where
  "shrink_result max_chars (ToolResult i c e) =
     (if length c > max_chars then Some (ToolResult i (emergency_truncated_tool_result c max_chars) e)
      else None)"
| "shrink_result max_chars _ = None"

definition emergency_truncate_tool_results :: "Message list \<Rightarrow> nat \<Rightarrow> Message list \<times> nat" where
  "emergency_truncate_tool_results ms max_chars = update_blocks (shrink_result max_chars) ms"

definition emergency_image_marker :: "str \<Rightarrow> nat \<Rightarrow> str" where
  "emergency_image_marker media_type original_len =
     ''[Image omitted during emergency context recovery: media_type='' @ media_type
     @ '', original_base64_chars='' @ show_nat original_len
     @ ''. Rely on adjacent browser/tool text, screenshots saved to disk, or ''
     @ ''re-open/re-screenshot if visual details are needed.]''"

fun shrink_payload :: "nat \<Rightarrow> nat \<Rightarrow> ContentBlock \<Rightarrow> ContentBlock option" where
  "shrink_payload max_result max_image (ToolResult i c e) = shrink_result max_result (ToolResult i c e)"
| "shrink_payload max_result max_image (Image m d) =
     (if length d > max_image then Some (Text (emergency_image_marker m (length d)) None) else None)"
| "shrink_payload max_result max_image _ = None"

definition emergency_truncate_large_payloads :: "Message list \<Rightarrow> nat \<Rightarrow> nat \<Rightarrow> Message list \<times> nat" where
  "emergency_truncate_large_payloads ms max_result max_image =
     update_blocks (shrink_payload max_result max_image) ms"

section \<open>Request size errors\<close>

text \<open>\<open>match_indices\<close>: the starts of the non-overlapping matches, left to right, of a non-empty pattern.\<close>

function match_indices_from :: "str \<Rightarrow> str \<Rightarrow> nat \<Rightarrow> nat list" where
  "match_indices_from pat s i =
     (case find_str pat (drop i s) of
        None \<Rightarrow> []
      | Some j \<Rightarrow> (i + j) # (if pat = [] then [] else match_indices_from pat s (i + j + length pat)))"
  by pat_completeness auto
termination
proof (relation "measure (\<lambda>(pat, s, i). Suc (length s) - i)", simp)
  fix pat s :: str and i j assume "find_str pat (drop i s) = Some j" and "pat \<noteq> []"
  then show "((pat, s, i + j + length pat), (pat, s, i)) \<in> measure (\<lambda>(pat, s, i). Suc (length s) - i)"
    using find_str_Some [of pat "drop i s" j] by (cases pat) auto
qed

declare match_indices_from.simps [simp del]

definition contains_independent_status_code :: "str \<Rightarrow> str \<Rightarrow> bool" where
  "contains_independent_status_code haystack code =
     list_ex (\<lambda>start.
       (start = 0 \<or> \<not> is_ascii_digit (haystack ! (start - 1))) \<and>
       (start + length code = length haystack \<or> \<not> is_ascii_digit (haystack ! (start + length code))))
       (match_indices_from code haystack 0)"

definition is_request_payload_too_large_error :: "str \<Rightarrow> bool" where
  "is_request_payload_too_large_error err =
     (let lower = to_ascii_lowercase err in
      contains_str lower ''request_too_large'' \<or> contains_str lower ''request too large''
      \<or> contains_str lower ''payload too large'' \<or> contains_str lower ''request entity too large''
      \<or> contains_str lower ''request exceeds the maximum size''
      \<or> contains_str lower ''exceeds the maximum size''
      \<or> contains_independent_status_code lower ''413'')"

section \<open>Stripping images to a size budget\<close>

definition sat_add :: "nat \<Rightarrow> nat \<Rightarrow> nat" where
  "sat_add a b = min (a + b) (2 ^ 64 - 1)"

type_synonym contents = "ContentBlock list list"

definition block_positions :: "contents \<Rightarrow> (nat \<times> nat) list" where
  "block_positions cs = concat (map (\<lambda>ci. map (Pair ci) [0..<length (cs ! ci)]) [0..<length cs])"

fun image_len :: "ContentBlock \<Rightarrow> nat option" where
  "image_len (Image _ d) = Some (length d)"
| "image_len _ = None"

text \<open>Position and payload length of every image, oldest first.\<close>

definition image_positions :: "contents \<Rightarrow> (nat \<times> nat \<times> nat) list" where
  "image_positions cs =
     concat (map (\<lambda>(ci, bi). case image_len (cs ! ci ! bi) of Some n \<Rightarrow> [(ci, bi, n)] | None \<Rightarrow> [])
       (block_positions cs))"

definition size_image_marker :: "str \<Rightarrow> nat \<Rightarrow> str" where
  "size_image_marker media_type original_len =
     ''[Image omitted during request-size recovery: media_type='' @ media_type
     @ '', original_base64_chars='' @ show_nat original_len
     @ ''. The request body exceeded the provider size limit; older images were ''
     @ ''dropped. Rely on adjacent browser/tool text, screenshots saved to disk, or ''
     @ ''re-open/re-screenshot if visual details are needed.]''"

fun image_to_marker :: "ContentBlock \<Rightarrow> ContentBlock" where
  "image_to_marker (Image m d) = Text (size_image_marker m (length d)) None"
| "image_to_marker b = b"

fun strip_loop :: "nat \<Rightarrow> (nat \<times> nat \<times> nat) list \<Rightarrow> contents \<Rightarrow> nat \<Rightarrow> nat \<Rightarrow> contents \<times> nat" where
  "strip_loop target [] cs tot stripped = (cs, stripped)"
| "strip_loop target ((ci, bi, n) # images) cs tot stripped =
     (if tot \<le> target then (cs, stripped)
      else case image_len (cs ! ci ! bi) of
             Some _ \<Rightarrow> strip_loop target images
               (cs[ci := (cs ! ci)[bi := image_to_marker (cs ! ci ! bi)]]) (tot - n) (Suc stripped)
           | None \<Rightarrow> strip_loop target images cs tot stripped)"

definition strip_large_images_in_contents :: "contents \<Rightarrow> nat \<Rightarrow> contents \<times> nat" where
  "strip_large_images_in_contents cs target =
     (let images = image_positions cs;
          total = foldl (\<lambda>t (_, _, n). sat_add t n) 0 images
      in if total \<le> target then (cs, 0) else strip_loop target images cs total 0)"

definition emergency_strip_large_images :: "Message list \<Rightarrow> nat \<Rightarrow> Message list \<times> nat" where
  "emergency_strip_large_images ms target =
     (let (cs, n) = strip_large_images_in_contents (map msg_content ms) target
      in (map2 (\<lambda>m c. m\<lparr>msg_content := c\<rparr>) ms cs, n))"

section \<open>Tool calls and results in a stretch of messages\<close>

definition block_uses :: "ContentBlock list \<Rightarrow> str set" where
  "block_uses bs = {i. (True, i) \<in> set (concat (map block_tool_ids bs))}"

definition block_results :: "ContentBlock list \<Rightarrow> str set" where
  "block_results bs = {i. (False, i) \<in> set (concat (map block_tool_ids bs))}"

abbreviation uses :: "Message list \<Rightarrow> str set" where
  "uses ms \<equiv> block_uses (concat (map msg_content ms))"

abbreviation results :: "Message list \<Rightarrow> str set" where
  "results ms \<equiv> block_results (concat (map msg_content ms))"

text \<open>No result without its call.\<close>

definition tool_closed :: "Message list \<Rightarrow> bool" where
  "tool_closed ms \<longleftrightarrow> results ms \<subseteq> uses ms"

lemma block_ids_simps [simp]:
  "block_uses [] = {}" "block_results [] = {}"
  "block_uses (xs @ ys) = block_uses xs \<union> block_uses ys"
  "block_results (xs @ ys) = block_results xs \<union> block_results ys"
  by (auto simp: block_uses_def block_results_def)

lemma fold_scan_blocks:
  "M \<inter> A = {} \<Longrightarrow> fold scan_tool_block bs (A, M) =
     (A \<union> block_uses bs, (M \<union> block_results bs) - (A \<union> block_uses bs))"
proof (induction bs arbitrary: A M)
  case (Cons b bs)
  have c: "block_uses (b # bs) = block_uses [b] \<union> block_uses bs"
    "block_results (b # bs) = block_results [b] \<union> block_results bs"
    using block_ids_simps(3,4) [of "[b]" bs] by simp_all
  obtain A' M' where s: "scan_tool_block b (A, M) = (A', M')" by fastforce
  have e: "A' = A \<union> block_uses [b]" "M' = (M \<union> block_results [b]) - A'"
    using s Cons.prems by (cases b; auto simp: block_uses_def block_results_def split: if_splits)+
  then have "M' \<inter> A' = {}" by auto
  from Cons.IH [OF this] show ?case using e by (auto simp: s c)
qed auto

lemma scan_message_suffix:
  "scan_message m (uses ms, results ms - uses ms) = (uses (m # ms), results (m # ms) - uses (m # ms))"
  unfolding scan_message_def by (subst fold_scan_blocks) auto

lemma fold_scan_messages:
  "fold scan_message ms (uses acc, results acc - uses acc) =
     (uses (acc @ ms), results (acc @ ms) - uses (acc @ ms))"
proof (induction ms arbitrary: acc)
  case (Cons m ms)
  have "scan_message m (uses acc, results acc - uses acc) =
      (uses (acc @ [m]), results (acc @ [m]) - uses (acc @ [m]))"
    unfolding scan_message_suffix by auto
  with Cons [of "acc @ [m]"] show ?case by simp
qed simp

lemma walk_back_greatest:
  assumes "n \<le> length ms"
    and "c = walk_back ms n (uses (drop n ms), results (drop n ms) - uses (drop n ms))"
  shows "c \<le> n \<and> (c = 0 \<or> tool_closed (drop c ms)) \<and> (\<forall>k. c < k \<and> k < n \<longrightarrow> \<not> tool_closed (drop k ms))"
  using assms
proof (induction n arbitrary: c)
  case (Suc n)
  let ?st = "(uses (drop n ms), results (drop n ms) - uses (drop n ms))"
  have d: "drop n ms = ms ! n # drop (Suc n) ms" using Suc.prems(1) by (simp add: Cons_nth_drop_Suc)
  have st: "scan_message (ms ! n) (uses (drop (Suc n) ms), results (drop (Suc n) ms) - uses (drop (Suc n) ms)) = ?st"
    unfolding d by (rule scan_message_suffix)
  have closed: "snd ?st = {} \<longleftrightarrow> tool_closed (drop n ms)" by (simp add: tool_closed_def)
  have c: "c = (if tool_closed (drop n ms) then n else walk_back ms n ?st)"
    using Suc.prems(2) closed by (simp only: walk_back.simps Let_def st)
  show ?case
  proof (cases "tool_closed (drop n ms)")
    case True
    then show ?thesis using c by auto
  next
    case False
    then have "c = walk_back ms n ?st" using c by simp
    from Suc.IH [OF _ this] Suc.prems(1) have "c \<le> n \<and> (c = 0 \<or> tool_closed (drop c ms)) \<and>
        (\<forall>k. c < k \<and> k < n \<longrightarrow> \<not> tool_closed (drop k ms))" by simp
    with False show ?thesis by (metis le_SucI less_Suc_eq)
  qed
qed simp

lemma cutoff_cases:
  fixes ms n
  defines "k \<equiv> min n (length ms)"
  shows "safe_compaction_cutoff ms n = (if tool_closed (drop k ms) then k
    else walk_back ms k (uses (drop k ms), results (drop k ms) - uses (drop k ms)))"
  using fold_scan_messages [of "drop k ms" "[]"]
  by (simp add: safe_compaction_cutoff_def Let_def tool_closed_def k_def)

lemma safe_cutoff_best:
  "safe_compaction_cutoff ms n \<le> min n (length ms)
    \<and> (safe_compaction_cutoff ms n = 0 \<or> tool_closed (drop (safe_compaction_cutoff ms n) ms))
    \<and> (\<forall>k. safe_compaction_cutoff ms n < k \<and> k \<le> min n (length ms) \<longrightarrow> \<not> tool_closed (drop k ms))"
proof -
  let ?k = "min n (length ms)" and ?c = "safe_compaction_cutoff ms n"
  show ?thesis
  proof (cases "tool_closed (drop ?k ms)")
    case True
    then have "?c = ?k" by (simp add: cutoff_cases)
    with True show ?thesis by auto
  next
    case False
    then have "?c = walk_back ms ?k (uses (drop ?k ms), results (drop ?k ms) - uses (drop ?k ms))"
      by (simp add: cutoff_cases)
    from walk_back_greatest [OF _ this] False show ?thesis by (metis le_neq_implies_less min.cobounded2)
  qed
qed

text \<open>
  C36: the safe cutoff is the best one. It never exceeds the requested cutoff or the number of
  messages; from it on, every kept tool result has its tool call among the kept messages, unless it
  is 0 and nothing is compacted; every later admissible cutoff would separate some result from its
  call; and when the whole history is closed, so is the kept part.
\<close>

theorem safe_cutoff_greatest:
  "safe_compaction_cutoff ms n \<le> min n (length ms)
    \<and> (safe_compaction_cutoff ms n = 0 \<or> tool_closed (drop (safe_compaction_cutoff ms n) ms))
    \<and> (\<forall>k. safe_compaction_cutoff ms n < k \<and> k \<le> min n (length ms) \<longrightarrow> \<not> tool_closed (drop k ms))
    \<and> (tool_closed ms \<longrightarrow> tool_closed (drop (safe_compaction_cutoff ms n) ms))"
  using safe_cutoff_best [of ms n] by (metis drop0)

definition demo_tool_chat :: "Message list" where
  "demo_tool_chat =
     [user 0 ''go'',
      (assistant_text 1 ''calling'')\<lparr>msg_content := [ToolUse ''t1'' ''read'' (JObject []) None]\<rparr>,
      tool_result 2 ''t1'' ''data'' False, assistant_text 3 ''done'']"

theorem safe_cutoff_greatest_witness:
  "safe_compaction_cutoff demo_tool_chat 2 = 1 \<and> tool_closed (drop 1 demo_tool_chat)
    \<and> \<not> tool_closed (drop 2 demo_tool_chat)"
proof -
  note best = safe_cutoff_greatest [of demo_tool_chat 2]
  have c: "safe_compaction_cutoff demo_tool_chat 2 = 1" by code_simp
  have "min 2 (length demo_tool_chat) = 2" by code_simp
  with best have "\<forall>k. 1 < k \<and> k \<le> 2 \<longrightarrow> \<not> tool_closed (drop k demo_tool_chat)" unfolding c by simp
  moreover from best have "tool_closed (drop 1 demo_tool_chat)" unfolding c by simp
  ultimately show ?thesis using c by simp
qed

section \<open>Cutting at boundaries keeps text valid\<close>

lemma boundary_before_le: "boundary_before s e \<le> e"
  by (induction e) (auto intro: le_SucI)

lemma boundary_before_boundary: "is_char_boundary s (boundary_before s e)"
  by (induction e) (auto simp: is_char_boundary_def)

lemma boundary_before_greatest: "boundary_before s e < k \<Longrightarrow> k \<le> e \<Longrightarrow> \<not> is_char_boundary s k"
  by (induction e) (auto split: if_splits simp: le_Suc_eq)

lemma boundary_after_bounds:
  "i \<le> length s \<Longrightarrow> i \<le> boundary_after s i \<and> boundary_after s i \<le> length s
    \<and> is_char_boundary s (boundary_after s i)"
proof (induction s i rule: boundary_after.induct)
  case (1 s i)
  show ?case
  proof (cases "i < length s \<and> \<not> is_char_boundary s i")
    case True
    with 1 show ?thesis by (subst (1 2 3) boundary_after.simps) simp
  next
    case False
    with 1(2) show ?thesis by (subst (1 2 3) boundary_after.simps) (auto simp: is_char_boundary_def)
  qed
qed

lemma valid_split_at_boundary:
  assumes "utf8_valid s" and "is_char_boundary s i"
  shows "utf8_valid (take i s) \<and> utf8_valid (drop i s)"
proof (rule utf8_valid_cut)
  show "utf8_valid (take i s @ drop i s)" using assms(1) by simp
  show "drop i s = [] \<or> \<not> is_cont (hd (drop i s))"
    using assms utf8_valid_hd [OF assms(1)]
    by (auto simp: is_char_boundary_def hd_drop_conv_nth)
qed

lemma truncate_boundary_valid:
  assumes "utf8_valid s"
  shows "utf8_valid (truncate_str_boundary s n)" "length (truncate_str_boundary s n) \<le> n"
    "prefix (truncate_str_boundary s n) s"
proof -
  show "utf8_valid (truncate_str_boundary s n)"
    using assms valid_split_at_boundary [OF assms boundary_before_boundary]
    by (simp add: truncate_str_boundary_def)
  show "length (truncate_str_boundary s n) \<le> n"
    using boundary_before_le [of s "min n (length s)"] by (auto simp: truncate_str_boundary_def)
  show "prefix (truncate_str_boundary s n) s"
    by (simp add: truncate_str_boundary_def take_is_prefix)
qed

lemma tail_boundary_valid:
  assumes "utf8_valid s"
  shows "utf8_valid (tail_str_boundary s n)" "length (tail_str_boundary s n) \<le> n"
    "suffix (tail_str_boundary s n) s"
proof -
  have b: "length s - n \<le> boundary_after s (length s - n)"
    "is_char_boundary s (boundary_after s (length s - n))"
    using boundary_after_bounds [of "length s - n" s] by auto
  show "utf8_valid (tail_str_boundary s n)"
    using assms valid_split_at_boundary [OF assms b(2)] by (simp add: tail_str_boundary_def)
  show "length (tail_str_boundary s n) \<le> n"
    using b(1) unfolding tail_str_boundary_def by (cases "length s \<le> n") auto
  show "suffix (tail_str_boundary s n) s" by (simp add: tail_str_boundary_def suffix_drop)
qed

text \<open>A valid string has a boundary among any four consecutive positions.\<close>

lemma cont_run:
  assumes "utf8_valid s" and "i + 3 < length s" and "is_cont (s ! i)"
  shows "\<exists>k \<in> {i + 1, i + 2, i + 3}. \<not> is_cont (s ! k)"
  using assms
proof (induction s arbitrary: i rule: utf8_valid.induct)
  case (2 c s)
  let ?w = "utf8_width c - 1"
  have w3: "?w \<le> 3" by (simp add: utf8_width_def)
  obtain j where i: "i = Suc j" using 2(2,4) by (cases i) auto
  show ?case
  proof (cases "?w \<le> j")
    case True
    then have "\<exists>k \<in> {(j - ?w) + 1, (j - ?w) + 2, (j - ?w) + 3}. \<not> is_cont (drop ?w s ! k)"
      using 2 i by (intro 2(1)) auto
    then show ?thesis using True 2(2,3) i by (auto simp: nth_append add.commute)
  next
    case False
    have "s \<noteq> []" "drop ?w s \<noteq> []" using 2(3) i w3 by auto
    then have "\<not> is_cont (drop ?w s ! 0)" using 2(2) utf8_valid_hd [of "drop ?w s"] by (auto simp: hd_conv_nth)
    then have "\<not> is_cont ((c # s) ! Suc ?w)" using 2(3) i w3 by simp
    moreover have "Suc ?w \<in> {i + 1, i + 2, i + 3}" using False w3 i by auto
    ultimately show ?thesis by blast
  qed
qed simp

lemma truncate_boundary_tight:
  assumes "utf8_valid s" and "n < length s"
  shows "n < length (truncate_str_boundary s n) + 4"
proof (rule ccontr)
  assume a: "\<not> n < length (truncate_str_boundary s n) + 4"
  let ?b = "boundary_before s n"
  have len: "length (truncate_str_boundary s n) = ?b"
    using assms(2) boundary_before_le [of s n] by (simp add: truncate_str_boundary_def)
  have "is_cont (s ! k)" if "?b < k" "k \<le> n" for k
    using boundary_before_greatest [OF that] that assms(2) by (auto simp: is_char_boundary_def)
  then have "is_cont (s ! (?b + 1))" "is_cont (s ! (?b + 1 + 1))" "is_cont (s ! (?b + 1 + 2))"
    "is_cont (s ! (?b + 1 + 3))"
    using a len by auto
  moreover have "?b + 1 + 3 < length s" using a len assms(2) by simp
  ultimately show False using cont_run [OF assms(1), of "?b + 1"] by blast
qed


lemma length_show_nat: "n < 10 ^ Suc k \<Longrightarrow> length (show_nat n) \<le> Suc k"
proof (induction k arbitrary: n)
  case 0
  then show ?case by (subst show_nat.simps) simp
next
  case (Suc k)
  show ?case
  proof (cases "n < 10")
    case True
    then show ?thesis by (subst show_nat.simps) simp
  next
    case False
    have "n div 10 < 10 ^ Suc k" using Suc.prems by (simp add: less_mult_imp_div_less)
    from Suc.IH [OF this] False show ?thesis by (subst show_nat.simps) simp
  qed
qed

section \<open>Emergency truncation\<close>

lemma truncated_result_bounds:
  assumes "utf8_valid c" and "length c < 2 ^ 64"
  shows "utf8_valid (emergency_truncated_tool_result c m)"
    and "length (emergency_truncated_tool_result c m) \<le> m div 2 + m div 4 + 71"
proof -
  let ?h = "truncate_str_boundary c (m div 2)" and ?t = "tail_str_boundary c (m div 4)"
  let ?n = "show_nat (length c - (length ?h + length ?t))"
  have r: "emergency_truncated_tool_result c m = ?h @ (nl @ nl @ ''... ['') @ ?n
      @ ('' chars truncated for context recovery] ...'' @ nl @ nl) @ ?t"
    by (simp add: emergency_truncated_tool_result_def Let_def)
  have lits: "utf8_valid (nl @ nl @ ''... ['')"
    "utf8_valid ('' chars truncated for context recovery] ...'' @ nl @ nl)"
    by code_simp+
  have "utf8_valid ?n" using show_nat_digits by (intro utf8_valid_ascii) (fastforce simp: is_ascii_digit_def)
  then show "utf8_valid (emergency_truncated_tool_result c m)"
    unfolding r using lits truncate_boundary_valid(1) [OF assms(1)] tail_boundary_valid(1) [OF assms(1)]
    by (simp only: utf8_valid_append)
  have "(2::nat) ^ 64 \<le> 10 ^ Suc 19" by simp
  then have "length ?n \<le> Suc 19"
    using assms(2) by (intro length_show_nat) (metis diff_le_self le_less_trans less_le_trans)
  moreover have "length ?h \<le> m div 2" "length ?t \<le> m div 4"
    using truncate_boundary_valid(2) tail_boundary_valid(2) assms(1) by auto
  ultimately show "length (emergency_truncated_tool_result c m) \<le> m div 2 + m div 4 + 71"
    unfolding r by simp
qed

text \<open>Rewriting blocks in place: what holds for each block holds for the transcript.\<close>

lemma update_blocks_tool_ids:
  assumes "\<And>b b'. f b = Some b' \<Longrightarrow> block_tool_ids b' = block_tool_ids b"
  shows "map tool_ids (fst (update_blocks f ms)) = map tool_ids ms"
proof -
  have e: "block_tool_ids (case f b of Some b' \<Rightarrow> b' | None \<Rightarrow> b) = block_tool_ids b" for b
    using assms by (auto split: option.split)
  show ?thesis by (simp add: update_blocks_def tool_ids_def o_def e)
qed

lemma update_blocks_settles:
  assumes "\<And>m b b'. m \<in> set ms \<Longrightarrow> b \<in> set (msg_content m) \<Longrightarrow> f b = Some b' \<Longrightarrow> f b' = None"
  shows "update_blocks f (fst (update_blocks f ms)) = (fst (update_blocks f ms), 0)"
proof -
  let ?g = "\<lambda>b. case f b of Some b' \<Rightarrow> b' | None \<Rightarrow> b"
  have n: "f (?g b) = None" if "m \<in> set ms" "b \<in> set (msg_content m)" for m b
    using assms [OF that] by (auto split: option.split)
  then have "map (\<lambda>b. ?g (?g b)) (msg_content m) = map ?g (msg_content m)" if "m \<in> set ms" for m
    using that by (auto split: option.split)
  moreover have "filter (\<lambda>b. f b \<noteq> None) (concat (map msg_content (fst (update_blocks f ms)))) = []"
    using n by (auto simp: update_blocks_def filter_empty_conv)
  ultimately show ?thesis by (simp add: update_blocks_def o_def del: not_None_eq)
qed

definition results_in_memory :: "Message list \<Rightarrow> bool" where
  "results_in_memory ms \<longleftrightarrow> list_all (\<lambda>m. list_all (\<lambda>b.
     case b of ToolResult i c e \<Rightarrow> utf8_valid c \<and> length c < 2 ^ 64 | _ \<Rightarrow> True) (msg_content m)) ms"

lemma results_in_memoryD:
  "results_in_memory ms \<Longrightarrow> m \<in> set ms \<Longrightarrow> ToolResult i c e \<in> set (msg_content m) \<Longrightarrow>
    utf8_valid c \<and> length c < 2 ^ 64"
  by (fastforce simp: results_in_memory_def list_all_iff)

lemma truncated_result_fits:
  assumes "utf8_valid c" and "length c < 2 ^ 64" and "300 \<le> n"
  shows "length (emergency_truncated_tool_result c n) \<le> n"
proof -
  have "n div 2 + n div 4 + 71 \<le> n" using assms(3) by linarith
  with truncated_result_bounds(2) [OF assms(1,2), of n] show ?thesis by linarith
qed

lemma shrink_payload_Some:
  "shrink_payload r i b = Some b' \<longleftrightarrow>
     (\<exists>j c e. b = ToolResult j c e \<and> r < length c \<and> b' = ToolResult j (emergency_truncated_tool_result c r) e) \<or>
     (\<exists>m d. b = Image m d \<and> i < length d \<and> b' = Text (emergency_image_marker m (length d)) None)"
  by (cases b) auto

lemma shrink_result_Some:
  "shrink_result r b = Some b' \<longleftrightarrow>
     (\<exists>j c e. b = ToolResult j c e \<and> r < length c \<and> b' = ToolResult j (emergency_truncated_tool_result c r) e)"
  by (cases b) auto

lemma shrink_payload_settles:
  assumes "results_in_memory ms" and "300 \<le> r" and "m \<in> set ms" and "b \<in> set (msg_content m)"
    and "shrink_payload r i b = Some b'"
  shows "shrink_payload r i b' = None"
  using assms(5) unfolding shrink_payload_Some
proof (elim disjE exE conjE)
  fix j c e assume b: "b = ToolResult j c e" "b' = ToolResult j (emergency_truncated_tool_result c r) e"
  with results_in_memoryD [OF assms(1,3)] assms(4) have "utf8_valid c" "length c < 2 ^ 64" by blast+
  with truncated_result_fits assms(2) b show ?thesis by (simp add: linorder_not_less)
qed simp

lemma shrink_result_settles:
  assumes "results_in_memory ms" and "300 \<le> r" and "m \<in> set ms" and "b \<in> set (msg_content m)"
    and "shrink_result r b = Some b'"
  shows "shrink_result r b' = None"
proof -
  obtain j c e where b: "b = ToolResult j c e" "b' = ToolResult j (emergency_truncated_tool_result c r) e"
    using assms(5) unfolding shrink_result_Some by blast
  with results_in_memoryD [OF assms(1,3)] assms(4) have "utf8_valid c" "length c < 2 ^ 64" by blast+
  with truncated_result_fits assms(2) b show ?thesis by (simp add: linorder_not_less)
qed

text \<open>
  Supplement: one pass of emergency truncation is enough. With a limit of at least 300 bytes, afterwards no
  tool result exceeds the limit and no image its own, tool-call and tool-result ids are what they
  were, and a second pass, of either kind, finds nothing to do.
\<close>

theorem emergency_truncation_settles:
  assumes "results_in_memory ms" and "300 \<le> r"
  shows "map tool_ids (fst (emergency_truncate_large_payloads ms r i)) = map tool_ids ms
    \<and> emergency_truncate_large_payloads (fst (emergency_truncate_large_payloads ms r i)) r i =
        (fst (emergency_truncate_large_payloads ms r i), 0)
    \<and> list_all (\<lambda>m. list_all (\<lambda>b. case b of ToolResult _ c _ \<Rightarrow> length c \<le> r
        | Image _ d \<Rightarrow> length d \<le> i | _ \<Rightarrow> True) (msg_content m))
        (fst (emergency_truncate_large_payloads ms r i))
    \<and> map tool_ids (fst (emergency_truncate_tool_results ms r)) = map tool_ids ms
    \<and> emergency_truncate_tool_results (fst (emergency_truncate_tool_results ms r)) r =
        (fst (emergency_truncate_tool_results ms r), 0)"
proof -
  let ?out = "fst (emergency_truncate_large_payloads ms r i)"
  have ids: "map tool_ids ?out = map tool_ids ms"
    unfolding emergency_truncate_large_payloads_def
    by (rule update_blocks_tool_ids) (auto simp: shrink_payload_Some)
  have settled: "emergency_truncate_large_payloads ?out r i = (?out, 0)"
    unfolding emergency_truncate_large_payloads_def
    by (rule update_blocks_settles) (rule shrink_payload_settles [OF assms])
  then have "filter (\<lambda>b. shrink_payload r i b \<noteq> None) (concat (map msg_content ?out)) = []"
    by (subst (asm) emergency_truncate_large_payloads_def)
      (simp add: update_blocks_def del: not_None_eq)
  then have none: "shrink_payload r i b = None" if "m \<in> set ?out" "b \<in> set (msg_content m)" for m b
    using that by (auto simp: filter_empty_conv simp del: not_None_eq)
  have "list_all (\<lambda>m. list_all (\<lambda>b. case b of ToolResult _ c _ \<Rightarrow> length c \<le> r
        | Image _ d \<Rightarrow> length d \<le> i | _ \<Rightarrow> True) (msg_content m)) ?out"
    unfolding list_all_iff
  proof (intro ballI)
    fix m b assume "m \<in> set ?out" "b \<in> set (msg_content m)"
    from none [OF this] show "case b of ToolResult _ c _ \<Rightarrow> length c \<le> r
        | Image _ d \<Rightarrow> length d \<le> i | _ \<Rightarrow> True"
      by (cases b) (auto split: if_splits)
  qed
  moreover have "map tool_ids (fst (emergency_truncate_tool_results ms r)) = map tool_ids ms"
    unfolding emergency_truncate_tool_results_def
    by (rule update_blocks_tool_ids) (auto simp: shrink_result_Some)
  moreover have "emergency_truncate_tool_results (fst (emergency_truncate_tool_results ms r)) r =
      (fst (emergency_truncate_tool_results ms r), 0)"
    unfolding emergency_truncate_tool_results_def
    by (rule update_blocks_settles) (rule shrink_result_settles [OF assms])
  ultimately show ?thesis using ids settled by (intro conjI)
qed

definition demo_big_chat :: "Message list" where
  "demo_big_chat = [tool_result 0 ''t1'' (replicate 320 CHR ''x'') False]"

theorem emergency_truncation_settles_witness:
  "map tool_ids (fst (emergency_truncate_large_payloads demo_big_chat 300 10)) = [[(False, ''t1'')]]
    \<and> snd (emergency_truncate_large_payloads demo_big_chat 300 10) = 1
    \<and> snd (emergency_truncate_large_payloads
        (fst (emergency_truncate_large_payloads demo_big_chat 300 10)) 300 10) = 0"
proof -
  have "utf8_valid (replicate 320 CHR ''x'')" by (rule utf8_valid_ascii) simp
  then have "results_in_memory demo_big_chat"
    by (simp add: results_in_memory_def demo_big_chat_def tool_result_def tool_result_with_duration_def
        del: utf8_valid.simps)
  note done_once = emergency_truncation_settles [OF this order_refl, of 10]
  have "map tool_ids (fst (emergency_truncate_large_payloads demo_big_chat 300 10)) = map tool_ids demo_big_chat"
    using done_once by (elim conjE)
  moreover have "map tool_ids demo_big_chat = [[(False, ''t1'')]]" by code_simp
  moreover have "emergency_truncate_large_payloads (fst (emergency_truncate_large_payloads demo_big_chat 300 10)) 300 10 =
        (fst (emergency_truncate_large_payloads demo_big_chat 300 10), 0)"
    using done_once by (elim conjE)
  moreover have "snd (emergency_truncate_large_payloads demo_big_chat 300 10) = 1" by code_simp
  ultimately show ?thesis by simp
qed

section \<open>Image stripping\<close>

abbreviation image_lens :: "contents \<Rightarrow> nat list" where
  "image_lens cs \<equiv> map (\<lambda>(_, _, n). n) (image_positions cs)"

lemma distinct_block_positions: "distinct (block_positions cs)"
proof -
  have "distinct (concat (map (\<lambda>ci. map (Pair ci) [0..<f ci]) [0..<n]))" for f :: "nat \<Rightarrow> nat" and n
    by (induction n) (auto simp: distinct_map inj_on_def)
  then show ?thesis by (simp add: block_positions_def)
qed

lemma set_block_positions:
  "(ci, bi) \<in> set (block_positions cs) \<longleftrightarrow> ci < length cs \<and> bi < length (cs ! ci)"
  by (force simp: block_positions_def image_iff)

definition set_block :: "nat \<Rightarrow> nat \<Rightarrow> ContentBlock \<Rightarrow> contents \<Rightarrow> contents" where
  "set_block ci bi b cs = cs[ci := (cs ! ci)[bi := b]]"

lemma block_positions_set_block [simp]: "block_positions (set_block ci bi b cs) = block_positions cs"
proof -
  have "length (set_block ci bi b cs ! k) = length (cs ! k)" for k
    by (cases "ci < length cs"; cases "k = ci") (simp_all add: set_block_def list_update_beyond)
  then show ?thesis by (simp add: block_positions_def) (simp add: set_block_def)
qed

lemma set_block_nth:
  assumes "ci < length cs" and "bi < length (cs ! ci)"
  shows "set_block ci bi b cs ! cj ! bj = (if (cj, bj) = (ci, bi) then b else cs ! cj ! bj)"
  using assms by (auto simp: set_block_def nth_list_update)

lemma concat_map_remove_first:
  assumes "distinct ps" and "concat (map f ps) = y # ys" and "p \<in> set ps"
    and "f p = [y]" and "\<And>q. q \<noteq> p \<Longrightarrow> g q = f q" and "g p = []"
    and "\<And>q. q \<in> set ps \<Longrightarrow> q \<noteq> p \<Longrightarrow> y \<notin> set (f q)"
  shows "concat (map g ps) = ys"
  using assms
proof (induction ps)
  case (Cons q ps)
  show ?case
  proof (cases "q = p")
    case True
    then have "p \<notin> set ps" using Cons.prems(1) by auto
    then have "map g ps = map f ps" using Cons.prems(5) by (metis map_cong)
    then have "concat (map g ps) = concat (map f ps)" by (rule arg_cong)
    with True Cons.prems(2,4,6) show ?thesis by simp
  next
    case False
    then have "f q = []" using Cons.prems(2) Cons.prems(7) [of q] by (cases "f q") auto
    with False Cons show ?thesis by auto
  qed
qed simp

lemma image_positions_strip:
  assumes "image_positions cs = (ci, bi, n) # ps"
  shows "image_len (cs ! ci ! bi) = Some n" and "ci < length cs" and "bi < length (cs ! ci)"
    and "image_len b = None \<Longrightarrow> image_positions (set_block ci bi b cs) = ps"
proof -
  let ?f = "\<lambda>cs (ci, bi). case image_len (cs ! ci ! bi) of Some n \<Rightarrow> [(ci, bi, n)] | None \<Rightarrow> []"
  have "(ci, bi, n) \<in> set (image_positions cs)" using assms by simp
  then have m: "(ci, bi) \<in> set (block_positions cs)" "image_len (cs ! ci ! bi) = Some n"
    by (auto simp: image_positions_def split: option.splits)
  then show "image_len (cs ! ci ! bi) = Some n" "ci < length cs" "bi < length (cs ! ci)"
    by (auto simp: set_block_positions)
  show "image_positions (set_block ci bi b cs) = ps" if "image_len b = None"
    unfolding image_positions_def block_positions_set_block
  proof (rule concat_map_remove_first [OF distinct_block_positions _ m(1)])
    show "concat (map (?f cs) (block_positions cs)) = (ci, bi, n) # ps"
      using assms by (simp add: image_positions_def)
    show "?f cs (ci, bi) = [(ci, bi, n)]" using m(2) by simp
    show "?f (set_block ci bi b cs) q = ?f cs q" if "q \<noteq> (ci, bi)" for q
      using that m(1) by (cases q) (auto simp: set_block_positions set_block_nth)
    show "?f (set_block ci bi b cs) (ci, bi) = []"
      using that m(1) by (simp add: set_block_positions set_block_nth)
    show "(ci, bi, n) \<notin> set (?f cs q)" if "q \<noteq> (ci, bi)" for q
      using that by (cases q) (auto split: option.splits)
  qed
qed

lemma image_len_marker [simp]: "image_len (image_to_marker b) = None"
  by (cases b) simp_all

lemma image_to_marker_id: "image_len b = None \<Longrightarrow> image_to_marker b = b"
  by (cases b) simp_all

text \<open>The loop, told as replacing images at the recorded positions.\<close>

definition same_shape :: "contents \<Rightarrow> contents \<Rightarrow> bool" where
  "same_shape cs ds \<longleftrightarrow> block_positions ds = block_positions cs \<and> length ds = length cs \<and>
     (\<forall>ci bi. ds ! ci ! bi = cs ! ci ! bi \<or>
        image_len (cs ! ci ! bi) \<noteq> None \<and> ds ! ci ! bi = image_to_marker (cs ! ci ! bi))"

lemma strip_loop_effect:
  assumes "image_positions cs = ps" and "t = sum_list (image_lens cs)"
  shows "\<exists>k. snd (strip_loop target ps cs t s) = s + k \<and> k \<le> length ps
    \<and> image_positions (fst (strip_loop target ps cs t s)) = drop k ps
    \<and> sum_list (image_lens (fst (strip_loop target ps cs t s))) \<le> target
    \<and> (\<forall>j<k. target < sum_list (map (\<lambda>(_, _, n). n) (drop j ps)))
    \<and> same_shape cs (fst (strip_loop target ps cs t s))"
  using assms
proof (induction ps arbitrary: cs t s)
  case Nil
  then show ?case by (simp add: same_shape_def)
next
  case (Cons p ps)
  obtain ci bi n where p: "p = (ci, bi, n)" by (cases p)
  note here = image_positions_strip [OF Cons.prems(1) [unfolded p]]
  show ?case
  proof (cases "t \<le> target")
    case True
    then have "strip_loop target (p # ps) cs t s = (cs, s)" by (simp add: p)
    with True Cons.prems show ?thesis by (intro exI [of _ 0]) (simp add: same_shape_def)
  next
    case False
    let ?b = "image_to_marker (cs ! ci ! bi)"
    let ?cs = "set_block ci bi ?b cs"
    have step: "strip_loop target (p # ps) cs t s = strip_loop target ps ?cs (t - n) (Suc s)"
      using False here(1) by (simp add: p set_block_def)
    have pos: "image_positions ?cs = ps" by (rule here(4)) simp
    have "t - n = sum_list (image_lens ?cs)" using Cons.prems by (simp add: pos p)
    from Cons.IH [OF pos this, of "Suc s"] obtain k where
      k: "snd (strip_loop target ps ?cs (t - n) (Suc s)) = Suc s + k" "k \<le> length ps"
        "image_positions (fst (strip_loop target ps ?cs (t - n) (Suc s))) = drop k ps"
        "sum_list (image_lens (fst (strip_loop target ps ?cs (t - n) (Suc s)))) \<le> target"
        "\<forall>j<k. target < sum_list (map (\<lambda>(_, _, n). n) (drop j ps))"
        "same_shape ?cs (fst (strip_loop target ps ?cs (t - n) (Suc s)))"
      by blast
    have "\<forall>j<Suc k. target < sum_list (map (\<lambda>(_, _, n). n) (drop j (p # ps)))"
    proof (intro allI impI)
      fix j assume "j < Suc k"
      then show "target < sum_list (map (\<lambda>(_, _, n). n) (drop j (p # ps)))"
        using k(5) False Cons.prems by (cases j) auto
    qed
    moreover have "same_shape cs (fst (strip_loop target ps ?cs (t - n) (Suc s)))"
      using k(6) here(1-3) unfolding same_shape_def
      by (auto simp: set_block_nth set_block_def [of ci bi ?b cs, symmetric] image_to_marker_id
          split: if_splits) (simp add: set_block_def)
    ultimately show ?thesis using k(1-4) unfolding step by (intro exI [of _ "Suc k"]) simp
  qed
qed


lemma foldl_sat_add:
  "t + sum_list (map (\<lambda>(_, _, n). n) ps) < 2 ^ 64 \<Longrightarrow>
    foldl (\<lambda>t (_, _, n). sat_add t n) t ps = t + sum_list (map (\<lambda>(_, _, n). n) ps)"
proof (induction ps arbitrary: t)
  case (Cons p ps)
  obtain a b n where p: "p = (a, b, n)" by (cases p)
  have "sat_add t n = t + n" using Cons.prems by (simp add: sat_add_def p)
  with Cons show ?case by (simp add: p)
qed simp

text \<open>
  Supplement: recovery from an oversized request. When the images together have fewer than \<open>2^64\<close> bytes,
  stripping leaves a transcript of the same shape whose images are the most recent ones of the
  original and fit the budget; it strips no more images than needed; every other block is untouched
  and every stripped image became its text marker.
\<close>

theorem image_stripping_fits_budget:
  assumes "sum_list (image_lens cs) < 2 ^ 64"
  shows "case strip_large_images_in_contents cs target of (ds, k) \<Rightarrow>
    image_positions ds = drop k (image_positions cs)
    \<and> sum_list (image_lens ds) \<le> target
    \<and> (\<forall>j<k. target < sum_list (drop j (image_lens cs)))
    \<and> length ds = length cs \<and> map length ds = map length cs
    \<and> (\<forall>ci bi. ds ! ci ! bi = cs ! ci ! bi \<or>
        image_len (cs ! ci ! bi) \<noteq> None \<and> ds ! ci ! bi = image_to_marker (cs ! ci ! bi))"
proof -
  let ?ps = "image_positions cs"
  have sum: "foldl (\<lambda>t (_, _, n). sat_add t n) 0 ?ps = sum_list (image_lens cs)"
    using foldl_sat_add [of 0 ?ps] assms by simp
  have lens: "map length ds = map length cs" if "block_positions ds = block_positions cs" "length ds = length cs"
    for ds cs :: contents
  proof (rule nth_equalityI)
    fix i assume i: "i < length (map length ds)"
    have "bi < length (ds ! i) \<longleftrightarrow> bi < length (cs ! i)" for bi
      using that i set_block_positions [of i bi ds] set_block_positions [of i bi cs] by simp
    from this [of "length (ds ! i)"] this [of "length (cs ! i)"]
    have "length (ds ! i) = length (cs ! i)" by simp
    then show "map length ds ! i = map length cs ! i" using i that(2) by simp
  qed (simp add: that(2))
  show ?thesis
  proof (cases "sum_list (image_lens cs) \<le> target")
    case True
    then show ?thesis by (simp add: strip_large_images_in_contents_def Let_def sum)
  next
    case False
    let ?r = "strip_loop target ?ps cs (sum_list (image_lens cs)) 0"
    have r: "strip_large_images_in_contents cs target = ?r"
      using False by (simp add: strip_large_images_in_contents_def Let_def sum)
    from strip_loop_effect [OF refl refl, of target cs 0] obtain k where
      k: "snd ?r = k" "image_positions (fst ?r) = drop k ?ps" "sum_list (image_lens (fst ?r)) \<le> target"
        "\<forall>j<k. target < sum_list (map (\<lambda>(_, _, n). n) (drop j ?ps))" "same_shape cs (fst ?r)"
      by auto
    obtain ds where ds: "?r = (ds, k)" using k(1) by (cases ?r) auto
    have shape: "block_positions ds = block_positions cs" "length ds = length cs"
      "\<forall>ci bi. ds ! ci ! bi = cs ! ci ! bi \<or>
        image_len (cs ! ci ! bi) \<noteq> None \<and> ds ! ci ! bi = image_to_marker (cs ! ci ! bi)"
      using k(5) unfolding ds same_shape_def fst_conv by blast+
    show ?thesis
      unfolding r ds case_prod_conv
      using k(2-4) [unfolded ds fst_conv] shape lens [OF shape(1,2)] by (simp only: drop_map simp_thms)
  qed
qed

definition demo_images :: contents where
  "demo_images = [[Image ''png'' ''aaaa'', Text ''hi'' None], [Image ''png'' ''bb'']]"

theorem image_stripping_fits_budget_witness:
  "case strip_large_images_in_contents demo_images 3 of (ds, k) \<Rightarrow>
    sum_list (image_lens ds) \<le> 3 \<and> k = 1 \<and> image_lens ds = [2] \<and> ds ! 0 ! 1 = Text ''hi'' None"
proof -
  have "sum_list (image_lens demo_images) < 2 ^ 64"
    by (simp add: demo_images_def image_positions_def block_positions_def)
  note fits = image_stripping_fits_budget [OF this, of 3]
  obtain ds k where r: "strip_large_images_in_contents demo_images 3 = (ds, k)" by fastforce
  have "case strip_large_images_in_contents demo_images 3 of (ds, k) \<Rightarrow>
      k = 1 \<and> image_lens ds = [2] \<and> ds ! 0 ! 1 = Text ''hi'' None"
    by (simp add: demo_images_def image_positions_def block_positions_def sat_add_def Let_def
        strip_large_images_in_contents_def)
  with fits show ?thesis unfolding r case_prod_conv by blast
qed

section \<open>Status codes\<close>

lemma prefix_drop_nth:
  assumes "prefix p (drop a s)" and "m < length p"
  shows "s ! (a + m) = p ! m"
proof -
  obtain r where r: "drop a s = p @ r" using assms(1) by (auto simp: prefix_def)
  have "a \<le> length s" using r assms(2) by (cases "a \<le> length s") auto
  then have "s ! (a + m) = drop a s ! m" by simp
  also have "\<dots> = p ! m" using r assms(2) by (simp add: nth_append)
  finally show ?thesis .
qed

lemma match_indices_sound:
  "k \<in> set (match_indices_from pat s i) \<Longrightarrow> i \<le> k \<and> prefix pat (drop k s) \<and> k + length pat \<le> length s \<or> length s < i"
proof (induction pat s i rule: match_indices_from.induct)
  case (1 pat s i)
  show ?case
  proof (cases "find_str pat (drop i s)")
    case None
    with 1(2) show ?thesis by (subst (asm) match_indices_from.simps) simp
  next
    case (Some j)
    have j: "prefix pat (drop (i + j) s)" "i + j + length pat \<le> length s \<or> length s < i"
      using find_str_Some [OF Some] by (auto simp: add.commute)
    from 1(2) Some consider "k = i + j" | "pat \<noteq> []" "k \<in> set (match_indices_from pat s (i + j + length pat))"
      by (subst (asm) match_indices_from.simps) (auto split: if_splits)
    then show ?thesis
    proof cases
      case 1
      with j show ?thesis by auto
    next
      case 2
      with 1(1) [OF Some 2(1) 2(2)] j show ?thesis by auto
    qed
  qed
qed

text \<open>An occurrence the left-to-right search skips starts inside an earlier match, so for a code of
  digits its predecessor is a digit.\<close>

lemma match_indices_complete:
  assumes "list_all is_ascii_digit pat" and "pat \<noteq> []" and "prefix pat (drop k s)" and "i \<le> k"
    and "k = i \<or> k = 0 \<or> \<not> is_ascii_digit (s ! (k - 1))"
  shows "k \<in> set (match_indices_from pat s i)"
  using assms
proof (induction pat s i rule: match_indices_from.induct)
  case (1 pat s i)
  have ki: "prefix pat (drop (k - i) (drop i s))" using 1(4,5) by (simp add: 1(5))
  then obtain j where j: "find_str pat (drop i s) = Some j"
    using find_str_None [of pat "drop i s"] by (cases "find_str pat (drop i s)") auto
  have "j \<le> k - i" using find_str_first [OF j] ki by (meson not_le_imp_less)
  show ?case
  proof (cases "k = i + j")
    case True
    then show ?thesis using j by (subst match_indices_from.simps) simp
  next
    case False
    with \<open>j \<le> k - i\<close> 1(5) have lt: "i + j < k" by simp
    have jp: "prefix pat (drop (i + j) s)" using find_str_Some [OF j] by (simp add: add.commute)
    have "i + j + length pat \<le> k"
    proof (rule ccontr)
      assume "\<not> i + j + length pat \<le> k"
      then have d: "k - 1 - (i + j) < length pat" using lt by linarith
      have "s ! (i + j + (k - 1 - (i + j))) = pat ! (k - 1 - (i + j))"
        by (rule prefix_drop_nth [OF jp d])
      then have "s ! (k - 1) = pat ! (k - 1 - (i + j))" using lt by simp
      then have "is_ascii_digit (s ! (k - 1))" using 1(2) d by (simp add: list_all_length)
      with 1(6) lt show False by auto
    qed
    with 1(1) [OF j 1(3) 1(2,3,4)] 1(6) lt 1(3) have "k \<in> set (match_indices_from pat s (i + j + length pat))"
      by auto
    then show ?thesis using j 1(3) by (subst match_indices_from.simps) simp
  qed
qed


text \<open>
  Supplement: the request-size test reads status codes exactly. For a code made of digits, the search
  succeeds precisely when the code occurs with no digit before and none after it, whatever matches
  the left-to-right search passes over; an error is a size error precisely when its lower-cased text
  has one of the known phrases or such a 413.
\<close>

theorem status_code_search_exact:
  assumes "list_all is_ascii_digit code" and "code \<noteq> []"
  shows "(contains_independent_status_code s code \<longleftrightarrow>
      (\<exists>p q. s = p @ code @ q \<and> (p = [] \<or> \<not> is_ascii_digit (last p)) \<and> (q = [] \<or> \<not> is_ascii_digit (hd q))))
    \<and> (is_request_payload_too_large_error e \<longleftrightarrow>
      list_ex (contains_str (to_ascii_lowercase e))
        [''request_too_large'', ''request too large'', ''payload too large'', ''request entity too large'',
         ''exceeds the maximum size'']
      \<or> contains_independent_status_code (to_ascii_lowercase e) ''413'')"
proof -
  let ?at = "\<lambda>k. (k = 0 \<or> \<not> is_ascii_digit (s ! (k - 1))) \<and>
    (k + length code = length s \<or> \<not> is_ascii_digit (s ! (k + length code)))"
  have "contains_independent_status_code s code \<longleftrightarrow> (\<exists>k. prefix code (drop k s) \<and> ?at k)"
    using match_indices_sound [of _ code s 0] match_indices_complete [OF assms, of _ s 0]
    by (auto simp: contains_independent_status_code_def list_ex_iff)
  also have "\<dots> \<longleftrightarrow> (\<exists>p q. s = p @ code @ q \<and> (p = [] \<or> \<not> is_ascii_digit (last p)) \<and>
      (q = [] \<or> \<not> is_ascii_digit (hd q)))"
  proof
    assume "\<exists>k. prefix code (drop k s) \<and> ?at k"
    then obtain k q where k: "drop k s = code @ q" "?at k" by (auto simp: prefix_def)
    have kl: "k < length s" using k(1) assms(2) by (cases "k < length s") auto
    have s: "s = take k s @ code @ q" using k(1) by (metis append_take_drop_id)
    have "take k s = [] \<or> \<not> is_ascii_digit (last (take k s))"
      using k(2) kl by (cases "k = 0") (auto simp: last_conv_nth)
    moreover have "s ! (k + length code) = hd q" if "q \<noteq> []"
      using arg_cong [OF k(1), of "\<lambda>x. x ! length code"] kl that by (simp add: nth_append hd_conv_nth)
    moreover have "length s = k + length code + length q" using arg_cong [OF k(1), of length] kl by simp
    ultimately show "\<exists>p q. s = p @ code @ q \<and> (p = [] \<or> \<not> is_ascii_digit (last p)) \<and>
      (q = [] \<or> \<not> is_ascii_digit (hd q))" using s k(2) by (intro exI [of _ "take k s"] exI [of _ q]) auto
  next
    assume "\<exists>p q. s = p @ code @ q \<and> (p = [] \<or> \<not> is_ascii_digit (last p)) \<and>
      (q = [] \<or> \<not> is_ascii_digit (hd q))"
    then obtain p q where s: "s = p @ code @ q" "p = [] \<or> \<not> is_ascii_digit (last p)"
      "q = [] \<or> \<not> is_ascii_digit (hd q)" by blast
    have "?at (length p)"
      using s(2,3) unfolding s(1) by (auto simp: nth_append last_conv_nth hd_conv_nth)
    then show "\<exists>k. prefix code (drop k s) \<and> ?at k" by (intro exI [of _ "length p"]) (simp add: s(1))
  qed
  finally have "contains_independent_status_code s code \<longleftrightarrow> (\<exists>p q. s = p @ code @ q \<and>
      (p = [] \<or> \<not> is_ascii_digit (last p)) \<and> (q = [] \<or> \<not> is_ascii_digit (hd q)))" .
  moreover have "contains_str l ''request exceeds the maximum size'' \<longrightarrow> contains_str l ''exceeds the maximum size''"
    for l
  proof
    assume c: "contains_str l ''request exceeds the maximum size''"
    have "''request exceeds the maximum size'' = ''request '' @ ''exceeds the maximum size'' @ []" by simp
    then have "sublist ''exceeds the maximum size'' ''request exceeds the maximum size''"
      unfolding sublist_def by blast
    from sublist_order.order_trans [OF this c [unfolded contains_str_sublist]]
    show "contains_str l ''exceeds the maximum size''" unfolding contains_str_sublist .
  qed
  ultimately show ?thesis by (auto simp: is_request_payload_too_large_error_def Let_def)
qed

theorem status_code_search_exact_witness:
  "contains_independent_status_code ''code 4131 or 413.'' ''413''
    \<and> \<not> contains_independent_status_code ''code 4131'' ''413''
    \<and> is_request_payload_too_large_error ''HTTP 413''"
proof -
  have d: "list_all is_ascii_digit ''413''" "''413'' \<noteq> []" by code_simp+
  have "''code 4131 or 413.'' = ''code 4131 or '' @ ''413'' @ ''.''" by simp
  moreover have "\<not> is_ascii_digit (last ''code 4131 or '')" "\<not> is_ascii_digit (hd ''.'')" by code_simp+
  ultimately have "contains_independent_status_code ''code 4131 or 413.'' ''413''"
    using status_code_search_exact [OF d, of "''code 4131 or 413.''"] by blast
  moreover have "\<not> contains_independent_status_code ''code 4131'' ''413''"
    "is_request_payload_too_large_error ''HTTP 413''" by code_simp+
  ultimately show ?thesis by simp
qed


section \<open>The length of the summary prompt\<close>

lemma prompt_marker_length: "length prompt_truncation_marker = 61"
  by (simp add: prompt_truncation_marker_def)

text \<open>
  Supplement: how long the summary prompt gets. A conversation that fits with the reserve of 50 bytes gives
  a prompt within the limit. A longer one is cut at a character boundary and the prompt then stays
  within the limit plus 18 bytes, because the truncation marker and the separator are longer than
  the reserve; the excess is reached whenever the cut falls on a character boundary.
\<close>

theorem compaction_prompt_length:
  fixes json_text ms existing
  defines "conv \<equiv> build_compaction_conversation_text json_text ms existing"
    and "overhead \<equiv> length SUMMARY_PROMPT + 50"
  assumes "utf8_valid conv" and "overhead < n"
  shows "length (build_compaction_prompt json_text ms existing n) \<le> n + 18
    \<and> (length conv + overhead \<le> n \<longrightarrow> length (build_compaction_prompt json_text ms existing n) \<le> n)
    \<and> (n < length conv + overhead \<and> is_char_boundary conv (n - overhead) \<longrightarrow>
        length (build_compaction_prompt json_text ms existing n) = n + 18)"
proof (cases "n < length conv + overhead")
  case True
  let ?t = "truncate_str_boundary conv (n - overhead)"
  have e: "length (build_compaction_prompt json_text ms existing n) = length ?t + 68 + length SUMMARY_PROMPT"
    using True assms(4)
    by (simp add: build_compaction_prompt_def conv_def [symmetric] overhead_def [symmetric] Let_def
        prompt_marker_length)
  have "length ?t = n - overhead" if b: "is_char_boundary conv (n - overhead)"
  proof -
    have "boundary_before conv (n - overhead) = n - overhead"
      using boundary_before_le [of conv "n - overhead"] boundary_before_greatest [of conv "n - overhead"] b
      by (meson le_neq_implies_less order_refl)
    then show ?thesis using True assms(4) by (auto simp: truncate_str_boundary_def)
  qed
  then show ?thesis
    using truncate_boundary_valid(2) [OF assms(3), of "n - overhead"] True assms(4)
    by (auto simp: e overhead_def)
next
  case False
  then have "length (build_compaction_prompt json_text ms existing n) = length conv + 7 + length SUMMARY_PROMPT"
    by (simp add: build_compaction_prompt_def conv_def [symmetric] overhead_def [symmetric] Let_def)
  with False show ?thesis by (simp add: overhead_def)
qed

definition demo_summary :: Summary where
  "demo_summary = \<lparr>summary_text = ''hi'', openai_encrypted_content = None, covers_up_to_turn = 0,
     original_turn_count = 0\<rparr>"

theorem compaction_prompt_length_witness:
  "length (build_compaction_prompt (\<lambda>_. []) [] (Some demo_summary) (length SUMMARY_PROMPT + 51)) =
     length SUMMARY_PROMPT + 51 + 18"
proof -
  let ?conv = "build_compaction_conversation_text (\<lambda>_. []) [] (Some demo_summary)"
  have v: "utf8_valid ?conv" and b: "is_char_boundary ?conv 1" and l: "1 < length ?conv" by code_simp+
  have "length SUMMARY_PROMPT + 50 < length SUMMARY_PROMPT + 51" by simp
  note len = compaction_prompt_length [where json_text = "\<lambda>_. []" and ms = "[]"
      and existing = "Some demo_summary", OF v this]
  have "length SUMMARY_PROMPT + 51 - (length SUMMARY_PROMPT + 50) = 1" by simp
  with len b l show ?thesis by simp
qed

section \<open>Usage reports\<close>

lemma unat_saturating_add: "unat (saturating_add a b) = min (unat a + unat b) (2 ^ 64 - 1)"
proof (cases "unat a + unat b < 2 ^ 64")
  case True
  then have u: "unat (a + b) = unat a + unat b" by (simp add: unat_word_ariths)
  then have "\<not> a + b < a" by (simp add: word_less_nat_alt)
  with u True show ?thesis by (simp add: saturating_add_def)
next
  case False
  have ab: "unat a < 2 ^ 64" "unat b < 2 ^ 64" using unsigned_less [of a] unsigned_less [of b] by simp_all
  have "unat (a + b) = (unat a + unat b) mod 2 ^ 64" by (simp add: unat_word_ariths)
  also have "\<dots> = unat a + unat b - 2 ^ 64" using False ab by (simp add: mod_if)
  finally have "a + b < a" using ab False by (simp add: word_less_nat_alt)
  then show ?thesis using False by (simp add: saturating_add_def unsigned_minus_1_eq_mask mask_eq_exp_minus_1)
qed


text \<open>
  Supplement: the context size read from a usage report never wraps around. With split accounting it is the
  sum of the three counters, capped at the largest 64-bit value; with subset accounting, and for a
  report of zero input, it is the input count itself. A provider whose lower-cased name mentions
  Anthropic or Claude always gets split accounting.
\<close>

theorem usage_tokens_saturate:
  "unat (effective_context_tokens_from_usage lower name i r c) =
     (if i = 0 then 0
      else if contains_str (lower name) ''anthropic'' \<or> contains_str (lower name) ''claude''
          \<or> (\<exists>n. c = Some n \<and> 0 < n) \<or> (\<exists>n. r = Some n \<and> i < n)
        then min (unat i + (case r of Some n \<Rightarrow> unat n | None \<Rightarrow> 0) + (case c of Some n \<Rightarrow> unat n | None \<Rightarrow> 0))
          (2 ^ 64 - 1)
      else unat i)"
proof -
  define x where "x = (case r of Some n \<Rightarrow> n | None \<Rightarrow> 0)"
  define y where "y = (case c of Some n \<Rightarrow> n | None \<Rightarrow> 0)"
  have "unat x = (case r of Some n \<Rightarrow> unat n | None \<Rightarrow> 0)" "unat y = (case c of Some n \<Rightarrow> unat n | None \<Rightarrow> 0)"
    by (simp_all add: x_def y_def split: option.split)
  moreover have "y > 0 \<longleftrightarrow> (\<exists>n. c = Some n \<and> 0 < n)" "x > i \<longleftrightarrow> (\<exists>n. r = Some n \<and> i < n)"
    by (simp_all add: x_def y_def split: option.split)
  moreover have "unat (saturating_add (saturating_add i x) y) = min (unat i + unat x + unat y) (2 ^ 64 - 1)"
    by (simp add: unat_saturating_add min_def)
  ultimately show ?thesis
    by (simp only: effective_context_tokens_from_usage_def x_def [symmetric] y_def [symmetric] Let_def
        if_distrib [of unat] unat_0 disj_assoc cong: if_cong)
qed

end
