(* ===== verification/Compaction_Manager.thy ===== *)
theory Compaction_Manager
  imports Compaction
begin

text \<open>
  The compaction manager (\<^verbatim>\<open>src/crates/jcode-base/src/compaction.rs\<close>): the bookkeeping that
  decides which leading messages of a conversation are replaced by a summary. The manager does not
  own the messages; every operation takes the caller's list. A background summary is a task that is
  running, finished with a result, or failed; when it finishes is up to the environment. \<open>usize\<close>
  counts and sizes of data in memory are natural numbers. Context usage is a ratio of 32-bit floats.
  What rests on embeddings is an argument: the fields of the record \<open>heuristics\<close> say what the
  embedding model would answer. A panic of the code is the result \<open>None\<close>. Log lines are omitted.
\<close>

section \<open>32-bit floats\<close>

definition f32_round :: "rat \<Rightarrow> f64" where
  "f32_round q =
     (if q = 0 then Fin 0
      else let u = max (binary_exponent q - 23) (- 149);
               m = round_half_even (q / pow2 u)
           in if 104 < u \<or> u = 104 \<and> m = 2 ^ 24 then PInf else Fin (of_int m * pow2 u))"

fun f32_div :: "f64 \<Rightarrow> f64 \<Rightarrow> f64" where
  "f32_div NaN _ = NaN"
| "f32_div _ NaN = NaN"
| "f32_div PInf PInf = NaN"
| "f32_div PInf (Fin _) = PInf"
| "f32_div (Fin _) PInf = Fin 0"
| "f32_div (Fin a) (Fin b) =
     (if b = 0 then (if a = 0 then NaN else PInf) else f32_round (a / b))"

definition COMPACTION_THRESHOLD :: f64 where "COMPACTION_THRESHOLD = f32_round (80 / 100)"
definition CRITICAL_THRESHOLD :: f64 where "CRITICAL_THRESHOLD = f32_round (95 / 100)"
definition MANUAL_COMPACT_MIN_THRESHOLD :: f64 where "MANUAL_COMPACT_MIN_THRESHOLD = f32_round (10 / 100)"
definition TOKEN_HISTORY_WINDOW :: nat where "TOKEN_HISTORY_WINDOW = 20"

section \<open>Signed doubles\<close>

text \<open>The growth projection subtracts; its numbers may be negative when a configured weight exceeds 1.
  \<open>SInf True\<close> is negative infinity. The sign of zero is not kept: no comparison here sees it.\<close>

datatype sdouble = SNaN | SInf bool | SFin rat

fun sdouble_of :: "f64 \<Rightarrow> sdouble" where
  "sdouble_of NaN = SNaN"
| "sdouble_of PInf = SInf False"
| "sdouble_of (Fin q) = SFin q"

fun s_neg :: "sdouble \<Rightarrow> sdouble" where
  "s_neg SNaN = SNaN"
| "s_neg (SInf n) = SInf (\<not> n)"
| "s_neg (SFin q) = SFin (- q)"

definition s_round :: "rat \<Rightarrow> sdouble" where
  "s_round q = (if q < 0 then s_neg (sdouble_of (f64_round (- q))) else sdouble_of (f64_round q))"

fun s_add :: "sdouble \<Rightarrow> sdouble \<Rightarrow> sdouble" where
  "s_add SNaN _ = SNaN"
| "s_add _ SNaN = SNaN"
| "s_add (SInf a) (SInf b) = (if a = b then SInf a else SNaN)"
| "s_add (SInf a) (SFin _) = SInf a"
| "s_add (SFin _) (SInf b) = SInf b"
| "s_add (SFin a) (SFin b) = s_round (a + b)"

definition s_sub :: "sdouble \<Rightarrow> sdouble \<Rightarrow> sdouble" where
  "s_sub a b = s_add a (s_neg b)"

fun s_mul :: "sdouble \<Rightarrow> sdouble \<Rightarrow> sdouble" where
  "s_mul SNaN _ = SNaN"
| "s_mul _ SNaN = SNaN"
| "s_mul (SInf a) (SInf b) = SInf (a \<noteq> b)"
| "s_mul (SInf a) (SFin q) = (if q = 0 then SNaN else SInf (a \<noteq> (q < 0)))"
| "s_mul (SFin q) (SInf b) = (if q = 0 then SNaN else SInf (b \<noteq> (q < 0)))"
| "s_mul (SFin a) (SFin b) = s_round (a * b)"

text \<open>\<open>f64::max(0.0)\<close>, which turns a NaN into 0.\<close>

fun s_max0 :: "sdouble \<Rightarrow> sdouble" where
  "s_max0 SNaN = SFin 0"
| "s_max0 (SInf n) = (if n then SFin 0 else SInf n)"
| "s_max0 (SFin q) = SFin (max q 0)"

fun s_le :: "sdouble \<Rightarrow> sdouble \<Rightarrow> bool" where
  "s_le SNaN _ = False"
| "s_le _ SNaN = False"
| "s_le (SInf True) _ = True"
| "s_le _ (SInf False) = True"
| "s_le (SInf False) _ = False"
| "s_le _ (SInf True) = False"
| "s_le (SFin a) (SFin b) = (a \<le> b)"

section \<open>Configuration and data\<close>

datatype CompactionMode = Reactive | Proactive | Semantic

fun compaction_mode_as_str :: "CompactionMode \<Rightarrow> str" where
  "compaction_mode_as_str Reactive = ''reactive''"
| "compaction_mode_as_str Proactive = ''proactive''"
| "compaction_mode_as_str Semantic = ''semantic''"

definition compaction_mode_parse :: "str \<Rightarrow> CompactionMode option" where
  "compaction_mode_parse input =
     (let s = to_ascii_lowercase (trim input) in
      if s = ''reactive'' then Some Reactive else if s = ''proactive'' then Some Proactive
      else if s = ''semantic'' then Some Semantic else None)"

text \<open>The parameters read outside the embedding and projection heuristics.\<close>

record CompactionConfig =
  cfg_mode :: CompactionMode
  lookahead_turns :: nat
  ewma_alpha :: sdouble
  proactive_floor :: f64
  min_samples :: nat
  stall_window :: nat
  min_turns_between_compactions :: nat
  goal_window_turns :: nat

record CompactionEvent =
  event_trigger :: str
  event_pre_tokens :: "nat option"
  event_post_tokens :: "nat option"
  event_tokens_saved :: "nat option"
  event_duration_ms :: "nat option"
  event_messages_dropped :: "nat option"
  event_messages_compacted :: "nat option"
  event_summary_chars :: "nat option"
  event_active_messages :: "nat option"

record CompactionResult =
  result_summary_text :: str
  result_encrypted :: "str option"
  result_covers_up_to_turn :: nat
  result_duration_ms :: nat
  result_summarized_messages :: nat

datatype task = TaskRunning | TaskDone CompactionResult | TaskFailed

record ActiveCharEstimate =
  est_chars :: nat
  est_dirty :: bool

definition invalidate :: "ActiveCharEstimate \<Rightarrow> ActiveCharEstimate" where
  "invalidate e = e\<lparr>est_dirty := True\<rparr>"

definition set_exact :: "nat \<Rightarrow> ActiveCharEstimate \<Rightarrow> ActiveCharEstimate" where
  "set_exact n e = e\<lparr>est_chars := n, est_dirty := False\<rparr>"

definition append_exact :: "nat \<Rightarrow> ActiveCharEstimate \<Rightarrow> ActiveCharEstimate" where
  "append_exact n e = e\<lparr>est_chars := est_chars e + n, est_dirty := False\<rparr>"

definition reset_pending :: "bool \<Rightarrow> ActiveCharEstimate \<Rightarrow> ActiveCharEstimate" where
  "reset_pending maybe_active e = e\<lparr>est_chars := 0, est_dirty := maybe_active\<rparr>"

record CompactionManager =
  compacted_count :: nat
  active_summary :: "Summary option"
  active_chars :: ActiveCharEstimate
  pending_task :: "task option"
  pending_trigger :: "str option"
  pending_cutoff :: nat
  total_turns :: nat
  suppress_until_new :: bool
  token_budget :: nat
  observed_input_tokens :: "64 word option"
  last_compaction :: "CompactionEvent option"
  manager_mode :: CompactionMode
  compaction_config :: CompactionConfig
  token_history :: "64 word list"
  turns_since_last_compact :: nat

record StoredCompactionState =
  stored_summary_text :: str
  stored_encrypted :: "str option"
  stored_covers_up_to_turn :: nat
  stored_original_turn_count :: nat
  stored_compacted_count :: nat

record heuristics =
  json_text :: "json \<Rightarrow> str"
  alphanumeric :: "str \<Rightarrow> bool"
  topic_shifted :: "CompactionConfig \<Rightarrow> bool"
  embeds :: "str \<Rightarrow> bool"
  similar :: "str \<Rightarrow> str \<Rightarrow> bool"

definition new_manager :: "CompactionConfig \<Rightarrow> CompactionManager" where
  "new_manager cfg =
     \<lparr>compacted_count = 0, active_summary = None, active_chars = \<lparr>est_chars = 0, est_dirty = False\<rparr>,
      pending_task = None, pending_trigger = None, pending_cutoff = 0, total_turns = 0,
      suppress_until_new = False, token_budget = DEFAULT_TOKEN_BUDGET, observed_input_tokens = None,
      last_compaction = None, manager_mode = cfg_mode cfg, compaction_config = cfg,
      token_history = [], turns_since_last_compact = 0\<rparr>"

definition set_budget :: "nat \<Rightarrow> CompactionManager \<Rightarrow> CompactionManager" where
  "set_budget b m = m\<lparr>token_budget := b\<rparr>"

definition set_mode :: "CompactionMode \<Rightarrow> CompactionManager \<Rightarrow> CompactionManager" where
  "set_mode md m = m\<lparr>manager_mode := md, compaction_config := (compaction_config m)\<lparr>cfg_mode := md\<rparr>\<rparr>"

section \<open>Sizes\<close>

definition chars_of :: "heuristics \<Rightarrow> Message list \<Rightarrow> nat" where
  "chars_of h ms = sum_list (map (message_char_count (json_text h)) ms)"

definition active_messages :: "CompactionManager \<Rightarrow> Message list \<Rightarrow> Message list" where
  "active_messages m ms = drop (min (compacted_count m) (length ms)) ms"

definition active_messages_count :: "CompactionManager \<Rightarrow> nat" where
  "active_messages_count m = total_turns m - compacted_count m"

definition active_message_chars_with :: "heuristics \<Rightarrow> CompactionManager \<Rightarrow> Message list \<Rightarrow> nat" where
  "active_message_chars_with h m ms =
     (if est_dirty (active_chars m) \<or> active_messages_count m \<noteq> length (active_messages m ms)
      then chars_of h (active_messages m ms) else est_chars (active_chars m))"

definition summary_chars :: "CompactionManager \<Rightarrow> nat" where
  "summary_chars m = (case active_summary m of Some s \<Rightarrow> summary_payload_char_count s | None \<Rightarrow> 0)"

definition token_estimate_with :: "heuristics \<Rightarrow> CompactionManager \<Rightarrow> Message list \<Rightarrow> nat" where
  "token_estimate_with h m ms =
     estimate_compaction_tokens (active_summary m) (active_message_chars_with h m ms) (token_budget m)"

definition update_observed_input_tokens :: "64 word \<Rightarrow> CompactionManager \<Rightarrow> CompactionManager" where
  "update_observed_input_tokens tokens m = m\<lparr>observed_input_tokens := Some tokens\<rparr>"

definition observed_tokens :: "CompactionManager \<Rightarrow> nat" where
  "observed_tokens m = (case observed_input_tokens m of Some t \<Rightarrow> unat t | None \<Rightarrow> 0)"

definition effective_token_count_with :: "heuristics \<Rightarrow> CompactionManager \<Rightarrow> Message list \<Rightarrow> nat" where
  "effective_token_count_with h m ms = max (token_estimate_with h m ms) (observed_tokens m)"

definition token_estimate :: "CompactionManager \<Rightarrow> nat" where
  "token_estimate m = estimate_compaction_tokens (active_summary m) 0 (token_budget m)"

definition effective_token_count :: "CompactionManager \<Rightarrow> nat" where
  "effective_token_count m = max (token_estimate m) (observed_tokens m)"

definition usage_ratio :: "nat \<Rightarrow> nat \<Rightarrow> f64" where
  "usage_ratio tokens budget = f32_div (f32_round (of_nat tokens)) (f32_round (of_nat budget))"

definition context_usage_with :: "heuristics \<Rightarrow> CompactionManager \<Rightarrow> Message list \<Rightarrow> f64" where
  "context_usage_with h m ms = usage_ratio (effective_token_count_with h m ms) (token_budget m)"

definition context_usage :: "CompactionManager \<Rightarrow> f64" where
  "context_usage m = usage_ratio (effective_token_count m) (token_budget m)"

definition is_compacting :: "CompactionManager \<Rightarrow> bool" where
  "is_compacting m \<longleftrightarrow> pending_task m \<noteq> None"

record CompactionStats =
  stat_total_turns :: nat
  stat_active_messages :: nat
  stat_has_summary :: bool
  stat_is_compacting :: bool
  stat_token_estimate :: nat
  stat_effective_tokens :: nat
  stat_observed :: "64 word option"
  stat_usage :: f64

definition stats :: "CompactionManager \<Rightarrow> CompactionStats" where
  "stats m = \<lparr>stat_total_turns = total_turns m, stat_active_messages = 0,
     stat_has_summary = (active_summary m \<noteq> None), stat_is_compacting = is_compacting m,
     stat_token_estimate = token_estimate m, stat_effective_tokens = effective_token_count m,
     stat_observed = observed_input_tokens m, stat_usage = context_usage m\<rparr>"

definition stats_with :: "heuristics \<Rightarrow> CompactionManager \<Rightarrow> Message list \<Rightarrow> CompactionStats" where
  "stats_with h m ms = \<lparr>stat_total_turns = total_turns m,
     stat_active_messages = length (active_messages m ms),
     stat_has_summary = (active_summary m \<noteq> None), stat_is_compacting = is_compacting m,
     stat_token_estimate = token_estimate_with h m ms,
     stat_effective_tokens = effective_token_count_with h m ms,
     stat_observed = observed_input_tokens m, stat_usage = context_usage_with h m ms\<rparr>"

section \<open>Messages arriving and being restored\<close>

definition notify_message_added :: "CompactionManager \<Rightarrow> CompactionManager" where
  "notify_message_added m =
     m\<lparr>total_turns := Suc (total_turns m), suppress_until_new := False,
       active_chars := invalidate (active_chars m)\<rparr>"

definition notify_message_added_blocks ::
  "heuristics \<Rightarrow> ContentBlock list \<Rightarrow> CompactionManager \<Rightarrow> CompactionManager" where
  "notify_message_added_blocks h content m =
     m\<lparr>total_turns := Suc (total_turns m), suppress_until_new := False,
       active_chars := append_exact (content_char_count (json_text h) content) (active_chars m)\<rparr>"

definition notify_message_added_with :: "heuristics \<Rightarrow> Message \<Rightarrow> CompactionManager \<Rightarrow> CompactionManager" where
  "notify_message_added_with h x m = notify_message_added_blocks h (msg_content x) m"

definition seed_restored_messages :: "nat \<Rightarrow> CompactionManager \<Rightarrow> CompactionManager" where
  "seed_restored_messages n m =
     m\<lparr>total_turns := n, suppress_until_new := n > 0,
       active_chars := reset_pending (n > 0) (active_chars m)\<rparr>"

definition seed_restored_messages_with ::
  "heuristics \<Rightarrow> Message list \<Rightarrow> CompactionManager \<Rightarrow> CompactionManager" where
  "seed_restored_messages_with h ms m =
     m\<lparr>total_turns := length ms, suppress_until_new := ms \<noteq> [],
       active_chars := set_exact (chars_of h ms) (active_chars m)\<rparr>"

definition restore_persisted_state ::
  "StoredCompactionState \<Rightarrow> nat \<Rightarrow> CompactionManager \<Rightarrow> CompactionManager" where
  "restore_persisted_state st total_messages m =
     (let cc = min (stored_compacted_count st) total_messages in
      m\<lparr>pending_task := None, pending_trigger := None, pending_cutoff := 0,
        observed_input_tokens := None, last_compaction := None, token_history := [],
        turns_since_last_compact := 0, total_turns := total_messages, compacted_count := cc,
        active_chars := reset_pending (total_messages > cc) (active_chars m),
        active_summary := Some \<lparr>summary_text = stored_summary_text st,
          openai_encrypted_content = stored_encrypted st,
          covers_up_to_turn = stored_covers_up_to_turn st,
          original_turn_count = stored_original_turn_count st\<rparr>,
        suppress_until_new := total_messages > 0\<rparr>)"

definition restore_persisted_state_with ::
  "heuristics \<Rightarrow> StoredCompactionState \<Rightarrow> Message list \<Rightarrow> CompactionManager \<Rightarrow> CompactionManager" where
  "restore_persisted_state_with h st ms m =
     (let m1 = restore_persisted_state st (length ms) m
      in m1\<lparr>active_chars := set_exact (chars_of h (active_messages m1 ms)) (active_chars m1)\<rparr>)"

text \<open>The same two operations on stored messages, of which only the content matters.\<close>

definition contents_chars :: "heuristics \<Rightarrow> contents \<Rightarrow> nat" where
  "contents_chars h cs = sum_list (map (content_char_count (json_text h)) cs)"

definition seed_restored_stored_messages_with ::
  "heuristics \<Rightarrow> contents \<Rightarrow> CompactionManager \<Rightarrow> CompactionManager" where
  "seed_restored_stored_messages_with h cs m =
     m\<lparr>total_turns := length cs, suppress_until_new := cs \<noteq> [],
       active_chars := set_exact (contents_chars h cs) (active_chars m)\<rparr>"

definition restore_persisted_stored_state_with ::
  "heuristics \<Rightarrow> StoredCompactionState \<Rightarrow> contents \<Rightarrow> CompactionManager \<Rightarrow> CompactionManager" where
  "restore_persisted_stored_state_with h st cs m =
     (let m1 = restore_persisted_state st (length cs) m;
          start = min (compacted_count m1) (length cs)
      in m1\<lparr>active_chars := set_exact (contents_chars h (drop start cs)) (active_chars m1)\<rparr>)"

definition persisted_state :: "CompactionManager \<Rightarrow> StoredCompactionState option" where
  "persisted_state m =
     map_option (\<lambda>s. \<lparr>stored_summary_text = summary_text s, stored_encrypted = openai_encrypted_content s,
       stored_covers_up_to_turn = covers_up_to_turn s, stored_original_turn_count = original_turn_count s,
       stored_compacted_count = compacted_count m\<rparr>) (active_summary m)"

section \<open>Provider-native state that is too large\<close>

definition OPENAI_ENCRYPTED_CONTENT_PROVIDER_MAX_CHARS :: nat where
  "OPENAI_ENCRYPTED_CONTENT_PROVIDER_MAX_CHARS = 10485760"

definition OPENAI_ENCRYPTED_CONTENT_SAFE_MAX_CHARS :: nat where
  "OPENAI_ENCRYPTED_CONTENT_SAFE_MAX_CHARS = 9500000"

definition openai_encrypted_content_is_sendable :: "str \<Rightarrow> bool" where
  "openai_encrypted_content_is_sendable e \<longleftrightarrow> length e \<le> OPENAI_ENCRYPTED_CONTENT_SAFE_MAX_CHARS"

definition openai_encrypted_content_fallback_summary :: "nat \<Rightarrow> str" where
  \<open>openai_encrypted_content_fallback_summary n =
     ''OpenAI native compaction state was discarded because its encrypted payload ''
     @ ''was '' @ show_nat n @ '' chars, above Jcode'' @ [CHR 0x27]
     @ ''s safe replay limit of '' @ show_nat OPENAI_ENCRYPTED_CONTENT_SAFE_MAX_CHARS
     @ '' chars (provider hard limit: ''
     @ show_nat OPENAI_ENCRYPTED_CONTENT_PROVIDER_MAX_CHARS
     @ '' chars). Earlier compacted details may be unavailable; use the recent visible ''
     @ ''messages and session search/tools if exact prior details are needed.''\<close>

text \<open>The summary without its encrypted part, with the fallback text noted once.\<close>

definition drop_encrypted :: "nat \<Rightarrow> Summary \<Rightarrow> Summary" where
  "drop_encrypted n s =
     (let fallback = openai_encrypted_content_fallback_summary n in
      s\<lparr>openai_encrypted_content := None,
        summary_text :=
          (if trim (summary_text s) = [] then fallback
           else if contains_str (summary_text s) ''OpenAI native compaction state was discarded''
           then summary_text s
           else summary_text s @ nl @ nl @ fallback)\<rparr>)"

definition oversized_native :: "Summary \<Rightarrow> str option" where
  "oversized_native s =
     (case openai_encrypted_content s of
        None \<Rightarrow> None
      | Some e \<Rightarrow> if openai_encrypted_content_is_sendable e then None else Some e)"

definition discard_oversized_openai_native_compaction ::
  "CompactionManager \<Rightarrow> CompactionManager \<times> bool" where
  "discard_oversized_openai_native_compaction m =
     (case active_summary m of
        None \<Rightarrow> (m, False)
      | Some s \<Rightarrow>
          (case oversized_native s of
             None \<Rightarrow> (m, False)
           | Some e \<Rightarrow> (m\<lparr>active_summary := Some (drop_encrypted (length e) s),
               observed_input_tokens := None\<rparr>, True)))"

section \<open>Producing a summary\<close>

text \<open>What the code asks of a provider: native compaction (summary text and encrypted state, or
  failure), a simple completion, and the size of its context window.\<close>

record provider =
  native_compact :: "Message list \<Rightarrow> str option \<Rightarrow> str option \<Rightarrow> (str option \<times> str option) option"
  complete_simple :: "str \<Rightarrow> str \<Rightarrow> str option"
  context_window :: nat

definition replayable_summary :: "Summary \<Rightarrow> Summary" where
  "replayable_summary s =
     (case oversized_native s of None \<Rightarrow> s | Some e \<Rightarrow> drop_encrypted (length e) s)"

definition generate_compaction_artifact ::
  "heuristics \<Rightarrow> provider \<Rightarrow> nat \<Rightarrow> Message list \<Rightarrow> Summary option \<Rightarrow> CompactionResult option" where
  "generate_compaction_artifact h p elapsed ms existing0 =
     (let existing = map_option replayable_summary existing0;
          result = (\<lambda>txt enc. \<lparr>result_summary_text = txt, result_encrypted = enc,
            result_covers_up_to_turn = length ms, result_duration_ms = elapsed,
            result_summarized_messages = length ms\<rparr>);
          completed = map_option (\<lambda>txt. result txt None)
            (complete_simple p
              (build_compaction_prompt (json_text h) ms existing
                ((context_window p - 4000) * CHARS_PER_TOKEN))
              ''You are a helpful assistant that summarizes conversations.'')
      in case native_compact p ms (map_option summary_text existing)
             (Option.bind existing openai_encrypted_content) of
           None \<Rightarrow> completed
         | Some (txt, enc) \<Rightarrow>
             (case enc of
                Some e \<Rightarrow> if openai_encrypted_content_is_sendable e
                  then Some (result (case txt of Some t \<Rightarrow> t | None \<Rightarrow> []) enc) else completed
              | None \<Rightarrow> Some (result (case txt of Some t \<Rightarrow> t | None \<Rightarrow> []) enc)))"

text \<open>\<open>None\<close> is a provider error; the inner option is the state, if there is one.\<close>

definition build_transfer_compaction_state ::
  "heuristics \<Rightarrow> provider \<Rightarrow> nat \<Rightarrow> Message list \<Rightarrow> StoredCompactionState option
    \<Rightarrow> StoredCompactionState option option" where
  "build_transfer_compaction_state h p elapsed ms existing =
     (if ms = [] then Some (map_option (\<lambda>st. st\<lparr>stored_compacted_count := 0\<rparr>) existing)
      else let prior = (case existing of None \<Rightarrow> 0
                 | Some st \<Rightarrow> max (stored_original_turn_count st) (stored_covers_up_to_turn st));
               summary = map_option (\<lambda>st. \<lparr>summary_text = stored_summary_text st,
                 openai_encrypted_content = stored_encrypted st,
                 covers_up_to_turn = stored_covers_up_to_turn st,
                 original_turn_count = stored_original_turn_count st\<rparr>) existing
           in map_option (\<lambda>r. Some \<lparr>stored_summary_text = result_summary_text r,
                 stored_encrypted = result_encrypted r, stored_covers_up_to_turn = prior + length ms,
                 stored_original_turn_count = prior + length ms, stored_compacted_count = 0\<rparr>)
               (generate_compaction_artifact h p elapsed ms summary))"

section \<open>When to compact\<close>

definition push_token_snapshot :: "64 word \<Rightarrow> CompactionManager \<Rightarrow> CompactionManager" where
  "push_token_snapshot tokens m =
     (let hist = token_history m @ [tokens] in
      m\<lparr>token_history := (if length hist > TOKEN_HISTORY_WINDOW then tl hist else hist),
        turns_since_last_compact := Suc (turns_since_last_compact m)\<rparr>)"

definition anti_signals_block :: "heuristics \<Rightarrow> CompactionManager \<Rightarrow> Message list \<Rightarrow> bool option" where
  "anti_signals_block h m ms =
     (let cfg = compaction_config m; hist = token_history m;
          cooldown = Some (turns_since_last_compact m < min_turns_between_compactions cfg)
      in if pending_task m \<noteq> None then Some True
         else if f64_lt (context_usage_with h m ms) (proactive_floor cfg) then Some True
         else if length hist < min_samples cfg then Some True
         else if length hist \<ge> stall_window cfg then
           (let recent = take (stall_window cfg) (rev hist) in
            if recent = [] then None
            else if hd recent \<le> last recent then Some True else cooldown)
         else cooldown)"

text \<open>The smoothed growth per turn and the size it projects.\<close>

definition tokens_f64 :: "64 word \<Rightarrow> sdouble" where
  "tokens_f64 t = s_round (of_nat (unat t))"

definition token_delta :: "64 word \<Rightarrow> 64 word \<Rightarrow> sdouble" where
  "token_delta new old = s_max0 (s_sub (tokens_f64 new) (tokens_f64 old))"

definition ewma_delta :: "sdouble \<Rightarrow> 64 word list \<Rightarrow> sdouble" where
  "ewma_delta alpha snapshots =
     fold (\<lambda>i e. s_add (s_mul alpha (token_delta (snapshots ! i) (snapshots ! (i - 1))))
             (s_mul (s_sub (SFin 1) alpha) e))
       [2..<length snapshots] (token_delta (snapshots ! 1) (snapshots ! 0))"

definition projects_over :: "CompactionConfig \<Rightarrow> 64 word list \<Rightarrow> nat \<Rightarrow> bool" where
  "projects_over cfg snapshots budget =
     (let threshold = s_mul (sdouble_of COMPACTION_THRESHOLD) (s_round (of_nat budget));
          projected = s_add (tokens_f64 (last snapshots))
            (s_mul (ewma_delta (ewma_alpha cfg) snapshots) (s_round (of_nat (lookahead_turns cfg))))
      in s_le threshold projected)"

definition should_compact_proactively :: "heuristics \<Rightarrow> CompactionManager \<Rightarrow> Message list \<Rightarrow> bool option" where
  "should_compact_proactively h m ms =
     (case anti_signals_block h m ms of
        None \<Rightarrow> None
      | Some True \<Rightarrow> Some False
      | Some False \<Rightarrow> Some (length (token_history m) \<ge> 2
          \<and> projects_over (compaction_config m) (token_history m) (token_budget m)))"

definition should_compact_semantic :: "heuristics \<Rightarrow> CompactionManager \<Rightarrow> Message list \<Rightarrow> bool option" where
  "should_compact_semantic h m ms =
     (case anti_signals_block h m ms of
        None \<Rightarrow> None
      | Some True \<Rightarrow> Some False
      | Some False \<Rightarrow> if topic_shifted h (compaction_config m) then Some True
          else should_compact_proactively h m ms)"

definition should_compact_with :: "heuristics \<Rightarrow> CompactionManager \<Rightarrow> Message list \<Rightarrow> bool option" where
  "should_compact_with h m ms =
     (if suppress_until_new m then Some False
      else let long = length (active_messages m ms) > RECENT_TURNS_TO_KEEP in
        case manager_mode m of
          Reactive \<Rightarrow> Some (pending_task m = None
            \<and> f64_le COMPACTION_THRESHOLD (context_usage_with h m ms) \<and> long)
        | Proactive \<Rightarrow> if long then should_compact_proactively h m ms else Some False
        | Semantic \<Rightarrow> if long then should_compact_semantic h m ms else Some False)"

text \<open>The cutoff of semantic mode: the earliest relevant message before the recent ones, unless it
  is too early.\<close>

definition semantic_cutoff :: "heuristics \<Rightarrow> CompactionManager \<Rightarrow> Message list \<Rightarrow> nat" where
  "semantic_cutoff h m active =
     (let standard = length active - RECENT_TURNS_TO_KEEP;
          goal_turns = min (goal_window_turns (compaction_config m)) (length active);
          goal = semantic_goal_text (drop (length active - goal_turns) active);
          relevant = filter (\<lambda>i. let t = semantic_message_text (active ! i)
            in t \<noteq> [] \<and> embeds h t \<and> similar h goal t) [0..<standard]
      in if standard = 0 then 0
         else if goal = [] \<or> \<not> embeds h goal then standard
         else if relevant = [] then standard
         else if hd relevant < 2 then standard else hd relevant)"

section \<open>Background compaction\<close>

definition start_task :: "nat \<Rightarrow> str \<Rightarrow> CompactionManager \<Rightarrow> CompactionManager" where
  "start_task cutoff trigger m =
     m\<lparr>pending_cutoff := cutoff, pending_trigger := Some trigger, pending_task := Some TaskRunning\<rparr>"

definition maybe_start_compaction_with ::
  "heuristics \<Rightarrow> CompactionManager \<Rightarrow> Message list \<Rightarrow> CompactionManager option" where
  "maybe_start_compaction_with h m ms =
     (case should_compact_with h m ms of
        None \<Rightarrow> None
      | Some False \<Rightarrow> Some m
      | Some True \<Rightarrow>
          (let active = active_messages m ms;
               cutoff = (case manager_mode m of Semantic \<Rightarrow> semantic_cutoff h m active
                         | _ \<Rightarrow> length active - RECENT_TURNS_TO_KEEP)
           in Some (if cutoff = 0 then m
             else let safe = safe_compaction_cutoff active cutoff in
               if safe = 0 then m
               else start_task safe (compaction_mode_as_str (manager_mode m)) m)))"

datatype compact_error =
    AlreadyInProgress | NotEnoughMessages nat nat | UsageTooLow f64 | NothingAfterRecent | WouldSplitPairs

definition force_compact_with ::
  "heuristics \<Rightarrow> CompactionManager \<Rightarrow> Message list \<Rightarrow> (compact_error, CompactionManager) result" where
  "force_compact_with h m ms =
     (let active = active_messages m ms; cutoff = length active - RECENT_TURNS_TO_KEEP in
      if pending_task m \<noteq> None then Inl AlreadyInProgress
      else if length active \<le> RECENT_TURNS_TO_KEEP
        then Inl (NotEnoughMessages RECENT_TURNS_TO_KEEP (length active))
      else if f64_lt (context_usage_with h m ms) MANUAL_COMPACT_MIN_THRESHOLD
        then Inl (UsageTooLow (context_usage_with h m ms))
      else if cutoff = 0 then Inl NothingAfterRecent
      else let safe = safe_compaction_cutoff active cutoff in
        if safe = 0 then Inl WouldSplitPairs else Inr (start_task safe ''manual'' m))"

definition clamp_compacted_count_to_messages :: "Message list \<Rightarrow> CompactionManager \<Rightarrow> CompactionManager" where
  "clamp_compacted_count_to_messages ms m =
     (if ms = [] \<or> compacted_count m \<le> length ms then m
      else m\<lparr>compacted_count := length ms, active_chars := set_exact 0 (active_chars m)\<rparr>)"

definition clear_pending :: "CompactionManager \<Rightarrow> CompactionManager" where
  "clear_pending m = m\<lparr>pending_task := None, pending_cutoff := 0, pending_trigger := None\<rparr>"

text \<open>Applying a finished summary. The steps are in the order of the code: the count is advanced
  before the size estimate is read.\<close>

definition apply_result :: "heuristics \<Rightarrow> CompactionResult \<Rightarrow> CompactionManager \<Rightarrow> Message list \<Rightarrow> CompactionManager" where
  "apply_result h r m ms =
     (let trigger = (case pending_trigger m of Some t \<Rightarrow> t | None \<Rightarrow> compaction_mode_as_str (manager_mode m));
          pre_tokens = effective_token_count_with h m ms;
          compacted_chars = chars_of h (take (pending_cutoff m) (active_messages m ms));
          summary = \<lparr>summary_text = result_summary_text r, openai_encrypted_content = result_encrypted r,
            covers_up_to_turn = result_covers_up_to_turn r, original_turn_count = pending_cutoff m\<rparr>;
          cc = compacted_count m + pending_cutoff m;
          m1 = m\<lparr>pending_task := None, compacted_count := (if ms = [] then cc else min cc (length ms))\<rparr>;
          m2 = m1\<lparr>active_chars :=
            set_exact (active_message_chars_with h m1 ms - compacted_chars) (active_chars m1)\<rparr>;
          m3 = (fst (discard_oversized_openai_native_compaction (m2\<lparr>active_summary := Some summary\<rparr>)))
            \<lparr>observed_input_tokens := None\<rparr>;
          post_tokens = effective_token_count_with h m3 ms;
          m4 = m3\<lparr>last_compaction := Some
            \<lparr>event_trigger = trigger, event_pre_tokens = Some pre_tokens,
             event_post_tokens = Some post_tokens, event_tokens_saved = Some (pre_tokens - post_tokens),
             event_duration_ms = Some (result_duration_ms r), event_messages_dropped = None,
             event_messages_compacted = Some (result_summarized_messages r),
             event_summary_chars = map_option (\<lambda>s. length (summary_text s)) (active_summary m3),
             event_active_messages = Some (active_messages_count m3)\<rparr>\<rparr>
      in m4\<lparr>turns_since_last_compact := 0, pending_cutoff := 0, pending_trigger := None\<rparr>)"

definition check_and_apply_compaction_with ::
  "heuristics \<Rightarrow> CompactionManager \<Rightarrow> Message list \<Rightarrow> CompactionManager" where
  "check_and_apply_compaction_with h m0 ms =
     (let m = clamp_compacted_count_to_messages ms m0 in
      case pending_task m of
        None \<Rightarrow> m
      | Some TaskRunning \<Rightarrow> m
      | Some TaskFailed \<Rightarrow> clear_pending m
      | Some (TaskDone r) \<Rightarrow>
          if ms \<noteq> [] \<and> pending_cutoff m > length (active_messages m ms) - MIN_TURNS_TO_KEEP
          then clear_pending m else apply_result h r m ms)"

definition check_and_apply_compaction :: "heuristics \<Rightarrow> CompactionManager \<Rightarrow> CompactionManager" where
  "check_and_apply_compaction h m =
     (let m1 = check_and_apply_compaction_with h m []
      in m1\<lparr>active_chars := invalidate (active_chars m1)\<rparr>)"

definition take_compaction_event :: "CompactionManager \<Rightarrow> CompactionManager \<times> CompactionEvent option" where
  "take_compaction_event m = (m\<lparr>last_compaction := None\<rparr>, last_compaction m)"

definition poll_compaction_event_with ::
  "heuristics \<Rightarrow> CompactionManager \<Rightarrow> Message list \<Rightarrow> CompactionManager \<times> CompactionEvent option" where
  "poll_compaction_event_with h m ms = take_compaction_event (check_and_apply_compaction_with h m ms)"

section \<open>Emergency compaction\<close>

text \<open>The loop that keeps fewer and fewer turns; \<open>keep\<close> halves until it reaches the minimum.\<close>

function hard_cutoff :: "heuristics \<Rightarrow> nat \<Rightarrow> Message list \<Rightarrow> nat \<Rightarrow> nat" where
  "hard_cutoff h budget active keep =
     (let cutoff = safe_compaction_cutoff active (length active - keep) in
      if cutoff > 0 \<and> chars_of h (drop cutoff active) div CHARS_PER_TOKEN \<le> budget then cutoff
      else if keep \<le> MIN_TURNS_TO_KEEP
      then safe_compaction_cutoff active (length active - MIN_TURNS_TO_KEEP)
      else hard_cutoff h budget active (max (keep div 2) MIN_TURNS_TO_KEEP))"
  by pat_completeness auto
termination
  by (relation "measure (\<lambda>(h, b, a, keep). keep)") (auto simp: MIN_TURNS_TO_KEEP_def)

declare hard_cutoff.simps [simp del]

definition hard_compact_with ::
  "heuristics \<Rightarrow> CompactionManager \<Rightarrow> Message list \<Rightarrow> (compact_error, nat \<times> CompactionManager) result" where
  "hard_compact_with h m0 ms =
     (let m = clamp_compacted_count_to_messages ms m0; active = active_messages m ms in
      if length active \<le> MIN_TURNS_TO_KEEP
      then Inl (NotEnoughMessages MIN_TURNS_TO_KEEP (length active))
      else let pre_tokens = effective_token_count_with h m ms;
               cutoff = hard_cutoff h (token_budget m) active
                 (min RECENT_TURNS_TO_KEEP (length active - 1))
           in if cutoff = 0 then Inl WouldSplitPairs
              else let m1 = (if pending_task m = None then m else clear_pending m);
                       summary = \<lparr>summary_text = build_emergency_summary_text (alphanumeric h)
                           (map_option summary_text (active_summary m1)) cutoff (of_nat pre_tokens)
                           (token_budget m1) (take cutoff active),
                         openai_encrypted_content = None, covers_up_to_turn = cutoff,
                         original_turn_count = cutoff\<rparr>;
                       m2 = m1\<lparr>compacted_count := min (compacted_count m1 + cutoff) (length ms),
                         active_chars := set_exact (chars_of h (drop cutoff active)) (active_chars m1),
                         active_summary := Some summary, observed_input_tokens := None\<rparr>;
                       post_tokens = effective_token_count_with h m2 ms
                   in Inr (cutoff, m2\<lparr>last_compaction := Some
                       \<lparr>event_trigger = ''hard_compact'', event_pre_tokens = Some pre_tokens,
                        event_post_tokens = Some post_tokens,
                        event_tokens_saved = Some (pre_tokens - post_tokens),
                        event_duration_ms = Some 0, event_messages_dropped = Some cutoff,
                        event_messages_compacted = Some cutoff,
                        event_summary_chars = Some (length (summary_text summary)),
                        event_active_messages = Some (active_messages_count m2)\<rparr>\<rparr>))"

definition emergency_truncate_with ::
  "CompactionManager \<Rightarrow> Message list \<Rightarrow> CompactionManager \<times> Message list \<times> nat" where
  "emergency_truncate_with m ms =
     (let start = min (compacted_count m) (length ms);
          (active, truncated) = emergency_truncate_large_payloads (drop start ms)
            EMERGENCY_TOOL_RESULT_MAX_CHARS EMERGENCY_IMAGE_MAX_CHARS
      in (if truncated > 0
          then m\<lparr>observed_input_tokens := None, active_chars := invalidate (active_chars m)\<rparr> else m,
          take start ms @ active, truncated))"

record EmergencyRecovery =
  pre_usage :: f64
  dropped :: "nat option"
  truncated_results :: nat

definition recover_within_budget ::
  "heuristics \<Rightarrow> CompactionManager \<Rightarrow> Message list \<Rightarrow> CompactionManager \<times> Message list \<times> EmergencyRecovery" where
  "recover_within_budget h m ms =
     (let usage = context_usage_with h m ms;
          (m1, drp) = (case hard_compact_with h m ms of
             Inr (d, m') \<Rightarrow> (m', Some d)
           | Inl _ \<Rightarrow> (clamp_compacted_count_to_messages ms m, None));
          over = f64_lt (Fin 1) (context_usage_with h m1 ms) \<or> drp = None;
          (m2, ms2, trunc) = (if over then emergency_truncate_with m1 ms else (m1, ms, 0))
      in (m2, ms2, \<lparr>pre_usage = usage, dropped = drp, truncated_results = trunc\<rparr>))"

definition did_anything :: "EmergencyRecovery \<Rightarrow> bool" where
  "did_anything r \<longleftrightarrow> (case dropped r of Some d \<Rightarrow> d | None \<Rightarrow> 0) > 0 \<or> truncated_results r > 0"

section \<open>Before an API call\<close>

text \<open>Waiting for the task at the hard threshold: \<open>outcome\<close> is what the task has become when the
  wait ends, \<open>TaskRunning\<close> for a timeout.\<close>

definition wait_for_pending :: "heuristics \<Rightarrow> task \<Rightarrow> CompactionManager \<Rightarrow> Message list \<Rightarrow> CompactionManager" where
  "wait_for_pending h outcome m ms =
     (let m1 = (if pending_task m = Some TaskRunning then m\<lparr>pending_task := Some outcome\<rparr> else m)
      in if pending_task m1 = None \<or> pending_task m1 = Some TaskRunning then m1
         else check_and_apply_compaction_with h m1 ms)"

definition start_or_none ::
  "heuristics \<Rightarrow> CompactionManager \<Rightarrow> Message list \<Rightarrow> (CompactionManager \<times> CompactionAction) option" where
  "start_or_none h m ms =
     (case maybe_start_compaction_with h m ms of
        None \<Rightarrow> None
      | Some m' \<Rightarrow>
          Some (m', if pending_task m = None \<and> pending_task m' \<noteq> None
            then BackgroundStarted (case pending_trigger m' of Some t \<Rightarrow> t
              | None \<Rightarrow> compaction_mode_as_str (manager_mode m'))
            else NoAction))"

definition ensure_context_fits ::
  "heuristics \<Rightarrow> task \<Rightarrow> CompactionManager \<Rightarrow> Message list \<Rightarrow> (CompactionManager \<times> CompactionAction) option" where
  "ensure_context_fits h outcome m ms =
     (if f64_le CRITICAL_THRESHOLD (context_usage_with h m ms)
      then let m1 = (if pending_task m \<noteq> None then wait_for_pending h outcome m ms else m) in
        if pending_task m \<noteq> None \<and> f64_lt (context_usage_with h m1 ms) CRITICAL_THRESHOLD
        then start_or_none h m1 ms
        else case hard_compact_with h m1 ms of
               Inr (d, m2) \<Rightarrow> Some (m2, HardCompacted d)
             | Inl _ \<Rightarrow> start_or_none h (clamp_compacted_count_to_messages ms m1) ms
      else start_or_none h m ms)"

definition summary_message :: "Summary \<Rightarrow> Message" where
  "summary_message s =
     \<lparr>msg_role = User,
      msg_content = [case openai_encrypted_content s of
          Some e \<Rightarrow> OpenAICompaction e
        | None \<Rightarrow> Text (compacted_summary_text_block (summary_text s)) None],
      msg_timestamp = None, msg_duration = None\<rparr>"

definition messages_for_api_with ::
  "heuristics \<Rightarrow> CompactionManager \<Rightarrow> Message list \<Rightarrow> CompactionManager \<times> Message list" where
  "messages_for_api_with h m ms =
     (let m1 = fst (discard_oversized_openai_native_compaction (check_and_apply_compaction_with h m ms))
      in (m1, (case active_summary m1 of
                 Some s \<Rightarrow> summary_message s # active_messages m1 ms
               | None \<Rightarrow> active_messages m1 ms)))"

end
