(* ===== verification/Compaction_Inv.thy ===== *)
theory Compaction_Inv
  imports Compaction_Manager
begin

text \<open>
  What the compaction manager keeps true. \<open>manager_inv\<close> ties the manager's counters to the caller's
  message list; every operation preserves it, so every state the manager reaches has it. From it
  follow the safety of what is sent to a provider, the exactness of the size estimate, what emergency
  compaction does, and that a persisted state restores to the same conversation.
\<close>


section \<open>The invariant\<close>

text \<open>A cut after \<open>k\<close> messages is sound: no kept tool result has lost its call, and a recent tail is
  kept.\<close>

definition tail_ok :: "nat \<Rightarrow> Message list \<Rightarrow> bool" where
  "tail_ok k ms \<longleftrightarrow> tool_closed (drop k ms) \<and> (k = 0 \<or> k + MIN_TURNS_TO_KEEP \<le> length ms)"

definition cut_inv :: "CompactionManager \<Rightarrow> Message list \<Rightarrow> bool" where
  "cut_inv m ms \<longleftrightarrow>
     total_turns m = length ms \<and> tail_ok (compacted_count m) ms \<and>
     (0 < compacted_count m \<longrightarrow> active_summary m \<noteq> None) \<and>
     (pending_task m \<noteq> None \<longrightarrow>
        0 < pending_cutoff m \<and> tail_ok (compacted_count m + pending_cutoff m) ms)"

definition estimate_exact :: "heuristics \<Rightarrow> CompactionManager \<Rightarrow> Message list \<Rightarrow> bool" where
  "estimate_exact h m ms \<longleftrightarrow> \<not> est_dirty (active_chars m) \<and>
     est_chars (active_chars m) = chars_of h (drop (compacted_count m) ms)"

definition manager_inv :: "heuristics \<Rightarrow> CompactionManager \<Rightarrow> Message list \<Rightarrow> bool" where
  "manager_inv h m ms \<longleftrightarrow> cut_inv m ms \<and> estimate_exact h m ms"

lemma tail_ok_le: "tail_ok k ms \<Longrightarrow> k \<le> length ms"
  by (auto simp: tail_ok_def)

lemma inv_count_le: "cut_inv m ms \<Longrightarrow> compacted_count m \<le> length ms"
  using tail_ok_le by (auto simp: cut_inv_def)

lemma active_messages_drop: "compacted_count m \<le> length ms \<Longrightarrow> active_messages m ms = drop (compacted_count m) ms"
  by (simp add: active_messages_def min_def)

lemma clamp_id: "compacted_count m \<le> length ms \<Longrightarrow> clamp_compacted_count_to_messages ms m = m"
  by (simp add: clamp_compacted_count_to_messages_def)

lemma chars_of_append [simp]: "chars_of h (xs @ ys) = chars_of h xs + chars_of h ys"
  by (simp add: chars_of_def)

text \<open>Operations that leave the bookkeeping alone.\<close>

lemma cut_inv_cong:
  assumes "cut_inv m ms" and "compacted_count m' = compacted_count m"
    and "total_turns m' = total_turns m" and "active_chars m' = active_chars m"
    and "active_summary m' = None \<longleftrightarrow> active_summary m = None"
    and "pending_task m' = None \<or> pending_task m \<noteq> None \<and> pending_cutoff m' = pending_cutoff m"
  shows "cut_inv m' ms"
  using assms unfolding cut_inv_def by auto

lemma discard_fields [simp]:
  "compacted_count (fst (discard_oversized_openai_native_compaction m)) = compacted_count m"
  "total_turns (fst (discard_oversized_openai_native_compaction m)) = total_turns m"
  "active_chars (fst (discard_oversized_openai_native_compaction m)) = active_chars m"
  "pending_task (fst (discard_oversized_openai_native_compaction m)) = pending_task m"
  "pending_cutoff (fst (discard_oversized_openai_native_compaction m)) = pending_cutoff m"
  "active_summary (fst (discard_oversized_openai_native_compaction m)) = None \<longleftrightarrow> active_summary m = None"
  "suppress_until_new (fst (discard_oversized_openai_native_compaction m)) = suppress_until_new m"
  by (simp_all add: discard_oversized_openai_native_compaction_def split: option.split)

section \<open>Tool calls across a growing history\<close>

text \<open>The calls still being answered: those of the last message before a run of messages that only
  carry tool results. A message is prompt when the calls its results answer are in it, in the last two
  messages, or still being answered.\<close>

definition only_results :: "Message \<Rightarrow> bool" where
  "only_results x \<longleftrightarrow> block_results (msg_content x) \<noteq> {} \<and> block_uses (msg_content x) = {}"

definition batch_calls :: "Message list \<Rightarrow> str set" where
  "batch_calls ms = (case dropWhile only_results (rev ms) of [] \<Rightarrow> {} | a # _ \<Rightarrow> block_uses (msg_content a))"

definition prompt_results :: "Message list \<Rightarrow> Message \<Rightarrow> bool" where
  "prompt_results ms x \<longleftrightarrow>
     block_results (msg_content x) \<subseteq>
       uses (drop (length ms - MIN_TURNS_TO_KEEP) ms) \<union> batch_calls ms \<union> block_uses (msg_content x)"

lemma uses_mem: "x \<in> set xs \<Longrightarrow> block_uses (msg_content x) \<subseteq> uses xs"
  and results_mem: "x \<in> set xs \<Longrightarrow> block_results (msg_content x) \<subseteq> results xs"
  by (auto simp: block_uses_def block_results_def)

lemma uses_only_results: "list_all only_results xs \<Longrightarrow> uses xs = {}"
  by (induction xs) (auto simp: only_results_def)

lemma batch_calls_kept:
  assumes "tail_ok k ms" shows "batch_calls ms \<subseteq> uses (drop k ms)"
proof (cases "dropWhile only_results (rev ms)")
  case (Cons a pre)
  have "ms = rev (takeWhile only_results (rev ms) @ dropWhile only_results (rev ms))" by simp
  then have "ms = rev pre @ a # rev (takeWhile only_results (rev ms))" unfolding Cons by simp
  moreover have "list_all only_results (rev (takeWhile only_results (rev ms)))"
    by (auto simp: list_all_iff dest: set_takeWhileD)
  ultimately obtain rs where ms: "ms = rev pre @ a # rs" and rs: "list_all only_results rs" by blast
  show ?thesis
  proof (cases "k \<le> length pre")
    case True
    then have "a \<in> set (drop k ms)" unfolding ms by simp
    then show ?thesis using uses_mem Cons by (simp add: batch_calls_def)
  next
    case False
    then have "drop k ms = drop (k - Suc (length pre)) rs" unfolding ms by (simp add: drop_Cons')
    then have all: "list_all only_results (drop k ms)"
      using rs by (simp add: list_all_iff) (meson in_set_dropD)
    moreover have "drop k ms \<noteq> []" using assms False by (auto simp: tail_ok_def compaction_limits)
    ultimately have "results (drop k ms) \<noteq> {}"
      using results_mem [of "hd (drop k ms)" "drop k ms"] by (auto simp: list_all_iff only_results_def)
    with uses_only_results [OF all] assms show ?thesis by (auto simp: tail_ok_def tool_closed_def)
  qed
next
  case Nil
  then show ?thesis unfolding batch_calls_def by (simp only: list.case empty_subsetI)
qed

lemma uses_drop_mono: "j \<le> k \<Longrightarrow> uses (drop k ms) \<subseteq> uses (drop j ms)"
proof -
  assume "j \<le> k"
  then have "drop j ms = take (k - j) (drop j ms) @ drop k ms"
    by (metis append_take_drop_id drop_drop le_add_diff_inverse2)
  then have "uses (drop j ms) = uses (take (k - j) (drop j ms)) \<union> uses (drop k ms)"
    by (metis block_ids_simps(3) concat_append map_append)
  then show ?thesis by blast
qed

lemma tail_ok_snoc:
  assumes "tail_ok k ms" and "prompt_results ms x"
  shows "tail_ok k (ms @ [x])"
proof -
  have "k \<le> length ms - MIN_TURNS_TO_KEEP"
    using assms(1) by (auto simp: tail_ok_def)
  from uses_drop_mono [OF this, of ms] have "block_results (msg_content x) \<subseteq> uses (drop k ms) \<union> block_uses (msg_content x)"
    using assms(2) batch_calls_kept [OF assms(1)] by (auto simp: prompt_results_def)
  moreover have "drop k (ms @ [x]) = drop k ms @ [x]" using tail_ok_le [OF assms(1)] by simp
  ultimately show ?thesis using assms(1) by (auto simp: tail_ok_def tool_closed_def)
qed

lemma tail_ok_extend:
  assumes "tool_closed (drop j (drop k ms))" and "j + MIN_TURNS_TO_KEEP \<le> length (drop k ms)"
  shows "tail_ok (k + j) ms"
proof -
  have "k + j + MIN_TURNS_TO_KEEP \<le> length ms" using assms(2) by (simp add: compaction_limits)
  then show ?thesis using assms(1) by (simp add: tail_ok_def add.commute)
qed

lemma safe_cutoff_tail:
  assumes "safe_compaction_cutoff (drop k ms) n = c" and "0 < c" and "n + MIN_TURNS_TO_KEEP \<le> length (drop k ms)"
  shows "tail_ok (k + c) ms"
proof (rule tail_ok_extend)
  note g = safe_cutoff_best [of "drop k ms" n]
  show "tool_closed (drop c (drop k ms))" using g assms(1,2) by auto
  have "c \<le> n" using g assms(1) by simp
  then show "c + MIN_TURNS_TO_KEEP \<le> length (drop k ms)" using assms(3) by linarith
qed

section \<open>Every operation keeps the invariant\<close>

lemma cut_inv_new: "cut_inv (new_manager cfg) []"
  by (simp add: cut_inv_def new_manager_def tail_ok_def tool_closed_def chars_of_def)

lemma cut_inv_notify:
  assumes "cut_inv m ms" and "prompt_results ms x"
  shows "cut_inv (notify_message_added_with h x m) (ms @ [x])"
proof -
  have "tail_ok k ms \<Longrightarrow> tail_ok k (ms @ [x])" for k using tail_ok_snoc assms(2) by blast
  moreover have "drop (compacted_count m) (ms @ [x]) = drop (compacted_count m) ms @ [x]"
    using inv_count_le [OF assms(1)] by simp
  ultimately show ?thesis
    using assms(1)
    by (auto simp: cut_inv_def notify_message_added_with_def notify_message_added_blocks_def
        append_exact_def chars_of_def message_char_count_def)
qed

lemma cut_inv_start:
  assumes "cut_inv m ms" and "0 < c" and "tail_ok (compacted_count m + c) ms"
  shows "cut_inv (start_task c t m) ms"
  using assms by (auto simp: cut_inv_def start_task_def)

lemma start_cutoff_ok:
  assumes "cut_inv m ms" and "n \<le> length (active_messages m ms) - RECENT_TURNS_TO_KEEP"
    and "safe_compaction_cutoff (active_messages m ms) n = c" and "0 < c"
  shows "tail_ok (compacted_count m + c) ms"
proof (rule safe_cutoff_tail)
  have a: "active_messages m ms = drop (compacted_count m) ms"
    using active_messages_drop [OF inv_count_le [OF assms(1)]] .
  show "safe_compaction_cutoff (drop (compacted_count m) ms) n = c" using assms(3) a by simp
  have "0 < n" using safe_cutoff_best [of "active_messages m ms" n] assms(3,4) by auto
  then show "n + MIN_TURNS_TO_KEEP \<le> length (drop (compacted_count m) ms)"
    using assms(2) unfolding a by (simp add: compaction_limits)
qed (fact assms(4))

lemma semantic_cutoff_le: "semantic_cutoff h m active \<le> length active - RECENT_TURNS_TO_KEEP"
proof -
  have "hd (filter P [0..<n]) \<le> n" if "filter P [0..<n] \<noteq> []" for P n
    using hd_in_set [OF that] by auto
  then show ?thesis by (auto simp: semantic_cutoff_def Let_def)
qed

lemma maybe_start_form:
  assumes "cut_inv m ms" and "maybe_start_compaction_with h m ms = Some m'"
  shows "m' = m \<or> (\<exists>c t. 0 < c \<and> tail_ok (compacted_count m + c) ms \<and> m' = start_task c t m)"
proof -
  let ?a = "active_messages m ms"
  define n where "n = (case manager_mode m of Semantic \<Rightarrow> semantic_cutoff h m ?a
    | _ \<Rightarrow> length ?a - RECENT_TURNS_TO_KEEP)"
  have n: "n \<le> length ?a - RECENT_TURNS_TO_KEEP"
    using semantic_cutoff_le by (auto simp: n_def split: CompactionMode.split)
  have e: "maybe_start_compaction_with h m ms = (case should_compact_with h m ms of
      None \<Rightarrow> None | Some False \<Rightarrow> Some m
    | Some True \<Rightarrow> Some (if n = 0 then m else if safe_compaction_cutoff ?a n = 0 then m
        else start_task (safe_compaction_cutoff ?a n) (compaction_mode_as_str (manager_mode m)) m))"
    unfolding maybe_start_compaction_with_def n_def Let_def by (rule refl)
  have "m' = m \<or> safe_compaction_cutoff ?a n \<noteq> 0 \<and> (\<exists>t. m' = start_task (safe_compaction_cutoff ?a n) t m)"
    if "should_compact_with h m ms = Some b" for b
    using assms(2) unfolding e that by (cases b; cases "n = 0"; cases "safe_compaction_cutoff ?a n = 0") auto
  moreover obtain b where "should_compact_with h m ms = Some b"
    using assms(2) unfolding e by (cases "should_compact_with h m ms") auto
  ultimately show ?thesis using start_cutoff_ok [OF assms(1) n refl] by blast
qed

lemma force_form:
  assumes "cut_inv m ms" and "force_compact_with h m ms = Inr m'"
  shows "\<exists>c. 0 < c \<and> tail_ok (compacted_count m + c) ms \<and> m' = start_task c ''manual'' m"
proof -
  let ?c = "safe_compaction_cutoff (active_messages m ms) (length (active_messages m ms) - RECENT_TURNS_TO_KEEP)"
  have "0 < ?c" "m' = start_task ?c ''manual'' m"
    using assms(2) by (auto simp: force_compact_with_def Let_def split: if_splits)
  with start_cutoff_ok [OF assms(1) order_refl refl] show ?thesis by blast
qed

text \<open>Applying a finished summary: the cut moves, and the estimate stays exact because it was exact
  before.\<close>

lemma apply_result_fields:
  "pending_task (apply_result h r m ms) = None"
  "total_turns (apply_result h r m ms) = total_turns m"
  "active_summary (apply_result h r m ms) \<noteq> None"
  "compacted_count (apply_result h r m ms) =
     (if ms = [] then compacted_count m + pending_cutoff m
      else min (compacted_count m + pending_cutoff m) (length ms))"
  unfolding apply_result_def Let_def by (simp_all del: not_None_eq)

lemma apply_result_estimate:
  "active_chars (apply_result h r m ms) =
     set_exact (active_message_chars_with h (m\<lparr>pending_task := None, compacted_count :=
       (if ms = [] then compacted_count m + pending_cutoff m
        else min (compacted_count m + pending_cutoff m) (length ms))\<rparr>) ms
       - chars_of h (take (pending_cutoff m) (active_messages m ms))) (active_chars m)"
  unfolding apply_result_def Let_def by simp

lemma chars_of_split: "chars_of h (take k xs) + chars_of h (drop k xs) = chars_of h xs"
  by (metis append_take_drop_id chars_of_append)

lemma apply_result_count:
  assumes "cut_inv m ms" and "pending_task m \<noteq> None"
  shows "ms \<noteq> []" and "tail_ok (compacted_count m + pending_cutoff m) ms"
    and "compacted_count (apply_result h r m ms) = compacted_count m + pending_cutoff m"
proof -
  let ?k = "compacted_count m + pending_cutoff m"
  have p: "0 < pending_cutoff m" using assms by (auto simp: cut_inv_def)
  show ok: "tail_ok ?k ms" using assms by (auto simp: cut_inv_def)
  with p show "ms \<noteq> []" using tail_ok_le by fastforce
  then show "compacted_count (apply_result h r m ms) = ?k"
    using tail_ok_le [OF ok] by (simp add: apply_result_fields)
qed

lemma cut_inv_apply:
  assumes "cut_inv m ms" and "pending_task m \<noteq> None"
  shows "cut_inv (apply_result h r m ms) ms"
  using assms(1) apply_result_count(2) [OF assms]
  unfolding cut_inv_def apply_result_count(3) [OF assms] by (simp add: apply_result_fields)

lemma exact_apply:
  assumes inv: "cut_inv m ms" and "pending_task m \<noteq> None" and ex: "estimate_exact h m ms"
  shows "estimate_exact h (apply_result h r m ms) ms"
proof -
  let ?k = "compacted_count m + pending_cutoff m" and ?m = "apply_result h r m ms"
  note count = apply_result_count [OF inv assms(2)]
  from tail_ok_le [OF count(2)] have le: "?k \<le> length ms" .
  have "active_message_chars_with h (m\<lparr>pending_task := None, compacted_count := ?k\<rparr>) ms
      = est_chars (active_chars m)"
    using inv ex le by (simp add: active_message_chars_with_def active_messages_count_def
        active_messages_def cut_inv_def estimate_exact_def)
  also have "\<dots> = chars_of h (drop (compacted_count m) ms)" using ex by (simp add: estimate_exact_def)
  finally have "active_chars ?m = set_exact (chars_of h (drop (compacted_count m) ms)
      - chars_of h (take (pending_cutoff m) (drop (compacted_count m) ms))) (active_chars m)"
    using count(1) le by (simp add: apply_result_estimate active_messages_drop)
  also have "chars_of h (drop (compacted_count m) ms)
      - chars_of h (take (pending_cutoff m) (drop (compacted_count m) ms)) = chars_of h (drop ?k ms)"
    using chars_of_split [of h "pending_cutoff m" "drop (compacted_count m) ms"]
    by (simp add: add.commute)
  finally show ?thesis unfolding estimate_exact_def count(3) by (simp add: set_exact_def)
qed

lemma cut_inv_clear: "cut_inv m ms \<Longrightarrow> cut_inv (clear_pending m) ms"
  by (simp add: cut_inv_def clear_pending_def)

lemma cut_inv_check:
  assumes "cut_inv m ms"
  shows "cut_inv (check_and_apply_compaction_with h m ms) ms"
  using assms cut_inv_clear cut_inv_apply clamp_id [OF inv_count_le [OF assms]]
  by (auto simp: check_and_apply_compaction_with_def split: option.split task.split)

lemma cut_inv_finish:
  "cut_inv m ms \<Longrightarrow> pending_task m = Some TaskRunning \<Longrightarrow>
     cut_inv (m\<lparr>pending_task := Some outcome\<rparr>) ms"
  by (simp add: cut_inv_def)

lemma cut_inv_wait:
  assumes "cut_inv m ms" shows "cut_inv (wait_for_pending h outcome m ms) ms"
  using assms cut_inv_check cut_inv_finish by (auto simp: wait_for_pending_def Let_def)

section \<open>Emergency compaction\<close>

text \<open>The halving loop returns a sound cut: it keeps the minimum, and it never separates a result
  from its call.\<close>

lemma hard_cutoff_form:
  assumes "MIN_TURNS_TO_KEEP \<le> keep"
  shows "\<exists>n. MIN_TURNS_TO_KEEP \<le> n \<and> n \<le> keep \<and>
    hard_cutoff h b active keep = safe_compaction_cutoff active (length active - n)"
  using assms
proof (induction h b active keep rule: hard_cutoff.induct)
  case (1 h b active keep)
  let ?c = "safe_compaction_cutoff active (length active - keep)"
  show ?case
  proof (cases "?c > 0 \<and> chars_of h (drop ?c active) div CHARS_PER_TOKEN \<le> b \<or> keep \<le> MIN_TURNS_TO_KEEP")
    case True
    then show ?thesis using 1(2) by (auto simp: hard_cutoff.simps [of h b active keep] Let_def)
  next
    case False
    let ?k = "max (keep div 2) MIN_TURNS_TO_KEEP"
    from 1(1) [OF refl] False obtain n where
      "MIN_TURNS_TO_KEEP \<le> n \<and> n \<le> ?k \<and>
        hard_cutoff h b active ?k = safe_compaction_cutoff active (length active - n)" by auto
    moreover have "hard_cutoff h b active keep = hard_cutoff h b active ?k"
      using False by (auto simp: hard_cutoff.simps [of h b active keep] Let_def)
    moreover have "?k \<le> keep" using 1(2) by simp
    ultimately show ?thesis by (metis le_trans)
  qed
qed

text \<open>When the loop answers 0 no sound cut exists that keeps the minimum.\<close>

lemma hard_cutoff_zero:
  assumes "hard_cutoff h b active keep = 0"
  shows "safe_compaction_cutoff active (length active - MIN_TURNS_TO_KEEP) = 0"
  using assms
proof (induction h b active keep rule: hard_cutoff.induct)
  case (1 h b active keep)
  from 1(2) show ?case
    using 1(1) [OF refl]
    by (simp add: hard_cutoff.simps [of h b active keep] Let_def split: if_splits)
qed

lemma hard_cutoff_budget:
  assumes "hard_cutoff h b active keep = c" and "0 < c"
    and "\<not> chars_of h (drop c active) div CHARS_PER_TOKEN \<le> b"
  shows "c = safe_compaction_cutoff active (length active - MIN_TURNS_TO_KEEP)"
  using assms
proof (induction h b active keep rule: hard_cutoff.induct)
  case (1 h b active keep)
  from 1(2-) show ?case
    using 1(1) [OF refl]
    by (auto simp: hard_cutoff.simps [of h b active keep] Let_def split: if_splits)
qed


text \<open>What emergency compaction does on each branch.\<close>

lemma hard_compact_form:
  assumes inv: "cut_inv m ms" and "hard_compact_with h m ms = Inr (d, m')"
  defines "active \<equiv> drop (compacted_count m) ms"
  shows "MIN_TURNS_TO_KEEP < length active" and "0 < d"
    and "d = hard_cutoff h (token_budget m) active (min RECENT_TURNS_TO_KEEP (length active - 1))"
    and "compacted_count m' = min (compacted_count m + d) (length ms)"
    and "pending_task m' = None" and "total_turns m' = total_turns m"
    and "active_chars m' = set_exact (chars_of h (drop d active)) (active_chars m)"
    and "map_option covers_up_to_turn (active_summary m') = Some d"
    and "map_option openai_encrypted_content (active_summary m') = Some None"
    and "observed_input_tokens m' = None"
proof -
  have c: "clamp_compacted_count_to_messages ms m = m" and a: "active_messages m ms = active"
    unfolding active_def using clamp_id active_messages_drop inv_count_le [OF inv] by simp_all
  note e = assms(2) [unfolded hard_compact_with_def Let_def c a]
  show 1: "MIN_TURNS_TO_KEEP < length active" using e by (cases "length active \<le> MIN_TURNS_TO_KEEP") auto
  have 2: "hard_cutoff h (token_budget m) active (min RECENT_TURNS_TO_KEEP (length active - 1)) \<noteq> 0"
    (is "?c \<noteq> 0")
  proof
    assume "?c = 0"
    from e [unfolded if_not_P [OF 1 [unfolded not_le [symmetric]]] if_P [OF this]] show False by simp
  qed
  note f = e [unfolded if_not_P [OF 1 [unfolded not_le [symmetric]]] if_not_P [OF 2] sum.inject prod.inject]
  show "d = hard_cutoff h (token_budget m) active (min RECENT_TURNS_TO_KEEP (length active - 1))" using f by simp
  with 2 show "0 < d" by simp
  have d: "hard_cutoff h (token_budget m) active (min RECENT_TURNS_TO_KEEP (length active - 1)) = d" using f by simp
  note m = conjunct2 [OF f, unfolded d, symmetric]
  show "compacted_count m' = min (compacted_count m + d) (length ms)"
    "pending_task m' = None" "total_turns m' = total_turns m"
    "active_chars m' = set_exact (chars_of h (drop d active)) (active_chars m)"
    "map_option covers_up_to_turn (active_summary m') = Some d"
    "map_option openai_encrypted_content (active_summary m') = Some None"
    "observed_input_tokens m' = None"
    unfolding m by (simp_all add: clear_pending_def)
qed

lemma hard_compact_cut:
  assumes inv: "cut_inv m ms" and "hard_compact_with h m ms = Inr (d, m')"
  shows "compacted_count m' = compacted_count m + d" and "tail_ok (compacted_count m + d) ms"
proof -
  let ?a = "drop (compacted_count m) ms"
  note form = hard_compact_form [OF inv assms(2)]
  have "MIN_TURNS_TO_KEEP \<le> min RECENT_TURNS_TO_KEEP (length ?a - 1)"
    using form(1) by (simp add: compaction_limits)
  from hard_cutoff_form [OF this, of h "token_budget m" ?a] obtain n where
    n: "MIN_TURNS_TO_KEEP \<le> n" "n \<le> length ?a - 1" "d = safe_compaction_cutoff ?a (length ?a - n)"
    unfolding form(3) [symmetric] by auto
  show ok: "tail_ok (compacted_count m + d) ms"
    by (rule safe_cutoff_tail [OF n(3) [symmetric] form(2)]) (use n(1,2) form(1) in linarith)
  show "compacted_count m' = compacted_count m + d"
    using form(4) tail_ok_le [OF ok] by simp
qed

lemma cut_inv_hard:
  assumes "cut_inv m ms" and "hard_compact_with h m ms = Inr (d, m')"
  shows "cut_inv m' ms"
  using assms(1) hard_compact_cut [OF assms] hard_compact_form(5,6,8) [OF assms]
  by (auto simp: cut_inv_def)

lemma exact_hard:
  assumes "cut_inv m ms" and "hard_compact_with h m ms = Inr (d, m')"
  shows "estimate_exact h m' ms"
  using hard_compact_cut(1) [OF assms] hard_compact_form(7) [OF assms]
  by (simp add: estimate_exact_def set_exact_def add.commute)

section \<open>The exact estimate\<close>

lemma exact_cong:
  "estimate_exact h m ms \<Longrightarrow> active_chars m' = active_chars m \<Longrightarrow> compacted_count m' = compacted_count m \<Longrightarrow>
     estimate_exact h m' ms"
  by (simp add: estimate_exact_def)

lemma exact_notify:
  assumes "cut_inv m ms" and "estimate_exact h m ms"
  shows "estimate_exact h (notify_message_added_with h x m) (ms @ [x])"
  using assms(2) inv_count_le [OF assms(1)]
  by (simp add: estimate_exact_def notify_message_added_with_def notify_message_added_blocks_def
      append_exact_def chars_of_def message_char_count_def)

lemma manager_inv_start:
  "manager_inv h m ms \<Longrightarrow> 0 < c \<Longrightarrow> tail_ok (compacted_count m + c) ms \<Longrightarrow> manager_inv h (start_task c t m) ms"
  using cut_inv_start [of m ms c t] exact_cong [of h m ms "start_task c t m"]
  by (simp add: manager_inv_def) (simp add: start_task_def)

lemma manager_inv_maybe_start [inv_intros]:
  assumes "manager_inv h m ms" and "maybe_start_compaction_with h m ms = Some m'"
  shows "manager_inv h m' ms"
  using assms maybe_start_form [of m ms h m'] manager_inv_start
  by (auto simp: manager_inv_def)

lemma manager_inv_force [inv_intros]:
  assumes "manager_inv h m ms" and "force_compact_with h m ms = Inr m'"
  shows "manager_inv h m' ms"
  using assms force_form [of m ms h m'] manager_inv_start by (auto simp: manager_inv_def)

lemma manager_inv_check [inv_intros]:
  assumes "manager_inv h m ms"
  shows "manager_inv h (check_and_apply_compaction_with h m ms) ms"
proof -
  have c: "cut_inv m ms" and e: "estimate_exact h m ms" using assms by (auto simp: manager_inv_def)
  have "estimate_exact h (check_and_apply_compaction_with h m ms) ms"
    using e exact_apply [OF c _ e] clamp_id [OF inv_count_le [OF c]]
    by (auto simp: check_and_apply_compaction_with_def clear_pending_def exact_cong
        split: option.split task.split)
  with cut_inv_check [OF c] show ?thesis by (simp add: manager_inv_def)
qed

lemma manager_inv_finish [inv_intros]:
  "manager_inv h m ms \<Longrightarrow> pending_task m = Some TaskRunning \<Longrightarrow>
     manager_inv h (m\<lparr>pending_task := Some outcome\<rparr>) ms"
  by (simp add: manager_inv_def cut_inv_finish estimate_exact_def)

lemma manager_inv_wait [inv_intros]:
  "manager_inv h m ms \<Longrightarrow> manager_inv h (wait_for_pending h outcome m ms) ms"
  using manager_inv_check manager_inv_finish by (auto simp: wait_for_pending_def Let_def)

lemma manager_inv_hard [inv_intros]:
  "manager_inv h m ms \<Longrightarrow> hard_compact_with h m ms = Inr (d, m') \<Longrightarrow> manager_inv h m' ms"
  using cut_inv_hard exact_hard by (auto simp: manager_inv_def)

text \<open>\<open>ensure_context_fits\<close> is composed of the above; the same argument serves both invariants.\<close>

lemma ensure_context_fits_rule:
  assumes fits: "ensure_context_fits h outcome m ms = Some (m', act)" and P: "P m"
    and count: "\<And>m. P m \<Longrightarrow> compacted_count m \<le> length ms"
    and wait: "\<And>m. P m \<Longrightarrow> P (wait_for_pending h outcome m ms)"
    and hard: "\<And>m d m'. P m \<Longrightarrow> hard_compact_with h m ms = Inr (d, m') \<Longrightarrow> P m'"
    and start: "\<And>m m'. P m \<Longrightarrow> maybe_start_compaction_with h m ms = Some m' \<Longrightarrow> P m'"
  shows "P m'"
proof -
  have s: "P m2" if "P m1" "start_or_none h m1 ms = Some (m2, act)" for m1 m2
    using that start [OF that(1)] by (auto simp: start_or_none_def split: option.splits)
  let ?m = "if pending_task m \<noteq> None then wait_for_pending h outcome m ms else m"
  have m: "P ?m" using P wait by simp
  show ?thesis
  proof (cases "f64_le CRITICAL_THRESHOLD (context_usage_with h m ms)")
    case False
    with fits have "start_or_none h m ms = Some (m', act)" by (simp add: ensure_context_fits_def)
    with s P show ?thesis by blast
  next
    case True
    show ?thesis
    proof (cases "pending_task m \<noteq> None \<and> f64_lt (context_usage_with h ?m ms) CRITICAL_THRESHOLD")
      case c: True
      have "start_or_none h ?m ms = Some (m', act)"
        using fits unfolding ensure_context_fits_def Let_def if_P [OF True] if_P [OF c] .
      with s m show ?thesis by blast
    next
      case c: False
      have "ensure_context_fits h outcome m ms = (case hard_compact_with h ?m ms of
          Inr (d, m2) \<Rightarrow> Some (m2, HardCompacted d)
        | Inl _ \<Rightarrow> start_or_none h (clamp_compacted_count_to_messages ms ?m) ms)"
        unfolding ensure_context_fits_def Let_def if_P [OF True] if_not_P [OF c] by (rule refl)
      with fits s [OF m] hard [OF m] clamp_id [OF count [OF m]] show ?thesis
        by (cases "hard_compact_with h ?m ms") (auto simp del: not_None_eq)
    qed
  qed
qed

lemma manager_inv_fits [inv_intros]:
  assumes "manager_inv h m ms" and "ensure_context_fits h outcome m ms = Some (m', act)"
  shows "manager_inv h m' ms"
  by (rule ensure_context_fits_rule [where P = "\<lambda>m. manager_inv h m ms", OF assms(2,1)])
    (auto intro: manager_inv_wait manager_inv_hard manager_inv_maybe_start inv_count_le
      manager_inv_def [THEN iffD1, THEN conjunct1])

lemma cut_inv_maybe_start:
  "cut_inv m ms \<Longrightarrow> maybe_start_compaction_with h m ms = Some m' \<Longrightarrow> cut_inv m' ms"
  using maybe_start_form cut_inv_start by blast

lemma cut_inv_fits:
  assumes "cut_inv m ms" and "ensure_context_fits h outcome m ms = Some (m', act)"
  shows "cut_inv m' ms"
  by (rule ensure_context_fits_rule [where P = "\<lambda>m. cut_inv m ms", OF assms(2,1)])
    (auto intro: cut_inv_wait cut_inv_hard cut_inv_maybe_start inv_count_le)

section \<open>Recovery, requests and restarts\<close>

text \<open>Emergency truncation changes contents only, never tool ids.\<close>

lemma uses_results_ids:
  "map tool_ids xs = map tool_ids ys \<Longrightarrow> uses xs = uses ys \<and> results xs = results ys"
proof -
  have c: "set (concat (map block_tool_ids (concat (map msg_content zs)))) = \<Union> (set ` set (map tool_ids zs))" for zs
    by (induction zs) (auto simp: tool_ids_def)
  assume "map tool_ids xs = map tool_ids ys"
  then show ?thesis unfolding block_uses_def block_results_def c by (simp only:)
qed

lemma tail_ok_ids:
  assumes "map tool_ids xs = map tool_ids ys" shows "tail_ok k xs = tail_ok k ys"
proof -
  have "map tool_ids (drop k xs) = map tool_ids (drop k ys)" using assms by (simp flip: drop_map)
  from uses_results_ids [OF this] map_eq_imp_length_eq [OF assms] show ?thesis
    by (simp add: tail_ok_def tool_closed_def)
qed

lemma cut_inv_ids:
  "cut_inv m xs \<Longrightarrow> map tool_ids xs = map tool_ids ys \<Longrightarrow> cut_inv m ys"
  using tail_ok_ids [of xs ys] map_eq_imp_length_eq [of tool_ids xs tool_ids ys]
  by (simp add: cut_inv_def)

lemma emergency_truncate_with_ids:
  assumes "emergency_truncate_with m ms = (m', ms', n)"
  shows "map tool_ids ms' = map tool_ids ms" and "compacted_count m' = compacted_count m"
    and "cut_inv m xs \<Longrightarrow> cut_inv m' xs"
proof -
  let ?s = "min (compacted_count m) (length ms)"
  let ?r = "emergency_truncate_large_payloads (drop ?s ms) EMERGENCY_TOOL_RESULT_MAX_CHARS EMERGENCY_IMAGE_MAX_CHARS"
  have ms': "ms' = take ?s ms @ fst ?r" and m': "m' = (if 0 < snd ?r
      then m\<lparr>observed_input_tokens := None, active_chars := invalidate (active_chars m)\<rparr> else m)"
    using assms by (auto simp: emergency_truncate_with_def Let_def split: prod.splits)
  have "map tool_ids (fst ?r) = map tool_ids (drop ?s ms)"
    unfolding emergency_truncate_large_payloads_def
    by (rule update_blocks_tool_ids) (auto simp: shrink_payload_Some)
  then show "map tool_ids ms' = map tool_ids ms" unfolding ms' map_append
    by (metis append_take_drop_id map_append)
  show "compacted_count m' = compacted_count m" unfolding m' by simp
  show "cut_inv m xs \<Longrightarrow> cut_inv m' xs" unfolding m' by (simp add: cut_inv_def)
qed

lemma cut_inv_recover:
  assumes inv: "cut_inv m ms" and rec: "recover_within_budget h m ms = (m', ms', r)"
  shows "cut_inv m' ms'"
proof -
  define m1 where "m1 = (case hard_compact_with h m ms of
     Inr (d, m') \<Rightarrow> m' | Inl _ \<Rightarrow> clamp_compacted_count_to_messages ms m)"
  have m1: "cut_inv m1 ms"
    using inv cut_inv_hard [OF inv] clamp_id [OF inv_count_le [OF inv]]
    by (auto simp: m1_def split: sum.split)
  have "(m', ms') = (m1, ms) \<or> (\<exists>n. emergency_truncate_with m1 ms = (m', ms', n))"
    using rec by (auto simp: recover_within_budget_def m1_def Let_def split: sum.splits prod.splits if_splits)
  with m1 emergency_truncate_with_ids [of m1 ms m' ms'] cut_inv_ids [of m' ms ms'] show ?thesis
    by auto
qed

lemma cut_inv_discard: "cut_inv m ms \<Longrightarrow> cut_inv (fst (discard_oversized_openai_native_compaction m)) ms"
  by (rule cut_inv_cong) (auto simp del: not_None_eq)

lemma manager_inv_discard [inv_intros]:
  "manager_inv h m ms \<Longrightarrow> manager_inv h (fst (discard_oversized_openai_native_compaction m)) ms"
  by (simp add: manager_inv_def cut_inv_discard estimate_exact_def)

lemma api_manager:
  "messages_for_api_with h m ms = (m', out) \<Longrightarrow>
     m' = fst (discard_oversized_openai_native_compaction (check_and_apply_compaction_with h m ms))"
  by (auto simp: messages_for_api_with_def Let_def)

lemma cut_inv_api: "cut_inv m ms \<Longrightarrow> messages_for_api_with h m ms = (m', out) \<Longrightarrow> cut_inv m' ms"
  using api_manager cut_inv_discard cut_inv_check by blast

lemma manager_inv_api [inv_intros]:
  "manager_inv h m ms \<Longrightarrow> messages_for_api_with h m ms = (m', out) \<Longrightarrow> manager_inv h m' ms"
  using api_manager manager_inv_discard manager_inv_check by blast

text \<open>A restart keeps the messages and the stored state; the rest of the manager is rebuilt.\<close>

definition restarted ::
  "heuristics \<Rightarrow> CompactionConfig \<Rightarrow> CompactionManager \<Rightarrow> Message list \<Rightarrow> CompactionManager" where
  "restarted h cfg m ms =
     (case persisted_state m of
        Some st \<Rightarrow> restore_persisted_state_with h st ms (new_manager cfg)
      | None \<Rightarrow> seed_restored_messages_with h ms (new_manager cfg))"

lemma restarted_fields:
  assumes "cut_inv m ms"
  shows "compacted_count (restarted h cfg m ms) = compacted_count m"
    and "active_summary (restarted h cfg m ms) = active_summary m"
    and "pending_task (restarted h cfg m ms) = None"
    and "total_turns (restarted h cfg m ms) = length ms"
    and "suppress_until_new (restarted h cfg m ms) \<longleftrightarrow> ms \<noteq> []"
    and "estimate_exact h (restarted h cfg m ms) ms"
proof -
  have le: "compacted_count m \<le> length ms" by (rule inv_count_le [OF assms])
  have none: "active_summary m = None \<Longrightarrow> compacted_count m = 0"
    using assms by (auto simp: cut_inv_def)
  show "compacted_count (restarted h cfg m ms) = compacted_count m"
    "active_summary (restarted h cfg m ms) = active_summary m"
    "pending_task (restarted h cfg m ms) = None"
    "total_turns (restarted h cfg m ms) = length ms"
    "suppress_until_new (restarted h cfg m ms) \<longleftrightarrow> ms \<noteq> []"
    "estimate_exact h (restarted h cfg m ms) ms"
    using le none
    by (cases "active_summary m"; simp add: restarted_def persisted_state_def new_manager_def Let_def
      restore_persisted_state_with_def restore_persisted_state_def seed_restored_messages_with_def
      estimate_exact_def set_exact_def active_messages_def min_def)+
qed

lemma manager_inv_restarted [inv_intros]:
  assumes "cut_inv m ms" shows "manager_inv h (restarted h cfg m ms) ms"
  using assms unfolding manager_inv_def cut_inv_def [of "restarted h cfg m ms"]
  by (simp add: restarted_fields) (simp add: cut_inv_def)

section \<open>The life of a manager\<close>

text \<open>The operations a session performs on a manager and its history, in any order. A background task
  ends with any outcome at any time. New messages answer tool calls promptly, which the agent loop
  guarantees by appending the results of a turn right after its calls.\<close>

type_synonym session_state = "CompactionManager \<times> Message list"

inductive manager_step :: "heuristics \<Rightarrow> session_state \<Rightarrow> session_state \<Rightarrow> bool" for h where
  notify: "prompt_results ms x \<Longrightarrow> manager_step h (m, ms) (notify_message_added_with h x m, ms @ [x])"
| observe: "manager_step h (m, ms) (push_token_snapshot t (update_observed_input_tokens t m), ms)"
| configure: "manager_step h (m, ms) (set_mode md (set_budget b m), ms)"
| start: "maybe_start_compaction_with h m ms = Some m' \<Longrightarrow> manager_step h (m, ms) (m', ms)"
| force: "force_compact_with h m ms = Inr m' \<Longrightarrow> manager_step h (m, ms) (m', ms)"
| finish: "pending_task m = Some TaskRunning \<Longrightarrow>
    manager_step h (m, ms) (m\<lparr>pending_task := Some outcome\<rparr>, ms)"
| poll: "poll_compaction_event_with h m ms = (m', ev) \<Longrightarrow> manager_step h (m, ms) (m', ms)"
| hard: "hard_compact_with h m ms = Inr (d, m') \<Longrightarrow> manager_step h (m, ms) (m', ms)"
| fits: "ensure_context_fits h outcome m ms = Some (m', act) \<Longrightarrow> manager_step h (m, ms) (m', ms)"
| api: "messages_for_api_with h m ms = (m', out) \<Longrightarrow> manager_step h (m, ms) (m', ms)"
| restart: "manager_step h (m, ms) (restarted h cfg m ms, ms)"

text \<open>A session may also recover from an oversized request, which rewrites large payloads.\<close>

inductive session_step :: "heuristics \<Rightarrow> session_state \<Rightarrow> session_state \<Rightarrow> bool" for h where
  manager: "manager_step h s t \<Longrightarrow> session_step h s t"
| recover: "recover_within_budget h m ms = (m', ms', r) \<Longrightarrow> session_step h (m, ms) (m', ms')"

definition fresh_session :: "session_state \<Rightarrow> bool" where
  "fresh_session s \<longleftrightarrow> (\<exists>cfg. s = (new_manager cfg, []))"

lemma cut_inv_bookkeeping:
  "cut_inv m ms \<Longrightarrow> cut_inv (push_token_snapshot t (update_observed_input_tokens t m)) ms"
  "cut_inv m ms \<Longrightarrow> cut_inv (set_mode md (set_budget b m)) ms"
  "cut_inv m ms \<Longrightarrow> cut_inv (m\<lparr>last_compaction := ev\<rparr>) ms"
  by (simp_all add: cut_inv_def push_token_snapshot_def update_observed_input_tokens_def set_mode_def
      set_budget_def Let_def)

lemma exact_bookkeeping:
  "estimate_exact h m ms \<Longrightarrow> estimate_exact h (push_token_snapshot t (update_observed_input_tokens t m)) ms"
  "estimate_exact h m ms \<Longrightarrow> estimate_exact h (set_mode md (set_budget b m)) ms"
  "estimate_exact h m ms \<Longrightarrow> estimate_exact h (m\<lparr>last_compaction := ev\<rparr>) ms"
  by (simp_all add: estimate_exact_def push_token_snapshot_def update_observed_input_tokens_def set_mode_def
      set_budget_def Let_def)

lemma manager_inv_notify [inv_intros]:
  "manager_inv h m ms \<Longrightarrow> prompt_results ms x \<Longrightarrow> manager_inv h (notify_message_added_with h x m) (ms @ [x])"
  using cut_inv_notify exact_notify by (simp add: manager_inv_def)

lemma poll_manager:
  "poll_compaction_event_with h m ms = (m', ev) \<Longrightarrow>
     m' = (check_and_apply_compaction_with h m ms)\<lparr>last_compaction := None\<rparr>"
  by (auto simp: poll_compaction_event_with_def take_compaction_event_def)

lemma manager_step_inv:
  assumes "manager_step h s t" and "case s of (m, ms) \<Rightarrow> manager_inv h m ms"
  shows "case t of (m, ms) \<Rightarrow> manager_inv h m ms"
  using assms
proof (induction rule: manager_step.induct)
  case (poll m ms m' ev)
  with manager_inv_check [of h m ms] show ?case
    by (auto dest!: poll_manager simp: manager_inv_def cut_inv_bookkeeping exact_bookkeeping)
next
  case (observe m ms u)
  then show ?case by (simp add: manager_inv_def cut_inv_bookkeeping exact_bookkeeping)
next
  case (configure m ms md b)
  then show ?case by (simp add: manager_inv_def cut_inv_bookkeeping exact_bookkeeping)
next
  case (restart m ms cfg)
  then show ?case using manager_inv_restarted by (simp add: manager_inv_def [of h m])
qed (auto intro: inv_intros)

lemma manager_step_cut:
  assumes "manager_step h s t" and "case s of (m, ms) \<Rightarrow> cut_inv m ms"
  shows "case t of (m, ms) \<Rightarrow> cut_inv m ms"
  using assms
proof (induction rule: manager_step.induct)
  case (start m ms m') then show ?case using cut_inv_maybe_start by simp
next
  case (force m ms m') then show ?case using force_form cut_inv_start by (metis case_prod_conv)
next
  case (poll m ms m' ev) then show ?case
    using cut_inv_check cut_inv_bookkeeping(3) by (auto dest!: poll_manager)
next
  case (restart m ms cfg) then show ?case
    using manager_inv_restarted [of m ms h cfg] by (simp add: manager_inv_def)
qed (auto intro: cut_inv_notify cut_inv_bookkeeping cut_inv_finish cut_inv_hard cut_inv_fits cut_inv_api)

lemma session_step_cut:
  "session_step h s t \<Longrightarrow> (case s of (m, ms) \<Rightarrow> cut_inv m ms) \<Longrightarrow> (case t of (m, ms) \<Rightarrow> cut_inv m ms)"
  by (induction rule: session_step.induct) (auto intro: cut_inv_recover dest: manager_step_cut)

lemma manager_inv_new: "manager_inv h (new_manager cfg) []"
  unfolding manager_inv_def by (rule conjI [OF cut_inv_new])
    (simp add: estimate_exact_def new_manager_def chars_of_def)

interpretation session: transition_system
  fresh_session "session_step h" "\<lambda>(m, ms). cut_inv m ms" for h
proof
  fix s assume "fresh_session s"
  then show "case s of (m, ms) \<Rightarrow> cut_inv m ms" by (auto simp: fresh_session_def cut_inv_new)
qed (rule session_step_cut)

interpretation accounting: transition_system
  fresh_session "manager_step h" "\<lambda>(m, ms). manager_inv h m ms" for h
proof
  fix s assume "fresh_session s"
  then show "case s of (m, ms) \<Rightarrow> manager_inv h m ms" by (auto simp: fresh_session_def manager_inv_new)
qed (rule manager_step_inv)

section \<open>Properties\<close>

lemma api_messages:
  assumes "cut_inv m ms" and "messages_for_api_with h m ms = (m', out)"
  shows "out = (case active_summary m' of Some s \<Rightarrow> summary_message s # drop (compacted_count m') ms
     | None \<Rightarrow> drop (compacted_count m') ms)"
proof -
  have "compacted_count m' \<le> length ms" using inv_count_le [OF cut_inv_api [OF assms]] .
  from active_messages_drop [OF this] assms(2) show ?thesis
    by (simp add: messages_for_api_with_def Let_def) (auto split: option.split)
qed

lemma fresh_new [simp]: "fresh_session (new_manager cfg, [])"
  by (auto simp: fresh_session_def)

lemma reached_cut: "(session_step h)\<^sup>*\<^sup>* (new_manager cfg, []) (m, ms) \<Longrightarrow> cut_inv m ms"
  using session.reachable_inv [OF fresh_new, of h cfg "(m, ms)"] by simp

lemma reached_inv: "(manager_step h)\<^sup>*\<^sup>* (new_manager cfg, []) (m, ms) \<Longrightarrow> manager_inv h m ms"
  using accounting.reachable_inv [OF fresh_new, of h cfg "(m, ms)"] by simp

lemma summary_message_ids [simp]:
  "block_uses (msg_content (summary_message s)) = {}" "block_results (msg_content (summary_message s)) = {}"
  by (simp_all add: block_uses_def block_results_def summary_message_def split: option.split)

text \<open>
  C11: compaction never breaks a conversation. However messages arrive, summaries start, finish, fail or
  go stale, the context overflows, large payloads are truncated and the session restarts, what is sent
  to the provider is the history without a leading part, preceded by the summary. Nothing is left out
  unless a summary stands for it, the two most recent messages are always sent, and every tool result
  sent has its tool call in the same request.
\<close>

theorem compaction_never_orphans_tools:
  assumes "(session_step h)\<^sup>*\<^sup>* (new_manager cfg, []) (m, ms)"
    and "messages_for_api_with h m ms = (m', out)"
  shows "tool_closed out
    \<and> (compacted_count m' = 0 \<or> compacted_count m' + 2 \<le> length ms)
    \<and> (case active_summary m' of
         Some s \<Rightarrow> out = summary_message s # drop (compacted_count m') ms
       | None \<Rightarrow> out = ms)"
proof -
  have "cut_inv m ms" by (rule reached_cut [OF assms(1)])
  from api_messages [OF this assms(2)] cut_inv_api [OF this assms(2)] show ?thesis
    by (auto simp: cut_inv_def tail_ok_def tool_closed_def compaction_limits split: option.splits)
qed

definition demo_config :: CompactionConfig where
  "demo_config = \<lparr>cfg_mode = Reactive, lookahead_turns = 15, ewma_alpha = SFin (3 / 10), proactive_floor = Fin 0, min_samples = 3, stall_window = 5,
     min_turns_between_compactions = 10, goal_window_turns = 5\<rparr>"

definition demo_heuristics :: heuristics where
  "demo_heuristics = \<lparr>json_text = (\<lambda>_. ''{}''), alphanumeric = (\<lambda>_. True),
     topic_shifted = (\<lambda>_. False), embeds = (\<lambda>_. False),
     similar = (\<lambda>_ _. False)\<rparr>"

definition notify_all :: "Message list \<Rightarrow> CompactionManager \<Rightarrow> CompactionManager" where
  "notify_all xs m = fold (notify_message_added_with demo_heuristics) xs m"

lemma no_results_prompt [simp]: "block_results (msg_content x) = {} \<Longrightarrow> prompt_results ms x"
  by (simp add: prompt_results_def)

lemma notify_all_steps:
  assumes "list_all (\<lambda>x. block_results (msg_content x) = {}) xs"
  shows "(manager_step demo_heuristics)\<^sup>*\<^sup>* (m, ms) (notify_all xs m, ms @ xs)"
  using assms
proof (induction xs arbitrary: m ms)
  case (Cons x xs)
  have "manager_step demo_heuristics (m, ms) (notify_message_added_with demo_heuristics x m, ms @ [x])"
    using Cons.prems by (intro manager_step.notify) simp
  from converse_rtranclp_into_rtranclp [of "manager_step demo_heuristics", OF this] Cons.IH [of "notify_message_added_with demo_heuristics x m" "ms @ [x]"] Cons.prems
  show ?case by (simp add: notify_all_def)
qed (simp add: notify_all_def)

text \<open>
  C12: the size estimate is exact. In every state reached without emergency truncation the manager's
  running character count equals the size of the messages still active, the cached count is the one it
  answers with, and its turn counter agrees with the history, so no decision rests on a stale size.
\<close>

theorem compaction_accounting_exact:
  assumes "(manager_step h)\<^sup>*\<^sup>* (new_manager cfg, []) (m, ms)"
  shows "est_chars (active_chars m) = chars_of h (drop (compacted_count m) ms)
    \<and> active_message_chars_with h m ms = est_chars (active_chars m)
    \<and> active_messages_count m = length (active_messages m ms)"
proof -
  have "manager_inv h m ms" by (rule reached_inv [OF assms(1)])
  then show ?thesis
    using inv_count_le by (auto simp: manager_inv_def estimate_exact_def active_message_chars_with_def
      active_messages_count_def active_messages_drop cut_inv_def)
qed

lemma hard_compact_cases:
  assumes inv: "cut_inv m ms"
  shows "case hard_compact_with h m ms of
      Inr (d, m') \<Rightarrow>
        0 < d \<and> d + 2 \<le> length (active_messages m ms) \<and> compacted_count m' = compacted_count m + d
        \<and> map_option covers_up_to_turn (active_summary m') = Some d \<and> pending_task m' = None
        \<and> tool_closed (drop d (active_messages m ms))
        \<and> (chars_of h (drop d (active_messages m ms)) div CHARS_PER_TOKEN \<le> token_budget m
           \<or> (\<forall>k. d < k \<and> k + 2 \<le> length (active_messages m ms) \<longrightarrow> \<not> tool_closed (drop k (active_messages m ms))))
    | Inl e \<Rightarrow>
        length (active_messages m ms) \<le> 2 \<and> e = NotEnoughMessages 2 (length (active_messages m ms))
        \<or> 2 < length (active_messages m ms) \<and> e = WouldSplitPairs
          \<and> (\<forall>k. 0 < k \<and> k + 2 \<le> length (active_messages m ms) \<longrightarrow> \<not> tool_closed (drop k (active_messages m ms)))"
proof -
  define active where "active = active_messages m ms"
  have active: "active = drop (compacted_count m) ms" "clamp_compacted_count_to_messages ms m = m"
    unfolding active_def using active_messages_drop clamp_id inv_count_le [OF inv] by simp_all
  note best = safe_cutoff_best [of active "length active - MIN_TURNS_TO_KEEP"]
  show ?thesis
  proof (cases "hard_compact_with h m ms")
    case (Inl e)
    let ?c = "hard_cutoff h (token_budget m) active (min RECENT_TURNS_TO_KEEP (length active - 1))"
    have "length active \<le> MIN_TURNS_TO_KEEP \<and> e = NotEnoughMessages MIN_TURNS_TO_KEEP (length active)
        \<or> MIN_TURNS_TO_KEEP < length active \<and> e = WouldSplitPairs \<and> ?c = 0"
    proof (cases "length active \<le> MIN_TURNS_TO_KEEP")
      case True
      with Inl [unfolded hard_compact_with_def Let_def active(2) active_def [symmetric] if_P [OF True]]
      show ?thesis by simp
    next
      case False
      note e = Inl [unfolded hard_compact_with_def Let_def active(2) active_def [symmetric] if_not_P [OF False]]
      have c: "?c = 0"
      proof (rule ccontr)
        assume "?c \<noteq> 0"
        from e [unfolded if_not_P [OF this]] show False by simp
      qed
      from e [unfolded if_P [OF this]] False c show ?thesis by simp
    qed
    then show ?thesis using best hard_cutoff_zero [of h "token_budget m" active]
      unfolding Inl active_def [symmetric] by (auto simp: compaction_limits)
  next
    case (Inr p)
    obtain d m' where p: "p = (d, m')" by (cases p)
    with Inr have e: "hard_compact_with h m ms = Inr (d, m')" by simp
    note form = hard_compact_form [OF inv e, folded active(1)] and cut = hard_compact_cut [OF inv e]
    have closed: "tool_closed (drop d active)" "d + 2 \<le> length active"
      using cut(2) form(2) by (auto simp: tail_ok_def active(1) compaction_limits add.commute)
    have "chars_of h (drop d active) div CHARS_PER_TOKEN \<le> token_budget m
        \<or> (\<forall>k. d < k \<and> k + 2 \<le> length active \<longrightarrow> \<not> tool_closed (drop k active))"
    proof (cases "chars_of h (drop d active) div CHARS_PER_TOKEN \<le> token_budget m")
      case False
      from hard_cutoff_budget [OF form(3) [symmetric] form(2) False] best
      have "\<forall>k. d < k \<and> k \<le> min (length active - MIN_TURNS_TO_KEEP) (length active) \<longrightarrow> \<not> tool_closed (drop k active)"
        by metis
      then show ?thesis by (intro disjI2) (auto simp: compaction_limits)
    qed simp
    with closed cut(1) form(2,5,8) show ?thesis unfolding Inr p active_def [symmetric] by simp
  qed
qed


text \<open>
  C34: emergency compaction. In a reachable state it answers with the number of messages it dropped, and
  then at least one went, their place is taken by a summary that says how many, a running background
  task is cancelled, the kept part is closed under tool calls, and either fits the budget or is the
  shortest closed part that keeps two messages. It refuses exactly when at most two messages are
  active or no cut that keeps two messages is closed.
\<close>

theorem hard_compact_effect:
  assumes "(session_step h)\<^sup>*\<^sup>* (new_manager cfg, []) (m, ms)"
  shows "case hard_compact_with h m ms of
      Inr (d, m') \<Rightarrow>
        0 < d \<and> d + 2 \<le> length (active_messages m ms) \<and> compacted_count m' = compacted_count m + d
        \<and> map_option covers_up_to_turn (active_summary m') = Some d \<and> pending_task m' = None
        \<and> tool_closed (drop d (active_messages m ms))
        \<and> (chars_of h (drop d (active_messages m ms)) div CHARS_PER_TOKEN \<le> token_budget m
           \<or> (\<forall>k. d < k \<and> k + 2 \<le> length (active_messages m ms) \<longrightarrow> \<not> tool_closed (drop k (active_messages m ms))))
    | Inl e \<Rightarrow>
        length (active_messages m ms) \<le> 2 \<and> e = NotEnoughMessages 2 (length (active_messages m ms))
        \<or> 2 < length (active_messages m ms) \<and> e = WouldSplitPairs
          \<and> (\<forall>k. 0 < k \<and> k + 2 \<le> length (active_messages m ms) \<longrightarrow> \<not> tool_closed (drop k (active_messages m ms)))"
  using hard_compact_cases [OF reached_cut [OF assms]] .


text \<open>
  Supplement: the estimate after emergency truncation. The first message that arrives afterwards marks the
  count as exact again although it still holds the sizes from before the truncation: the size the
  manager then answers with is that of the untruncated messages plus the new one.
\<close>

theorem estimate_stale_after_truncation:
  assumes "manager_inv h m ms" and "emergency_truncate_with m ms = (m1, ms1, n)"
  shows "active_message_chars_with h (notify_message_added_with h x m1) (ms1 @ [x]) =
    chars_of h (active_messages m ms) + message_char_count (json_text h) x"
proof -
  have inv: "cut_inv m ms" and ex: "estimate_exact h m ms" using assms(1) by (simp_all add: manager_inv_def)
  note ids = emergency_truncate_with_ids [OF assms(2)]
  have len: "length ms1 = length ms" using map_eq_imp_length_eq [OF ids(1)] .
  have m1: "total_turns m1 = total_turns m" "est_chars (active_chars m1) = est_chars (active_chars m)"
    using assms(2) by (auto simp: emergency_truncate_with_def Let_def invalidate_def split: prod.splits if_splits)
  have le: "compacted_count m \<le> length ms" by (rule inv_count_le [OF inv])
  with inv ex ids(2) len m1 show ?thesis
    by (simp add: active_message_chars_with_def notify_message_added_with_def
        notify_message_added_blocks_def append_exact_def active_messages_count_def active_messages_def
        message_char_count_def cut_inv_def estimate_exact_def min_def Suc_diff_le)
qed

section \<open>Instances\<close>

definition demo_talk :: "Message list" where
  "demo_talk = [user 0 ''a'', assistant_text 1 ''b'', user 2 ''c'', assistant_text 3 ''d'']"

definition demo_manager :: CompactionManager where
  "demo_manager = notify_all demo_talk (new_manager demo_config)"

lemma demo_reached: "(manager_step demo_heuristics)\<^sup>*\<^sup>* (new_manager demo_config, []) (demo_manager, demo_talk)"
proof -
  have "list_all (\<lambda>x. block_results (msg_content x) = {}) demo_talk"
    by (simp add: demo_talk_def user_def assistant_text_def block_results_def)
  from notify_all_steps [OF this, of "new_manager demo_config" "[]"] show ?thesis
    by (simp add: demo_manager_def)
qed


lemma demo_session: "(session_step demo_heuristics)\<^sup>*\<^sup>* (new_manager demo_config, []) (demo_manager, demo_talk)"
  using demo_reached by (rule mono_rtranclp [rule_format, rotated]) (rule session_step.manager)

lemma demo_active: "active_messages demo_manager demo_talk = demo_talk" "active_summary demo_manager = None"
    "pending_task demo_manager = None" "compacted_count demo_manager = 0"
    "clamp_compacted_count_to_messages demo_talk demo_manager = demo_manager" "length demo_talk = 4"
  by (simp_all add: clamp_compacted_count_to_messages_def active_messages_def demo_manager_def notify_all_def demo_talk_def new_manager_def
      notify_message_added_with_def notify_message_added_blocks_def)

lemma demo_plain: "block_results (concat (map msg_content (drop k demo_talk))) = {}"
proof -
  have "block_results (msg_content x) = {}" if "x \<in> set demo_talk" for x
    using that by (auto simp: demo_talk_def user_def assistant_text_def block_results_def)
  then show ?thesis by (auto simp: block_results_def dest!: in_set_dropD) 
qed

lemma demo_closed: "tool_closed (drop k demo_talk)"
  by (simp add: tool_closed_def demo_plain)

theorem hard_compact_effect_witness:
  "\<exists>d m'. hard_compact_with demo_heuristics demo_manager demo_talk = Inr (d, m') \<and> 0 < d \<and> d \<le> 2
    \<and> map_option covers_up_to_turn (active_summary m') = Some d"
  using hard_compact_effect [OF demo_session, unfolded demo_active] demo_closed [of 1]
  by (cases "hard_compact_with demo_heuristics demo_manager demo_talk") (auto split: prod.splits)

lemma demo_hard: "\<exists>d m'. hard_compact_with demo_heuristics demo_manager demo_talk = Inr (d, m') \<and> 0 < d
    \<and> active_summary m' \<noteq> None \<and> compacted_count m' = d"
  using hard_compact_cases [OF reached_cut [OF demo_session], of demo_heuristics, unfolded demo_active] demo_closed [of 1]
  by (cases "hard_compact_with demo_heuristics demo_manager demo_talk") (auto split: prod.splits simp: demo_active)

theorem compaction_never_orphans_tools_witness:
  "\<exists>d m2 m3 s out. hard_compact_with demo_heuristics demo_manager demo_talk = Inr (d, m2)
    \<and> messages_for_api_with demo_heuristics m2 demo_talk = (m3, summary_message s # out)
    \<and> tool_closed (summary_message s # out) \<and> 2 \<le> length out"
proof -
  obtain d m2 where hard: "hard_compact_with demo_heuristics demo_manager demo_talk = Inr (d, m2)"
    and d: "active_summary m2 \<noteq> None" using demo_hard by blast
  have reach: "(session_step demo_heuristics)\<^sup>*\<^sup>* (new_manager demo_config, []) (m2, demo_talk)"
    using rtranclp.rtrancl_into_rtrancl [OF demo_session session_step.manager [OF manager_step.hard [OF hard]]] .
  obtain m3 out where api: "messages_for_api_with demo_heuristics m2 demo_talk = (m3, out)" by fastforce
  have "pending_task m2 = None"
    using hard_compact_form(5) [OF reached_cut [OF demo_session] hard] .
  then have "active_summary m3 \<noteq> None"
    using api_manager [OF api] d clamp_id [OF inv_count_le [OF reached_cut [OF reach]]]
    by (simp add: check_and_apply_compaction_with_def del: not_None_eq)
  with compaction_never_orphans_tools [OF reach api] show ?thesis
    using hard api by (auto simp: demo_active) (intro exI conjI, rule refl, assumption, linarith)
qed

theorem compaction_accounting_exact_witness:
  "est_chars (active_chars demo_manager) = chars_of demo_heuristics demo_talk
    \<and> active_messages_count demo_manager = 4"
proof -
  show ?thesis using compaction_accounting_exact [OF demo_reached] by (simp add: demo_active)
qed



text \<open>A long tool result, truncated and then followed by a short message.\<close>

abbreviation demo_output :: str where "demo_output \<equiv> replicate 9000 CHR ''x''"

definition demo_long :: "Message list" where
  "demo_long = [(assistant_text 0 [])\<lparr>msg_content := [ToolUse ''t'' ''read'' (JObject []) None]\<rparr>,
     tool_result 1 ''t'' demo_output False]"

lemma demo_long_inv: "manager_inv demo_heuristics (seed_restored_messages_with demo_heuristics demo_long (new_manager cfg)) demo_long"
  by (simp add: manager_inv_def cut_inv_def estimate_exact_def seed_restored_messages_with_def new_manager_def
      set_exact_def tail_ok_def tool_closed_def demo_long_def tool_result_def tool_result_with_duration_def
      block_uses_def block_results_def assistant_text_def)

lemma demo_long_chars: "chars_of demo_heuristics demo_long = 9072"
  by (simp add: chars_of_def demo_long_def message_char_count_def content_char_count_def demo_heuristics_def
      tool_result_def tool_result_with_duration_def assistant_text_def)

theorem estimate_stale_after_truncation_witness:
  "\<exists>m1 ms1 n. emergency_truncate_with
      (seed_restored_messages_with demo_heuristics demo_long (new_manager demo_config)) demo_long = (m1, ms1, n)
    \<and> chars_of demo_heuristics (ms1 @ [user 2 ''ok'']) \<le> 4074
    \<and> active_message_chars_with demo_heuristics (notify_message_added_with demo_heuristics (user 2 ''ok'') m1)
        (ms1 @ [user 2 ''ok'']) = 9074"
proof -
  let ?m = "seed_restored_messages_with demo_heuristics demo_long (new_manager demo_config)"
  let ?r = "emergency_truncated_tool_result demo_output 4000"
  have "utf8_valid demo_output" by (rule utf8_valid_ascii) simp
  from truncated_result_fits [OF this, of 4000] have short: "length ?r \<le> 4000" by simp
  obtain m1 ms1 n where e: "emergency_truncate_with ?m demo_long = (m1, ms1, n)" by (metis prod_cases3)
  have "ms1 = [hd demo_long, tool_result 1 ''t'' ?r False]"
    using e by (simp add: emergency_truncate_with_def Let_def seed_restored_messages_with_def new_manager_def
        emergency_truncate_large_payloads_def update_blocks_def demo_long_def tool_result_def
        tool_result_with_duration_def assistant_text_def compaction_limits
 del: not_None_eq)
  then have "chars_of demo_heuristics (ms1 @ [user 2 ''ok'']) \<le> 4074"
    using short by (simp add: chars_of_def demo_long_def message_char_count_def content_char_count_def
        demo_heuristics_def tool_result_def tool_result_with_duration_def assistant_text_def user_def
       )
  moreover have "active_message_chars_with demo_heuristics (notify_message_added_with demo_heuristics (user 2 ''ok'') m1)
        (ms1 @ [user 2 ''ok'']) = 9074"
    using estimate_stale_after_truncation [OF demo_long_inv e, of "user 2 ''ok''"] demo_long_chars
    by (simp add: active_messages_def seed_restored_messages_with_def new_manager_def message_char_count_def
        content_char_count_def user_def)
  ultimately show ?thesis using e by blast
qed

end
