(* ===== verification/Rust_F32.thy ===== *)
theory Rust_F32
  imports Rust_F64
begin

text \<open>
  IEEE-754 binary32 values with signs, as the memory ranking uses them. The flag of a NaN, an
  infinity or a zero is its sign bit (true for negative); payloads of NaNs are not distinguished. A
  finite non-zero value is the rational it denotes. The order of the type is \<open>f32::total_cmp\<close>;
  \<open>f32_gt\<close> and \<open>f32_eq\<close> are the operators \<open>>\<close> and \<open>==\<close>.
\<close>

datatype f32 = NaN32 bool | Inf32 bool | Zero32 bool | Fin32 rat

fun is_nan :: "f32 \<Rightarrow> bool" where
  "is_nan (NaN32 _) = True"
| "is_nan _ = False"

text \<open>\<open>total_cmp\<close>: negative NaN, negative infinity, negative numbers, the two zeros, positive numbers,
  infinity, NaN.\<close>

fun total_key :: "f32 \<Rightarrow> int \<times> rat" where
  "total_key (NaN32 n) = (if n then - 3 else 3, 0)"
| "total_key (Inf32 n) = (if n then - 2 else 2, 0)"
| "total_key (Zero32 n) = (0, if n then 0 else 1)"
| "total_key (Fin32 q) = (if q < 0 then - 1 else 1, q)"

lemma total_key_inj: "total_key a = total_key b \<Longrightarrow> a = b"
  by (cases a; cases b) (auto split: if_splits)

instantiation f32 :: linorder
begin

definition less_eq_f32 :: "f32 \<Rightarrow> f32 \<Rightarrow> bool" where
  "less_eq_f32 a b \<longleftrightarrow> fst (total_key a) < fst (total_key b)
     \<or> fst (total_key a) = fst (total_key b) \<and> snd (total_key a) \<le> snd (total_key b)"

definition less_f32 :: "f32 \<Rightarrow> f32 \<Rightarrow> bool" where
  "less_f32 a b \<longleftrightarrow> fst (total_key a) < fst (total_key b)
     \<or> fst (total_key a) = fst (total_key b) \<and> snd (total_key a) < snd (total_key b)"

instance
proof
  fix a b c :: f32
  show "a < b \<longleftrightarrow> a \<le> b \<and> \<not> b \<le> a" by (auto simp: less_f32_def less_eq_f32_def)
  show "a \<le> a" by (simp add: less_eq_f32_def)
  show "a \<le> b \<Longrightarrow> b \<le> c \<Longrightarrow> a \<le> c" by (auto simp: less_eq_f32_def)
  show "a \<le> b \<Longrightarrow> b \<le> a \<Longrightarrow> a = b"
    by (rule total_key_inj, rule prod_eqI) (auto simp: less_eq_f32_def)
  show "a \<le> b \<or> b \<le> a" by (auto simp: less_eq_f32_def)
qed

end

section \<open>Comparison operators\<close>

fun numeric_key :: "f32 \<Rightarrow> int \<times> rat" where
  "numeric_key (Zero32 _) = (0, 0)"
| "numeric_key a = total_key a"

definition f32_gt :: "f32 \<Rightarrow> f32 \<Rightarrow> bool" where
  "f32_gt a b \<longleftrightarrow> \<not> is_nan a \<and> \<not> is_nan b \<and>
     (fst (numeric_key b) < fst (numeric_key a)
      \<or> fst (numeric_key b) = fst (numeric_key a) \<and> snd (numeric_key b) < snd (numeric_key a))"

definition f32_eq :: "f32 \<Rightarrow> f32 \<Rightarrow> bool" where
  "f32_eq a b \<longleftrightarrow> \<not> is_nan a \<and> \<not> is_nan b \<and> numeric_key a = numeric_key b"

lemma f32_gt_less: "f32_gt a b \<Longrightarrow> b < a"
  by (cases a; cases b) (auto simp: f32_gt_def less_f32_def split: if_splits)

lemma f32_gt_mono:
  assumes "f32_gt a b" and "c \<le> b" and "\<not> is_nan c"
  shows "f32_gt a c"
  using assms by (cases a; cases b; cases c) (auto simp: f32_gt_def less_eq_f32_def split: if_splits)

lemma f32_gt_trans: "f32_gt a b \<Longrightarrow> f32_gt b c \<Longrightarrow> f32_gt a c"
  using f32_gt_mono [of a b c] f32_gt_less [of b c] by (auto simp: f32_gt_def [of b c])

section \<open>Arithmetic\<close>

text \<open>The nearest binary32 value of a positive rational, and of a signed one.\<close>

definition round32_pos :: "rat \<Rightarrow> f32" where
  "round32_pos q =
     (let u = max (binary_exponent q - 23) (- 149);
          m = round_half_even (q / pow2 u)
      in if 104 < u \<or> u = 104 \<and> m = 2 ^ 24 then Inf32 False
         else if m = 0 then Zero32 False else Fin32 (of_int m * pow2 u))"

fun f32_neg :: "f32 \<Rightarrow> f32" where
  "f32_neg (NaN32 n) = NaN32 (\<not> n)"
| "f32_neg (Inf32 n) = Inf32 (\<not> n)"
| "f32_neg (Zero32 n) = Zero32 (\<not> n)"
| "f32_neg (Fin32 q) = Fin32 (- q)"

definition round32 :: "rat \<Rightarrow> f32" where
  "round32 q = (if q = 0 then Zero32 False else if q < 0 then f32_neg (round32_pos (- q)) else round32_pos q)"

fun sign32 :: "f32 \<Rightarrow> bool" where
  "sign32 (NaN32 n) = n"
| "sign32 (Inf32 n) = n"
| "sign32 (Zero32 n) = n"
| "sign32 (Fin32 q) = (q < 0)"

definition f32_mul :: "f32 \<Rightarrow> f32 \<Rightarrow> f32" where
  "f32_mul a b =
     (let s = (sign32 a \<noteq> sign32 b) in
      case (a, b) of
        (NaN32 _, _) \<Rightarrow> NaN32 False
      | (_, NaN32 _) \<Rightarrow> NaN32 False
      | (Inf32 _, Zero32 _) \<Rightarrow> NaN32 False
      | (Zero32 _, Inf32 _) \<Rightarrow> NaN32 False
      | (Inf32 _, _) \<Rightarrow> Inf32 s
      | (_, Inf32 _) \<Rightarrow> Inf32 s
      | (Zero32 _, _) \<Rightarrow> Zero32 s
      | (_, Zero32 _) \<Rightarrow> Zero32 s
      | (Fin32 p, Fin32 q) \<Rightarrow> round32 (p * q))"

fun f32_add :: "f32 \<Rightarrow> f32 \<Rightarrow> f32" where
  "f32_add (NaN32 _) _ = NaN32 False"
| "f32_add _ (NaN32 _) = NaN32 False"
| "f32_add (Inf32 m) (Inf32 n) = (if m = n then Inf32 m else NaN32 False)"
| "f32_add (Inf32 m) _ = Inf32 m"
| "f32_add _ (Inf32 n) = Inf32 n"
| "f32_add (Zero32 m) (Zero32 n) = Zero32 (m \<and> n)"
| "f32_add (Zero32 _) b = b"
| "f32_add a (Zero32 _) = a"
| "f32_add (Fin32 p) (Fin32 q) = round32 (p + q)"

text \<open>\<open>f32::min\<close> and \<open>f32::max\<close> answer the other operand for a NaN.\<close>

definition f32_min :: "f32 \<Rightarrow> f32 \<Rightarrow> f32" where
  "f32_min a b = (if is_nan a then b else if is_nan b then a else if f32_gt a b then b else a)"

definition f32_max :: "f32 \<Rightarrow> f32 \<Rightarrow> f32" where
  "f32_max a b = (if is_nan a then b else if is_nan b then a else if f32_gt b a then b else a)"

abbreviation zero32 :: f32 where "zero32 \<equiv> Zero32 False"
abbreviation one32 :: f32 where "one32 \<equiv> Fin32 1"

definition in_unit :: "f32 \<Rightarrow> bool" where
  "in_unit a \<longleftrightarrow> \<not> is_nan a \<and> \<not> f32_gt zero32 a \<and> \<not> f32_gt a one32"

end
