(* ===== verification/Ranking.thy ===== *)
theory Ranking
  imports Rust_F32 "HOL-Library.Multiset"
begin

text \<open>
  Bounded ranking (module \<^verbatim>\<open>ranking\<close> of \<^verbatim>\<open>src/crates/jcode-memory-types/src/lib.rs\<close> and
  \<^verbatim>\<open>top_k_scored\<close> of \<^verbatim>\<open>graph.rs\<close>): a bounded min-heap of (key, ordinal, value) whose smallest item gives
  way to a strictly greater key. Ordinals are distinct, so the heap order is strict and the heap is
  represented by its ascending list: \<open>peek\<close> is the head, \<open>pop\<close> drops it. What is left at the end is
  sorted by descending key, then ascending ordinal.
\<close>

type_synonym ('k, 'v) ranked = "'k \<times> nat \<times> 'v"

definition heap_le :: "('k::linorder, 'v) ranked \<Rightarrow> ('k, 'v) ranked \<Rightarrow> bool" where
  "heap_le a b \<longleftrightarrow> fst a < fst b \<or> fst a = fst b \<and> fst (snd a) \<le> fst (snd b)"

fun heap_push :: "('k::linorder, 'v) ranked \<Rightarrow> ('k, 'v) ranked list \<Rightarrow> ('k, 'v) ranked list" where
  "heap_push x [] = [x]"
| "heap_push x (y # ys) = (if heap_le x y then x # y # ys else y # heap_push x ys)"

definition offer ::
  "('k::linorder \<Rightarrow> 'k \<Rightarrow> bool) \<Rightarrow> nat \<Rightarrow> ('k, 'v) ranked \<Rightarrow> ('k, 'v) ranked list \<Rightarrow> ('k, 'v) ranked list" where
  "offer gt limit x heap =
     (if length heap < limit then heap_push x heap
      else case heap of
             [] \<Rightarrow> heap
           | smallest # rest \<Rightarrow> if gt (fst x) (fst smallest) then heap_push x rest else heap)"

definition ranked_before :: "('k::linorder, 'v) ranked \<Rightarrow> ('k, 'v) ranked \<Rightarrow> bool" where
  "ranked_before a b \<longleftrightarrow> fst b < fst a \<or> fst a = fst b \<and> fst (snd a) \<le> fst (snd b)"

fun rank_insert :: "('k::linorder, 'v) ranked \<Rightarrow> ('k, 'v) ranked list \<Rightarrow> ('k, 'v) ranked list" where
  "rank_insert x [] = [x]"
| "rank_insert x (y # ys) = (if ranked_before x y then x # y # ys else y # rank_insert x ys)"

definition rank_sort :: "('k::linorder, 'v) ranked list \<Rightarrow> ('k, 'v) ranked list" where
  "rank_sort xs = foldr rank_insert xs []"

fun number_from :: "nat \<Rightarrow> ('v \<times> 'k) list \<Rightarrow> ('k, 'v) ranked list" where
  "number_from n [] = []"
| "number_from n ((v, k) # xs) = (k, n, v) # number_from (Suc n) xs"

definition top_k :: "('k::linorder \<Rightarrow> 'k \<Rightarrow> bool) \<Rightarrow> ('v \<times> 'k) list \<Rightarrow> nat \<Rightarrow> ('v \<times> 'k) list" where
  "top_k gt items limit =
     (if limit = 0 then []
      else map (\<lambda>(k, _, v). (v, k)) (rank_sort (fold (offer gt limit) (number_from 0 items) [])))"

definition top_k_by_score :: "('v \<times> f32) list \<Rightarrow> nat \<Rightarrow> ('v \<times> f32) list" where
  "top_k_by_score items limit = top_k f32_gt items limit"

definition top_k_by_ord :: "('v \<times> 'k::linorder) list \<Rightarrow> nat \<Rightarrow> ('v \<times> 'k) list" where
  "top_k_by_ord items limit = top_k (>) items limit"

section \<open>What the heap keeps\<close>

text \<open>The contract between an ordering of keys and the comparison that decides on replacement; it
  holds for the keys that are \<open>ok\<close>.\<close>

locale replacement =
  fixes gt :: "'k::linorder \<Rightarrow> 'k \<Rightarrow> bool" and ok :: "'k \<Rightarrow> bool"
  assumes gt_less: "gt a b \<Longrightarrow> b < a"
    and gt_mono: "gt a b \<Longrightarrow> c \<le> b \<Longrightarrow> ok c \<Longrightarrow> gt a c"

lemma mset_heap_push [simp]: "mset (heap_push x xs) = add_mset x (mset xs)"
  by (induction xs) auto

lemma set_heap_push [simp]: "set (heap_push x xs) = insert x (set xs)"
  by (induction xs) auto

lemma length_heap_push [simp]: "length (heap_push x xs) = Suc (length xs)"
  by (induction xs) auto

lemma sorted_heap_push: "sorted_wrt heap_le xs \<Longrightarrow> sorted_wrt heap_le (heap_push x xs)"
  by (induction xs) (auto simp: heap_le_def)

lemma mset_rank_insert [simp]: "mset (rank_insert x xs) = add_mset x (mset xs)"
  by (induction xs) auto

lemma mset_rank_sort [simp]: "mset (rank_sort xs) = mset xs"
  by (induction xs) (simp_all add: rank_sort_def)

lemma sorted_rank_insert: "sorted_wrt ranked_before xs \<Longrightarrow> sorted_wrt ranked_before (rank_insert x xs)"
proof (induction xs)
  case (Cons y ys)
  have "set (rank_insert x ys) = insert x (set ys)" by (metis mset_rank_insert set_mset_add_mset_insert set_mset_mset)
  with Cons show ?case by (auto simp: ranked_before_def)
qed simp

lemma sorted_rank_sort: "sorted_wrt ranked_before (rank_sort xs)"
  by (induction xs) (simp_all add: rank_sort_def sorted_rank_insert)

text \<open>The state after offering the items of \<open>seen\<close>.\<close>

definition keeps_best ::
  "('k::linorder \<Rightarrow> 'k \<Rightarrow> bool) \<Rightarrow> nat \<Rightarrow> ('k, 'v) ranked list \<Rightarrow> ('k, 'v) ranked list \<Rightarrow> bool" where
  "keeps_best gt limit seen heap \<longleftrightarrow>
     sorted_wrt heap_le heap \<and> length heap = min limit (length seen) \<and>
     (\<exists>rejected. mset seen = mset heap + rejected \<and>
        (\<forall>r \<in># rejected. \<forall>k \<in> set heap. \<not> gt (fst r) (fst k)))"

context replacement
begin

lemma gt_irrefl: "gt a b \<Longrightarrow> \<not> gt b a"
  using gt_less [of a b] gt_less [of b a] by auto

lemma keeps_best_offer:
  assumes kb: "keeps_best gt limit seen heap" and "0 < limit"
    and ok: "\<And>y. y \<in> set (x # seen) \<Longrightarrow> ok (fst y)"
  shows "keeps_best gt limit (seen @ [x]) (offer gt limit x heap)"
proof -
  obtain R where R: "mset seen = mset heap + R" "\<And>r k. r \<in># R \<Longrightarrow> k \<in> set heap \<Longrightarrow> \<not> gt (fst r) (fst k)"
    and srt: "sorted_wrt heap_le heap" and len: "length heap = min limit (length seen)"
    using kb by (auto simp: keeps_best_def)
  show ?thesis
  proof (cases "length heap < limit")
    case True
    then have "length (seen @ [x]) \<le> limit" "length heap = length seen" using len by auto
    moreover from this have "R = {#}" using arg_cong [OF R(1), of size] by simp
    ultimately show ?thesis using True R(1) srt sorted_heap_push [OF srt, of x]
      by (auto simp: keeps_best_def offer_def)
  next
    case False
    with len \<open>0 < limit\<close> obtain d rest where heap: "heap = d # rest" by (cases heap) auto
    have full: "length heap = limit" "limit \<le> length seen" using False len by auto
    have min: "fst d \<le> fst y" if "y \<in> set heap" for y
      using srt that by (auto simp: heap heap_le_def)
    have okd: "ok (fst d)"
      using ok [of d] R(1) by (metis heap list.set_intros(1,2) set_mset_mset union_iff)
    show ?thesis
    proof (cases "gt (fst x) (fst d)")
      case gt: True
      have o: "offer gt limit x heap = heap_push x rest" using False gt by (simp add: offer_def heap)
      have rej: "\<not> gt (fst r) (fst k)" if "r \<in># add_mset d R" "k \<in> insert x (set rest)" for r k
      proof (cases "r = d")
        case True
        then show ?thesis using that(2) gt_irrefl [OF gt] min [of k] gt_less [of "fst d" "fst k"]
          by (auto simp: heap)
      next
        case False
        with that(1) have r: "r \<in># R" by simp
        have "\<not> gt (fst r) (fst x)"
          using R(2) [OF r, of d] gt_mono [of "fst r" "fst x" "fst d"] less_imp_le [OF gt_less [OF gt]] okd
          by (auto simp: heap)
        with that(2) R(2) [OF r, of k] show ?thesis by (auto simp: heap)
      qed
      have "mset (seen @ [x]) = mset (heap_push x rest) + add_mset d R" using R(1) by (simp add: heap)
      with rej full srt show ?thesis unfolding keeps_best_def o
        by (auto simp: heap sorted_heap_push intro!: exI [of _ "add_mset d R"])
    next
      case ngt: False
      have o: "offer gt limit x heap = heap" using False ngt by (simp add: offer_def heap)
      have rej: "\<not> gt (fst r) (fst k)" if "r \<in># add_mset x R" "k \<in> set heap" for r k
        using that R(2) [of r k] gt_mono [of "fst x" "fst k" "fst d"] min [OF that(2)] okd ngt by auto
      have "mset (seen @ [x]) = mset heap + add_mset x R" using R(1) by simp
      with rej full srt show ?thesis unfolding keeps_best_def o
        by (auto intro!: exI [of _ "add_mset x R"])
    qed
  qed
qed

lemma keeps_best_fold:
  assumes "0 < limit" and "keeps_best gt limit seen heap" and "\<And>y. y \<in> set (seen @ xs) \<Longrightarrow> ok (fst y)"
  shows "keeps_best gt limit (seen @ xs) (fold (offer gt limit) xs heap)"
  using assms(2,3)
proof (induction xs arbitrary: seen heap)
  case (Cons x xs)
  have "keeps_best gt limit (seen @ [x]) (offer gt limit x heap)"
    by (rule keeps_best_offer [OF Cons.prems(1) assms(1)]) (use Cons.prems(2) in auto)
  from Cons.IH [OF this] Cons.prems(2) show ?case by simp
qed simp

text \<open>The ranking as a selection: nothing left out beats anything kept.\<close>

lemma top_k_selects:
  assumes "list_all (\<lambda>(_, k). ok k) items"
  shows "length (top_k gt items limit) = min limit (length items)
    \<and> sorted_wrt (\<lambda>a b. snd b \<le> snd a) (top_k gt items limit)
    \<and> (\<exists>rest. mset items = mset (top_k gt items limit) + rest
         \<and> (\<forall>r \<in># rest. \<forall>k \<in> set (top_k gt items limit). \<not> gt (snd r) (snd k)))"
proof (cases "limit = 0")
  case False
  let ?f = "\<lambda>(k, _, v). (v, k)" and ?xs = "number_from 0 items"
  let ?h = "fold (offer gt limit) ?xs []"
  have items: "map ?f (number_from n items) = items" for n by (induction items arbitrary: n) auto
  have "ok (fst y)" if "y \<in> set ?xs" for y
  proof -
    from that have "?f y \<in> set (map ?f ?xs)" by auto
    with assms show ?thesis by (cases y) (auto simp: items list_all_iff)
  qed
  moreover have "keeps_best gt limit [] []" by (simp add: keeps_best_def)
  ultimately have kb: "keeps_best gt limit ?xs ?h"
    using keeps_best_fold [of limit "[]" "[]" ?xs] False by auto
  then obtain R where R: "mset ?xs = mset ?h + R" "\<forall>r \<in># R. \<forall>k \<in> set ?h. \<not> gt (fst r) (fst k)"
    and len: "length ?h = min limit (length ?xs)" by (auto simp: keeps_best_def)
  have top: "top_k gt items limit = map ?f (rank_sort ?h)" using False by (simp add: top_k_def)
  have set: "set (rank_sort ?h) = set ?h" by (metis mset_rank_sort set_mset_mset)
  have "length (rank_sort ?h) = length ?h" by (metis mset_rank_sort size_mset)
  moreover have "length ?xs = length items" by (metis items length_map)
  moreover have "sorted_wrt (\<lambda>a b. snd b \<le> snd a) (map ?f (rank_sort ?h))"
    unfolding sorted_wrt_map by (rule sorted_wrt_mono_rel [OF _ sorted_rank_sort]) (auto simp: ranked_before_def)
  moreover have "mset items = mset (map ?f (rank_sort ?h)) + image_mset ?f R"
    using arg_cong [OF R(1), of "image_mset ?f"] items [of 0]
    by (simp only: mset_map [symmetric] image_mset_union mset_rank_sort) (simp add: mset_map)
  moreover have "\<forall>r \<in># image_mset ?f R. \<forall>k \<in> set (map ?f (rank_sort ?h)). \<not> gt (snd r) (snd k)"
    using R(2) by (auto simp: set split_beta)
  ultimately show ?thesis unfolding top using len by auto
qed (simp add: top_k_def)

end

interpretation score: replacement f32_gt "\<lambda>k. \<not> is_nan k"
  by unfold_locales (auto intro: f32_gt_less f32_gt_mono)

interpretation ord: replacement "(>) :: 'k::linorder \<Rightarrow> 'k \<Rightarrow> bool" "\<lambda>_. True"
  by unfold_locales auto

text \<open>
  Supplement: ranking keeps the best. When no score is a NaN, the ranking of at most \<open>limit\<close> items has as many
  of them as there are, in descending order, and nothing left out has a greater score than anything
  kept; keys with a total order behave the same.
\<close>

theorem top_k_keeps_best:
  assumes "list_all (\<lambda>(_, k). \<not> is_nan k) items"
  shows "length (top_k_by_score items limit) = min limit (length items)
    \<and> sorted_wrt (\<lambda>a b. snd b \<le> snd a) (top_k_by_score items limit)
    \<and> (\<exists>rest. mset items = mset (top_k_by_score items limit) + rest
         \<and> (\<forall>r \<in># rest. \<forall>k \<in> set (top_k_by_score items limit). \<not> f32_gt (snd r) (snd k)))
    \<and> length (top_k_by_ord xs limit) = min limit (length xs)
    \<and> sorted_wrt (\<lambda>a b. snd b \<le> snd a) (top_k_by_ord xs limit)
    \<and> (\<exists>rest. mset xs = mset (top_k_by_ord xs limit) + rest
         \<and> (\<forall>r \<in># rest. \<forall>k \<in> set (top_k_by_ord xs limit). \<not> snd k < snd r))"
  unfolding top_k_by_score_def top_k_by_ord_def
  using score.top_k_selects [OF assms, of limit] ord.top_k_selects [of xs limit]
  by (simp add: list_all_iff)

text \<open>Of items with equal keys the earlier ones do not always survive: an evicted tie is the first.\<close>

lemma top_k_evicts_earlier_tie:
  "top_k_by_ord [(''a'', 1), (''b'', 1), (''c'', 2 :: nat)] 2 = [(''c'', 2), (''b'', 1)]"
  by code_simp

theorem top_k_keeps_best_witness:
  "top_k_by_score [(''a'', Fin32 1), (''b'', Inf32 False), (''c'', Zero32 True)] 2 =
     [(''b'', Inf32 False), (''a'', Fin32 1)]
    \<and> length (top_k_by_score [(''a'', Fin32 1), (''b'', Inf32 False), (''c'', Zero32 True)] 2) = 2"
proof -
  let ?xs = "[(''a'', Fin32 1), (''b'', Inf32 False), (''c'', Zero32 True)]"
  have "list_all (\<lambda>(_, k). \<not> is_nan k) ?xs" by simp
  note top_k_keeps_best [OF this, of 2 "[] :: (nat \<times> nat) list"]
  moreover have "top_k_by_score ?xs 2 = [(''b'', Inf32 False), (''a'', Fin32 1)]" by code_simp
  ultimately show ?thesis by simp
qed

end
