(* ===== verification/Memory_Entry.thy ===== *)
theory Memory_Entry
  imports Ranking Rust_Chars "HOL-Library.Word" "HOL-Library.Sublist" "HOL-Library.List_Lexorder"
    "HOL-Library.Char_ord"
begin

text \<open>
  Memories (\<^verbatim>\<open>src/crates/jcode-memory-types/src/lib.rs\<close>): entries, categories, the flat store, search
  text, skill bonuses and the prompt that lists memories. Arguments stand for the Unicode tables of
  \<open>to_lowercase\<close> (\<open>lower\<close>), for the clock (\<open>now\<close>), the rendering of time stamps and the score of an entry,
  which takes square roots and logarithms.
\<close>

section \<open>Entries\<close>

datatype TrustLevel = TrustHigh | TrustMedium | TrustLow

datatype MemoryCategory = Fact | Preference | Entity | Correction | Custom str

record Reinforcement =
  session_of :: str
  message_index :: nat
  reinforced_at :: int

record MemoryEntry =
  mem_id :: str
  mem_category :: MemoryCategory
  mem_content :: str
  mem_tags :: "str list"
  search_text :: str
  created_at :: int
  updated_at :: int
  access_count :: "32 word"
  mem_source :: "str option"
  trust :: TrustLevel
  strength :: "32 word"
  mem_active :: bool
  superseded_by :: "str option"
  reinforcements :: "Reinforcement list"
  embedding :: "f32 list option"
  embedding_model :: "str option"
  confidence :: f32

definition LEGACY_EMBEDDING_MODEL :: str where "LEGACY_EMBEDDING_MODEL = ''minilm-l6-v2''"

definition effective_embedding_model :: "MemoryEntry \<Rightarrow> str" where
  "effective_embedding_model e =
     (case embedding_model e of Some m \<Rightarrow> m | None \<Rightarrow> LEGACY_EMBEDDING_MODEL)"

definition embedding_matches_model :: "MemoryEntry \<Rightarrow> str \<Rightarrow> bool" where
  "embedding_matches_model e m \<longleftrightarrow> embedding e \<noteq> None \<and> effective_embedding_model e = m"

section \<open>Search text\<close>

definition is_separator :: "str \<Rightarrow> bool" where
  "is_separator c \<longleftrightarrow> is_whitespace c \<or> c \<in> {''-'', ''_'', ''/'', [CHR 0x5C], ''.'', '':''}"

fun normalize_loop :: "str list \<Rightarrow> str \<Rightarrow> bool \<Rightarrow> str" where
  "normalize_loop [] normalized last_was_space = normalized"
| "normalize_loop (c # cs) normalized last_was_space =
     (if is_separator c
      then if last_was_space then normalize_loop cs normalized True
           else normalize_loop cs (normalized @ '' '') True
      else normalize_loop cs (normalized @ c) False)"

definition normalize_search_text :: "(str \<Rightarrow> str) \<Rightarrow> str \<Rightarrow> str" where
  "normalize_search_text lower s =
     trim_end (normalize_loop (chars (lower (trim s))) [] True)"

definition normalize_memory_search_text :: "(str \<Rightarrow> str) \<Rightarrow> str \<Rightarrow> str list \<Rightarrow> str" where
  "normalize_memory_search_text lower content tags =
     (let normalized_content = normalize_search_text lower content;
          normalized_tags = filter (\<lambda>t. t \<noteq> []) (map (normalize_search_text lower) tags)
      in if normalized_tags = [] then normalized_content
         else if normalized_content = [] then join '' '' normalized_tags
         else normalized_content @ '' '' @ join '' '' normalized_tags)"

definition refresh_search_text :: "(str \<Rightarrow> str) \<Rightarrow> MemoryEntry \<Rightarrow> MemoryEntry" where
  "refresh_search_text lower e =
     e\<lparr>search_text := normalize_memory_search_text lower (mem_content e) (mem_tags e)\<rparr>"

definition searchable_text :: "(str \<Rightarrow> str) \<Rightarrow> MemoryEntry \<Rightarrow> str" where
  "searchable_text lower e =
     (if search_text e = [] then normalize_memory_search_text lower (mem_content e) (mem_tags e)
      else search_text e)"

definition memory_matches_search :: "(str \<Rightarrow> str) \<Rightarrow> MemoryEntry \<Rightarrow> str \<Rightarrow> bool" where
  "memory_matches_search lower e q = contains_str (searchable_text lower e) q"

section \<open>Building and changing entries\<close>

definition new_entry :: "(str \<Rightarrow> str) \<Rightarrow> int \<Rightarrow> str \<Rightarrow> MemoryCategory \<Rightarrow> str \<Rightarrow> MemoryEntry" where
  "new_entry lower now fresh_id category content =
     \<lparr>mem_id = fresh_id, mem_category = category, mem_content = content, mem_tags = [],
      search_text = normalize_memory_search_text lower content [], created_at = now, updated_at = now,
      access_count = 0, mem_source = None, trust = TrustMedium, strength = 1, mem_active = True,
      superseded_by = None, reinforcements = [], embedding = None, embedding_model = None,
      confidence = one32\<rparr>"

definition boost_confidence :: "int \<Rightarrow> f32 \<Rightarrow> MemoryEntry \<Rightarrow> MemoryEntry" where
  "boost_confidence now amount e =
     e\<lparr>confidence := f32_min (f32_add (confidence e) amount) one32,
       access_count := access_count e + 1, updated_at := now\<rparr>"

definition decay_confidence :: "f32 \<Rightarrow> MemoryEntry \<Rightarrow> MemoryEntry" where
  "decay_confidence amount e =
     e\<lparr>confidence := f32_max (f32_add (confidence e) (f32_neg amount)) zero32\<rparr>"

definition with_tags :: "(str \<Rightarrow> str) \<Rightarrow> str list \<Rightarrow> MemoryEntry \<Rightarrow> MemoryEntry" where
  "with_tags lower ts e = refresh_search_text lower (e\<lparr>mem_tags := ts\<rparr>)"

definition touch :: "int \<Rightarrow> MemoryEntry \<Rightarrow> MemoryEntry" where
  "touch now e = e\<lparr>updated_at := now, access_count := access_count e + 1\<rparr>"

definition reinforce :: "int \<Rightarrow> str \<Rightarrow> nat \<Rightarrow> MemoryEntry \<Rightarrow> MemoryEntry" where
  "reinforce now session index e =
     e\<lparr>strength := strength e + 1, updated_at := now,
       reinforcements := reinforcements e
         @ [\<lparr>session_of = session, message_index = index, reinforced_at = now\<rparr>]\<rparr>"

definition supersede_entry :: "str \<Rightarrow> MemoryEntry \<Rightarrow> MemoryEntry" where
  "supersede_entry new_id e = e\<lparr>mem_active := False, superseded_by := Some new_id\<rparr>"

definition set_embedding :: "f32 list option \<Rightarrow> str option \<Rightarrow> MemoryEntry \<Rightarrow> MemoryEntry" where
  "set_embedding emb model e = e\<lparr>embedding := emb, embedding_model := model\<rparr>"

definition with_embedding_for_model :: "f32 list \<Rightarrow> str \<Rightarrow> MemoryEntry \<Rightarrow> MemoryEntry" where
  "with_embedding_for_model emb model e = e\<lparr>embedding := Some emb, embedding_model := Some model\<rparr>"

section \<open>Categories and scopes\<close>

fun category_text :: "MemoryCategory \<Rightarrow> str" where
  "category_text Fact = ''fact''"
| "category_text Preference = ''preference''"
| "category_text Entity = ''entity''"
| "category_text Correction = ''correction''"
| "category_text (Custom s) = s"

definition category_from_str :: "(str \<Rightarrow> str) \<Rightarrow> str \<Rightarrow> MemoryCategory" where
  "category_from_str lower s =
     (let l = lower s in
      if l = ''fact'' then Fact else if l = ''preference'' then Preference
      else if l = ''entity'' then Entity else if l = ''correction'' then Correction else Custom l)"

definition from_extracted :: "(str \<Rightarrow> str) \<Rightarrow> str \<Rightarrow> MemoryCategory" where
  "from_extracted lower s =
     (let l = lower s in
      if l \<in> {''fact'', ''facts''} then Fact
      else if l \<in> {''preference'', ''preferences'', ''pref''} then Preference
      else if l \<in> {''correction'', ''corrections'', ''fix'', ''bug''} then Correction
      else if l \<in> {''entity'', ''entities''} then Entity
      else if l \<in> {''observation'', ''lesson'', ''learning''} then Fact
      else Fact)"

datatype MemoryScope = ScopeProject | ScopeGlobal | ScopeAll

fun includes_project :: "MemoryScope \<Rightarrow> bool" where
  "includes_project ScopeGlobal = False"
| "includes_project _ = True"

fun includes_global :: "MemoryScope \<Rightarrow> bool" where
  "includes_global ScopeProject = False"
| "includes_global _ = True"

section \<open>The flat store\<close>

record MemoryStore =
  store_entries :: "MemoryEntry list"
  store_metadata :: "str \<rightharpoonup> str"

definition store_add :: "MemoryEntry \<Rightarrow> MemoryStore \<Rightarrow> MemoryStore \<times> str" where
  "store_add e s = (s\<lparr>store_entries := store_entries s @ [e]\<rparr>, mem_id e)"

definition store_by_category :: "MemoryStore \<Rightarrow> MemoryCategory \<Rightarrow> MemoryEntry list" where
  "store_by_category s c = filter (\<lambda>e. mem_category e = c) (store_entries s)"

definition store_search :: "(str \<Rightarrow> str) \<Rightarrow> MemoryStore \<Rightarrow> str \<Rightarrow> MemoryEntry list" where
  "store_search lower s query =
     (let q = normalize_search_text lower query in
      if q = [] then [] else filter (\<lambda>e. memory_matches_search lower e q) (store_entries s))"

definition store_get :: "MemoryStore \<Rightarrow> str \<Rightarrow> MemoryEntry option" where
  "store_get s i = find (\<lambda>e. mem_id e = i) (store_entries s)"

fun remove_first :: "('a \<Rightarrow> bool) \<Rightarrow> 'a list \<Rightarrow> 'a list" where
  "remove_first P [] = []"
| "remove_first P (x # xs) = (if P x then xs else x # remove_first P xs)"

definition store_remove :: "str \<Rightarrow> MemoryStore \<Rightarrow> MemoryStore \<times> MemoryEntry option" where
  "store_remove i s =
     (s\<lparr>store_entries := remove_first (\<lambda>e. mem_id e = i) (store_entries s)\<rparr>,
      find (\<lambda>e. mem_id e = i) (store_entries s))"

definition get_relevant :: "(MemoryEntry \<Rightarrow> f32) \<Rightarrow> MemoryStore \<Rightarrow> nat \<Rightarrow> MemoryEntry list" where
  "get_relevant score s limit =
     map fst (top_k_by_score (map (\<lambda>e. (e, score e)) (filter mem_active (store_entries s))) limit)"

section \<open>Skills\<close>

definition is_skill_memory :: "MemoryEntry \<Rightarrow> bool" where
  "is_skill_memory e \<longleftrightarrow> prefix ''skill:'' (mem_id e) \<or> mem_source e = Some ''skill_registry''
     \<or> (case mem_category e of Custom n \<Rightarrow> to_ascii_lowercase n = ''skills'' | _ \<Rightarrow> False)"

definition STOPWORDS :: "str list" where
  "STOPWORDS = [''about'', ''after'', ''before'', ''could'', ''from'', ''have'', ''just'', ''make'',
     ''ready'', ''should'', ''start'', ''that'', ''their'', ''there'', ''they'', ''this'', ''what'',
     ''when'', ''where'', ''which'', ''while'', ''will'', ''with'', ''work'', ''would'', ''your'']"

definition collect_skill_query_terms :: "(str \<Rightarrow> str) \<Rightarrow> str \<Rightarrow> str set" where
  "collect_skill_query_terms lower query =
     set (filter (\<lambda>t. t \<notin> set STOPWORDS)
       (filter (\<lambda>t. length t \<ge> 4) (split_whitespace (normalize_search_text lower query))))"

definition skill_retrieval_bonus :: "(str \<Rightarrow> str) \<Rightarrow> MemoryEntry \<Rightarrow> str set \<Rightarrow> f32" where
  "skill_retrieval_bonus lower e query_terms =
     (if \<not> is_skill_memory e \<or> query_terms = {} then zero32
      else let overlap = card {t \<in> query_terms. contains_str (searchable_text lower e) t} in
        if overlap \<le> 1 then zero32 else if overlap = 2 then round32 (8 / 100)
        else if overlap = 3 then round32 (14 / 100) else round32 (20 / 100))"

section \<open>Prompts\<close>

definition dedupe_key :: "(str \<Rightarrow> str) \<Rightarrow> MemoryEntry \<Rightarrow> str" where
  "dedupe_key lower e = lower (collapse_whitespace (mem_content e))"

fun select_loop :: "(str \<Rightarrow> str) \<Rightarrow> nat \<Rightarrow> MemoryEntry list \<Rightarrow> MemoryEntry list \<Rightarrow> str set \<Rightarrow> MemoryEntry list" where
  "select_loop lower limit [] selected seen = selected"
| "select_loop lower limit (e # es) selected seen =
     (if limit \<le> length selected then selected
      else let key = dedupe_key lower e in
        if key = [] \<or> key \<in> seen then select_loop lower limit es selected seen
        else select_loop lower limit es (selected @ [e]) (insert key seen))"

definition selected_entries_for_prompt :: "(str \<Rightarrow> str) \<Rightarrow> MemoryEntry list \<Rightarrow> nat \<Rightarrow> MemoryEntry list" where
  "selected_entries_for_prompt lower es limit = select_loop lower limit (filter mem_active es) [] {}"

definition prompt_line :: "(int \<Rightarrow> str) option \<Rightarrow> nat \<Rightarrow> MemoryEntry \<Rightarrow> str" where
  "prompt_line stamp idx e =
     show_nat (Suc idx) @ ''. '' @ trim (mem_content e) @ nl
     @ (case stamp of None \<Rightarrow> []
        | Some rfc3339 \<Rightarrow> ''<!-- updated_at: '' @ rfc3339 (updated_at e) @ '' -->'' @ nl)"

definition write_section :: "(int \<Rightarrow> str) option \<Rightarrow> str \<Rightarrow> MemoryEntry list \<Rightarrow> str \<Rightarrow> str" where
  "write_section stamp title items out =
     (if out = [] then [] else out @ nl) @ ''## '' @ title @ nl
     @ concat (map (\<lambda>(i, e). prompt_line stamp i e) (enumerate 0 items))"

definition category_titles :: "(MemoryCategory \<times> str) list" where
  "category_titles = [(Correction, ''Corrections''), (Fact, ''Facts''), (Preference, ''Preferences''),
     (Entity, ''Entities'')]"

definition custom_names :: "MemoryEntry list \<Rightarrow> str list" where
  "custom_names es = sort (remdups (concat (map (\<lambda>e. case mem_category e of Custom n \<Rightarrow> [n] | _ \<Rightarrow> []) es)))"

definition prompt_sections :: "MemoryEntry list \<Rightarrow> (str \<times> MemoryEntry list) list" where
  "prompt_sections es =
     filter (\<lambda>(_, items). items \<noteq> [])
       (map (\<lambda>(c, title). (title, filter (\<lambda>e. mem_category e = c) es)) category_titles)
     @ map (\<lambda>n. (n, filter (\<lambda>e. mem_category e = Custom n) es)) (custom_names es)"

definition format_entries_for_prompt_with_header ::
  "(str \<Rightarrow> str) \<Rightarrow> MemoryEntry list \<Rightarrow> nat \<Rightarrow> bool \<Rightarrow> (int \<Rightarrow> str) option \<Rightarrow> str option" where
  "format_entries_for_prompt_with_header lower es limit include_header stamp =
     (let selected = selected_entries_for_prompt lower es limit;
          out = fold (\<lambda>(title, items) acc. write_section stamp title items acc) (prompt_sections selected) []
      in if selected = [] then None
         else if out = [] then None
         else if include_header then Some (''# Memory'' @ nl @ nl @ trim out) else Some (trim out))"

definition format_entries_for_prompt :: "(str \<Rightarrow> str) \<Rightarrow> MemoryEntry list \<Rightarrow> nat \<Rightarrow> str option" where
  "format_entries_for_prompt lower es limit =
     format_entries_for_prompt_with_header lower es limit False None"

definition format_relevant_prompt :: "(str \<Rightarrow> str) \<Rightarrow> MemoryEntry list \<Rightarrow> nat \<Rightarrow> str option" where
  "format_relevant_prompt lower es limit =
     map_option (\<lambda>s. ''# Memory'' @ nl @ nl @ s) (format_entries_for_prompt lower es limit)"

definition format_relevant_display_prompt ::
  "(str \<Rightarrow> str) \<Rightarrow> (int \<Rightarrow> str) \<Rightarrow> MemoryEntry list \<Rightarrow> nat \<Rightarrow> str option" where
  "format_relevant_display_prompt lower rfc3339 es limit =
     format_entries_for_prompt_with_header lower es limit True (Some rfc3339)"

definition format_for_prompt :: "(str \<Rightarrow> str) \<Rightarrow> (MemoryEntry \<Rightarrow> f32) \<Rightarrow> MemoryStore \<Rightarrow> nat \<Rightarrow> str option" where
  "format_for_prompt lower score s limit =
     format_entries_for_prompt lower (get_relevant score s limit) limit"

section \<open>What a memory prompt lists\<close>

lemma select_loop_spec:
  assumes "length selected \<le> limit" and "seen = dedupe_key lower ` set selected"
    and "distinct (map (dedupe_key lower) selected)"
  shows "\<exists>new. select_loop lower limit es selected seen = selected @ new \<and> subseq new es
    \<and> length (selected @ new) \<le> limit \<and> distinct (map (dedupe_key lower) (selected @ new))
    \<and> [] \<notin> dedupe_key lower ` set new
    \<and> (length (selected @ new) < limit \<longrightarrow>
        (\<forall>e \<in> set es. dedupe_key lower e \<noteq> [] \<longrightarrow> dedupe_key lower e \<in> dedupe_key lower ` set (selected @ new)))"
  using assms
proof (induction es arbitrary: selected seen)
  case Nil
  then show ?case by simp
next
  case (Cons e es)
  let ?key = "dedupe_key lower"
  consider (full) "limit \<le> length selected" | (skip) "length selected < limit" "?key e = [] \<or> ?key e \<in> seen"
    | (take) "length selected < limit" "?key e \<noteq> []" "?key e \<notin> seen" by fastforce
  then show ?case
  proof cases
    case full
    with Cons.prems show ?thesis by (intro exI [of _ "[]"]) simp
  next
    case skip
    then have "select_loop lower limit (e # es) selected seen = select_loop lower limit es selected seen"
      by (auto simp: Let_def)
    with Cons.IH [OF Cons.prems] skip(2) Cons.prems(2) show ?thesis
      by (elim exE) (rule exI, auto)
  next
    case take
    have "\<exists>new. select_loop lower limit es (selected @ [e]) (insert (?key e) seen) = (selected @ [e]) @ new
      \<and> subseq new es \<and> length ((selected @ [e]) @ new) \<le> limit \<and> distinct (map ?key ((selected @ [e]) @ new))
      \<and> [] \<notin> ?key ` set new
      \<and> (length ((selected @ [e]) @ new) < limit \<longrightarrow>
          (\<forall>x \<in> set es. ?key x \<noteq> [] \<longrightarrow> ?key x \<in> ?key ` set ((selected @ [e]) @ new)))"
      by (rule Cons.IH) (use take Cons.prems in auto)
    then obtain new where "select_loop lower limit es (selected @ [e]) (insert (?key e) seen) = (selected @ [e]) @ new"
      and "subseq new es" "length ((selected @ [e]) @ new) \<le> limit" "distinct (map ?key ((selected @ [e]) @ new))"
      "[] \<notin> ?key ` set new"
      "length ((selected @ [e]) @ new) < limit \<longrightarrow>
          (\<forall>x \<in> set es. ?key x \<noteq> [] \<longrightarrow> ?key x \<in> ?key ` set ((selected @ [e]) @ new))" by blast
    with take show ?thesis by (intro exI [of _ "e # new"]) (simp add: Let_def)
  qed
qed

lemma selected_spec:
  fixes lower es limit
  defines "sel \<equiv> selected_entries_for_prompt lower es limit"
  shows "subseq sel (filter mem_active es)" "length sel \<le> limit" "distinct (map (dedupe_key lower) sel)"
    "[] \<notin> dedupe_key lower ` set sel"
    "length sel < limit \<Longrightarrow> e \<in> set es \<Longrightarrow> mem_active e \<Longrightarrow> dedupe_key lower e \<noteq> [] \<Longrightarrow>
       dedupe_key lower e \<in> dedupe_key lower ` set sel"
  using select_loop_spec [of "[]" limit "{}" lower "filter mem_active es"]
  by (auto simp: sel_def selected_entries_for_prompt_def)

lemma write_section_prefix: "prefix acc (write_section stamp title items acc)"
  by (simp add: write_section_def)

lemma sections_prefix: "prefix acc (fold (\<lambda>(title, items) acc. write_section stamp title items acc) secs acc)"
proof (induction secs arbitrary: acc)
  case (Cons a secs)
  then show ?case
    by (cases a) (auto intro: prefix_order.trans [OF write_section_prefix])
qed simp

lemma section_line:
  assumes "e \<in> set items"
  shows "\<exists>k a b. write_section stamp title items acc = a @ (show_nat (Suc k) @ ''. '' @ trim (mem_content e)) @ nl @ b"
proof -
  from assms obtain k where "k < length items" "items ! k = e" by (auto simp: in_set_conv_nth)
  then have "(k, e) \<in> set (enumerate 0 items)" by (auto simp: in_set_enumerate_eq)
  then obtain xs ys where "enumerate 0 items = xs @ (k, e) # ys" by (auto dest: split_list)
  moreover obtain rest where
    "prompt_line stamp k e = (show_nat (Suc k) @ ''. '' @ trim (mem_content e)) @ nl @ rest"
    by (simp add: prompt_line_def)
  ultimately have "write_section stamp title items acc =
      ((if acc = [] then [] else acc @ nl) @ ''## '' @ title @ nl @ concat (map (\<lambda>(i, e). prompt_line stamp i e) xs))
      @ (show_nat (Suc k) @ ''. '' @ trim (mem_content e)) @ nl
      @ (rest @ concat (map (\<lambda>(i, e). prompt_line stamp i e) ys))"
    by (simp add: write_section_def)
  then show ?thesis by blast
qed

lemma sections_line:
  assumes "(title, items) \<in> set secs" and "e \<in> set items"
  shows "\<exists>k a b. fold (\<lambda>(title, items) acc. write_section stamp title items acc) secs acc
    = a @ (show_nat (Suc k) @ ''. '' @ trim (mem_content e)) @ nl @ b"
proof -
  let ?W = "\<lambda>(title, items) acc. write_section stamp title items acc"
  from assms(1) obtain xs ys where secs: "secs = xs @ (title, items) # ys" by (auto dest: split_list)
  from section_line [OF assms(2), of stamp title "fold ?W xs acc"] obtain k a b where
    "write_section stamp title items (fold ?W xs acc) = a @ (show_nat (Suc k) @ ''. '' @ trim (mem_content e)) @ nl @ b"
    by blast
  moreover obtain zs where "fold ?W secs acc = write_section stamp title items (fold ?W xs acc) @ zs"
    using sections_prefix [of "write_section stamp title items (fold ?W xs acc)" stamp ys]
    by (auto simp: secs prefix_def)
  ultimately show ?thesis by (intro exI [of _ k] exI [of _ a] exI [of _ "b @ zs"]) simp
qed

lemma selected_in_section:
  assumes "e \<in> set es"
  shows "\<exists>(title, items) \<in> set (prompt_sections es). e \<in> set items"
proof (cases "mem_category e")
  case (Custom n)
  then have "n \<in> set (custom_names es)" using assms by (force simp: custom_names_def)
  then have "(n, filter (\<lambda>e. mem_category e = Custom n) es) \<in> set (prompt_sections es)"
    by (simp add: prompt_sections_def)
  with Custom assms show ?thesis by (intro bexI) auto
qed (use assms in \<open>auto simp: prompt_sections_def category_titles_def filter_empty_conv\<close>)

lemma prompt_starts_with_hash:
  assumes "secs \<noteq> []"
  shows "\<exists>t. fold (\<lambda>(title, items) acc. write_section stamp title items acc) secs [] = CHR ''#'' # t"
proof -
  obtain title items rest where "secs = (title, items) # rest" using assms by (cases secs) auto
  moreover have "write_section stamp title items [] =
      CHR ''#'' # (''# '' @ title @ nl @ concat (map (\<lambda>(i, e). prompt_line stamp i e) (enumerate 0 items)))"
    by (simp add: write_section_def)
  moreover obtain zs where
    "fold (\<lambda>(title, items) acc. write_section stamp title items acc) rest (write_section stamp title items [])
      = write_section stamp title items [] @ zs"
    using sections_prefix [of "write_section stamp title items []" stamp rest] by (elim prefixE)
  ultimately show ?thesis by simp
qed

lemma line_survives_trim:
  assumes "s = CHR ''#'' # t" and "s = a @ (n @ ''. '' @ trim c) @ nl @ b" and "trim c \<noteq> []"
  shows "sublist (n @ ''. '' @ trim c) (trim s)"
proof -
  have "ws_width s = 0" using assms(1) by (simp add: ws_width_plain)
  then have "trim s = trim_end s" by (simp add: trim_def trim_start_id)
  moreover have "ws_width_back (rev (a @ n @ ''. '' @ trim c)) = 0"
    using ws_back_space [OF ws_width_back_trim, of c "CHR ''.'' # rev n @ rev a"] assms(3) by simp
  from trim_end_keeps [OF this, of b] have "prefix (a @ n @ ''. '' @ trim c) (trim_end s)"
    using assms(2) by simp
  ultimately show ?thesis by (auto simp: prefix_def sublist_def)
qed

text \<open>
  Supplement: what a memory prompt lists. The chosen entries are active ones in their given order, at most
  \<open>limit\<close>, with pairwise different content up to case and spacing; unless the limit is reached, the
  content of every active entry that is not blank is among them. There is a prompt exactly when
  something was chosen, and it has a numbered line with the trimmed content of every chosen entry.
\<close>

theorem memory_prompt_lists:
  assumes "lower [] = []" and "list_all (\<lambda>e. utf8_valid (mem_content e)) es"
  shows "subseq (selected_entries_for_prompt lower es limit) (filter mem_active es)
    \<and> length (selected_entries_for_prompt lower es limit) \<le> limit
    \<and> distinct (map (dedupe_key lower) (selected_entries_for_prompt lower es limit))
    \<and> (length (selected_entries_for_prompt lower es limit) < limit \<longrightarrow>
        (\<forall>e \<in> set es. mem_active e \<and> dedupe_key lower e \<noteq> [] \<longrightarrow>
          dedupe_key lower e \<in> dedupe_key lower ` set (selected_entries_for_prompt lower es limit)))
    \<and> (format_entries_for_prompt_with_header lower es limit header stamp = None \<longleftrightarrow>
        selected_entries_for_prompt lower es limit = [])
    \<and> (\<forall>out e. format_entries_for_prompt_with_header lower es limit header stamp = Some out \<and>
        e \<in> set (selected_entries_for_prompt lower es limit) \<longrightarrow>
        (\<exists>k. contains_str out (show_nat (Suc k) @ ''. '' @ trim (mem_content e))))"
proof -
  let ?sel = "selected_entries_for_prompt lower es limit"
  let ?out = "fold (\<lambda>(title, items) acc. write_section stamp title items acc) (prompt_sections ?sel) []"
  note spec = selected_spec [of lower es limit]
  have sections: "prompt_sections ?sel \<noteq> []" if "?sel \<noteq> []"
    using selected_in_section [of "hd ?sel" ?sel] that by auto
  have out: "\<exists>t. ?out = CHR ''#'' # t" if "?sel \<noteq> []"
    using prompt_starts_with_hash [OF sections [OF that]] .
  have none: "format_entries_for_prompt_with_header lower es limit header stamp = None \<longleftrightarrow> ?sel = []"
    using out by (cases "?sel = []") (auto simp: format_entries_for_prompt_with_header_def Let_def)
  have line: "\<exists>k. contains_str out (show_nat (Suc k) @ ''. '' @ trim (mem_content e))"
    if o: "format_entries_for_prompt_with_header lower es limit header stamp = Some out" and e: "e \<in> set ?sel" for out e
  proof -
    have "e \<in> set es" using list_emb_set [OF spec(1) e] by auto
    moreover from this have "dedupe_key lower e \<noteq> []" using spec(4) e by force
    ultimately have "trim (mem_content e) \<noteq> []"
      using assms trim_Nil [of "mem_content e"] collapse_Nil_iff [of "mem_content e"]
      by (auto simp: dedupe_key_def list_all_iff)
    moreover from e have "?sel \<noteq> []" by auto
    moreover from selected_in_section [OF e] sections_line obtain k a b where
      "?out = a @ (show_nat (Suc k) @ ''. '' @ trim (mem_content e)) @ nl @ b" by blast
    ultimately have "sublist (show_nat (Suc k) @ ''. '' @ trim (mem_content e)) (trim ?out)"
      using out line_survives_trim by blast
    moreover have "suffix (trim ?out) out"
      using o by (auto simp: format_entries_for_prompt_with_header_def Let_def suffix_def split: if_splits)
    ultimately show ?thesis unfolding contains_str_sublist
      by (blast intro: sublist_order.order.trans suffix_imp_sublist)
  qed
  show ?thesis using spec none line by blast
qed

definition demo_notes :: "MemoryEntry list" where
  "demo_notes = map (new_entry to_ascii_lowercase 0 ''m'' Fact) [''Uses tabs'', '' uses  TABS'', ''Prefers Rust'']"

theorem memory_prompt_lists_witness:
  "length (selected_entries_for_prompt to_ascii_lowercase demo_notes 5) \<le> 5
    \<and> distinct (map (dedupe_key to_ascii_lowercase) (selected_entries_for_prompt to_ascii_lowercase demo_notes 5))
    \<and> subseq (selected_entries_for_prompt to_ascii_lowercase demo_notes 5) demo_notes"
proof -
  have "to_ascii_lowercase [] = []" by (simp add: to_ascii_lowercase_def)
  moreover have "list_all (\<lambda>e. utf8_valid (mem_content e)) demo_notes"
    by (simp add: demo_notes_def new_entry_def utf8_width_def is_cont_def)
  moreover have "filter mem_active demo_notes = demo_notes" by (simp add: demo_notes_def new_entry_def)
  ultimately show ?thesis using memory_prompt_lists [of to_ascii_lowercase demo_notes 5 False None] by simp
qed

end
