(* ===== verification/Memory_Graph.thy ===== *)
theory Memory_Graph
  imports Memory_Entry "HOL-Library.Finite_Map"
begin

text \<open>
  The memory graph (\<^verbatim>\<open>src/crates/jcode-memory-types/src/graph.rs\<close>) and what the memory manager does
  with it (\<^verbatim>\<open>src/crates/jcode-base/src/memory.rs\<close>): memories, tag nodes with counts, forward edges and
  a mirror of them by target, and the breadth-first retrieval that spreads scores along edges. Hash
  maps are finite maps; where the code iterates over one, the order is an argument. \<open>decay\<close> stands for
  \<open>0.7.powi\<close>, whose precision Rust leaves open. Wall-clock times are arguments.
\<close>

section \<open>Data\<close>

definition GRAPH_VERSION :: "32 word" where "GRAPH_VERSION = 2"

datatype EdgeKind = HasTag | InCluster | RelatesTo f32 | Supersedes | Contradicts | DerivedFrom

text \<open>The derived \<open>PartialEq\<close>: weights are compared as floats, so a NaN weight equals nothing.\<close>

fun edge_kind_eq :: "EdgeKind \<Rightarrow> EdgeKind \<Rightarrow> bool" where
  "edge_kind_eq (RelatesTo v) (RelatesTo w) = f32_eq v w"
| "edge_kind_eq a b = (a = b)"

fun traversal_weight :: "EdgeKind \<Rightarrow> f32" where
  "traversal_weight HasTag = round32 (8 / 10)"
| "traversal_weight InCluster = round32 (6 / 10)"
| "traversal_weight (RelatesTo w) = w"
| "traversal_weight Supersedes = round32 (9 / 10)"
| "traversal_weight Contradicts = round32 (3 / 10)"
| "traversal_weight DerivedFrom = round32 (7 / 10)"

record Edge =
  edge_target :: str
  edge_kind :: EdgeKind

record TagEntry =
  tag_id :: str
  tag_name :: str
  tag_description :: "str option"
  tag_count :: "32 word"
  tag_created_at :: int

record ClusterEntry =
  cluster_id :: str
  cluster_name :: "str option"
  centroid :: "f32 list"
  member_count :: "32 word"
  cluster_created_at :: int
  cluster_updated_at :: int

record GraphMetadata =
  last_cluster_update :: "int option"
  retrieval_count :: "64 word"
  link_discovery_count :: "64 word"

record MemoryGraph =
  graph_version :: "32 word"
  memories :: "(str, MemoryEntry) fmap"
  graph_tags :: "(str, TagEntry) fmap"
  clusters :: "(str, ClusterEntry) fmap"
  edges :: "(str, Edge list) fmap"
  reverse_edges :: "(str, str list) fmap"
  graph_metadata :: GraphMetadata

definition tag_node :: "str \<Rightarrow> str" where "tag_node name = ''tag:'' @ name"

definition new_tag :: "int \<Rightarrow> str \<Rightarrow> TagEntry" where
  "new_tag now name = \<lparr>tag_id = tag_node name, tag_name = name, tag_description = None, tag_count = 0,
     tag_created_at = now\<rparr>"

definition new_cluster :: "int \<Rightarrow> str \<Rightarrow> ClusterEntry" where
  "new_cluster now i = \<lparr>cluster_id = ''cluster:'' @ i, cluster_name = None, centroid = [],
     member_count = 0, cluster_created_at = now, cluster_updated_at = now\<rparr>"

definition new_memory_graph :: MemoryGraph where
  "new_memory_graph = \<lparr>graph_version = GRAPH_VERSION, memories = fmempty, graph_tags = fmempty,
     clusters = fmempty, edges = fmempty, reverse_edges = fmempty,
     graph_metadata = \<lparr>last_cluster_update = None, retrieval_count = 0, link_discovery_count = 0\<rparr>\<rparr>"

text \<open>\<open>entry(k).or_default()\<close> on maps of vectors, and \<open>get_mut\<close>.\<close>

definition vec_at :: "(str, 'a list) fmap \<Rightarrow> str \<Rightarrow> 'a list" where
  "vec_at m k = (case fmlookup m k of Some xs \<Rightarrow> xs | None \<Rightarrow> [])"

definition push_at :: "str \<Rightarrow> 'a \<Rightarrow> (str, 'a list) fmap \<Rightarrow> (str, 'a list) fmap" where
  "push_at k x m = fmupd k (vec_at m k @ [x]) m"

definition adjust_at :: "str \<Rightarrow> ('v \<Rightarrow> 'v) \<Rightarrow> (str, 'v) fmap \<Rightarrow> (str, 'v) fmap" where
  "adjust_at k f m = (case fmlookup m k of Some v \<Rightarrow> fmupd k (f v) m | None \<Rightarrow> m)"

section \<open>Edges\<close>

definition get_edges :: "MemoryGraph \<Rightarrow> str \<Rightarrow> Edge list" where
  "get_edges g a = vec_at (edges g) a"

definition get_incoming :: "MemoryGraph \<Rightarrow> str \<Rightarrow> str list" where
  "get_incoming g b = vec_at (reverse_edges g) b"

definition add_edge_internal :: "str \<Rightarrow> str \<Rightarrow> EdgeKind \<Rightarrow> MemoryGraph \<Rightarrow> MemoryGraph" where
  "add_edge_internal a b k g =
     g\<lparr>edges := push_at a \<lparr>edge_target = b, edge_kind = k\<rparr> (edges g),
       reverse_edges := push_at b a (reverse_edges g)\<rparr>"

definition add_edge :: "str \<Rightarrow> str \<Rightarrow> EdgeKind \<Rightarrow> MemoryGraph \<Rightarrow> MemoryGraph" where
  "add_edge a b k g =
     (if list_ex (\<lambda>e. edge_target e = b \<and> edge_kind_eq (edge_kind e) k) (get_edges g a) then g
      else add_edge_internal a b k g)"

definition remove_edge :: "str \<Rightarrow> str \<Rightarrow> EdgeKind \<Rightarrow> MemoryGraph \<Rightarrow> MemoryGraph" where
  "remove_edge a b k g =
     g\<lparr>edges := adjust_at a (filter (\<lambda>e. \<not> (edge_target e = b \<and> edge_kind_eq (edge_kind e) k))) (edges g),
       reverse_edges := adjust_at b (filter (\<lambda>s. s \<noteq> a)) (reverse_edges g)\<rparr>"

definition link_memories :: "str \<Rightarrow> str \<Rightarrow> f32 \<Rightarrow> MemoryGraph \<Rightarrow> MemoryGraph" where
  "link_memories a b w g =
     (let g1 = add_edge a b (RelatesTo w) g; md = graph_metadata g1
      in g1\<lparr>graph_metadata := md\<lparr>link_discovery_count := link_discovery_count md + 1\<rparr>\<rparr>)"

definition supersede :: "str \<Rightarrow> str \<Rightarrow> MemoryGraph \<Rightarrow> MemoryGraph" where
  "supersede newer older g =
     (let g1 = add_edge newer older Supersedes g
      in g1\<lparr>memories := adjust_at older (\<lambda>e. e\<lparr>mem_active := False, superseded_by := Some newer\<rparr>) (memories g1)\<rparr>)"

definition mark_contradiction :: "str \<Rightarrow> str \<Rightarrow> MemoryGraph \<Rightarrow> MemoryGraph" where
  "mark_contradiction a b g = add_edge b a Contradicts (add_edge a b Contradicts g)"

section \<open>Tags\<close>

definition ensure_tag :: "int \<Rightarrow> str \<Rightarrow> MemoryGraph \<Rightarrow> MemoryGraph" where
  "ensure_tag now name g =
     (case fmlookup (graph_tags g) (tag_node name) of
        Some _ \<Rightarrow> g
      | None \<Rightarrow> g\<lparr>graph_tags := fmupd (tag_node name) (new_tag now name) (graph_tags g)\<rparr>)"

definition count_tag :: "str \<Rightarrow> (32 word \<Rightarrow> 32 word) \<Rightarrow> MemoryGraph \<Rightarrow> MemoryGraph" where
  "count_tag t f g =
     g\<lparr>graph_tags := adjust_at t (\<lambda>e. e\<lparr>tag_count := f (tag_count e)\<rparr>) (graph_tags g)\<rparr>"

definition sat_dec :: "32 word \<Rightarrow> 32 word" where
  "sat_dec c = (if c = 0 then 0 else c - 1)"

text \<open>One tag of a memory: the node, the edge, the count.\<close>

definition attach_tag :: "int \<Rightarrow> str \<Rightarrow> str \<Rightarrow> MemoryGraph \<Rightarrow> MemoryGraph" where
  "attach_tag now i name g =
     count_tag (tag_node name) (\<lambda>c. c + 1)
       (add_edge_internal i (tag_node name) HasTag (ensure_tag now name g))"

definition has_tag_edge :: "str \<Rightarrow> Edge \<Rightarrow> bool" where
  "has_tag_edge t e \<longleftrightarrow> edge_target e = t \<and> edge_kind e = HasTag"

definition tag_memory :: "(str \<Rightarrow> str) \<Rightarrow> int \<Rightarrow> str \<Rightarrow> str \<Rightarrow> MemoryGraph \<Rightarrow> MemoryGraph" where
  "tag_memory lower now i name g =
     (let g1 = ensure_tag now name g in
      if list_ex (has_tag_edge (tag_node name)) (get_edges g1 i) then g1
      else let g2 = count_tag (tag_node name) (\<lambda>c. c + 1) (add_edge_internal i (tag_node name) HasTag g1)
           in g2\<lparr>memories := adjust_at i (\<lambda>e. if name \<in> set (mem_tags e) then e
                else refresh_search_text lower (e\<lparr>mem_tags := mem_tags e @ [name]\<rparr>)) (memories g2)\<rparr>)"

definition untag_memory :: "(str \<Rightarrow> str) \<Rightarrow> str \<Rightarrow> str \<Rightarrow> MemoryGraph \<Rightarrow> MemoryGraph" where
  "untag_memory lower i name g =
     (let t = tag_node name;
          g1 = g\<lparr>edges := adjust_at i (filter (\<lambda>e. \<not> has_tag_edge t e)) (edges g),
                 reverse_edges := adjust_at t (filter (\<lambda>s. s \<noteq> i)) (reverse_edges g)\<rparr>;
          g2 = count_tag t sat_dec g1
      in g2\<lparr>memories := adjust_at i
           (\<lambda>e. refresh_search_text lower (e\<lparr>mem_tags := filter (\<lambda>x. x \<noteq> name) (mem_tags e)\<rparr>)) (memories g2)\<rparr>)"

definition get_memories_by_tag :: "MemoryGraph \<Rightarrow> str \<Rightarrow> MemoryEntry list" where
  "get_memories_by_tag g name = List.map_filter (fmlookup (memories g)) (get_incoming g (tag_node name))"

section \<open>Memories\<close>

definition add_memory :: "(str \<Rightarrow> str) \<Rightarrow> int \<Rightarrow> MemoryEntry \<Rightarrow> MemoryGraph \<Rightarrow> MemoryGraph \<times> str" where
  "add_memory lower now entry0 g =
     (let entry = refresh_search_text lower entry0; i = mem_id entry;
          g1 = fold (attach_tag now i) (mem_tags entry) g;
          g2 = (case superseded_by entry of Some n \<Rightarrow> add_edge_internal n i Supersedes g1 | None \<Rightarrow> g1)
      in (g2\<lparr>memories := fmupd i entry (memories g2)\<rparr>, i))"

definition get_memory :: "MemoryGraph \<Rightarrow> str \<Rightarrow> MemoryEntry option" where
  "get_memory g i = fmlookup (memories g) i"

definition detach_edge :: "str \<Rightarrow> Edge \<Rightarrow> MemoryGraph \<Rightarrow> MemoryGraph" where
  "detach_edge i e g =
     (let g1 = g\<lparr>reverse_edges := adjust_at (edge_target e) (filter (\<lambda>s. s \<noteq> i)) (reverse_edges g)\<rparr>
      in if edge_kind e = HasTag then count_tag (edge_target e) sat_dec g1 else g1)"

definition drop_targets :: "str \<Rightarrow> str \<Rightarrow> MemoryGraph \<Rightarrow> MemoryGraph" where
  "drop_targets i source g = g\<lparr>edges := adjust_at source (filter (\<lambda>e. edge_target e \<noteq> i)) (edges g)\<rparr>"

definition remove_memory :: "str \<Rightarrow> MemoryGraph \<Rightarrow> MemoryGraph \<times> MemoryEntry option" where
  "remove_memory i g =
     (let out = get_edges g i;
          g1 = fold (detach_edge i) out (g\<lparr>edges := fmdrop i (edges g)\<rparr>);
          sources = get_incoming g1 i;
          g2 = fold (drop_targets i) sources (g1\<lparr>reverse_edges := fmdrop i (reverse_edges g1)\<rparr>)
      in (g2\<lparr>memories := fmdrop i (memories g2)\<rparr>, get_memory g2 i))"

definition memory_count :: "MemoryGraph \<Rightarrow> nat" where
  "memory_count g = fcard (fmdom (memories g))"

definition node_count :: "MemoryGraph \<Rightarrow> nat" where
  "node_count g = fcard (fmdom (memories g)) + fcard (fmdom (graph_tags g)) + fcard (fmdom (clusters g))"

definition edge_count :: "MemoryGraph \<Rightarrow> nat" where
  "edge_count g = (\<Sum>a\<in>fset (fmdom (edges g)). length (get_edges g a))"

section \<open>Migration and maintenance\<close>

definition legacy_entry :: "int \<Rightarrow> MemoryEntry \<Rightarrow> MemoryGraph \<Rightarrow> MemoryGraph" where
  "legacy_entry now entry g =
     (let i = mem_id entry;
          g1 = fold (attach_tag now i) (mem_tags entry) (g\<lparr>memories := fmupd i entry (memories g)\<rparr>)
      in case superseded_by entry of Some n \<Rightarrow> add_edge_internal n i Supersedes g1 | None \<Rightarrow> g1)"

definition from_legacy_store :: "int \<Rightarrow> MemoryStore \<Rightarrow> MemoryGraph" where
  "from_legacy_store now s = fold (legacy_entry now) (store_entries s) new_memory_graph"

definition normalize_graph_search_text :: "(str \<Rightarrow> str) \<Rightarrow> MemoryGraph \<Rightarrow> MemoryGraph" where
  "normalize_graph_search_text lower g = g\<lparr>memories := fmmap (refresh_search_text lower) (memories g)\<rparr>"

text \<open>\<open>ensure_embedding\<close>: \<open>embedder\<close> is the active embedding backend.\<close>

definition ensure_embedding :: "(str \<Rightarrow> (f32 list \<times> str) option) \<Rightarrow> MemoryEntry \<Rightarrow> MemoryEntry" where
  "ensure_embedding embedder e =
     (if embedding e \<noteq> None then e
      else case embedder (mem_content e) of
             Some (v, m) \<Rightarrow> set_embedding (Some v) (Some m) e
           | None \<Rightarrow> e)"

definition merge_entry ::
  "(str \<Rightarrow> (f32 list \<times> str) option) \<Rightarrow> bool \<Rightarrow> MemoryEntry \<Rightarrow> MemoryEntry \<Rightarrow> MemoryEntry" where
  "merge_entry embedder generate new old =
     (let changed = (mem_content old \<noteq> mem_content new);
          e = old\<lparr>mem_category := mem_category new, mem_content := mem_content new, mem_tags := mem_tags new,
            updated_at := updated_at new, mem_source := mem_source new, trust := trust new,
            mem_active := mem_active new, superseded_by := superseded_by new, confidence := confidence new\<rparr>
      in if changed \<and> generate then ensure_embedding embedder (e\<lparr>embedding := None\<rparr>)
         else if changed then e\<lparr>embedding := None\<rparr> else e)"

text \<open>\<open>enum\<close> is the order in which a hash set of tags is traversed.\<close>

definition upsert_memory_in_graph ::
  "(str \<Rightarrow> str) \<Rightarrow> (str \<Rightarrow> (f32 list \<times> str) option) \<Rightarrow> (str set \<Rightarrow> str list) \<Rightarrow> int \<Rightarrow> bool
    \<Rightarrow> MemoryEntry \<Rightarrow> MemoryGraph \<Rightarrow> MemoryGraph \<times> str" where
  "upsert_memory_in_graph lower embedder enum now generate entry0 g =
     (let entry = (if generate then ensure_embedding embedder entry0 else entry0); i = mem_id entry in
      case get_memory g i of
        None \<Rightarrow> add_memory lower now entry g
      | Some old \<Rightarrow>
          (let g1 = fold (untag_memory lower i) (enum (set (mem_tags old) - set (mem_tags entry))) g;
               g2 = fold (tag_memory lower now i) (enum (set (mem_tags entry) - set (mem_tags old))) g1
           in (g2\<lparr>memories := adjust_at i (merge_entry embedder generate entry) (memories g2)\<rparr>, i)))"

section \<open>Cascade retrieval\<close>

type_synonym scored = "str \<times> f32 \<times> nat"
type_synonym spread_state = "(str, f32) fmap \<times> scored list"

definition offer_score :: "str \<Rightarrow> f32 \<Rightarrow> nat \<Rightarrow> spread_state \<Rightarrow> spread_state" where
  "offer_score target new_score depth st =
     (let existing = (case fmlookup (fst st) target of Some s \<Rightarrow> s | None \<Rightarrow> zero32) in
      if f32_gt new_score existing
      then (fmupd target new_score (fst st), snd st @ [(target, new_score, Suc depth)]) else st)"

definition offer_source :: "MemoryGraph \<Rightarrow> str set \<Rightarrow> f32 \<Rightarrow> nat \<Rightarrow> str \<Rightarrow> spread_state \<Rightarrow> spread_state" where
  "offer_source g visited new_score depth source st =
     (if source \<notin> visited \<and> fmlookup (memories g) source \<noteq> None
      then offer_score source new_score depth st else st)"

definition spread_edge ::
  "(nat \<Rightarrow> f32) \<Rightarrow> MemoryGraph \<Rightarrow> str set \<Rightarrow> f32 \<Rightarrow> nat \<Rightarrow> Edge \<Rightarrow> spread_state \<Rightarrow> spread_state" where
  "spread_edge decay g visited score depth e st =
     (let target = edge_target e;
          new_score = f32_mul (f32_mul score (traversal_weight (edge_kind e))) (decay (Suc depth))
      in if target \<in> visited then st
         else if prefix ''tag:'' target
         then fold (offer_source g visited new_score depth) (get_incoming g target) st
         else if fmlookup (memories g) target \<noteq> None then offer_score target new_score depth st
         else st)"

definition known :: "MemoryGraph \<Rightarrow> scored list \<Rightarrow> str set" where
  "known g q = fset (fmdom (memories g)) \<union> fst ` set q"

lemma known_offer: "i \<in> fset (fmdom (memories g)) \<Longrightarrow> known g (snd (offer_score i s d st)) \<subseteq> known g (snd st)"
  by (auto simp: known_def offer_score_def Let_def)

lemma known_source: "known g (snd (offer_source g visited s d x st)) \<subseteq> known g (snd st)"
  using known_offer [of x g] by (auto simp: offer_source_def fmdom_notI fmlookup_dom_iff)

lemma fold_subset: "(\<And>x st. P (f x st) \<subseteq> P st) \<Longrightarrow> P (fold f xs st) \<subseteq> P st"
  by (induction xs arbitrary: st) (auto, blast)

lemma known_spread: "known g (snd (spread_edge decay g visited s d e st)) \<subseteq> known g (snd st)"
proof -
  have "known g (snd (fold (offer_source g visited n d) xs st)) \<subseteq> known g (snd st)" for n xs
    by (rule fold_subset [where P = "\<lambda>st. known g (snd st)"]) (rule known_source)
  then show ?thesis using known_offer [of "edge_target e" g]
    by (auto simp: spread_edge_def Let_def fmlookup_dom_iff)
qed

lemma known_spread_all: "known g (snd (fold (spread_edge decay g visited s d) es st)) \<subseteq> known g (snd st)"
  by (rule fold_subset [where P = "\<lambda>st. known g (snd st)"]) (rule known_spread)

lemma finite_known [simp]: "finite (known g q)"
  by (simp add: known_def)

text \<open>The traversal. It ends because every node is expanded at most once and only memories are queued.\<close>

function cascade_loop ::
  "(nat \<Rightarrow> f32) \<Rightarrow> MemoryGraph \<Rightarrow> nat \<Rightarrow> str set \<Rightarrow> (str, f32) fmap \<Rightarrow> scored list \<Rightarrow> (str, f32) fmap" where
  "cascade_loop decay g max_depth visited results [] = results"
| "cascade_loop decay g max_depth visited results ((node, score, depth) # queue) =
     (if node \<in> visited then cascade_loop decay g max_depth visited results queue
      else if max_depth \<le> depth then cascade_loop decay g max_depth (insert node visited) results queue
      else let st = fold (spread_edge decay g (insert node visited) score depth) (get_edges g node) (results, queue)
           in cascade_loop decay g max_depth (insert node visited) (fst st) (snd st))"
  by pat_completeness auto
termination
proof (relation "inv_image (less_than <*lex*> less_than)
    (\<lambda>(decay, g, max_depth, visited, results, queue). (card (known g queue - visited), length queue))",
    goal_cases)
  case (2 decay g max_depth visited results node score depth queue)
  have "card (known g queue - visited) \<le> card (known g ((node, score, depth) # queue) - visited)"
    by (rule card_mono) (auto simp: known_def)
  then show ?case by auto
next
  case (3 decay g max_depth visited results node score depth queue)
  have "card (known g queue - insert node visited) < card (known g ((node, score, depth) # queue) - visited)"
    by (rule psubset_card_mono) (use 3 in \<open>auto simp: known_def\<close>)
  then show ?case by auto
next
  case (4 decay g max_depth visited results node score depth queue st)
  have "known g (snd st) \<subseteq> known g queue" using known_spread_all 4(3) by fastforce
  then have "card (known g (snd st) - insert node visited) < card (known g ((node, score, depth) # queue) - visited)"
    by (intro psubset_card_mono) (use 4 in \<open>auto simp: known_def\<close>)
  then show ?case by (cases st) auto
qed auto

definition seed_result :: "MemoryGraph \<Rightarrow> str \<times> f32 \<Rightarrow> spread_state \<Rightarrow> spread_state" where
  "seed_result g seed st =
     (if fmlookup (memories g) (fst seed) \<noteq> None
      then (fmupd (fst seed) (snd seed) (fst st), snd st @ [(fst seed, snd seed, 0)]) else st)"

text \<open>\<open>list_of\<close> is the order in which the map of results is traversed.\<close>

definition cascade_results ::
  "(nat \<Rightarrow> f32) \<Rightarrow> str list \<Rightarrow> f32 list \<Rightarrow> nat \<Rightarrow> MemoryGraph \<Rightarrow> (str, f32) fmap" where
  "cascade_results decay seed_ids seed_scores max_depth g =
     (let st = fold (seed_result g) (zip seed_ids seed_scores) (fmempty, [])
      in cascade_loop decay g max_depth {} (fst st) (snd st))"

definition cascade_retrieve ::
  "((str, f32) fmap \<Rightarrow> (str \<times> f32) list) \<Rightarrow> (nat \<Rightarrow> f32) \<Rightarrow> str list \<Rightarrow> f32 list \<Rightarrow> nat \<Rightarrow> nat
    \<Rightarrow> MemoryGraph \<Rightarrow> MemoryGraph \<times> (str \<times> f32) list" where
  "cascade_retrieve list_of decay seed_ids seed_scores max_depth max_results g =
     (let md = graph_metadata g;
          g1 = g\<lparr>graph_metadata := md\<lparr>retrieval_count := retrieval_count md + 1\<rparr>\<rparr>
      in (g1, top_k_by_score (list_of (cascade_results decay seed_ids seed_scores max_depth g1)) max_results))"

end
