(* ===== verification/Memory_Inv.thy ===== *)
theory Memory_Inv
  imports Memory_Graph Prelude
begin

text \<open>
  What the memory graph keeps true: the mirror of the edges, exact tag counts and tag lists, over any
  sequence of the operations the memory manager performs; what removal and retrieval do.
\<close>

section \<open>Reading the maps\<close>

lemma vec_at_push [simp]: "vec_at (push_at k x m) j = (if j = k then vec_at m k @ [x] else vec_at m j)"
  by (simp add: vec_at_def push_at_def)

lemma vec_at_filter [simp]:
  "vec_at (adjust_at k (filter P) m) j = (if j = k then filter P (vec_at m k) else vec_at m j)"
  by (auto simp: vec_at_def adjust_at_def split: option.split)

lemma vec_at_drop [simp]: "vec_at (fmdrop k m) j = (if j = k then [] else vec_at m j)"
  by (simp add: vec_at_def)

lemma lookup_adjust [simp]:
  "fmlookup (adjust_at k f m) j = (if j = k then map_option f (fmlookup m k) else fmlookup m j)"
  by (auto simp: adjust_at_def split: option.split)

lemma dom_adjust [simp]: "fmdom (adjust_at k f m) = fmdom m"
  by (rule fset_eqI) (auto simp: fmlookup_dom_iff)

lemma tag_node_inj [simp]: "tag_node a = tag_node b \<longleftrightarrow> a = b"
  by (simp add: tag_node_def)

lemma tag_node_prefix [simp]: "prefix ''tag:'' (tag_node n)"
  by (simp add: tag_node_def)

lemmas graph_view = get_edges_def get_incoming_def

lemma add_edge_internal_view [simp]:
  "get_edges (add_edge_internal a b k g) c =
     (if c = a then get_edges g a @ [\<lparr>edge_target = b, edge_kind = k\<rparr>] else get_edges g c)"
  "get_incoming (add_edge_internal a b k g) c = (if c = b then get_incoming g b @ [a] else get_incoming g c)"
  "memories (add_edge_internal a b k g) = memories g"
  "graph_tags (add_edge_internal a b k g) = graph_tags g"
  by (simp_all add: graph_view add_edge_internal_def)

lemma ensure_tag_view [simp]:
  "get_edges (ensure_tag now n g) c = get_edges g c"
  "get_incoming (ensure_tag now n g) c = get_incoming g c"
  "memories (ensure_tag now n g) = memories g"
  "fmlookup (graph_tags (ensure_tag now n g)) t =
     (if t = tag_node n then Some (case fmlookup (graph_tags g) t of Some e \<Rightarrow> e | None \<Rightarrow> new_tag now n)
      else fmlookup (graph_tags g) t)"
  by (auto simp: graph_view ensure_tag_def split: option.split)

lemma count_tag_view [simp]:
  "get_edges (count_tag t f g) c = get_edges g c"
  "get_incoming (count_tag t f g) c = get_incoming g c"
  "memories (count_tag t f g) = memories g"
  "fmlookup (graph_tags (count_tag t f g)) u =
     (if u = t then map_option (\<lambda>e. e\<lparr>tag_count := f (tag_count e)\<rparr>) (fmlookup (graph_tags g) t)
      else fmlookup (graph_tags g) u)"
  by (simp_all add: graph_view count_tag_def)

lemma memories_update_view [simp]:
  "get_edges (g\<lparr>memories := x\<rparr>) c = get_edges g c" "get_incoming (g\<lparr>memories := x\<rparr>) c = get_incoming g c"
  "get_edges (g\<lparr>graph_metadata := y\<rparr>) c = get_edges g c"
  "get_incoming (g\<lparr>graph_metadata := y\<rparr>) c = get_incoming g c"
  by (simp_all add: graph_view)

section \<open>The invariant\<close>

text \<open>The memories that carry a tag node.\<close>

definition tagged :: "MemoryGraph \<Rightarrow> str \<Rightarrow> str set" where
  "tagged g t = {a. list_ex (has_tag_edge t) (get_edges g a)}"

text \<open>The two edge maps mirror each other.\<close>

definition mirrored :: "MemoryGraph \<Rightarrow> bool" where
  "mirrored g \<longleftrightarrow> (\<forall>a b. a \<in> set (get_incoming g b) \<longleftrightarrow> b \<in> edge_target ` set (get_edges g a))"

text \<open>Tag edges start at \<open>D\<close>, lead to tag nodes, occur once and are the only edges there; the count of a
  tag node is the number of its memories.\<close>

definition tag_count_ok :: "MemoryGraph \<Rightarrow> str \<Rightarrow> bool" where
  "tag_count_ok g t \<longleftrightarrow>
     (case fmlookup (graph_tags g) t of
        Some e \<Rightarrow> unat (tag_count e) = card (tagged g t) | None \<Rightarrow> tagged g t = {})"

definition tags_counted :: "str set \<Rightarrow> MemoryGraph \<Rightarrow> bool" where
  "tags_counted D g \<longleftrightarrow>
     (\<forall>t. tagged g t \<subseteq> D \<and> tag_count_ok g t \<and> (\<not> prefix ''tag:'' t \<longrightarrow> tagged g t = {}))
     \<and> (\<forall>a t. length (filter (has_tag_edge t) (get_edges g a)) \<le> 1)
     \<and> (\<forall>a. \<forall>e \<in> set (get_edges g a). prefix ''tag:'' (edge_target e) \<longrightarrow> edge_kind e = HasTag)"

text \<open>A memory is stored under its id, which is no tag node, and lists its tags.\<close>

definition tags_listed :: "MemoryGraph \<Rightarrow> bool" where
  "tags_listed g \<longleftrightarrow>
     (\<forall>i e. fmlookup (memories g) i = Some e \<longrightarrow>
        mem_id e = i \<and> \<not> prefix ''tag:'' i \<and> distinct (mem_tags e)
        \<and> (\<forall>t. i \<in> tagged g t \<longleftrightarrow> t \<in> tag_node ` set (mem_tags e)))"

abbreviation stored :: "MemoryGraph \<Rightarrow> str set" where
  "stored g \<equiv> fset (fmdom (memories g))"

definition graph_inv :: "MemoryGraph \<Rightarrow> bool" where
  "graph_inv g \<longleftrightarrow> mirrored g \<and> tags_counted (stored g) g \<and> tags_listed g"

lemma stored_iff: "i \<in> stored g \<longleftrightarrow> fmlookup (memories g) i \<noteq> None"
  by (simp add: fmlookup_dom_iff)

lemma memory_count_stored: "memory_count g = card (stored g)"
  by (simp add: memory_count_def fcard.rep_eq)

lemma graph_invI: "mirrored g \<Longrightarrow> tags_counted (stored g) g \<Longrightarrow> tags_listed g \<Longrightarrow> graph_inv g"
  by (simp add: graph_inv_def)

lemma tagged_iff: "a \<in> tagged g t \<longleftrightarrow> (\<exists>e \<in> set (get_edges g a). has_tag_edge t e)"
  by (auto simp: tagged_def list_ex_iff)

lemma count_ok_cong:
  assumes "tagged g' t = tagged g t" and "fmlookup (graph_tags g') t = fmlookup (graph_tags g) t"
  shows "tag_count_ok g' t = tag_count_ok g t"
  unfolding tag_count_ok_def assms ..

text \<open>Graphs that look alike.\<close>

lemma inv_cong:
  assumes "\<And>a. get_edges g' a = get_edges g a" and "\<And>b. get_incoming g' b = get_incoming g b"
    and "\<And>t. fmlookup (graph_tags g') t = fmlookup (graph_tags g) t"
  shows "mirrored g' = mirrored g" "tags_counted D g' = tags_counted D g" "tagged g' t = tagged g t"
proof -
  show t: "tagged g' t = tagged g t" for t by (simp add: assms tagged_def)
  show "mirrored g' = mirrored g" by (simp add: assms mirrored_def)
  show "tags_counted D g' = tags_counted D g"
    by (simp add: assms(1) t tags_counted_def count_ok_cong [OF t assms(3)])
qed

text \<open>A further edge that is no tag edge.\<close>

lemma mirrored_add: "mirrored g \<Longrightarrow> mirrored (add_edge_internal a b k g)"
  by (auto simp: mirrored_def)

lemma tagged_add:
  "tagged (add_edge_internal a b k g) t = (if k = HasTag \<and> t = b then insert a (tagged g t) else tagged g t)"
  by (auto simp: tagged_iff has_tag_edge_def split: if_splits)

lemma counted_add_other:
  assumes "tags_counted D g" and "k \<noteq> HasTag" and "\<not> prefix ''tag:'' b"
  shows "tags_counted D (add_edge_internal a b k g)"
proof -
  have t: "tagged (add_edge_internal a b k g) t = tagged g t" for t using assms(2) by (simp add: tagged_add)
  have "filter (has_tag_edge t) (get_edges (add_edge_internal a b k g) c) =
      filter (has_tag_edge t) (get_edges g c)" for c t
    using assms(2) by (simp add: has_tag_edge_def)
  moreover have "tag_count_ok (add_edge_internal a b k g) t = tag_count_ok g t" for t
    by (rule count_ok_cong [OF t]) simp
  ultimately show ?thesis using assms(1,3) unfolding tags_counted_def t by auto
qed

lemma listed_cong:
  assumes "tags_listed g" and "memories g' = memories g" and "\<And>t. tagged g' t = tagged g t"
  shows "tags_listed g'"
  using assms by (simp add: tags_listed_def)

lemma graph_inv_add_internal:
  "graph_inv g \<Longrightarrow> k \<noteq> HasTag \<Longrightarrow> \<not> prefix ''tag:'' b \<Longrightarrow> graph_inv (add_edge_internal a b k g)"
  unfolding graph_inv_def
  by (auto simp: mirrored_add counted_add_other tagged_add intro: listed_cong)

lemma graph_inv_add_edge:
  "graph_inv g \<Longrightarrow> k \<noteq> HasTag \<Longrightarrow> \<not> prefix ''tag:'' b \<Longrightarrow> graph_inv (add_edge a b k g)"
  by (simp add: add_edge_def graph_inv_add_internal)

section \<open>Attaching a tag\<close>

lemma unat_Suc32: "unat (c :: 32 word) + 1 < 2 ^ 32 \<Longrightarrow> unat (c + 1) = Suc (unat c)"
  by (simp add: unat_word_ariths)

lemma attach_tag_view [simp]:
  "get_edges (attach_tag now i n g) c =
     (if c = i then get_edges g i @ [\<lparr>edge_target = tag_node n, edge_kind = HasTag\<rparr>] else get_edges g c)"
  "get_incoming (attach_tag now i n g) c = (if c = tag_node n then get_incoming g c @ [i] else get_incoming g c)"
  "memories (attach_tag now i n g) = memories g"
  "fmlookup (graph_tags (attach_tag now i n g)) t =
     (if t = tag_node n
      then Some (let e = (case fmlookup (graph_tags g) t of Some e \<Rightarrow> e | None \<Rightarrow> new_tag now n)
                 in e\<lparr>tag_count := tag_count e + 1\<rparr>)
      else fmlookup (graph_tags g) t)"
  by (simp_all add: attach_tag_def Let_def)

lemma attach_tag_tagged:
  "tagged (attach_tag now i n g) t = (if t = tag_node n then insert i (tagged g t) else tagged g t)"
  by (auto simp: tagged_iff has_tag_edge_def split: if_splits)

lemma mirrored_attach: "mirrored g \<Longrightarrow> mirrored (attach_tag now i n g)"
  by (auto simp: mirrored_def)

lemma counted_attach:
  assumes g: "tags_counted D g" and "finite D" and "card D < 2 ^ 32" and "i \<in> D" and new: "i \<notin> tagged g (tag_node n)"
  shows "tags_counted D (attach_tag now i n g)"
proof -
  let ?t = "tag_node n"
  have sub: "tagged g t \<subseteq> D" for t using g by (simp add: tags_counted_def)
  then have fin: "finite (tagged g t)" for t using \<open>finite D\<close> finite_subset by blast
  have "tagged g ?t \<subset> D" using sub [of ?t] new \<open>i \<in> D\<close> by blast
  from psubset_card_mono [OF \<open>finite D\<close> this] have lt: "card (tagged g ?t) + 1 < 2 ^ 32"
    using assms(3) by simp
  have old: "tag_count_ok g ?t" using g by (simp add: tags_counted_def)
  have "tag_count_ok (attach_tag now i n g) ?t"
    using old lt new fin [of ?t]
    by (cases "fmlookup (graph_tags g) ?t")
      (auto simp: tag_count_ok_def attach_tag_tagged new_tag_def unat_Suc32)
  moreover have "tag_count_ok (attach_tag now i n g) t" if "t \<noteq> ?t" for t
    using g that count_ok_cong [of "attach_tag now i n g" t g] by (simp add: tags_counted_def attach_tag_tagged)
  moreover have "length (filter (has_tag_edge t) (get_edges (attach_tag now i n g) a)) \<le> 1" for a t
  proof -
    have "filter (has_tag_edge ?t) (get_edges g i) = []"
      using new by (auto simp: tagged_iff filter_empty_conv)
    then show ?thesis using g
      by (auto simp: tags_counted_def has_tag_edge_def)
  qed
  ultimately show ?thesis using g sub \<open>i \<in> D\<close>
    by (auto simp: tags_counted_def attach_tag_tagged)
qed

lemma attach_all:
  assumes "mirrored g" and "tags_counted D g" and "finite D" and "card D < 2 ^ 32" and "i \<in> D"
    and "distinct ts" and "\<And>n. n \<in> set ts \<Longrightarrow> i \<notin> tagged g (tag_node n)"
  shows "mirrored (fold (attach_tag now i) ts g) \<and> tags_counted D (fold (attach_tag now i) ts g)
    \<and> memories (fold (attach_tag now i) ts g) = memories g
    \<and> (\<forall>t. tagged (fold (attach_tag now i) ts g) t =
          (if t \<in> tag_node ` set ts then insert i (tagged g t) else tagged g t))"
  using assms
proof (induction ts arbitrary: g)
  case (Cons n ts)
  have "mirrored (attach_tag now i n g)" "tags_counted D (attach_tag now i n g)"
    "\<And>m. m \<in> set ts \<Longrightarrow> i \<notin> tagged (attach_tag now i n g) (tag_node m)" "distinct ts"
    using Cons.prems mirrored_attach counted_attach by (auto simp: attach_tag_tagged)
  from Cons.IH [OF this(1,2) Cons.prems(3-5) this(4,3)] show ?case
    by (auto simp: attach_tag_tagged)
qed simp

section \<open>Adding memories\<close>

lemma counted_mono: "tags_counted D g \<Longrightarrow> D \<subseteq> D' \<Longrightarrow> tags_counted D' g"
  by (auto simp: tags_counted_def)

text \<open>Storing an entry with its tags attached, which both \<open>add_memory\<close> and the migration do.\<close>

lemma store_with_tags:
  assumes inv: "graph_inv g" and fresh: "i \<notin> stored g" and "distinct ts" and "card (stored g) + 1 < 2 ^ 32"
    and g1: "g1 = fold (attach_tag now i) ts g0"
    and g0: "\<And>a. get_edges g0 a = get_edges g a" "\<And>b. get_incoming g0 b = get_incoming g b"
      "\<And>t. fmlookup (graph_tags g0) t = fmlookup (graph_tags g) t"
  shows "mirrored g1" and "tags_counted (insert i (stored g)) g1" and "memories g1 = memories g0"
    and "tagged g1 t = (if t \<in> tag_node ` set ts then insert i (tagged g t) else tagged g t)"
proof -
  have c: "mirrored g0" "tags_counted (stored g) g0" "tagged g0 u = tagged g u" for u
    using inv inv_cong [OF g0] by (auto simp: graph_inv_def)
  have "i \<notin> tagged g u" for u using inv fresh by (auto simp: graph_inv_def tags_counted_def)
  then have n: "\<And>n. n \<in> set ts \<Longrightarrow> i \<notin> tagged g0 (tag_node n)" by (simp add: c)
  have "tags_counted (insert i (stored g)) g0" using counted_mono [OF c(2)] by blast
  from attach_all [OF c(1) this _ _ insertI1 assms(3) n, of now] assms(4) fresh
  show "mirrored g1" "tags_counted (insert i (stored g)) g1" "memories g1 = memories g0"
    "tagged g1 t = (if t \<in> tag_node ` set ts then insert i (tagged g t) else tagged g t)"
    unfolding g1 c(3) by auto
qed

lemma listed_store:
  assumes "tags_listed g" and "\<And>u. i \<notin> tagged g u" and "mem_id e = i" and "\<not> prefix ''tag:'' i" and "distinct (mem_tags e)"
    and m: "memories g' = fmupd i e (memories g)"
    and t: "\<And>t. tagged g' t = (if t \<in> tag_node ` set (mem_tags e) then insert i (tagged g t) else tagged g t)"
  shows "tags_listed g'"
  unfolding tags_listed_def m t
proof (intro allI impI)
  fix j x assume "fmlookup (fmupd i e (memories g)) j = Some x"
  with assms(1,2-5) show "mem_id x = j \<and> \<not> prefix ''tag:'' j \<and> distinct (mem_tags x) \<and>
      (\<forall>t. (j \<in> (if t \<in> tag_node ` set (mem_tags e) then insert i (tagged g t) else tagged g t)) =
        (t \<in> tag_node ` set (mem_tags x)))"
    by (cases "j = i") (auto simp: tags_listed_def)
qed

lemma not_tagged: "graph_inv g \<Longrightarrow> i \<notin> stored g \<Longrightarrow> i \<notin> tagged g t"
  by (auto simp: graph_inv_def tags_counted_def)

lemma refresh_fields [simp]:
  "mem_id (refresh_search_text lower e) = mem_id e" "mem_tags (refresh_search_text lower e) = mem_tags e"
  "superseded_by (refresh_search_text lower e) = superseded_by e"
  "mem_active (refresh_search_text lower e) = mem_active e"
  by (simp_all add: refresh_search_text_def)

definition well_tagged :: "MemoryEntry \<Rightarrow> bool" where
  "well_tagged e \<longleftrightarrow> distinct (mem_tags e) \<and> \<not> prefix ''tag:'' (mem_id e)"

lemma inv_set_memories:
  assumes "mirrored g" and "tags_counted (fset (fmdom m)) g" and "tags_listed (g\<lparr>memories := m\<rparr>)"
  shows "graph_inv (g\<lparr>memories := m\<rparr>)"
  using assms inv_cong [of "g\<lparr>memories := m\<rparr>" g] by (simp add: graph_inv_def)

lemma tagged_set_memories [simp]: "tagged (g\<lparr>memories := m\<rparr>) t = tagged g t"
  by (simp add: tagged_def)

lemma add_memory_inv:
  assumes inv: "graph_inv g" and fresh: "mem_id e \<notin> stored g" and "well_tagged e"
    and "memory_count g + 1 < 2 ^ 32"
  shows "graph_inv (fst (add_memory lower now e g))"
proof -
  let ?e = "refresh_search_text lower e" and ?i = "mem_id e"
  define g1 where "g1 = fold (attach_tag now ?i) (mem_tags e) g"
  define g2 where "g2 = (case superseded_by e of Some n \<Rightarrow> add_edge_internal n ?i Supersedes g1 | None \<Rightarrow> g1)"
  have r: "fst (add_memory lower now e g) = g2\<lparr>memories := fmupd ?i ?e (memories g2)\<rparr>"
    unfolding add_memory_def g1_def g2_def Let_def refresh_fields fst_conv by (rule refl)
  have d: "distinct (mem_tags e)" "\<not> prefix ''tag:'' ?i" using assms(3) by (auto simp: well_tagged_def)
  have cc: "card (stored g) + 1 < 2 ^ 32" using assms(4) by (simp add: memory_count_stored)
  note st = store_with_tags [OF inv fresh d(1) cc g1_def refl refl refl]
  have g2: "mirrored g2" "tags_counted (insert ?i (stored g)) g2" "memories g2 = memories g"
    "tagged g2 t = tagged g1 t" for t
    using st d(2) mirrored_add counted_add_other
    by (auto simp: g2_def tagged_add split: option.split)
  show ?thesis unfolding r
  proof (rule inv_set_memories)
    show "tags_counted (fset (fmdom (fmupd ?i ?e (memories g2)))) g2" using g2(2,3) by simp
    show "tags_listed (g2\<lparr>memories := fmupd ?i ?e (memories g2)\<rparr>)"
      by (rule listed_store [of g ?i ?e]) (use inv d g2 st(4) not_tagged [OF inv fresh] in \<open>auto simp: graph_inv_def\<close>)
  qed (fact g2(1))
qed

lemma legacy_entry_inv:
  assumes inv: "graph_inv g" and fresh: "mem_id e \<notin> stored g" and "well_tagged e"
    and "memory_count g + 1 < 2 ^ 32"
  shows "graph_inv (legacy_entry now e g)" and "stored (legacy_entry now e g) = insert (mem_id e) (stored g)"
proof -
  let ?i = "mem_id e" and ?g0 = "g\<lparr>memories := fmupd (mem_id e) e (memories g)\<rparr>"
  define g1 where "g1 = fold (attach_tag now ?i) (mem_tags e) ?g0"
  have d: "distinct (mem_tags e)" "\<not> prefix ''tag:'' ?i" using assms(3) by (auto simp: well_tagged_def)
  have cc: "card (stored g) + 1 < 2 ^ 32" using assms(4) by (simp add: memory_count_stored)
  have st: "mirrored g1" "tags_counted (insert ?i (stored g)) g1" "memories g1 = memories ?g0"
    "tagged g1 t = (if t \<in> tag_node ` set (mem_tags e) then insert ?i (tagged g t) else tagged g t)" for t
    by (rule store_with_tags [OF inv fresh d(1) cc g1_def]; simp)+
  have "tags_listed g1"
    by (rule listed_store [of g ?i e]) (use inv d st not_tagged [OF inv fresh] in \<open>auto simp: graph_inv_def\<close>)
  then have g1: "graph_inv g1" using st by (simp add: graph_inv_def)
  have e: "legacy_entry now e g = (case superseded_by e of Some n \<Rightarrow> add_edge_internal n ?i Supersedes g1 | None \<Rightarrow> g1)"
    unfolding legacy_entry_def g1_def Let_def by (rule refl)
  show "graph_inv (legacy_entry now e g)" unfolding e
    using g1 d(2) graph_inv_add_internal by (auto split: option.split)
  show "stored (legacy_entry now e g) = insert ?i (stored g)"
    unfolding e using st(3) by (auto split: option.split)
qed

lemma graph_inv_new: "graph_inv new_memory_graph"
  by (simp add: graph_inv_def mirrored_def tags_counted_def tags_listed_def tag_count_ok_def tagged_def
      new_memory_graph_def graph_view vec_at_def)

lemma from_legacy_inv:
  assumes "distinct (map mem_id (store_entries s))" and "list_all well_tagged (store_entries s)"
    and "length (store_entries s) < 2 ^ 32"
  shows "graph_inv (from_legacy_store now s)"
proof -
  have "graph_inv (fold (legacy_entry now) es g)"
    if "graph_inv g" "distinct (map mem_id es)" "list_all well_tagged es"
      "mem_id ` set es \<inter> stored g = {}" "card (stored g) + length es < 2 ^ 32" for es g
    using that
  proof (induction es arbitrary: g)
    case (Cons e es)
    have "memory_count g + 1 < 2 ^ 32" using Cons.prems(5) by (simp add: memory_count_stored)
    from legacy_entry_inv [OF Cons.prems(1) _ _ this] Cons.prems
    have n: "graph_inv (legacy_entry now e g)" "stored (legacy_entry now e g) = insert (mem_id e) (stored g)" by auto
    have f: "mem_id e \<notin> stored g" using Cons.prems(4) by auto
    have "graph_inv (fold (legacy_entry now) es (legacy_entry now e g))"
    proof (rule Cons.IH [OF n(1)])
      show "mem_id ` set es \<inter> stored (legacy_entry now e g) = {}"
        unfolding n(2) using Cons.prems(2,4) by auto
      show "card (stored (legacy_entry now e g)) + length es < 2 ^ 32"
        unfolding n(2) using Cons.prems(5) f by simp
    qed (use Cons.prems(2,3) in auto)
    then show ?case by simp
  qed simp
  from this [OF graph_inv_new assms(1,2)] assms(3) show ?thesis
    by (simp add: from_legacy_store_def new_memory_graph_def)
qed

section \<open>Tagging and untagging\<close>

lemma counted_ensure:
  assumes "tags_counted D g" shows "tags_counted D (ensure_tag now n g)"
proof -
  have t: "tagged (ensure_tag now n g) t = tagged g t" for t by (simp add: tagged_def)
  have "tag_count_ok (ensure_tag now n g) t" for t
  proof -
    have "tag_count_ok g t" using assms by (simp add: tags_counted_def)
    then show ?thesis
      by (cases "fmlookup (graph_tags g) t") (auto simp: tag_count_ok_def t new_tag_def)
  qed
  then show ?thesis using assms by (simp add: tags_counted_def t)
qed

lemma finite_tagged: "tags_counted D g \<Longrightarrow> finite D \<Longrightarrow> finite (tagged g t)"
  using finite_subset [of "tagged g t" D] by (simp add: tags_counted_def)

lemma listed_entry:
  assumes "tags_listed g" and "i \<in> stored g"
  obtains e where "fmlookup (memories g) i = Some e" "mem_id e = i" "\<not> prefix ''tag:'' i" "distinct (mem_tags e)"
    "\<And>t. i \<in> tagged g t \<longleftrightarrow> t \<in> tag_node ` set (mem_tags e)"
  using assms by (auto simp: tags_listed_def fmlookup_dom_iff)

text \<open>Rewriting the entry of one memory in step with its tag edges.\<close>

lemma listed_adjust:
  assumes "tags_listed g" and m: "memories g' = adjust_at i f (memories g)"
    and other: "\<And>t j. j \<noteq> i \<Longrightarrow> j \<in> tagged g' t \<longleftrightarrow> j \<in> tagged g t"
    and self: "\<And>e. fmlookup (memories g) i = Some e \<Longrightarrow> mem_id (f e) = mem_id e \<and> distinct (mem_tags (f e))
      \<and> (\<forall>t. i \<in> tagged g' t \<longleftrightarrow> t \<in> tag_node ` set (mem_tags (f e)))"
  shows "tags_listed g'"
  unfolding tags_listed_def
proof (intro allI impI)
  fix j x assume j: "fmlookup (memories g') j = Some x"
  show "mem_id x = j \<and> \<not> prefix ''tag:'' j \<and> distinct (mem_tags x) \<and> (\<forall>t. (j \<in> tagged g' t) = (t \<in> tag_node ` set (mem_tags x)))"
  proof (cases "j = i")
    case True
    with j m obtain e where e: "fmlookup (memories g) i = Some e" "x = f e" by auto
    with self [OF e(1)] assms(1) True show ?thesis by (auto simp: tags_listed_def)
  next
    case False
    with j m have "fmlookup (memories g) j = Some x" by simp
    with assms(1) other [OF False] show ?thesis by (simp add: tags_listed_def)
  qed
qed

lemma tag_memory_form:
  "tag_memory lower now i n g =
     (if i \<in> tagged g (tag_node n) then ensure_tag now n g
      else (attach_tag now i n g)\<lparr>memories := adjust_at i (\<lambda>e. if n \<in> set (mem_tags e) then e
         else refresh_search_text lower (e\<lparr>mem_tags := mem_tags e @ [n]\<rparr>)) (memories g)\<rparr>)"
  unfolding tag_memory_def Let_def tagged_def mem_Collect_eq ensure_tag_view attach_tag_def [symmetric]
    attach_tag_view ..

lemma tag_memory_inv:
  assumes inv: "graph_inv g" and i: "i \<in> stored g" and "memory_count g < 2 ^ 32"
  shows "graph_inv (tag_memory lower now i n g)"
    and "tagged (tag_memory lower now i n g) t = (if t = tag_node n then insert i (tagged g t) else tagged g t)"
proof -
  let ?t = "tag_node n"
  have g: "mirrored g" "tags_counted (stored g) g" "tags_listed g" using inv by (auto simp: graph_inv_def)
  show "tagged (tag_memory lower now i n g) t = (if t = tag_node n then insert i (tagged g t) else tagged g t)"
    by (auto simp: tag_memory_form attach_tag_tagged) (auto simp: tagged_def)
  show "graph_inv (tag_memory lower now i n g)"
  proof (cases "i \<in> tagged g ?t")
    case True
    have t: "tagged (ensure_tag now n g) t = tagged g t" for t by (simp add: tagged_def)
    have "mirrored (ensure_tag now n g)" using g(1) by (simp add: mirrored_def)
    moreover have "tags_listed (ensure_tag now n g)" by (rule listed_cong [OF g(3)]) (simp_all add: t)
    ultimately show ?thesis using True counted_ensure [OF g(2)] by (simp add: tag_memory_form graph_inv_def)
  next
    case False
    let ?m = "adjust_at i (\<lambda>e. if n \<in> set (mem_tags e) then e
         else refresh_search_text lower (e\<lparr>mem_tags := mem_tags e @ [n]\<rparr>)) (memories g)"
    have "tags_counted (fset (fmdom ?m)) (attach_tag now i n g)"
      using counted_attach [OF g(2) _ _ i False, of now] assms(3) by (simp add: memory_count_stored)
    moreover have "tags_listed ((attach_tag now i n g)\<lparr>memories := ?m\<rparr>)"
    proof (rule listed_adjust [OF g(3)])
      fix e assume e: "fmlookup (memories g) i = Some e"
      with g(3) have l: "distinct (mem_tags e)" "\<And>t. i \<in> tagged g t \<longleftrightarrow> t \<in> tag_node ` set (mem_tags e)"
        by (auto simp: tags_listed_def)
      with False have "n \<notin> set (mem_tags e)" by auto
      with l show "mem_id (if n \<in> set (mem_tags e) then e else refresh_search_text lower (e\<lparr>mem_tags := mem_tags e @ [n]\<rparr>)) = mem_id e \<and>
          distinct (mem_tags (if n \<in> set (mem_tags e) then e else refresh_search_text lower (e\<lparr>mem_tags := mem_tags e @ [n]\<rparr>))) \<and>
          (\<forall>t. (i \<in> tagged ((attach_tag now i n g)\<lparr>memories := ?m\<rparr>) t) =
            (t \<in> tag_node ` set (mem_tags (if n \<in> set (mem_tags e) then e else refresh_search_text lower (e\<lparr>mem_tags := mem_tags e @ [n]\<rparr>)))))"
        by (auto simp: attach_tag_tagged)
    qed (auto simp: attach_tag_tagged)
    ultimately show ?thesis using False mirrored_attach [OF g(1)] inv_set_memories
      by (simp add: tag_memory_form)
  qed
qed

lemma untag_view [simp]:
  "get_edges (untag_memory lower i n g) c =
     (if c = i then filter (\<lambda>e. \<not> has_tag_edge (tag_node n) e) (get_edges g i) else get_edges g c)"
  "get_incoming (untag_memory lower i n g) c =
     (if c = tag_node n then filter (\<lambda>s. s \<noteq> i) (get_incoming g c) else get_incoming g c)"
  "memories (untag_memory lower i n g) = adjust_at i
     (\<lambda>e. refresh_search_text lower (e\<lparr>mem_tags := filter (\<lambda>x. x \<noteq> n) (mem_tags e)\<rparr>)) (memories g)"
  "fmlookup (graph_tags (untag_memory lower i n g)) t =
     (if t = tag_node n then map_option (\<lambda>e. e\<lparr>tag_count := sat_dec (tag_count e)\<rparr>) (fmlookup (graph_tags g) t)
      else fmlookup (graph_tags g) t)"
  by (simp_all add: untag_memory_def Let_def graph_view count_tag_def)

lemma unat_sat_dec: "unat (sat_dec c) = unat c - 1"
  by (auto simp: sat_dec_def unat_minus_one)

lemma filter_filter_le: "length (filter P (filter Q xs)) \<le> length (filter P xs)"
  by (induction xs) auto

lemma untag_tagged:
  "tagged (untag_memory lower i n g) t = (if t = tag_node n then tagged g t - {i} else tagged g t)"
proof -
  have "x \<in> tagged (untag_memory lower i n g) t \<longleftrightarrow> x \<in> tagged g t \<and> (x = i \<longrightarrow> t \<noteq> tag_node n)" for x
    by (cases "x = i") (auto simp: tagged_def list_ex_iff has_tag_edge_def)
  then show ?thesis by auto
qed

lemma untag_memory_inv:
  assumes inv: "graph_inv g" and i: "i \<in> tagged g (tag_node n)"
  shows "graph_inv (untag_memory lower i n g)"
    and "tagged (untag_memory lower i n g) t = (if t = tag_node n then tagged g t - {i} else tagged g t)"
proof -
  let ?t = "tag_node n" and ?g = "untag_memory lower i n g"
  have g: "mirrored g" "tags_counted (stored g) g" "tags_listed g" using inv by (auto simp: graph_inv_def)
  have only: "edge_kind e = HasTag" if "e \<in> set (get_edges g i)" "edge_target e = tag_node n" for e
    using g(2) that tag_node_prefix [of n] by (auto simp: tags_counted_def simp del: tag_node_prefix)
  show t: "tagged ?g t = (if t = ?t then tagged g t - {i} else tagged g t)" for t
    by (rule untag_tagged)
  have fin: "finite (tagged g ?t)" by (rule finite_tagged [OF g(2)]) simp
  have "mirrored ?g"
    unfolding mirrored_def
  proof (intro allI)
    fix a b
    have "a \<in> set (get_incoming g b) \<longleftrightarrow> b \<in> edge_target ` set (get_edges g a)" using g(1) by (simp add: mirrored_def)
    then show "a \<in> set (get_incoming ?g b) \<longleftrightarrow> b \<in> edge_target ` set (get_edges ?g a)"
      using only by (cases "a = i"; cases "b = ?t") (auto simp: has_tag_edge_def)
  qed
  moreover have "tags_counted (stored ?g) ?g"
  proof -
    have "tag_count_ok ?g u" for u
    proof (cases "u = ?t")
      case True
      have "tag_count_ok g ?t" using g(2) by (simp add: tags_counted_def)
      then show ?thesis using True i fin
        by (cases "fmlookup (graph_tags g) ?t") (auto simp: tag_count_ok_def t unat_sat_dec)
    next
      case False
      then have "tag_count_ok ?g u = tag_count_ok g u" by (intro count_ok_cong) (simp_all add: t)
      then show ?thesis using g(2) by (simp add: tags_counted_def)
    qed
    moreover have "length (filter (has_tag_edge u) (get_edges ?g a)) \<le> 1" for u a
    proof -
      have "length (filter (has_tag_edge u) (get_edges g a)) \<le> 1" using g(2) by (simp add: tags_counted_def)
      then show ?thesis using order_trans [OF filter_filter_le] by (auto simp del: filter_filter)
    qed
    ultimately show ?thesis using g(2) by (auto simp: tags_counted_def t)
  qed
  moreover have "tags_listed ?g"
  proof (rule listed_adjust [OF g(3)])
    show "memories ?g = adjust_at i (\<lambda>e. refresh_search_text lower (e\<lparr>mem_tags := filter (\<lambda>x. x \<noteq> n) (mem_tags e)\<rparr>)) (memories g)"
      by simp
    fix e assume "fmlookup (memories g) i = Some e"
    with g(3) show "mem_id (refresh_search_text lower (e\<lparr>mem_tags := filter (\<lambda>x. x \<noteq> n) (mem_tags e)\<rparr>)) = mem_id e \<and>
        distinct (mem_tags (refresh_search_text lower (e\<lparr>mem_tags := filter (\<lambda>x. x \<noteq> n) (mem_tags e)\<rparr>))) \<and>
        (\<forall>u. (i \<in> tagged ?g u) = (u \<in> tag_node ` set (mem_tags (refresh_search_text lower (e\<lparr>mem_tags := filter (\<lambda>x. x \<noteq> n) (mem_tags e)\<rparr>)))))"
      by (auto simp: tags_listed_def t)
  qed (simp add: t)
  ultimately show "graph_inv ?g" by (simp add: graph_inv_def)
qed


section \<open>Removing a memory\<close>

lemma fold_detach [simp]:
  "get_edges (fold (detach_edge i) es g) a = get_edges g a"
  "memories (fold (detach_edge i) es g) = memories g"
  "get_incoming (fold (detach_edge i) es g) b =
     (if b \<in> edge_target ` set es then filter (\<lambda>s. s \<noteq> i) (get_incoming g b) else get_incoming g b)"
  "fmlookup (graph_tags (fold (detach_edge i) es g)) t =
     map_option (\<lambda>e. e\<lparr>tag_count := (sat_dec ^^ length (filter (has_tag_edge t) es)) (tag_count e)\<rparr>)
       (fmlookup (graph_tags g) t)"
proof -
  have v: "get_edges (detach_edge i e g) a = get_edges g a" "memories (detach_edge i e g) = memories g"
    "get_incoming (detach_edge i e g) b =
       (if b = edge_target e then filter (\<lambda>s. s \<noteq> i) (get_incoming g b) else get_incoming g b)"
    "fmlookup (graph_tags (detach_edge i e g)) t = (if has_tag_edge t e
       then map_option (\<lambda>x. x\<lparr>tag_count := sat_dec (tag_count x)\<rparr>) (fmlookup (graph_tags g) t)
       else fmlookup (graph_tags g) t)" for e g a b t
    by (auto simp: detach_edge_def Let_def graph_view count_tag_def has_tag_edge_def)
  show "get_edges (fold (detach_edge i) es g) a = get_edges g a"
    "memories (fold (detach_edge i) es g) = memories g"
    by (induction es arbitrary: g) (simp_all add: v)
  show "get_incoming (fold (detach_edge i) es g) b =
      (if b \<in> edge_target ` set es then filter (\<lambda>s. s \<noteq> i) (get_incoming g b) else get_incoming g b)"
    by (induction es arbitrary: g) (auto simp: v)
  show "fmlookup (graph_tags (fold (detach_edge i) es g)) t =
     map_option (\<lambda>e. e\<lparr>tag_count := (sat_dec ^^ length (filter (has_tag_edge t) es)) (tag_count e)\<rparr>)
       (fmlookup (graph_tags g) t)"
  proof (induction es arbitrary: g)
    case Nil
    then show ?case by (simp add: option.map_ident)
  next
    case (Cons e es)
    then show ?case by (cases "fmlookup (graph_tags g) t") (simp_all add: v funpow_swap1)
  qed
qed

lemma fold_drop [simp]:
  "get_edges (fold (drop_targets i) ss g) a =
     (if a \<in> set ss then filter (\<lambda>e. edge_target e \<noteq> i) (get_edges g a) else get_edges g a)"
  "memories (fold (drop_targets i) ss g) = memories g"
  "get_incoming (fold (drop_targets i) ss g) b = get_incoming g b"
  "graph_tags (fold (drop_targets i) ss g) = graph_tags g"
proof -
  have v: "get_edges (drop_targets i s g) a =
      (if a = s then filter (\<lambda>e. edge_target e \<noteq> i) (get_edges g a) else get_edges g a)"
    "memories (drop_targets i s g) = memories g" "get_incoming (drop_targets i s g) b = get_incoming g b"
    "graph_tags (drop_targets i s g) = graph_tags g" for s g a b
    by (simp_all add: drop_targets_def graph_view)
  show "get_edges (fold (drop_targets i) ss g) a =
      (if a \<in> set ss then filter (\<lambda>e. edge_target e \<noteq> i) (get_edges g a) else get_edges g a)"
    by (induction ss arbitrary: g) (auto simp: v)
  show "memories (fold (drop_targets i) ss g) = memories g"
    "get_incoming (fold (drop_targets i) ss g) b = get_incoming g b"
    "graph_tags (fold (drop_targets i) ss g) = graph_tags g"
    by (induction ss arbitrary: g) (simp_all add: v)
qed

lemma edges_update_view [simp]:
  "get_edges (g\<lparr>edges := x\<rparr>) a = vec_at x a" "get_incoming (g\<lparr>edges := x\<rparr>) b = get_incoming g b"
  "get_edges (g\<lparr>reverse_edges := y\<rparr>) a = get_edges g a" "get_incoming (g\<lparr>reverse_edges := y\<rparr>) b = vec_at y b"
  by (simp_all add: graph_view)

text \<open>With the mirror intact, removal erases the memory from every edge list.\<close>

lemma remove_memory_view:
  fixes i :: str
  assumes m: "mirrored g"
  defines "g' \<equiv> fst (remove_memory i g)"
  shows "get_edges g' a = (if a = i then [] else filter (\<lambda>e. edge_target e \<noteq> i) (get_edges g a))"
    and "get_incoming g' b = (if b = i then [] else filter (\<lambda>s. s \<noteq> i) (get_incoming g b))"
    and "memories g' = fmdrop i (memories g)"
    and "fmlookup (graph_tags g') t =
      map_option (\<lambda>e. e\<lparr>tag_count := (sat_dec ^^ length (filter (has_tag_edge t) (get_edges g i))) (tag_count e)\<rparr>)
        (fmlookup (graph_tags g) t)"
proof -
  have mir: "x \<in> set (get_incoming g y) \<longleftrightarrow> y \<in> edge_target ` set (get_edges g x)" for x y
    using m by (simp add: mirrored_def)
  show "memories g' = fmdrop i (memories g)"
    unfolding g'_def remove_memory_def Let_def by simp
  show "fmlookup (graph_tags g') t =
      map_option (\<lambda>e. e\<lparr>tag_count := (sat_dec ^^ length (filter (has_tag_edge t) (get_edges g i))) (tag_count e)\<rparr>)
        (fmlookup (graph_tags g) t)"
    unfolding g'_def remove_memory_def Let_def by simp
  have idf: "filter (\<lambda>s. s \<noteq> i) (get_incoming g b) = get_incoming g b" if "b \<notin> edge_target ` set (get_edges g i)" for b
    using that mir [of i b] by (metis (mono_tags, lifting) filter_True)
  have "get_incoming g' b = (if b = i then [] else if b \<in> edge_target ` set (get_edges g i)
      then filter (\<lambda>s. s \<noteq> i) (get_incoming g b) else get_incoming g b)"
    unfolding g'_def remove_memory_def Let_def by (simp flip: get_incoming_def)
  then show "get_incoming g' b = (if b = i then [] else filter (\<lambda>s. s \<noteq> i) (get_incoming g b))"
    using idf by simp
  have ids: "filter (\<lambda>e. edge_target e \<noteq> i) (get_edges g a) = get_edges g a" if "a \<notin> set (get_incoming g i)" for a
    using that mir [of a i] by (auto intro!: filter_True)
  have "get_edges g' a = (if a \<in> set (filter (\<lambda>s. s \<noteq> i \<or> i \<notin> edge_target ` set (get_edges g i)) (get_incoming g i))
      then filter (\<lambda>e. edge_target e \<noteq> i) (if a = i then [] else get_edges g a)
      else if a = i then [] else get_edges g a)"
    unfolding g'_def remove_memory_def Let_def by (auto simp flip: get_edges_def)
  then show "get_edges g' a = (if a = i then [] else filter (\<lambda>e. edge_target e \<noteq> i) (get_edges g a))"
    using ids [of a] by (auto split: if_splits)
qed

lemma remove_tagged:
  assumes "mirrored g" and "t \<noteq> i"
  shows "tagged (fst (remove_memory i g)) t = tagged g t - {i}"
proof -
  have "x \<in> tagged (fst (remove_memory i g)) t \<longleftrightarrow> x \<in> tagged g t \<and> x \<noteq> i" for x
    using assms(2) by (cases "x = i") (auto simp: tagged_def list_ex_iff remove_memory_view [OF assms(1)] has_tag_edge_def)
  then show ?thesis by auto
qed

lemma remove_tagged_self: "mirrored g \<Longrightarrow> tagged (fst (remove_memory i g)) i = {}"
  by (auto simp: tagged_def list_ex_iff remove_memory_view has_tag_edge_def)

lemma once_cases: "length (filter P xs) \<le> Suc 0 \<Longrightarrow> length (filter P xs) = (if list_ex P xs then 1 else 0)"
  by (induction xs) (auto simp: filter_empty_conv list_ex_iff)

lemma remove_memory_inv:
  assumes inv: "graph_inv g" and i: "\<not> prefix ''tag:'' i"
  shows "graph_inv (fst (remove_memory i g))"
proof -
  let ?g = "fst (remove_memory i g)"
  have g: "mirrored g" "tags_counted (stored g) g" "tags_listed g" using inv by (auto simp: graph_inv_def)
  note v = remove_memory_view [OF g(1), of i]
  have t: "tagged ?g t = tagged g t - {i}" for t
  proof (cases "t = i")
    case True
    have "tagged g i = {}" using g(2) i by (simp add: tags_counted_def)
    with True show ?thesis using remove_tagged_self [OF g(1)] by simp
  qed (use remove_tagged [OF g(1)] in simp)
  have "mirrored ?g" unfolding mirrored_def
  proof (intro allI)
    fix a b
    have "a \<in> set (get_incoming g b) \<longleftrightarrow> b \<in> edge_target ` set (get_edges g a)" using g(1) by (simp add: mirrored_def)
    then show "a \<in> set (get_incoming ?g b) \<longleftrightarrow> b \<in> edge_target ` set (get_edges ?g a)"
      by (cases "a = i"; cases "b = i") (auto simp: v)
  qed
  moreover have "tags_counted (stored ?g) ?g"
  proof -
    have once: "length (filter (has_tag_edge u) (get_edges g a)) \<le> 1" for u a
      using g(2) by (simp add: tags_counted_def)
    have "tag_count_ok ?g u" for u
    proof -
      have ok: "tag_count_ok g u" using g(2) by (simp add: tags_counted_def)
      have fin: "finite (tagged g u)" by (rule finite_tagged [OF g(2)]) simp
      have n: "length (filter (has_tag_edge u) (get_edges g i)) = (if i \<in> tagged g u then 1 else 0)"
        using once_cases [of "has_tag_edge u" "get_edges g i"] once by (simp add: tagged_def)
      show ?thesis using ok fin n
        by (cases "fmlookup (graph_tags g) u") (auto simp: tag_count_ok_def v(4) t unat_sat_dec)
    qed
    moreover have "length (filter (has_tag_edge u) (get_edges ?g a)) \<le> 1" for u a
      using order_trans [OF filter_filter_le once [of u a]] by (auto simp: v simp del: filter_filter)
    ultimately show ?thesis using g(2) by (auto simp: tags_counted_def t v)
  qed
  moreover have "tags_listed ?g" using g(3) by (auto simp: tags_listed_def v(3) t)
  ultimately show ?thesis by (simp add: graph_inv_def)
qed

section \<open>The other operations\<close>

lemma inv_same_tags:
  assumes "graph_inv g" and "\<And>e. mem_id (f e) = mem_id e \<and> mem_tags (f e) = mem_tags e"
  shows "graph_inv (g\<lparr>memories := adjust_at i f (memories g)\<rparr>)"
proof (rule inv_set_memories)
  show "mirrored g" "tags_counted (fset (fmdom (adjust_at i f (memories g)))) g"
    using assms(1) by (auto simp: graph_inv_def)
  have "tags_listed g" using assms(1) by (simp add: graph_inv_def)
  then show "tags_listed (g\<lparr>memories := adjust_at i f (memories g)\<rparr>)"
    by (rule listed_adjust) (use \<open>tags_listed g\<close> assms(2) in \<open>auto simp: tags_listed_def\<close>)
qed

lemma inv_metadata: "graph_inv g \<Longrightarrow> graph_inv (g\<lparr>graph_metadata := md\<rparr>)"
  using inv_cong [of "g\<lparr>graph_metadata := md\<rparr>" g] by (simp add: graph_inv_def tags_listed_def)

lemma normalize_inv:
  assumes "graph_inv g" shows "graph_inv (normalize_graph_search_text lower g)"
  unfolding normalize_graph_search_text_def
  by (rule inv_set_memories) (use assms in \<open>auto simp: graph_inv_def tags_listed_def\<close>)

lemma supersede_inv: "graph_inv g \<Longrightarrow> \<not> prefix ''tag:'' older \<Longrightarrow> graph_inv (supersede newer older g)"
  unfolding supersede_def Let_def by (intro inv_same_tags graph_inv_add_edge) auto

lemma link_inv: "graph_inv g \<Longrightarrow> \<not> prefix ''tag:'' b \<Longrightarrow> graph_inv (link_memories a b w g)"
  unfolding link_memories_def Let_def by (intro inv_metadata graph_inv_add_edge) auto

lemma contradiction_inv:
  "graph_inv g \<Longrightarrow> \<not> prefix ''tag:'' a \<Longrightarrow> \<not> prefix ''tag:'' b \<Longrightarrow> graph_inv (mark_contradiction a b g)"
  unfolding mark_contradiction_def by (intro graph_inv_add_edge) auto

lemma retrieve_inv: "graph_inv g \<Longrightarrow> graph_inv (fst (cascade_retrieve list_of decay ids scores d n g))"
  unfolding cascade_retrieve_def Let_def fst_conv by (rule inv_metadata)

text \<open>Removing an edge is sound when it is the only one between its ends.\<close>

lemma remove_edge_inv:
  assumes inv: "graph_inv g" and k: "k \<noteq> HasTag" and b: "\<not> prefix ''tag:'' b"
    and sole: "\<forall>e \<in> set (get_edges g a). edge_target e = b \<longrightarrow> edge_kind_eq (edge_kind e) k"
  shows "graph_inv (remove_edge a b k g)"
proof -
  let ?g = "remove_edge a b k g"
  have g: "mirrored g" "tags_counted (stored g) g" "tags_listed g" using inv by (auto simp: graph_inv_def)
  have v: "get_edges ?g c = (if c = a then filter (\<lambda>e. edge_target e \<noteq> b) (get_edges g a) else get_edges g c)"
    "get_incoming ?g c = (if c = b then filter (\<lambda>s. s \<noteq> a) (get_incoming g b) else get_incoming g c)"
    "memories ?g = memories g" "graph_tags ?g = graph_tags g" for c
    using sole by (auto simp: remove_edge_def graph_view intro!: filter_cong)
  have t0: "tagged g b = {}" using g(2) b by (simp add: tags_counted_def)
  have t: "tagged ?g u = tagged g u" for u
  proof -
    have "x \<in> tagged ?g u \<longleftrightarrow> x \<in> tagged g u" for x
      using t0 by (cases "x = a"; cases "u = b") (auto simp: tagged_def list_ex_iff v has_tag_edge_def)
    then show ?thesis by auto
  qed
  have "mirrored ?g" unfolding mirrored_def
  proof (intro allI)
    fix c d
    have "c \<in> set (get_incoming g d) \<longleftrightarrow> d \<in> edge_target ` set (get_edges g c)" using g(1) by (simp add: mirrored_def)
    then show "c \<in> set (get_incoming ?g d) \<longleftrightarrow> d \<in> edge_target ` set (get_edges ?g c)"
      by (cases "c = a"; cases "d = b") (auto simp: v)
  qed
  moreover have "tags_counted (stored ?g) ?g"
  proof -
    have once: "length (filter (has_tag_edge u) (get_edges g c)) \<le> 1" for u c
      using g(2) by (simp add: tags_counted_def)
    have "length (filter (has_tag_edge u) (get_edges ?g c)) \<le> 1" for u c
      using order_trans [OF filter_filter_le once [of u c]] once [of u c] by (auto simp: v simp del: filter_filter)
    moreover have "tag_count_ok ?g u = tag_count_ok g u" for u by (rule count_ok_cong [OF t]) (simp add: v)
    ultimately show ?thesis using g(2) by (auto simp: tags_counted_def t v)
  qed
  ultimately show ?thesis using listed_cong [OF g(3) v(3) t] by (simp add: graph_inv_def)
qed


section \<open>Upsert\<close>

lemma untag_all:
  assumes "graph_inv g" and "distinct ns" and "\<And>n. n \<in> set ns \<Longrightarrow> i \<in> tagged g (tag_node n)"
  shows "graph_inv (fold (untag_memory lower i) ns g)
    \<and> stored (fold (untag_memory lower i) ns g) = stored g
    \<and> (\<forall>t. tagged (fold (untag_memory lower i) ns g) t =
        (if t \<in> tag_node ` set ns then tagged g t - {i} else tagged g t))"
  using assms
proof (induction ns arbitrary: g)
  case (Cons n ns)
  have i: "i \<in> tagged g (tag_node n)" using Cons.prems(3) by simp
  have "i \<in> tagged (untag_memory lower i n g) (tag_node m)" if "m \<in> set ns" for m
    using Cons.prems(2,3) that by (auto simp: untag_tagged)
  from Cons.IH [OF untag_memory_inv(1) [OF Cons.prems(1) i] _ this] Cons.prems(2) show ?case
    by (auto simp: untag_tagged)
qed simp

lemma tag_memory_stored [simp]: "stored (tag_memory lower now i n g) = stored g"
  by (simp add: tag_memory_form)

lemma tag_all:
  assumes "graph_inv g" and "i \<in> stored g" and "memory_count g < 2 ^ 32"
  shows "graph_inv (fold (tag_memory lower now i) ns g)
    \<and> stored (fold (tag_memory lower now i) ns g) = stored g
    \<and> (\<forall>t. tagged (fold (tag_memory lower now i) ns g) t =
        (if t \<in> tag_node ` set ns then insert i (tagged g t) else tagged g t))"
  using assms
proof (induction ns arbitrary: g)
  case (Cons n ns)
  note t = tag_memory_inv [OF Cons.prems, of lower now n]
  have "i \<in> stored (tag_memory lower now i n g)" "memory_count (tag_memory lower now i n g) < 2 ^ 32"
    using Cons.prems(2,3) by (simp_all add: memory_count_stored)
  from Cons.IH [OF t(1) this] show ?case by (auto simp: t(2))
qed simp

lemma merge_fields [simp]:
  "mem_id (merge_entry emb gen new old) = mem_id old" "mem_tags (merge_entry emb gen new old) = mem_tags new"
  by (simp_all add: merge_entry_def ensure_embedding_def set_embedding_def Let_def split: option.split)

lemma ensure_fields [simp]:
  "mem_id (ensure_embedding emb e) = mem_id e" "mem_tags (ensure_embedding emb e) = mem_tags e"
  by (simp_all add: ensure_embedding_def set_embedding_def split: option.split)

definition enumerates :: "(str set \<Rightarrow> str list) \<Rightarrow> bool" where
  "enumerates enum \<longleftrightarrow> (\<forall>S. finite S \<longrightarrow> set (enum S) = S \<and> distinct (enum S))"

lemma upsert_inv:
  assumes inv: "graph_inv g" and enum: "enumerates enum" and wt: "well_tagged e" and small: "memory_count g + 1 < 2 ^ 32"
  shows "graph_inv (fst (upsert_memory_in_graph lower emb enum now gen e g))"
proof -
  define entry where "entry = (if gen then ensure_embedding emb e else e)"
  have entry: "mem_id entry = mem_id e" "mem_tags entry = mem_tags e" by (simp_all add: entry_def)
  let ?i = "mem_id e"
  show ?thesis
  proof (cases "get_memory g ?i")
    case None
    then have "fst (upsert_memory_in_graph lower emb enum now gen e g) = fst (add_memory lower now entry g)"
      by (simp add: upsert_memory_in_graph_def entry_def Let_def)
    moreover have "?i \<notin> stored g" using None by (simp add: get_memory_def stored_iff)
    moreover have "well_tagged entry" using wt by (simp add: well_tagged_def entry)
    ultimately show ?thesis using add_memory_inv [OF inv _ _ small] by (simp add: entry)
  next
    case (Some old)
    define g1 where "g1 = fold (untag_memory lower ?i) (enum (set (mem_tags old) - set (mem_tags e))) g"
    define g2 where "g2 = fold (tag_memory lower now ?i) (enum (set (mem_tags e) - set (mem_tags old))) g1"
    have r: "fst (upsert_memory_in_graph lower emb enum now gen e g) =
        g2\<lparr>memories := adjust_at ?i (merge_entry emb gen entry) (memories g2)\<rparr>"
      using Some unfolding upsert_memory_in_graph_def g1_def g2_def entry_def [symmetric] Let_def entry by simp
    have old: "i' \<in> tagged g t \<longleftrightarrow> t \<in> tag_node ` set (mem_tags old)" if "i' = ?i" for t i'
      using inv Some that by (auto simp: graph_inv_def tags_listed_def get_memory_def)
    have en: "set (enum S) = S" "distinct (enum S)" if "finite S" for S
      using enum that by (auto simp: enumerates_def)
    have i: "?i \<in> stored g" using Some by (simp add: get_memory_def stored_iff)
    have g1: "graph_inv g1" "stored g1 = stored g" "tagged g1 t =
        (if t \<in> tag_node ` (set (mem_tags old) - set (mem_tags e)) then tagged g t - {?i} else tagged g t)" for t
      using untag_all [OF inv, of "enum (set (mem_tags old) - set (mem_tags e))" ?i lower] en old
      unfolding g1_def by auto
    have "?i \<in> stored g1" "memory_count g1 < 2 ^ 32" using i small by (simp_all add: memory_count_stored g1(2))
    from tag_all [OF g1(1) this, of lower now "enum (set (mem_tags e) - set (mem_tags old))"]
    have g2: "graph_inv g2" "stored g2 = stored g" "tagged g2 t =
        (if t \<in> tag_node ` (set (mem_tags e) - set (mem_tags old)) then insert ?i (tagged g1 t) else tagged g1 t)" for t
      unfolding g2_def using en g1(2) by auto
    have self: "?i \<in> tagged g2 t \<longleftrightarrow> t \<in> tag_node ` set (mem_tags e)" for t
      using old [OF refl, of t] by (auto simp: g2(3) g1(3))
    show ?thesis unfolding r
    proof (rule inv_set_memories)
      show "tags_listed (g2\<lparr>memories := adjust_at ?i (merge_entry emb gen entry) (memories g2)\<rparr>)"
        by (rule listed_adjust [of g2])
          (use g2(1) self wt in \<open>auto simp: graph_inv_def entry well_tagged_def\<close>)
    qed (use g2(1) in \<open>auto simp: graph_inv_def\<close>)
  qed
qed

section \<open>The life of a graph\<close>

text \<open>What the memory manager does with a graph, in any order. Ids of memories are not those of tag
  nodes, an entry is added once and lists a tag once, only a tag that is carried is taken away, and there
  are fewer than \<open>2^32\<close> memories. \<open>remove_edge\<close>, which no other code calls, is not a step: it loses the
  mirror of parallel edges (\<open>parallel_edge_dangles\<close> below).\<close>

inductive graph_step :: "(str \<Rightarrow> str) \<Rightarrow> MemoryGraph \<Rightarrow> MemoryGraph \<Rightarrow> bool" for lower where
  add: "mem_id e \<notin> stored g \<Longrightarrow> well_tagged e \<Longrightarrow> memory_count g + 1 < 2 ^ 32 \<Longrightarrow>
    graph_step lower g (fst (add_memory lower now e g))"
| upsert: "enumerates enum \<Longrightarrow> well_tagged e \<Longrightarrow> memory_count g + 1 < 2 ^ 32 \<Longrightarrow>
    graph_step lower g (fst (upsert_memory_in_graph lower emb enum now gen e g))"
| tag: "i \<in> stored g \<Longrightarrow> memory_count g < 2 ^ 32 \<Longrightarrow> graph_step lower g (tag_memory lower now i n g)"
| untag: "get_memory g i = Some e \<Longrightarrow> n \<in> set (mem_tags e) \<Longrightarrow> graph_step lower g (untag_memory lower i n g)"
| remove: "\<not> prefix ''tag:'' i \<Longrightarrow> graph_step lower g (fst (remove_memory i g))"
| link: "\<not> prefix ''tag:'' b \<Longrightarrow> graph_step lower g (link_memories a b w g)"
| replace: "\<not> prefix ''tag:'' older \<Longrightarrow> graph_step lower g (supersede newer older g)"
| contradict: "\<not> prefix ''tag:'' a \<Longrightarrow> \<not> prefix ''tag:'' b \<Longrightarrow> graph_step lower g (mark_contradiction a b g)"
| use: "(\<And>e. mem_id (f e) = mem_id e \<and> mem_tags (f e) = mem_tags e) \<Longrightarrow>
    graph_step lower g (g\<lparr>memories := adjust_at i f (memories g)\<rparr>)"
| normalize: "graph_step lower g (normalize_graph_search_text lower g)"
| retrieve: "graph_step lower g (fst (cascade_retrieve list_of decay ids scores d n g))"

definition initial_graph :: "MemoryGraph \<Rightarrow> bool" where
  "initial_graph g \<longleftrightarrow> g = new_memory_graph \<or>
     (\<exists>now s. g = from_legacy_store now s \<and> distinct (map mem_id (store_entries s))
        \<and> list_all well_tagged (store_entries s) \<and> length (store_entries s) < 2 ^ 32)"

lemma graph_step_inv:
  assumes "graph_step lower g g'" and "graph_inv g"
  shows "graph_inv g'"
  using assms
proof (induction rule: graph_step.induct)
  case (untag g i e n)
  then have "i \<in> tagged g (tag_node n)"
    by (auto simp: graph_inv_def tags_listed_def get_memory_def)
  with untag.prems show ?case by (rule untag_memory_inv(1))
next
  case (use f g i)
  then show ?case by (intro inv_same_tags) auto
qed (auto intro: add_memory_inv upsert_inv tag_memory_inv(1) remove_memory_inv link_inv supersede_inv
    contradiction_inv normalize_inv retrieve_inv)

interpretation memory: transition_system initial_graph "graph_step lower" graph_inv for lower
proof
  fix g assume "initial_graph g"
  then show "graph_inv g" using graph_inv_new from_legacy_inv by (auto simp: initial_graph_def)
qed (rule graph_step_inv)

section \<open>Properties\<close>

lemma by_tag_set:
  assumes "graph_inv g"
  shows "set (get_memories_by_tag g n) = {e. \<exists>i. get_memory g i = Some e \<and> n \<in> set (mem_tags e)}"
proof -
  have m: "a \<in> set (get_incoming g (tag_node n)) \<longleftrightarrow> a \<in> tagged g (tag_node n)" for a
  proof -
    have "a \<in> set (get_incoming g (tag_node n)) \<longleftrightarrow> tag_node n \<in> edge_target ` set (get_edges g a)"
      using assms by (simp add: graph_inv_def mirrored_def)
    also have "\<dots> \<longleftrightarrow> a \<in> tagged g (tag_node n)"
    proof -
      have "edge_kind e = HasTag" if "e \<in> set (get_edges g a)" "edge_target e = tag_node n" for e
        using assms that tag_node_prefix [of n] by (auto simp: graph_inv_def tags_counted_def simp del: tag_node_prefix)
      then show ?thesis by (metis (no_types, lifting) has_tag_edge_def image_iff tagged_iff)
    qed
    finally show ?thesis .
  qed
  have "a \<in> tagged g (tag_node n) \<longleftrightarrow> n \<in> set (mem_tags e)" if "fmlookup (memories g) a = Some e" for a e
    using assms that by (auto simp: graph_inv_def tags_listed_def)
  then show ?thesis
    by (auto simp: get_memories_by_tag_def List.map_filter_def m get_memory_def) (force simp: image_iff)
qed


text \<open>
  Supplement: forgetting a memory leaves no trace. In a graph reached by any operations, after removing a
  memory no edge starts or ends there, every other edge, incoming list and memory is as before, and
  each tag it carried counts one memory less.
\<close>

theorem remove_memory_leaves_no_trace:
  assumes "initial_graph g0" and "(graph_step lower)\<^sup>*\<^sup>* g0 g" and "get_memory g i = Some e"
  shows "get_edges (fst (remove_memory i g)) a =
      (if a = i then [] else filter (\<lambda>x. edge_target x \<noteq> i) (get_edges g a))
    \<and> get_incoming (fst (remove_memory i g)) b = (if b = i then [] else filter (\<lambda>s. s \<noteq> i) (get_incoming g b))
    \<and> memories (fst (remove_memory i g)) = fmdrop i (memories g) \<and> snd (remove_memory i g) = Some e
    \<and> map_option (unat \<circ> tag_count) (fmlookup (graph_tags (fst (remove_memory i g))) (tag_node n)) =
        map_option (\<lambda>t. unat (tag_count t) - (if n \<in> set (mem_tags e) then 1 else 0))
          (fmlookup (graph_tags g) (tag_node n))"
proof -
  have inv: "graph_inv g" by (rule memory.reachable_inv [OF assms(1,2)])
  then have g: "mirrored g" "tags_counted (stored g) g" "tags_listed g" by (auto simp: graph_inv_def)
  note v = remove_memory_view [OF g(1), of i]
  have once: "length (filter (has_tag_edge (tag_node n)) (get_edges g i)) \<le> Suc 0"
    using g(2) by (simp add: tags_counted_def)
  have "i \<in> tagged g (tag_node n) \<longleftrightarrow> n \<in> set (mem_tags e)"
    using g(3) assms(3) by (auto simp: tags_listed_def get_memory_def)
  then have len: "length (filter (has_tag_edge (tag_node n)) (get_edges g i)) = (if n \<in> set (mem_tags e) then 1 else 0)"
    using once_cases [OF once] by (simp add: tagged_def)
  have tags: "map_option (unat \<circ> tag_count) (fmlookup (graph_tags (fst (remove_memory i g))) (tag_node n)) =
        map_option (\<lambda>t. unat (tag_count t) - (if n \<in> set (mem_tags e) then 1 else 0))
          (fmlookup (graph_tags g) (tag_node n))"
    unfolding v(4) len by (cases "fmlookup (graph_tags g) (tag_node n)") (simp_all add: unat_sat_dec)
  have "snd (remove_memory i g) = Some e" using assms(3) by (simp add: remove_memory_def Let_def get_memory_def)
  with tags v(1) [of a] v(2) [of b] v(3) show ?thesis by (intro conjI)
qed


section \<open>Retrieval\<close>

text \<open>One hop of the traversal: along an edge to a memory, or through a tag to a memory that has it.\<close>

definition hop :: "MemoryGraph \<Rightarrow> str \<Rightarrow> str \<Rightarrow> bool" where
  "hop g a b \<longleftrightarrow> b \<in> stored g \<and>
     (\<exists>e \<in> set (get_edges g a).
        if prefix ''tag:'' (edge_target e) then b \<in> set (get_incoming g (edge_target e)) else b = edge_target e)"

definition reach_in :: "MemoryGraph \<Rightarrow> str set \<Rightarrow> nat \<Rightarrow> str \<Rightarrow> bool" where
  "reach_in g seeds n b \<longleftrightarrow> (\<exists>a \<in> seeds \<inter> stored g. (hop g ^^ n) a b)"

lemma reach_hop: "reach_in g S n a \<Longrightarrow> hop g a b \<Longrightarrow> reach_in g S (Suc n) b"
  by (auto simp: reach_in_def)

text \<open>What holds of results and queue throughout.\<close>

definition spread_ok :: "MemoryGraph \<Rightarrow> str set \<Rightarrow> nat \<Rightarrow> str set \<Rightarrow> spread_state \<Rightarrow> bool" where
  "spread_ok g S m base st \<longleftrightarrow>
     (\<forall>(x, s, d) \<in> set (snd st). reach_in g S d x \<and> d \<le> m)
     \<and> (\<forall>x s. fmlookup (fst st) x = Some s \<longrightarrow> \<not> is_nan s \<and> x \<in> stored g \<and> (\<exists>d \<le> m. reach_in g S d x))
     \<and> base \<subseteq> fset (fmdom (fst st))"

lemma spread_offer:
  assumes "spread_ok g S m base st" and "reach_in g S (Suc d) x" and "Suc d \<le> m" and "x \<in> stored g"
  shows "spread_ok g S m base (offer_score x s d st)"
proof -
  let ?e = "case fmlookup (fst st) x of Some s \<Rightarrow> s | None \<Rightarrow> zero32"
  show ?thesis
  proof (cases "f32_gt s ?e")
    case True
    then have "offer_score x s d st = (fmupd x s (fst st), snd st @ [(x, s, Suc d)])" "\<not> is_nan s"
      by (simp_all add: offer_score_def f32_gt_def)
    with assms show ?thesis unfolding spread_ok_def by auto
  next
    case False
    then show ?thesis using assms(1) by (simp add: offer_score_def)
  qed
qed

lemma fold_rule: "P st \<Longrightarrow> (\<And>x st. x \<in> set xs \<Longrightarrow> P st \<Longrightarrow> P (f x st)) \<Longrightarrow> P (fold f xs st)"
  by (induction xs arbitrary: st) auto

lemma spread_edge_ok:
  assumes "spread_ok g S m base st" and w: "reach_in g S d a" and d: "Suc d \<le> m" and e: "e \<in> set (get_edges g a)"
  shows "spread_ok g S m base (spread_edge decay g V s d e st)"
proof -
  let ?n = "f32_mul (f32_mul s (traversal_weight (edge_kind e))) (decay (Suc d))"
  have src: "spread_ok g S m base (fold (offer_source g V ?n d) (get_incoming g (edge_target e)) st)"
    if "prefix ''tag:'' (edge_target e)"
  proof (rule fold_rule [where P = "spread_ok g S m base", OF assms(1)])
    fix x st assume x: "x \<in> set (get_incoming g (edge_target e))" and ok: "spread_ok g S m base st"
    show "spread_ok g S m base (offer_source g V ?n d x st)"
    proof (cases "x \<notin> V \<and> fmlookup (memories g) x \<noteq> None")
      case True
      then have "hop g a x" using x e that by (auto simp: hop_def stored_iff)
      from spread_offer [OF ok reach_hop [OF w this] d] True show ?thesis
        by (simp add: offer_source_def stored_iff)
    qed (use ok in \<open>auto simp: offer_source_def\<close>)
  qed
  have dir: "spread_ok g S m base (offer_score (edge_target e) ?n d st)"
    if "\<not> prefix ''tag:'' (edge_target e)" "fmlookup (memories g) (edge_target e) \<noteq> None"
  proof -
    have "hop g a (edge_target e)" using e that by (auto simp: hop_def stored_iff)
    from spread_offer [OF assms(1) reach_hop [OF w this] d] that(2) show ?thesis by (simp add: stored_iff)
  qed
  show ?thesis using assms(1) src dir unfolding spread_edge_def Let_def by auto
qed

lemma cascade_loop_ok:
  assumes "spread_ok g S m base (results, queue)"
  shows "spread_ok g S m base (cascade_loop decay g m visited results queue, [])"
  using assms
proof (induction decay g m visited results queue rule: cascade_loop.induct)
  case (2 decay g m visited results node score depth queue)
  have q: "spread_ok g S m base (results, queue)" and w: "reach_in g S depth node"
    using 2(4) by (auto simp: spread_ok_def)
  let ?st = "fold (spread_edge decay g (insert node visited) score depth) (get_edges g node) (results, queue)"
  consider "node \<in> visited" | "node \<notin> visited" "m \<le> depth" | "node \<notin> visited" "\<not> m \<le> depth" by blast
  then show ?case
  proof cases
    case 1 with 2(1) q show ?thesis by simp
  next
    case 2 with \<open>node \<notin> visited\<close> "2.IH"(2) q show ?thesis by simp
  next
    case 3
    have "spread_ok g S m base ?st"
      by (rule fold_rule [where P = "spread_ok g S m base", OF q]) (use 3 w in \<open>auto intro: spread_edge_ok\<close>)
    with 3 "2.IH"(3) [OF 3 refl] show ?thesis by (simp add: Let_def)
  qed
qed simp

lemma seed_ok:
  assumes "spread_ok g S m B st" and "fst ` set zs \<subseteq> S" and "list_all (\<lambda>(_, s). \<not> is_nan s) zs"
  shows "spread_ok g S m (B \<union> fst ` set zs \<inter> stored g) (fold (seed_result g) zs st)"
  using assms
proof (induction zs arbitrary: st B)
  case (Cons z zs)
  have "spread_ok g S m (B \<union> {fst z} \<inter> stored g) (seed_result g z st)"
  proof (cases "fst z \<in> stored g")
    case True
    then have "reach_in g S 0 (fst z)" using Cons.prems(2) by (auto simp: reach_in_def)
    moreover have "seed_result g z st = (fmupd (fst z) (snd z) (fst st), snd st @ [(fst z, snd z, 0)])"
      using True by (simp add: seed_result_def stored_iff)
    ultimately show ?thesis using Cons.prems(1,3) True
      unfolding spread_ok_def by (auto split: if_splits)
  next
    case False
    then show ?thesis using Cons.prems(1) by (simp add: seed_result_def stored_iff)
  qed
  from Cons.IH [OF this] Cons.prems(2,3)
  have "spread_ok g S m (B \<union> {fst z} \<inter> stored g \<union> fst ` set zs \<inter> stored g) (fold (seed_result g) (z # zs) st)" by simp
  moreover have "B \<union> {fst z} \<inter> stored g \<union> fst ` set zs \<inter> stored g = B \<union> fst ` set (z # zs) \<inter> stored g" by auto
  ultimately show ?case by (simp only:)
qed simp

lemma cascade_results_ok:
  assumes "list_all (\<lambda>s. \<not> is_nan s) scores"
  shows "spread_ok g (set ids) m (fst ` set (zip ids scores) \<inter> stored g) (cascade_results decay ids scores m g, [])"
proof -
  have "list_all (\<lambda>(_, s). \<not> is_nan s) (zip ids scores)"
    using assms by (auto simp: list_all_iff dest: set_zip_rightD)
  moreover have "fst ` set (zip ids scores) \<subseteq> set ids" by (auto dest: set_zip_leftD)
  ultimately have "spread_ok g (set ids) m ({} \<union> fst ` set (zip ids scores) \<inter> stored g)
      (fold (seed_result g) (zip ids scores) (fmempty, []))"
    by (intro seed_ok) (auto simp: spread_ok_def)
  then show ?thesis unfolding cascade_results_def Let_def
    by (intro cascade_loop_ok) simp
qed

definition lists_map :: "((str, f32) fmap \<Rightarrow> (str \<times> f32) list) \<Rightarrow> bool" where
  "lists_map list_of \<longleftrightarrow> (\<forall>m. distinct (map fst (list_of m)) \<and> set (list_of m) = {(k, v). fmlookup m k = Some v})"

lemma reach_metadata [simp]: "reach_in (g\<lparr>graph_metadata := md\<rparr>) = reach_in g"
proof -
  have "hop (g\<lparr>graph_metadata := md\<rparr>) = hop g" by (simp add: hop_def fun_eq_iff)
  then show ?thesis by (intro ext) (simp add: reach_in_def)
qed

text \<open>
  C27: retrieval returns and is sound. For seed scores that are numbers and any iteration order of the
  result map, the traversal ends with at most \<open>n\<close> distinct stored memories in descending score, each
  reached from a stored seed in at most \<open>d\<close> hops along edges or through shared tags; unless the limit
  cuts the list, every stored seed is among them.
\<close>

theorem cascade_retrieve_sound:
  assumes order: "lists_map list_of" and num: "list_all (\<lambda>s. \<not> is_nan s) scores"
  shows "length (snd (cascade_retrieve list_of decay ids scores d n g)) \<le> n
    \<and> distinct (map fst (snd (cascade_retrieve list_of decay ids scores d n g)))
    \<and> sorted_wrt (\<lambda>a b. snd b \<le> snd a) (snd (cascade_retrieve list_of decay ids scores d n g))
    \<and> (\<forall>(x, s) \<in> set (snd (cascade_retrieve list_of decay ids scores d n g)).
         get_memory g x \<noteq> None \<and> (\<exists>k \<le> d. reach_in g (set ids) k x))
    \<and> (length (snd (cascade_retrieve list_of decay ids scores d n g)) < n \<longrightarrow>
         (\<forall>(x, s) \<in> set (zip ids scores). get_memory g x \<noteq> None \<longrightarrow>
            x \<in> fst ` set (snd (cascade_retrieve list_of decay ids scores d n g))))"
proof -
  define g1 where "g1 = g\<lparr>graph_metadata := (graph_metadata g)\<lparr>retrieval_count := retrieval_count (graph_metadata g) + 1\<rparr>\<rparr>"
  define res where "res = cascade_results decay ids scores d g1"
  define out where "out = top_k_by_score (list_of res) n"
  have o: "snd (cascade_retrieve list_of decay ids scores d n g) = out"
    by (simp add: cascade_retrieve_def out_def res_def g1_def Let_def)
  have same: "stored g1 = stored g" "reach_in g1 = reach_in g" by (simp_all add: g1_def)
  have ok: "spread_ok g1 (set ids) d (fst ` set (zip ids scores) \<inter> stored g1) (res, [])"
    unfolding res_def by (rule cascade_results_ok [OF num])
  have items: "distinct (map fst (list_of res))" "set (list_of res) = {(k, v). fmlookup res k = Some v}"
    using order by (auto simp: lists_map_def)
  have "list_all (\<lambda>(_, k). \<not> is_nan k) (list_of res)"
    using ok items(2) by (auto simp: list_all_iff spread_ok_def)
  from score.top_k_selects [OF this, of n, folded top_k_by_score_def out_def]
  obtain rest where len: "length out = min n (length (list_of res))"
    and srt: "sorted_wrt (\<lambda>a b. snd b \<le> snd a) out" and ms: "mset (list_of res) = mset out + rest" by blast
  have "set out \<subseteq> set (list_of res)" using ms by (metis mset_subset_eq_add_left set_mset_mono set_mset_mset)
  then have sound: "\<forall>(x, s) \<in> set out. get_memory g x \<noteq> None \<and> (\<exists>k \<le> d. reach_in g (set ids) k x)"
    using ok unfolding items(2) spread_ok_def same by (fastforce simp: get_memory_def stored_iff)
  have "mset (map fst (list_of res)) = mset (map fst out) + image_mset fst rest" using ms by simp
  then have dis: "distinct (map fst out)" using items(1)
    by (metis distinct_append ex_mset mset_append mset_eq_imp_distinct_iff)
  have full: "x \<in> fst ` set out" if "length out < n" "(x, s) \<in> set (zip ids scores)" "get_memory g x \<noteq> None" for x s
  proof -
    from that(1) len have "length out = length (list_of res)" by simp
    with arg_cong [OF ms, of size] have "rest = {#}" by simp
    then have "set out = set (list_of res)" using ms by (metis add.right_neutral set_mset_mset)
    moreover have "x \<in> fset (fmdom res)" using ok that(2,3)
      by (force simp: spread_ok_def same get_memory_def stored_iff)
    ultimately show ?thesis unfolding items(2) by (force simp: fmlookup_dom_iff image_iff)
  qed
  show ?thesis unfolding o using len srt sound dis full by auto
qed


section \<open>Instances\<close>

definition demo_memory :: MemoryEntry where
  "demo_memory = (new_entry to_ascii_lowercase 0 ''m1'' Fact ''uses tabs'')\<lparr>mem_tags := [''style'']\<rparr>"

definition demo_memories :: MemoryGraph where
  "demo_memories = fst (add_memory to_ascii_lowercase 0 demo_memory new_memory_graph)"

lemma demo_memories_reached:
  "initial_graph new_memory_graph" "(graph_step to_ascii_lowercase)\<^sup>*\<^sup>* new_memory_graph demo_memories"
proof -
  have "graph_step to_ascii_lowercase new_memory_graph demo_memories"
    unfolding demo_memories_def
    by (rule graph_step.add) (simp_all add: new_memory_graph_def demo_memory_def new_entry_def well_tagged_def
        memory_count_def stored_iff fcard_fempty)
  then show "(graph_step to_ascii_lowercase)\<^sup>*\<^sup>* new_memory_graph demo_memories" by simp
qed (simp add: initial_graph_def)

lemma demo_memories_view:
  "get_memory demo_memories i = (if i = ''m1'' then Some (refresh_search_text to_ascii_lowercase demo_memory) else None)"
  "get_edges demo_memories ''m1'' = [\<lparr>edge_target = tag_node ''style'', edge_kind = HasTag\<rparr>]"
  "map_option tag_count (fmlookup (graph_tags demo_memories) (tag_node ''style'')) = Some 1"
  by (simp_all add: demo_memories_def add_memory_def Let_def get_memory_def demo_memory_def new_entry_def
      new_memory_graph_def get_edges_def vec_at_def refresh_search_text_def attach_tag_def ensure_tag_def count_tag_def
      add_edge_internal_def push_at_def new_tag_def)


theorem remove_memory_leaves_no_trace_witness:
  "get_edges (fst (remove_memory ''m1'' demo_memories)) ''m1'' = []
    \<and> map_option (unat \<circ> tag_count)
        (fmlookup (graph_tags (fst (remove_memory ''m1'' demo_memories))) (tag_node ''style'')) = Some 0"
proof -
  have "get_memory demo_memories ''m1'' = Some (refresh_search_text to_ascii_lowercase demo_memory)"
    by (simp add: demo_memories_view)
  note r = remove_memory_leaves_no_trace [OF demo_memories_reached this, of "''m1''" undefined "''style''"]
  from demo_memories_view(3) obtain t where
    t: "fmlookup (graph_tags demo_memories) (tag_node ''style'') = Some t" "tag_count t = 1" by auto
  have "''style'' \<in> set (mem_tags demo_memory)" by (simp add: demo_memory_def)
  with r t show ?thesis by simp
qed

definition sorted_entries :: "(str, f32) fmap \<Rightarrow> (str \<times> f32) list" where
  "sorted_entries m = map (\<lambda>k. (k, the (fmlookup m k))) (sorted_list_of_set (fset (fmdom m)))"

lemma sorted_entries_lists: "lists_map sorted_entries"
  by (auto simp: lists_map_def sorted_entries_def o_def fmlookup_dom_iff image_iff)

theorem cascade_retrieve_sound_witness:
  "length (snd (cascade_retrieve sorted_entries (\<lambda>_. one32) [''m1''] [one32] 2 5 demo_memories)) \<le> 5
    \<and> list_all (\<lambda>(x, s). get_memory demo_memories x \<noteq> None \<and> (\<exists>k. k \<le> 2 \<and> reach_in demo_memories {''m1''} k x))
         (snd (cascade_retrieve sorted_entries (\<lambda>_. one32) [''m1''] [one32] 2 5 demo_memories))"
proof -
  have "list_all (\<lambda>s. \<not> is_nan s) [one32]" by simp
  from cascade_retrieve_sound [OF sorted_entries_lists this, of "\<lambda>_. one32" "[''m1'']" 2 5 demo_memories]
  show ?thesis by (elim conjE) (simp add: list_all_iff del: not_None_eq)
qed

text \<open>Removing one of two parallel edges loses the mirror of the other, and with it the memory's
  removal leaves a dangling edge.\<close>

lemma parallel_edge_dangles:
  "get_edges (fst (remove_memory ''b'' (remove_edge ''a'' ''b'' Contradicts
      (add_edge ''a'' ''b'' Contradicts (add_edge ''a'' ''b'' Supersedes new_memory_graph))))) ''a''
    = [\<lparr>edge_target = ''b'', edge_kind = Supersedes\<rparr>]"
  by (simp add: remove_memory_def remove_edge_def add_edge_def add_edge_internal_def new_memory_graph_def Let_def
      get_edges_def get_incoming_def vec_at_def push_at_def adjust_at_def)

end
