(* ===== verification/Interrupt.thy ===== *)
theory Interrupt
  imports Prelude "HOL-Library.Word"
begin

text \<open>
  The interrupt signal of \<^verbatim>\<open>src/crates/jcode-agent-runtime/src/lib.rs\<close>, by which a cancel reaches a running
  agent: an atomic flag, an atomic count of fires and a set of parked waiters. Calls run concurrently;
  one step of a call is one atomic operation of the source. \<open>Notify\<close> of the tokio library is an argument,
  with what its documentation promises as \<open>notify_contract\<close>.
\<close>

section \<open>The signal\<close>

record 'n Notify =
  notify_new :: 'n
  enable :: "nat \<Rightarrow> 'n \<Rightarrow> 'n"
  notify_waiters :: "'n \<Rightarrow> 'n"
  registered :: "'n \<Rightarrow> nat \<Rightarrow> bool"
  woken :: "'n \<Rightarrow> nat \<Rightarrow> bool"

text \<open>A waiter is registered from \<open>enable\<close> on; \<open>notify_waiters\<close> wakes every registered waiter, and what
  is woken stays woken.\<close>

definition notify_contract :: "'n Notify \<Rightarrow> bool" where
  "notify_contract N \<longleftrightarrow>
     (\<forall>n i. registered N (enable N i n) i)
     \<and> (\<forall>n i j. registered N n i \<longrightarrow> registered N (enable N j n) i \<and> registered N (notify_waiters N n) i)
     \<and> (\<forall>n i. registered N n i \<longrightarrow> woken N (notify_waiters N n) i)
     \<and> (\<forall>n i j. woken N n i \<longrightarrow> woken N (enable N j n) i \<and> woken N (notify_waiters N n) i)"

record 'n InterruptSignal =
  flag :: bool
  epoch :: "64 word"
  notify :: 'n

definition new_signal :: "'n Notify \<Rightarrow> 'n InterruptSignal" where
  "new_signal N = \<lparr>flag = False, epoch = 0, notify = notify_new N\<rparr>"

definition is_set :: "'n InterruptSignal \<Rightarrow> bool" where
  "is_set s = flag s"

definition fire :: "'n Notify \<Rightarrow> 'n InterruptSignal \<Rightarrow> 'n InterruptSignal" where
  "fire N s =
     (let s1 = s\<lparr>epoch := epoch s + 1\<rparr>; s2 = s1\<lparr>flag := True\<rparr> in s2\<lparr>notify := notify_waiters N (notify s2)\<rparr>)"

definition reset :: "'n InterruptSignal \<Rightarrow> 'n InterruptSignal" where
  "reset s = s\<lparr>flag := False\<rparr>"

definition reset_if_epoch :: "'n Notify \<Rightarrow> 64 word \<Rightarrow> 'n InterruptSignal \<Rightarrow> bool \<times> 'n InterruptSignal" where
  "reset_if_epoch N e s =
     (if epoch s \<noteq> e then (False, s)
      else let s1 = s\<lparr>flag := False\<rparr> in
        if epoch s1 \<noteq> e
        then let s2 = s1\<lparr>flag := True\<rparr> in (False, s2\<lparr>notify := notify_waiters N (notify s2)\<rparr>)
        else (True, s1))"

section \<open>Calls in progress\<close>

text \<open>What a call does next: \<open>fire\<close> has three atomic operations, \<open>reset\<close> one, \<open>reset_if_epoch\<close> up to
  five, \<open>notified\<close> registers, looks at the flag and parks.\<close>

datatype call =
    FireCount | FireStore | FireNotify
  | ResetStore
  | CondLoad "64 word" | CondClear "64 word" | CondReload "64 word" | CondRestore | CondNotify
  | WaitEnable | WaitCheck | WaitParked
  | Returned bool

fun advance :: "'n Notify \<Rightarrow> nat \<Rightarrow> call \<Rightarrow> 'n InterruptSignal \<Rightarrow> call \<times> 'n InterruptSignal" where
  "advance N i FireCount s = (FireStore, s\<lparr>epoch := epoch s + 1\<rparr>)"
| "advance N i FireStore s = (FireNotify, s\<lparr>flag := True\<rparr>)"
| "advance N i FireNotify s = (Returned True, s\<lparr>notify := notify_waiters N (notify s)\<rparr>)"
| "advance N i ResetStore s = (Returned True, s\<lparr>flag := False\<rparr>)"
| "advance N i (CondLoad e) s = (if epoch s \<noteq> e then Returned False else CondClear e, s)"
| "advance N i (CondClear e) s = (CondReload e, s\<lparr>flag := False\<rparr>)"
| "advance N i (CondReload e) s = (if epoch s \<noteq> e then CondRestore else Returned True, s)"
| "advance N i CondRestore s = (CondNotify, s\<lparr>flag := True\<rparr>)"
| "advance N i CondNotify s = (Returned False, s\<lparr>notify := notify_waiters N (notify s)\<rparr>)"
| "advance N i WaitEnable s = (WaitCheck, s\<lparr>notify := enable N i (notify s)\<rparr>)"
| "advance N i WaitCheck s = (if is_set s then Returned True else WaitParked, s)"
| "advance N i WaitParked s = (if woken N (notify s) i then Returned True else WaitParked, s)"
| "advance N i (Returned b) s = (Returned b, s)"

text \<open>A call that runs alone.\<close>

fun run_call :: "'n Notify \<Rightarrow> nat \<Rightarrow> nat \<Rightarrow> call \<times> 'n InterruptSignal \<Rightarrow> call \<times> 'n InterruptSignal" where
  "run_call N i 0 ks = ks"
| "run_call N i (Suc n) ks = run_call N i n (advance N i (fst ks) (snd ks))"

lemma calls_alone:
  "run_call N i 3 (FireCount, s) = (Returned True, fire N s)"
  "run_call N i 1 (ResetStore, s) = (Returned True, reset s)"
  "run_call N i 5 (CondLoad e, s) = (Returned (fst (reset_if_epoch N e s)), snd (reset_if_epoch N e s))"
  by (simp_all add: fire_def reset_def reset_if_epoch_def numeral_eq_Suc)

section \<open>Any interleaving\<close>

text \<open>\<open>fires\<close> and \<open>cleared\<close> record what happened: how many fires were counted, and how many there had
  been when the flag was last cleared by a call that returned true (for \<open>reset_if_epoch\<close>: when the epoch
  it was given was read).\<close>

record 'n world =
  signal :: "'n InterruptSignal"
  calls :: "nat \<rightharpoonup> call"
  captured :: "nat \<Rightarrow> nat"
  fires :: nat
  cleared :: "nat option"

definition run_step :: "'n Notify \<Rightarrow> nat \<Rightarrow> call \<Rightarrow> 'n world \<Rightarrow> 'n world" where
  "run_step N i k w =
     (let (k', s') = advance N i k (signal w) in
      w\<lparr>signal := s', calls := (calls w)(i \<mapsto> k'),
        fires := (if k = FireCount then fires w + 1 else fires w),
        cleared := (if k' \<noteq> Returned True then cleared w
                    else case k of ResetStore \<Rightarrow> Some (fires w) | CondReload _ \<Rightarrow> Some (captured w i) | _ \<Rightarrow> cleared w)\<rparr>)"

inductive signal_step :: "'n Notify \<Rightarrow> 'n world \<Rightarrow> 'n world \<Rightarrow> bool" for N where
  start: "calls w i = None \<Longrightarrow> k \<in> {FireCount, ResetStore, WaitEnable} \<Longrightarrow>
    signal_step N w (w\<lparr>calls := (calls w)(i \<mapsto> k)\<rparr>)"
| start_conditional: "calls w i = None \<Longrightarrow> c \<le> fires w \<Longrightarrow>
    signal_step N w (w\<lparr>calls := (calls w)(i \<mapsto> CondLoad (of_nat c)), captured := (captured w)(i := c)\<rparr>)"
| run: "calls w i = Some k \<Longrightarrow> (k = FireCount \<Longrightarrow> fires w + 1 < 2 ^ 64) \<Longrightarrow>
    signal_step N w (run_step N i k w)"

definition initial_world :: "'n Notify \<Rightarrow> 'n world \<Rightarrow> bool" where
  "initial_world N w \<longleftrightarrow> signal w = new_signal N \<and> calls w = Map.empty \<and> captured w = (\<lambda>_. 0)
     \<and> fires w = 0 \<and> cleared w = None"

section \<open>Invariants\<close>

text \<open>A clear flag is accounted for: nothing was fired, or the last fire was cleared, or a call is
  about to set the flag or to check whether it has to.\<close>

definition will_settle :: "call \<Rightarrow> bool" where
  "will_settle k \<longleftrightarrow> k = FireStore \<or> k = CondRestore \<or> (\<exists>e. k = CondReload e)"

definition in_progress :: "'n world \<Rightarrow> (call \<Rightarrow> bool) \<Rightarrow> bool" where
  "in_progress w P \<longleftrightarrow> (\<exists>i k. calls w i = Some k \<and> P k)"

definition epochs_ok :: "'n world \<Rightarrow> bool" where
  "epochs_ok w \<longleftrightarrow> fires w < 2 ^ 64 \<and> epoch (signal w) = of_nat (fires w)
     \<and> (\<forall>i. captured w i \<le> fires w)
     \<and> (\<forall>i e. calls w i \<in> Some ` {CondLoad e, CondClear e, CondReload e} \<longrightarrow> e = of_nat (captured w i))"

definition clear_accounted :: "'n world \<Rightarrow> bool" where
  "clear_accounted w \<longleftrightarrow> is_set (signal w) \<or> fires w = 0 \<or> cleared w = Some (fires w) \<or> in_progress w will_settle"

definition waiters_reached :: "'n Notify \<Rightarrow> 'n world \<Rightarrow> bool" where
  "waiters_reached N w \<longleftrightarrow>
     (\<forall>i. calls w i \<in> Some ` {WaitCheck, WaitParked} \<longrightarrow> registered N (notify (signal w)) i)
     \<and> (\<forall>i. calls w i = Some WaitParked \<and> is_set (signal w) \<and> \<not> woken N (notify (signal w)) i \<longrightarrow>
          in_progress w (\<lambda>k. k = FireNotify \<or> k = CondNotify))"

definition signal_inv :: "'n Notify \<Rightarrow> 'n world \<Rightarrow> bool" where
  "signal_inv N w \<longleftrightarrow> epochs_ok w \<and> clear_accounted w \<and> (notify_contract N \<longrightarrow> waiters_reached N w)"

lemma word_epoch: "a < 2 ^ 64 \<Longrightarrow> b < 2 ^ 64 \<Longrightarrow> (of_nat a :: 64 word) = of_nat b \<longleftrightarrow> a = b"
  by (auto dest: arg_cong [of "of_nat a :: 64 word" _ unat] simp: unat_of_nat)

lemma run_step_view [simp]:
  "signal (run_step N i k w) = snd (advance N i k (signal w))"
  "calls (run_step N i k w) = (calls w)(i \<mapsto> fst (advance N i k (signal w)))"
  "captured (run_step N i k w) = captured w"
  "fires (run_step N i k w) = (if k = FireCount then fires w + 1 else fires w)"
  by (simp_all add: run_step_def split_beta Let_def)

lemma progress_now: "P (fst (advance N i k (signal w))) \<Longrightarrow> in_progress (run_step N i k w) P"
  by (auto simp: in_progress_def)

lemma progress_kept:
  assumes "in_progress w P" and "calls w i = Some k" and "\<not> P k"
  shows "in_progress (run_step N i k w) P"
  using assms by (auto simp: in_progress_def) (metis option.inject)

lemma epochs_run:
  assumes "epochs_ok w" and "calls w i = Some k" and "k = FireCount \<Longrightarrow> fires w + 1 < 2 ^ 64"
  shows "epochs_ok (run_step N i k w)"
  using assms by (cases k) (auto simp: epochs_ok_def run_step_def le_SucI split: if_splits)

lemma clear_run:
  assumes ok: "epochs_ok w" and acc: "clear_accounted w" and k: "calls w i = Some k"
  shows "clear_accounted (run_step N i k w)"
proof -
  have kept: "in_progress w will_settle \<Longrightarrow> \<not> will_settle k \<Longrightarrow> in_progress (run_step N i k w) will_settle"
    by (rule progress_kept [OF _ k])
  have now: "will_settle (fst (advance N i k (signal w))) \<Longrightarrow> in_progress (run_step N i k w) will_settle"
    by (rule progress_now)
  show ?thesis
  proof (cases k)
    case (CondReload e)
    then have "e = of_nat (captured w i)" using ok k by (auto simp: epochs_ok_def)
    moreover have "captured w i < 2 ^ 64" "fires w < 2 ^ 64"
      using ok by (auto simp: epochs_ok_def intro: le_less_trans [of _ "fires w"])
    ultimately have "epoch (signal w) = e \<Longrightarrow> captured w i = fires w"
      using ok by (simp add: epochs_ok_def word_epoch)
    with CondReload now show ?thesis
      by (auto simp: clear_accounted_def will_settle_def run_step_def)
  next
    case ResetStore
    then show ?thesis by (simp add: clear_accounted_def run_step_def)
  qed (use acc kept now in \<open>auto simp: clear_accounted_def will_settle_def is_set_def run_step_def Let_def split_beta\<close>)
qed

lemma waiters_run:
  assumes "notify_contract N" and "waiters_reached N w" and "calls w i = Some k"
  shows "waiters_reached N (run_step N i k w)"
proof -
  have reg: "registered N (enable N i n) i" "registered N n j \<Longrightarrow> registered N (enable N i n) j"
    "registered N n j \<Longrightarrow> registered N (notify_waiters N n) j" "registered N n j \<Longrightarrow> woken N (notify_waiters N n) j"
    "woken N n j \<Longrightarrow> woken N (enable N i n) j" for n j
    using assms(1) by (auto simp: notify_contract_def)
  have kept: "in_progress (run_step N i k w) P" if "in_progress w P" "\<not> P k" for P
    by (rule progress_kept [OF that(1) assms(3) that(2)])
  have now: "in_progress (run_step N i k w) P" if "P (fst (advance N i k (signal w)))" for P
    using that by (rule progress_now)
  have r: "registered N (notify (signal w)) j" if "calls w j \<in> Some ` {WaitCheck, WaitParked}" for j
    using assms(2) that by (auto simp: waiters_reached_def)
  have p: "in_progress w (\<lambda>k. k = FireNotify \<or> k = CondNotify)"
    if "calls w j = Some WaitParked" "is_set (signal w)" "\<not> woken N (notify (signal w)) j" for j
    using assms(2) that by (auto simp: waiters_reached_def)
  show ?thesis unfolding waiters_reached_def
  proof (intro conjI allI impI)
    fix j assume "calls (run_step N i k w) j \<in> Some ` {WaitCheck, WaitParked}"
    then show "registered N (notify (signal (run_step N i k w))) j"
      using r [of j] r [of i] reg assms(3) by (cases k) (auto split: if_splits)
  next
    fix j assume "calls (run_step N i k w) j = Some WaitParked \<and> is_set (signal (run_step N i k w))
      \<and> \<not> woken N (notify (signal (run_step N i k w))) j"
    then show "in_progress (run_step N i k w) (\<lambda>k. k = FireNotify \<or> k = CondNotify)"
      using p [of j] kept [of "\<lambda>k. k = FireNotify \<or> k = CondNotify"] now [of "\<lambda>k. k = FireNotify \<or> k = CondNotify"]
        r [of j] reg(4,5) [of "notify (signal w)" j] assms(3)
      by (cases k) (auto simp: is_set_def split: if_splits)
  qed
qed

lemma new_call:
  assumes "calls w i = None" and "calls w' = (calls w)(i \<mapsto> k)" and "signal w' = signal w"
  shows "in_progress w P \<Longrightarrow> in_progress w' P"
    and "fires w' = fires w \<Longrightarrow> cleared w' = cleared w \<Longrightarrow> clear_accounted w \<Longrightarrow> clear_accounted w'"
    and "k \<notin> {WaitCheck, WaitParked} \<Longrightarrow> waiters_reached N w \<Longrightarrow> waiters_reached N w'"
proof -
  show kept: "in_progress w P \<Longrightarrow> in_progress w' P" for P
    using assms(1,2) by (auto simp: in_progress_def) (metis option.distinct(1))
  show "fires w' = fires w \<Longrightarrow> cleared w' = cleared w \<Longrightarrow> clear_accounted w \<Longrightarrow> clear_accounted w'"
    using kept [of will_settle] assms(3) by (auto simp: clear_accounted_def)
  assume k: "k \<notin> {WaitCheck, WaitParked}" and w: "waiters_reached N w"
  have "calls w j = c" if "calls w' j = c" "c \<in> Some ` {WaitCheck, WaitParked}" for j c
    using that k assms(2) by (auto split: if_splits)
  with w kept show "waiters_reached N w'" unfolding waiters_reached_def assms(3) by blast
qed

interpretation sig: transition_system "initial_world N" "signal_step N" "signal_inv N" for N
proof
  fix w assume "initial_world N w"
  then show "signal_inv N w"
    by (auto simp: initial_world_def signal_inv_def epochs_ok_def clear_accounted_def waiters_reached_def new_signal_def)
next
  fix w w' assume "signal_inv N w" and "signal_step N w w'"
  from this(2,1) show "signal_inv N w'"
  proof (induction rule: signal_step.induct)
    case (start w i k)
    note new = new_call [OF start(1), of "w\<lparr>calls := (calls w)(i \<mapsto> k)\<rparr>" k]
    have "epochs_ok (w\<lparr>calls := (calls w)(i \<mapsto> k)\<rparr>)" using start by (auto simp: signal_inv_def epochs_ok_def)
    with start new show ?case by (auto simp: signal_inv_def)
  next
    case (start_conditional w i c)
    let ?w = "w\<lparr>calls := (calls w)(i \<mapsto> CondLoad (of_nat c)), captured := (captured w)(i := c)\<rparr>"
    note new = new_call [OF start_conditional(1), of ?w "CondLoad (of_nat c)"]
    have "epochs_ok ?w" using start_conditional by (auto simp: signal_inv_def epochs_ok_def)
    with start_conditional new show ?case by (simp add: signal_inv_def)
  next
    case (run w i k)
    then show ?case by (auto simp: signal_inv_def intro: epochs_run clear_run waiters_run)
  qed
qed

text \<open>No call is under way except waiters that are parked.\<close>

definition at_rest :: "'n world \<Rightarrow> bool" where
  "at_rest w \<longleftrightarrow> (\<forall>i k. calls w i = Some k \<longrightarrow> k = WaitParked \<or> (\<exists>b. k = Returned b))"

lemma at_rest_idle: "at_rest w \<Longrightarrow> \<not> in_progress w will_settle"
  "at_rest w \<Longrightarrow> \<not> in_progress w (\<lambda>k. k = FireNotify \<or> k = CondNotify)"
  by (fastforce simp: at_rest_def in_progress_def will_settle_def)+

text \<open>
  C29: a cancel is never erased. Whatever calls of \<open>fire\<close>, \<open>reset\<close>, \<open>reset_if_epoch\<close> and \<open>notified\<close>
  interleave, once none is under way the signal is set, or nothing was ever fired, or the last clearing
  that stood came after the last fire; and a conditional reset whose epoch was read before the latest
  fire finds out and restores the signal instead of returning true.
\<close>

theorem cancel_never_erased:
  assumes "initial_world N w0" and "(signal_step N)\<^sup>*\<^sup>* w0 w"
  shows "(at_rest w \<longrightarrow> is_set (signal w) \<or> fires w = 0 \<or> cleared w = Some (fires w))
    \<and> (calls w i = Some (CondReload e) \<and> captured w i < fires w \<longrightarrow>
        fst (advance N i (CondReload e) (signal w)) = CondRestore)"
proof -
  have inv: "signal_inv N w" by (rule sig.reachable_inv [OF assms])
  then have ok: "epochs_ok w" by (simp add: signal_inv_def)
  have "epoch (signal w) \<noteq> e" if "calls w i = Some (CondReload e)" "captured w i < fires w"
    using ok that word_epoch [of "fires w" "captured w i"] by (auto simp: epochs_ok_def)
  moreover have "is_set (signal w) \<or> fires w = 0 \<or> cleared w = Some (fires w)" if "at_rest w"
    using inv at_rest_idle(1) [OF that] by (simp add: signal_inv_def clear_accounted_def)
  ultimately show ?thesis by simp
qed

text \<open>
  Supplement: a cancel wakes every waiter. Given that the library wakes the waiters that are registered, once no
  call is under way and the signal is set, no waiter stays parked: each one that still waits returns with
  its next step, also when it looked at the flag while a conditional reset had cleared it for a moment.
\<close>

theorem cancel_wakes_waiters:
  assumes "notify_contract N" and "initial_world N w0" and "(signal_step N)\<^sup>*\<^sup>* w0 w"
    and "at_rest w" and "is_set (signal w)" and "calls w i = Some WaitParked"
  shows "fst (advance N i WaitParked (signal w)) = Returned True"
proof -
  have "signal_inv N w" by (rule sig.reachable_inv [OF assms(2,3)])
  with assms(1) have "waiters_reached N w" by (simp add: signal_inv_def)
  with assms(5,6) at_rest_idle(2) [OF assms(4)] show ?thesis by (auto simp: waiters_reached_def)
qed

section \<open>An instance\<close>

definition set_notify :: "(nat set \<times> nat set) Notify" where
  "set_notify = \<lparr>notify_new = ({}, {}), enable = (\<lambda>i (r, k). (insert i r, k)),
     notify_waiters = (\<lambda>(r, k). (r, k \<union> r)), registered = (\<lambda>(r, _) i. i \<in> r), woken = (\<lambda>(_, k) i. i \<in> k)\<rparr>"

lemma set_notify_contract: "notify_contract set_notify"
  by (auto simp: notify_contract_def set_notify_def)

definition quiet_world :: "(nat set \<times> nat set) world" where
  "quiet_world = \<lparr>signal = new_signal set_notify, calls = Map.empty, captured = (\<lambda>_. 0), fires = 0, cleared = None\<rparr>"

text \<open>A waiter parks, then the signal is fired.\<close>

definition parked_world :: "(nat set \<times> nat set) world" where
  "parked_world = run_step set_notify 1 WaitCheck (run_step set_notify 1 WaitEnable
     (quiet_world\<lparr>calls := [1 \<mapsto> WaitEnable]\<rparr>))"

definition fired_world :: "(nat set \<times> nat set) world" where
  "fired_world = run_step set_notify 0 FireNotify (run_step set_notify 0 FireStore (run_step set_notify 0 FireCount
     (parked_world\<lparr>calls := (calls parked_world)(0 \<mapsto> FireCount)\<rparr>)))"

lemma parked_reached: "(signal_step set_notify)\<^sup>*\<^sup>* quiet_world parked_world"
proof -
  have "signal_step set_notify quiet_world (quiet_world\<lparr>calls := (calls quiet_world)(1 \<mapsto> WaitEnable)\<rparr>)"
    by (rule signal_step.start) (simp_all add: quiet_world_def)
  moreover have "signal_step set_notify (quiet_world\<lparr>calls := [1 \<mapsto> WaitEnable]\<rparr>)
      (run_step set_notify 1 WaitEnable (quiet_world\<lparr>calls := [1 \<mapsto> WaitEnable]\<rparr>))"
    by (rule signal_step.run) simp_all
  moreover have "signal_step set_notify (run_step set_notify 1 WaitEnable (quiet_world\<lparr>calls := [1 \<mapsto> WaitEnable]\<rparr>))
      parked_world" unfolding parked_world_def by (rule signal_step.run) simp_all
  ultimately show ?thesis by (simp add: quiet_world_def)
qed

lemma fired_reached: "(signal_step set_notify)\<^sup>*\<^sup>* quiet_world fired_world"
proof -
  let ?w = "parked_world\<lparr>calls := (calls parked_world)(0 \<mapsto> FireCount)\<rparr>"
  have "signal_step set_notify parked_world ?w"
    by (rule signal_step.start) (simp_all add: parked_world_def)
  moreover have "signal_step set_notify ?w (run_step set_notify 0 FireCount ?w)"
    by (rule signal_step.run) (simp_all add: parked_world_def quiet_world_def)
  moreover have "signal_step set_notify (run_step set_notify 0 FireCount ?w)
      (run_step set_notify 0 FireStore (run_step set_notify 0 FireCount ?w))"
    by (rule signal_step.run) simp_all
  moreover have "signal_step set_notify (run_step set_notify 0 FireStore (run_step set_notify 0 FireCount ?w)) fired_world"
    unfolding fired_world_def by (rule signal_step.run) simp_all
  ultimately show ?thesis using parked_reached by (meson rtranclp.rtrancl_into_rtrancl)
qed

lemma fired_view:
  "calls fired_world = [1 \<mapsto> WaitParked, 0 \<mapsto> Returned True]" "is_set (signal fired_world)" "fires fired_world = 1"
  by (simp_all add: fired_world_def parked_world_def quiet_world_def new_signal_def is_set_def)

lemma fired_rest: "at_rest fired_world"
  by (auto simp: at_rest_def fired_view split: if_splits)

lemma quiet_initial: "initial_world set_notify quiet_world"
  by (simp add: initial_world_def quiet_world_def)

theorem cancel_never_erased_witness:
  "is_set (signal fired_world) \<or> fires fired_world = 0 \<or> cleared fired_world = Some (fires fired_world)"
  using cancel_never_erased [OF quiet_initial fired_reached, of 0 0] fired_rest by blast

theorem cancel_wakes_waiters_witness:
  "fst (advance set_notify 1 WaitParked (signal fired_world)) = Returned True"
proof (rule cancel_wakes_waiters [OF set_notify_contract quiet_initial fired_reached fired_rest fired_view(2)])
  show "calls fired_world 1 = Some WaitParked" by (simp add: fired_view)
qed

end
