(* ===== verification/Provider_Routes.thy ===== *)
theory Provider_Routes
  imports Compaction "HOL-Library.Product_Lexorder"
begin

text \<open>
  Choosing and switching providers (\<^verbatim>\<open>src/crates/jcode-provider-core/src\<close>): the names of credentials and
  routes (\<^verbatim>\<open>auth_mode.rs\<close>, \<^verbatim>\<open>lib.rs\<close>), provider selection and the merging of catalogs (\<^verbatim>\<open>selection.rs\<close>),
  the route to fall back to (\<^verbatim>\<open>fallback_pick.rs\<close>), the classification of errors (\<^verbatim>\<open>failover.rs\<close>) and the
  delay before a retry (\<^verbatim>\<open>retry_after.rs\<close>). The JSON codec and the parser of HTTP dates are arguments.
\<close>

section \<open>More string routines\<close>

definition eq_ignore_ascii_case :: "str \<Rightarrow> str \<Rightarrow> bool" where
  "eq_ignore_ascii_case a b \<longleftrightarrow> to_ascii_lowercase a = to_ascii_lowercase b"

definition strip_suffix :: "str \<Rightarrow> str \<Rightarrow> str option" where
  "strip_suffix pat s = (if suffix pat s then Some (take (length s - length pat) s) else None)"

fun split_once :: "char \<Rightarrow> str \<Rightarrow> (str \<times> str) option" where
  "split_once c [] = None"
| "split_once c (x # xs) =
     (if x = c then Some ([], xs) else map_option (\<lambda>(a, b). (x # a, b)) (split_once c xs))"

section \<open>Providers\<close>

datatype ActiveProvider =
  ActClaude | ActOpenAI | ActCopilot | ActAntigravity | ActGemini | ActCursor | ActBedrock | ActOpenRouter

record ProviderAvailability =
  av_openai :: bool
  av_claude :: bool
  av_copilot :: bool
  av_antigravity :: bool
  av_gemini :: bool
  av_cursor :: bool
  av_bedrock :: bool
  av_openrouter :: bool
  copilot_premium_zero :: bool

fun is_configured :: "ProviderAvailability \<Rightarrow> ActiveProvider \<Rightarrow> bool" where
  "is_configured a ActClaude = av_claude a"
| "is_configured a ActOpenAI = av_openai a"
| "is_configured a ActCopilot = av_copilot a"
| "is_configured a ActAntigravity = av_antigravity a"
| "is_configured a ActGemini = av_gemini a"
| "is_configured a ActCursor = av_cursor a"
| "is_configured a ActBedrock = av_bedrock a"
| "is_configured a ActOpenRouter = av_openrouter a"

definition auto_default_provider :: "ProviderAvailability \<Rightarrow> ActiveProvider" where
  "auto_default_provider a =
     (if copilot_premium_zero a \<and> av_copilot a then ActCopilot
      else if av_claude a then ActClaude
      else if av_openai a then ActOpenAI
      else if av_copilot a then ActCopilot
      else if av_antigravity a then ActAntigravity
      else if av_gemini a then ActGemini
      else if av_cursor a then ActCursor
      else if av_bedrock a then ActBedrock
      else if av_openrouter a then ActOpenRouter
      else ActClaude)"

definition parse_provider_hint :: "str \<Rightarrow> ActiveProvider option" where
  "parse_provider_hint value =
     (let v = to_ascii_lowercase (trim value) in
      if v = ''claude'' \<or> v = ''anthropic'' then Some ActClaude
      else if v = ''openai'' then Some ActOpenAI
      else if v = ''copilot'' then Some ActCopilot
      else if v = ''antigravity'' then Some ActAntigravity
      else if v = ''gemini'' then Some ActGemini
      else if v = ''cursor'' then Some ActCursor
      else if v = ''bedrock'' \<or> v = ''aws-bedrock'' \<or> v = ''aws_bedrock'' then Some ActBedrock
      else if v = ''openrouter'' then Some ActOpenRouter
      else None)"

fun provider_label :: "ActiveProvider \<Rightarrow> str" where
  "provider_label ActClaude = ''Anthropic''"
| "provider_label ActOpenAI = ''OpenAI''"
| "provider_label ActCopilot = ''GitHub Copilot''"
| "provider_label ActAntigravity = ''Antigravity''"
| "provider_label ActGemini = ''Gemini''"
| "provider_label ActCursor = ''Cursor''"
| "provider_label ActBedrock = ''AWS Bedrock''"
| "provider_label ActOpenRouter = ''OpenRouter''"

fun provider_key :: "ActiveProvider \<Rightarrow> str" where
  "provider_key ActClaude = ''claude''"
| "provider_key ActOpenAI = ''openai''"
| "provider_key ActCopilot = ''copilot''"
| "provider_key ActAntigravity = ''antigravity''"
| "provider_key ActGemini = ''gemini''"
| "provider_key ActCursor = ''cursor''"
| "provider_key ActBedrock = ''bedrock''"
| "provider_key ActOpenRouter = ''openrouter''"

definition provider_from_model_key :: "str \<Rightarrow> ActiveProvider option" where
  "provider_from_model_key key =
     (if key = ''claude'' then Some ActClaude
      else if key = ''openai'' then Some ActOpenAI
      else if key = ''copilot'' then Some ActCopilot
      else if key = ''antigravity'' then Some ActAntigravity
      else if key = ''gemini'' then Some ActGemini
      else if key = ''cursor'' then Some ActCursor
      else if key = ''bedrock'' then Some ActBedrock
      else if key = ''openrouter'' then Some ActOpenRouter
      else None)"

fun fallback_sequence :: "ActiveProvider \<Rightarrow> ActiveProvider list" where
  "fallback_sequence ActClaude =
     [ActClaude, ActOpenAI, ActCopilot, ActGemini, ActCursor, ActBedrock, ActOpenRouter]"
| "fallback_sequence ActOpenAI =
     [ActOpenAI, ActClaude, ActCopilot, ActGemini, ActCursor, ActBedrock, ActOpenRouter]"
| "fallback_sequence ActCopilot =
     [ActCopilot, ActClaude, ActOpenAI, ActAntigravity, ActGemini, ActCursor, ActBedrock, ActOpenRouter]"
| "fallback_sequence ActAntigravity =
     [ActAntigravity, ActClaude, ActOpenAI, ActCopilot, ActGemini, ActCursor, ActBedrock, ActOpenRouter]"
| "fallback_sequence ActGemini =
     [ActGemini, ActClaude, ActOpenAI, ActAntigravity, ActCopilot, ActCursor, ActBedrock, ActOpenRouter]"
| "fallback_sequence ActCursor =
     [ActCursor, ActClaude, ActOpenAI, ActCopilot, ActAntigravity, ActGemini, ActOpenRouter]"
| "fallback_sequence ActBedrock =
     [ActBedrock, ActClaude, ActOpenAI, ActCopilot, ActAntigravity, ActGemini, ActCursor, ActOpenRouter]"
| "fallback_sequence ActOpenRouter =
     [ActOpenRouter, ActClaude, ActOpenAI, ActCopilot, ActAntigravity, ActGemini, ActCursor]"

section \<open>Credentials\<close>

datatype DualAuthProvider = DualAnthropic | DualOpenAI

datatype AuthMode = Oauth | ApiKey

record AuthRoute =
  auth_provider :: DualAuthProvider
  auth_mode :: AuthMode

fun active_provider :: "DualAuthProvider \<Rightarrow> ActiveProvider" where
  "active_provider DualAnthropic = ActClaude"
| "active_provider DualOpenAI = ActOpenAI"

fun from_active_provider :: "ActiveProvider \<Rightarrow> DualAuthProvider option" where
  "from_active_provider ActClaude = Some DualAnthropic"
| "from_active_provider ActOpenAI = Some DualOpenAI"
| "from_active_provider _ = None"

definition anthropic :: "AuthMode \<Rightarrow> AuthRoute" where
  "anthropic m = \<lparr>auth_provider = DualAnthropic, auth_mode = m\<rparr>"

definition openai :: "AuthMode \<Rightarrow> AuthRoute" where
  "openai m = \<lparr>auth_provider = DualOpenAI, auth_mode = m\<rparr>"

definition without_colon :: "str \<Rightarrow> str" where
  "without_colon s = (case strip_suffix '':'' (trim s) of Some t \<Rightarrow> t | None \<Rightarrow> trim s)"

definition auth_alias :: "str \<Rightarrow> AuthRoute option" where
  "auth_alias t =
     (if t \<in> set [''claude'', ''anthropic'', ''claude-oauth'', ''anthropic-oauth''] then Some (anthropic Oauth)
      else if t \<in> set [''claude-api'', ''anthropic-api'', ''anthropic-api-key'', ''claude-api-key'',
        ''anthropic-key'', ''claude-key'', ''api-key''] then Some (anthropic ApiKey)
      else if t \<in> set [''openai'', ''openai-oauth''] then Some (openai Oauth)
      else if t \<in> set [''openai-api'', ''openai-api-key'', ''openai-key'', ''openai-apikey'',
        ''openai-platform'', ''platform-openai''] then Some (openai ApiKey)
      else None)"

definition auth_parse :: "str \<Rightarrow> AuthRoute option" where
  "auth_parse token = auth_alias (to_ascii_lowercase (trim (without_colon token)))"

definition parse_explicit_credential_prefix :: "str \<Rightarrow> AuthRoute option" where
  "parse_explicit_credential_prefix pre =
     (let other = to_ascii_lowercase (trim (without_colon pre)) in
      if other \<in> set [''claude'', ''anthropic'', ''openai''] then None else auth_parse other)"

definition by_route :: "str \<Rightarrow> str \<Rightarrow> str \<Rightarrow> str \<Rightarrow> AuthRoute \<Rightarrow> str" where
  "by_route ao aa oo oa r =
     (case (auth_provider r, auth_mode r) of
        (DualAnthropic, Oauth) \<Rightarrow> ao | (DualAnthropic, ApiKey) \<Rightarrow> aa
      | (DualOpenAI, Oauth) \<Rightarrow> oo | (DualOpenAI, ApiKey) \<Rightarrow> oa)"

definition runtime_provider_key :: "AuthRoute \<Rightarrow> str" where
  "runtime_provider_key = by_route ''claude'' ''claude-api'' ''openai'' ''openai-api''"

definition route_api_method :: "AuthRoute \<Rightarrow> str" where
  "route_api_method = by_route ''claude-oauth'' ''anthropic-api-key'' ''openai-oauth'' ''openai-api-key''"

definition model_prefix :: "AuthRoute \<Rightarrow> str" where
  "model_prefix = by_route ''claude-oauth'' ''claude-api'' ''openai-oauth'' ''openai-api''"

definition session_provider_key :: "AuthRoute \<Rightarrow> str" where
  "session_provider_key = runtime_provider_key"

definition cli_provider_arg :: "AuthRoute \<Rightarrow> str" where
  "cli_provider_arg = by_route ''claude'' ''anthropic-api'' ''openai'' ''openai-api''"

definition pinned_mode_for :: "DualAuthProvider \<Rightarrow> str option \<Rightarrow> AuthMode option" where
  "pinned_mode_for p runtime_provider =
     (case runtime_provider of None \<Rightarrow> None
      | Some s \<Rightarrow> (case auth_parse s of None \<Rightarrow> None
          | Some r \<Rightarrow> if auth_provider r = p then Some (auth_mode r) else None))"

definition cli_provider_arg_for_session_key :: "str \<Rightarrow> str option" where
  "cli_provider_arg_for_session_key key =
     (let normalized = to_ascii_lowercase (trim key);
          base = (case split_once (CHR '':'') normalized of Some (p, _) \<Rightarrow> p | None \<Rightarrow> normalized)
      in case auth_parse base of
           Some r \<Rightarrow> Some (cli_provider_arg r)
         | None \<Rightarrow> if base \<in> set [''openrouter'', ''copilot'', ''gemini'', ''cursor'', ''bedrock'', ''antigravity'']
                   then Some base
                   else if base = ''code-assist-oauth'' \<or> base = ''google'' then Some ''google'' else None)"

section \<open>Routes\<close>

datatype ModelRouteApiMethod =
    JcodeSubscription | ClaudeOAuth | AnthropicApiKey | OpenAIOAuth | OpenAIApiKey | OpenRouter
  | OpenAiCompatible "str option" | Copilot | Cursor | Bedrock | CodeAssistOAuth | AntigravityHttps
  | RemoteCatalog | Current | Other str

definition from_auth_route :: "AuthRoute \<Rightarrow> ModelRouteApiMethod" where
  "from_auth_route r =
     (case (auth_provider r, auth_mode r) of
        (DualAnthropic, Oauth) \<Rightarrow> ClaudeOAuth | (DualAnthropic, ApiKey) \<Rightarrow> AnthropicApiKey
      | (DualOpenAI, Oauth) \<Rightarrow> OpenAIOAuth | (DualOpenAI, ApiKey) \<Rightarrow> OpenAIApiKey)"

definition method_parse :: "str \<Rightarrow> ModelRouteApiMethod" where
  "method_parse value =
     (let trimmed = trim value; lower = to_ascii_lowercase trimmed in
      case auth_parse lower of
        Some r \<Rightarrow> from_auth_route r
      | None \<Rightarrow>
          if lower = ''jcode-subscription'' then JcodeSubscription
          else if lower = ''openrouter'' then OpenRouter
          else if lower = ''openai-compatible'' then OpenAiCompatible None
          else if lower = ''copilot'' then Copilot
          else if lower = ''cursor'' then Cursor
          else if lower = ''bedrock'' then Bedrock
          else if lower = ''code-assist-oauth'' then CodeAssistOAuth
          else if lower = ''https'' then AntigravityHttps
          else if lower = ''remote-catalog'' then RemoteCatalog
          else if lower = ''current'' then Current
          else case split_once (CHR '':'') lower of
                 Some (p, rest) \<Rightarrow>
                   if p = ''openai-compatible''
                   then OpenAiCompatible (if trim rest = [] then None else Some (trim rest))
                   else Other trimmed
               | None \<Rightarrow> Other trimmed)"

datatype RuntimeKey =
    KeyJcodeSubscription | KeyClaudeOAuth | KeyAnthropicApiKey | KeyOpenAIOAuth | KeyOpenAIApiKey
  | KeyOpenRouter | KeyOpenAiCompatible "str option" | KeyCopilot | KeyGemini | KeyCursor | KeyBedrock
  | KeyAntigravity | KeyCodeAssistOAuth | KeyRemoteCatalog | KeyCurrent | KeyOther str

fun from_api_method :: "ModelRouteApiMethod \<Rightarrow> RuntimeKey" where
  "from_api_method JcodeSubscription = KeyJcodeSubscription"
| "from_api_method ClaudeOAuth = KeyClaudeOAuth"
| "from_api_method AnthropicApiKey = KeyAnthropicApiKey"
| "from_api_method OpenAIOAuth = KeyOpenAIOAuth"
| "from_api_method OpenAIApiKey = KeyOpenAIApiKey"
| "from_api_method OpenRouter = KeyOpenRouter"
| "from_api_method (OpenAiCompatible p) = KeyOpenAiCompatible p"
| "from_api_method Copilot = KeyCopilot"
| "from_api_method Cursor = KeyCursor"
| "from_api_method Bedrock = KeyBedrock"
| "from_api_method CodeAssistOAuth = KeyCodeAssistOAuth"
| "from_api_method AntigravityHttps = KeyAntigravity"
| "from_api_method RemoteCatalog = KeyRemoteCatalog"
| "from_api_method Current = KeyCurrent"
| "from_api_method (Other m) = KeyOther m"

fun stable_id :: "RuntimeKey \<Rightarrow> str" where
  "stable_id KeyJcodeSubscription = ''jcode-subscription''"
| "stable_id KeyClaudeOAuth = ''claude-oauth''"
| "stable_id KeyAnthropicApiKey = ''anthropic-api-key''"
| "stable_id KeyOpenAIOAuth = ''openai-oauth''"
| "stable_id KeyOpenAIApiKey = ''openai-api-key''"
| "stable_id KeyOpenRouter = ''openrouter''"
| "stable_id (KeyOpenAiCompatible (Some p)) = ''openai-compatible:'' @ p"
| "stable_id (KeyOpenAiCompatible None) = ''openai-compatible''"
| "stable_id KeyCopilot = ''copilot''"
| "stable_id KeyGemini = ''gemini''"
| "stable_id KeyCursor = ''cursor''"
| "stable_id KeyBedrock = ''bedrock''"
| "stable_id KeyAntigravity = ''antigravity''"
| "stable_id KeyCodeAssistOAuth = ''code-assist-oauth''"
| "stable_id KeyRemoteCatalog = ''remote-catalog''"
| "stable_id KeyCurrent = ''current''"
| "stable_id (KeyOther v) = v"

datatype RouteBillingKind = Metered | Subscription | IncludedQuota | UnknownBilling

datatype RouteCostSource =
  PublicApiPricing | PublicPlanPricing | RuntimePlan | OpenRouterEndpoint | OpenRouterCatalog
  | ModelsDevCatalog | Heuristic

datatype RouteCostConfidence = CostExact | CostHigh | CostMedium | CostLow | CostUnknown

record RouteCheapnessEstimate =
  billing_kind :: RouteBillingKind
  cost_source :: RouteCostSource
  cost_confidence :: RouteCostConfidence
  monthly_price_micros :: "64 word option"
  input_price_per_mtok_micros :: "64 word option"
  output_price_per_mtok_micros :: "64 word option"
  cache_read_price_per_mtok_micros :: "64 word option"
  included_requests_per_month :: "64 word option"
  reference_input_tokens :: "64 word"
  reference_output_tokens :: "64 word"
  estimated_reference_cost_micros :: "64 word option"
  cost_note :: "str option"

record ModelRoute =
  route_model :: str
  route_provider :: str
  route_method :: str
  available :: bool
  route_detail :: str
  cheapness :: "RouteCheapnessEstimate option"

definition api_method_kind :: "ModelRoute \<Rightarrow> ModelRouteApiMethod" where
  "api_method_kind r = method_parse (route_method r)"

section \<open>Models\<close>

definition ALL_CLAUDE_MODELS :: "str list" where
  "ALL_CLAUDE_MODELS = [''claude-fable-5'', ''claude-opus-4-8'', ''claude-opus-4-6'', ''claude-opus-4-6[1m]'',
     ''claude-sonnet-5'', ''claude-sonnet-4-6'', ''claude-sonnet-4-6[1m]'', ''claude-haiku-4-5'',
     ''claude-opus-4-5'', ''claude-sonnet-4-5'', ''claude-sonnet-4-20250514'']"

definition ALL_OPENAI_MODELS :: "str list" where
  "ALL_OPENAI_MODELS = [''gpt-5.6-sol'', ''gpt-5.5-pro'', ''gpt-5.5'', ''gpt-5.4'', ''gpt-5.4-pro'',
     ''gpt-5.3-codex'', ''gpt-5.3-codex-spark'', ''gpt-5.2-chat-latest'', ''gpt-5.2-codex'', ''gpt-5.2-pro'',
     ''gpt-5.1-codex-mini'', ''gpt-5.1-codex-max'', ''gpt-5.2'', ''gpt-5.1-chat-latest'', ''gpt-5.1'',
     ''gpt-5.1-codex'', ''gpt-5-chat-latest'', ''gpt-5-codex'', ''gpt-5-codex-mini'', ''gpt-5-pro'',
     ''gpt-5-mini'', ''gpt-5-nano'', ''gpt-5'']"

definition provider_key_from_hint :: "str option \<Rightarrow> str option" where
  "provider_key_from_hint hint =
     (case hint of None \<Rightarrow> None
      | Some h \<Rightarrow>
          (let n = to_ascii_lowercase (trim h) in
           if n = ''anthropic'' \<or> n = ''claude'' then Some ''claude''
           else if n = ''openai'' then Some ''openai''
           else if n = ''openrouter'' then Some ''openrouter''
           else if n = ''copilot'' \<or> n = ''github copilot'' then Some ''copilot''
           else if n = ''antigravity'' then Some ''antigravity''
           else if n = ''gemini'' \<or> n = ''google gemini'' then Some ''gemini''
           else if n = ''cursor'' then Some ''cursor''
           else None))"

definition provider_for_model_with_hint :: "str \<Rightarrow> str option \<Rightarrow> str option" where
  "provider_for_model_with_hint model0 hint =
     (case provider_key_from_hint hint of
        Some p \<Rightarrow> Some p
      | None \<Rightarrow>
          (let model = trim model0 in
           if CHR ''@'' \<in> set model then Some ''openrouter''
           else if model \<in> set ALL_CLAUDE_MODELS then Some ''claude''
           else if model \<in> set ALL_OPENAI_MODELS then Some ''openai''
           else if CHR ''/'' \<in> set model then Some ''openrouter''
           else if prefix ''claude-'' model then Some ''claude''
           else if prefix ''gpt-'' model then Some ''openai''
           else if prefix ''gemini-'' model then Some ''gemini''
           else None))"

definition provider_for_model :: "str \<Rightarrow> str option" where
  "provider_for_model model = provider_for_model_with_hint model None"

definition openrouter_catalog_model_id :: "str \<Rightarrow> str" where
  "openrouter_catalog_model_id model =
     (let trimmed = trim model; p = provider_for_model trimmed in
      if p = Some ''claude'' then ''anthropic/'' @ trimmed
      else if p = Some ''openai'' then ''openai/'' @ trimmed
      else trimmed)"

section \<open>Selections and model specs\<close>

record RouteSelection =
  sel_model :: str
  runtime_key :: RuntimeKey
  sel_method :: str
  sel_provider :: str
  sel_detail :: str

definition from_model_route :: "ModelRoute \<Rightarrow> RouteSelection" where
  "from_model_route r =
     \<lparr>sel_model = route_model r, runtime_key = from_api_method (api_method_kind r), sel_method = route_method r,
      sel_provider = route_provider r, sel_detail = route_detail r\<rparr>"

definition routed_model_spec :: "RouteSelection \<Rightarrow> str" where
  "routed_model_spec s =
     (let model = trim (sel_model s) in
      case runtime_key s of
        KeyClaudeOAuth \<Rightarrow> ''claude-oauth:'' @ model
      | KeyAnthropicApiKey \<Rightarrow> ''claude-api:'' @ model
      | KeyOpenAIOAuth \<Rightarrow> ''openai-oauth:'' @ model
      | KeyOpenAIApiKey \<Rightarrow> ''openai-api:'' @ model
      | KeyOpenAiCompatible (Some p) \<Rightarrow> trim p @ '':'' @ model
      | KeyOpenRouter \<Rightarrow>
          (let p = trim (sel_provider s); catalog_id = openrouter_catalog_model_id model in
           if p = [] \<or> eq_ignore_ascii_case p ''auto'' \<or> CHR ''@'' \<in> set model then catalog_id
           else catalog_id @ ''@'' @ p)
      | KeyCopilot \<Rightarrow> ''copilot:'' @ model
      | KeyCursor \<Rightarrow> ''cursor:'' @ model
      | KeyBedrock \<Rightarrow> ''bedrock:'' @ model
      | KeyAntigravity \<Rightarrow> ''antigravity:'' @ model
      | _ \<Rightarrow> model)"

definition PREFIXES :: "(ActiveProvider \<times> str) list" where
  "PREFIXES =
     [(ActClaude, ''claude-api:''), (ActClaude, ''claude-oauth:''), (ActClaude, ''claude:''),
      (ActClaude, ''anthropic:''), (ActOpenAI, ''openai-api:''), (ActOpenAI, ''openai-oauth:''),
      (ActOpenAI, ''openai:''), (ActCopilot, ''copilot:''), (ActAntigravity, ''antigravity:''),
      (ActGemini, ''gemini:''), (ActCursor, ''cursor:''), (ActBedrock, ''bedrock:''),
      (ActOpenRouter, ''openrouter:'')]"

fun first_prefix :: "(ActiveProvider \<times> str) list \<Rightarrow> str \<Rightarrow> (ActiveProvider \<times> str \<times> str) option" where
  "first_prefix [] model = None"
| "first_prefix ((p, pre) # ps) model =
     (case strip_prefix pre model of Some rest \<Rightarrow> Some (p, pre, rest) | None \<Rightarrow> first_prefix ps model)"

definition explicit_model_provider_prefix :: "str \<Rightarrow> (ActiveProvider \<times> str \<times> str) option" where
  "explicit_model_provider_prefix model = first_prefix PREFIXES model"

section \<open>Labels\<close>

definition normalize_model_route_provider_label :: "str \<Rightarrow> str" where
  "normalize_model_route_provider_label value =
     filter (\<lambda>c. c \<notin> set '' _-'') (to_ascii_lowercase (trim value))"

definition label_aliases :: "(str list \<times> str list) list" where
  "label_aliases =
     [([''claude'', ''anthropic''], [''anthropic'', ''claude'']), ([''openai''], [''openai'']),
      ([''gemini'', ''google''], [''gemini'', ''google'']), ([''antigravity''], [''antigravity'']),
      ([''copilot'', ''copilotcode'', ''githubcopilot''], [''copilot'', ''githubcopilot'']),
      ([''cursor''], [''cursor'']), ([''bedrock'', ''awsbedrock''], [''bedrock'', ''awsbedrock'']),
      ([''openrouter''], [''openrouter'', ''auto''])]"

definition model_route_provider_labels_match :: "str \<Rightarrow> str \<Rightarrow> bool" where
  "model_route_provider_labels_match route_label current_label =
     (let r = normalize_model_route_provider_label route_label;
          c = normalize_model_route_provider_label current_label
      in if r = [] \<or> c = [] then False
         else if r = c then True
         else list_ex (\<lambda>(cs, rs). c \<in> set cs \<and> r \<in> set rs) label_aliases)"

definition model_route_provider_matches_key :: "str option \<Rightarrow> str \<Rightarrow> str \<Rightarrow> bool" where
  "model_route_provider_matches_key route_key route_label desired0 =
     (let desired = trim desired0 in
      if desired = [] then False
      else case parse_explicit_credential_prefix desired of
        Some d \<Rightarrow>
          (case route_key of
             Some k \<Rightarrow>
               normalize_model_route_provider_label
                 (case auth_parse k of Some r \<Rightarrow> session_provider_key r | None \<Rightarrow> k)
               = normalize_model_route_provider_label (session_provider_key d)
           | None \<Rightarrow> False)
      | None \<Rightarrow>
          (case route_key of
             Some k \<Rightarrow> normalize_model_route_provider_label k = normalize_model_route_provider_label desired
           | None \<Rightarrow> False)
          \<or> model_route_provider_labels_match route_label desired)"

section \<open>Merging catalogs\<close>

definition is_generic_openai_compatible_route :: "str \<Rightarrow> bool" where
  "is_generic_openai_compatible_route m \<longleftrightarrow> m = ''openai-compatible''"

definition is_profile_openai_compatible_route :: "str \<Rightarrow> bool" where
  "is_profile_openai_compatible_route m \<longleftrightarrow> prefix ''openai-compatible:'' m"

definition duplicate_route_api_method :: "str \<Rightarrow> str \<Rightarrow> bool" where
  "duplicate_route_api_method existing candidate \<longleftrightarrow>
     existing = candidate
     \<or> (is_generic_openai_compatible_route existing \<and> is_profile_openai_compatible_route candidate)
     \<or> (is_profile_openai_compatible_route existing \<and> is_generic_openai_compatible_route candidate)"

definition should_replace_duplicate_route :: "ModelRoute \<Rightarrow> ModelRoute \<Rightarrow> bool" where
  "should_replace_duplicate_route existing candidate \<longleftrightarrow>
     \<not> is_profile_openai_compatible_route (route_method existing)
     \<and> is_profile_openai_compatible_route (route_method candidate)"

type_synonym merge_state = "ModelRoute list \<times> (str \<times> str \<Rightarrow> nat list)"

definition dedupe_step :: "ModelRoute \<Rightarrow> merge_state \<Rightarrow> merge_state" where
  "dedupe_step route st =
     (let (deduped, buckets) = st; key = (route_provider route, route_model route) in
      case find (\<lambda>i. duplicate_route_api_method (route_method (deduped ! i)) (route_method route)) (buckets key) of
        Some i \<Rightarrow> (if should_replace_duplicate_route (deduped ! i) route then deduped[i := route] else deduped, buckets)
      | None \<Rightarrow> (deduped @ [route], buckets(key := buckets key @ [length deduped])))"

definition dedupe_model_routes :: "ModelRoute list \<Rightarrow> ModelRoute list" where
  "dedupe_model_routes routes = fst (fold dedupe_step routes ([], \<lambda>_. []))"

section \<open>Falling back\<close>

fun api_method_is_oauth :: "ModelRouteApiMethod \<Rightarrow> bool" where
  "api_method_is_oauth ClaudeOAuth = True"
| "api_method_is_oauth OpenAIOAuth = True"
| "api_method_is_oauth CodeAssistOAuth = True"
| "api_method_is_oauth _ = False"

definition models_match :: "str \<Rightarrow> str \<Rightarrow> bool" where
  "models_match a b = eq_ignore_ascii_case (trim a) (trim b)"

definition api_methods_match :: "str \<Rightarrow> str \<Rightarrow> bool" where
  "api_methods_match a b \<longleftrightarrow> method_parse a = method_parse b"

record FallbackPickOptions =
  credential_failure :: bool

definition error_looks_like_credential_failure :: "str \<Rightarrow> bool" where
  "error_looks_like_credential_failure err =
     list_ex (contains_str (to_ascii_lowercase err))
       [''token refresh failed'', ''refresh_token_invalidated'', ''re-authenticate'', ''session has ended'',
        ''authentication_error'', ''invalid_grant'', ''invalid x-api-key'', ''invalid api key'',
        ''incorrect api key'', ''api key not valid'', ''token expired'', ''unauthorized'',
        ''oauth token expired'', ''no refresh token'', ''credentials have been revoked'',
        ''please log in again'', ''replace or re-import'']"

definition same_provider :: "str \<Rightarrow> ModelRoute \<Rightarrow> bool" where
  "same_provider current route \<longleftrightarrow>
     model_route_provider_labels_match (route_provider route) current \<or> models_match (route_provider route) current"

definition fallback_rank ::
  "str \<Rightarrow> str \<Rightarrow> str \<Rightarrow> FallbackPickOptions \<Rightarrow> ModelRoute \<Rightarrow> (nat \<times> nat) option" where
  "fallback_rank model provider method options route =
     (let unknown_method = (trim method = []);
          same_model = models_match (route_model route) model;
          same_method = api_methods_match (route_method route) method;
          same_prov = same_provider provider route
      in if same_model \<and> same_prov \<and> (same_method \<or> unknown_method) then None
         else if credential_failure options \<and> same_prov \<and> (same_method \<or> unknown_method) then None
         else Some (if same_model \<and> \<not> same_method then 0 else if same_prov then 1 else 2,
                    if api_method_is_oauth (method_parse (route_method route)) then 0 else 1))"

definition fallback_candidates ::
  "ModelRoute list \<Rightarrow> str \<Rightarrow> str \<Rightarrow> str \<Rightarrow> FallbackPickOptions \<Rightarrow> (nat \<times> nat \<times> nat) list" where
  "fallback_candidates routes model provider method options =
     List.map_filter (\<lambda>(i, route). map_option (\<lambda>(tier, oauth). (tier, oauth, i))
         (fallback_rank model provider method options route))
       (filter (\<lambda>(_, route). available route) (enumerate 0 routes))"

fun least :: "'a::linorder list \<Rightarrow> 'a option" where
  "least [] = None"
| "least (x # xs) = Some (fold min xs x)"

definition pick_next_fallback_route_with_options ::
  "ModelRoute list \<Rightarrow> str \<Rightarrow> str \<Rightarrow> str \<Rightarrow> FallbackPickOptions \<Rightarrow> nat option" where
  "pick_next_fallback_route_with_options routes model provider method options =
     map_option (\<lambda>(_, _, i). i) (least (fallback_candidates routes model provider method options))"

definition pick_next_fallback_route :: "ModelRoute list \<Rightarrow> str \<Rightarrow> str \<Rightarrow> str \<Rightarrow> nat option" where
  "pick_next_fallback_route routes model provider method =
     pick_next_fallback_route_with_options routes model provider method \<lparr>credential_failure = False\<rparr>"

section \<open>Failing over\<close>

datatype FailoverDecision = NoFailover | RetryNextProvider | RetryAndMarkUnavailable

definition should_failover :: "FailoverDecision \<Rightarrow> bool" where
  "should_failover d \<longleftrightarrow> d \<noteq> NoFailover"

definition should_mark_provider_unavailable :: "FailoverDecision \<Rightarrow> bool" where
  "should_mark_provider_unavailable d \<longleftrightarrow> d = RetryAndMarkUnavailable"

definition request_size_or_context :: "str \<Rightarrow> bool" where
  "request_size_or_context lower \<longleftrightarrow>
     list_ex (contains_str lower)
       [''context length'', ''context_length'', ''context window'', ''maximum context'', ''prompt is too long'',
        ''input is too long'', ''too many tokens'', ''max tokens'', ''token limit'', ''token_limit'',
        ''413 payload too large'', ''413 request entity too large'']
     \<or> contains_independent_status_code lower ''413''"

definition rate_or_quota :: "str \<Rightarrow> bool" where
  "rate_or_quota lower \<longleftrightarrow>
     list_ex (contains_str lower)
       [''rate limit'', ''rate-limited'', ''too many requests'', ''quota'', ''credit balance'',
        ''credits have run out'', ''insufficient credit'', ''billing'', ''payment required'', ''usage tier'']
     \<or> contains_independent_status_code lower ''429'' \<or> contains_independent_status_code lower ''402''"

definition auth_or_access :: "str \<Rightarrow> bool" where
  "auth_or_access lower \<longleftrightarrow>
     list_ex (contains_str lower)
       [''access denied'', ''not accessible by integration'', ''provider unavailable'', ''provider not available'',
        ''provider is unavailable'', ''provider currently unavailable'', ''provider not configured'',
        ''credentials are not configured'', ''no credentials'', ''token exchange failed'',
        ''authentication failed'', ''unauthorized'', ''forbidden'']
     \<or> contains_independent_status_code lower ''401'' \<or> contains_independent_status_code lower ''403''"

definition classify_failover_error_message :: "str \<Rightarrow> FailoverDecision" where
  "classify_failover_error_message message =
     (let lower = to_ascii_lowercase message in
      if request_size_or_context lower then RetryNextProvider
      else if rate_or_quota lower then RetryAndMarkUnavailable
      else if auth_or_access lower then RetryAndMarkUnavailable
      else NoFailover)"

definition PROVIDER_FAILOVER_PROMPT_PREFIX :: str where
  "PROVIDER_FAILOVER_PROMPT_PREFIX = ''[jcode-provider-failover]''"

record ProviderFailoverPrompt =
  from_provider :: str
  from_label :: str
  to_provider :: str
  to_label :: str
  failover_reason :: str
  estimated_input_chars :: nat
  estimated_input_tokens :: nat

text \<open>\<open>to_json\<close> and \<open>from_json\<close> are \<open>serde_json\<close>'s functions for the prompt.\<close>

definition to_error_message :: "(ProviderFailoverPrompt \<Rightarrow> str) \<Rightarrow> ProviderFailoverPrompt \<Rightarrow> str" where
  "to_error_message to_json p =
     PROVIDER_FAILOVER_PROMPT_PREFIX @ to_json p @ nl @ from_label p
     @ '' is unavailable; switching to '' @ to_label p @ '' would resend about ''
     @ show_nat (estimated_input_tokens p) @ '' input tokens (~'' @ show_nat (estimated_input_chars p) @ '' chars).''"

definition parse_failover_prompt_message ::
  "(str \<Rightarrow> ProviderFailoverPrompt option) \<Rightarrow> str \<Rightarrow> ProviderFailoverPrompt option" where
  "parse_failover_prompt_message from_json message =
     (case str_lines message of
        [] \<Rightarrow> None
      | l # _ \<Rightarrow>
          (case strip_prefix PROVIDER_FAILOVER_PROMPT_PREFIX (trim l) of
             None \<Rightarrow> None
           | Some json \<Rightarrow> from_json json))"

section \<open>Retrying\<close>

text \<open>Durations are in nanoseconds. The header value is what \<open>to_str\<close> gives, if there is one; \<open>http_date\<close>
  parses an HTTP date to a time.\<close>

definition MAX_RETRY_AFTER :: nat where "MAX_RETRY_AFTER = 60 * 10 ^ 9"

definition parse_delta_seconds :: "str \<Rightarrow> nat" where
  "parse_delta_seconds value =
     foldl (\<lambda>seconds c. min (sat_add (min (seconds * 10) (2 ^ 64 - 1)) (byte c - 48)) (MAX_RETRY_AFTER div 10 ^ 9)) 0 value"

definition retry_after_delay_at :: "(str \<Rightarrow> nat option) \<Rightarrow> str option \<Rightarrow> nat \<Rightarrow> nat option" where
  "retry_after_delay_at http_date header now =
     (case header of
        None \<Rightarrow> None
      | Some h \<Rightarrow>
          (let value = trim h in
           if value = [] then None
           else if list_all is_ascii_digit value then Some (parse_delta_seconds value * 10 ^ 9)
           else map_option (\<lambda>t. min (t - now) MAX_RETRY_AFTER) (http_date value)))"

definition remaining :: "nat \<Rightarrow> nat \<Rightarrow> nat" where
  "remaining deadline now = deadline - now"

end
