(* ===== verification/Provider_Laws.thy ===== *)
theory Provider_Laws
  imports Provider_Routes
begin

text \<open>
  What holds of provider routes: vocabularies that agree, selections that survive their textual form,
  the merging of catalogs, the route to fall back to, and what is said and waited between retries.
\<close>

section \<open>Vocabularies\<close>

text \<open>Keys of lower-case letters, digits and hyphens are read as they are.\<close>

definition plain_key :: "str \<Rightarrow> bool" where
  "plain_key k \<longleftrightarrow> k \<noteq> [] \<and> list_all (\<lambda>c. 97 \<le> byte c \<and> byte c \<le> 122 \<or> c = CHR ''-'') k"

lemma plain_key_plain: "plain_key k \<Longrightarrow> c \<in> set k \<Longrightarrow> 33 \<le> byte c \<and> byte c < 127 \<and> c \<noteq> CHR '':''"
  by (auto simp: plain_key_def list_all_iff)

lemma plain_key_hd: "plain_key k \<Longrightarrow> hd k \<in> set k" "plain_key k \<Longrightarrow> last k \<in> set k"
  by (auto simp: plain_key_def)

lemma plain_key_trim: "plain_key k \<Longrightarrow> trim k = k" "plain_key k \<Longrightarrow> trim (k @ '':'') = k @ '':''"
  using plain_key_hd plain_key_plain by (auto intro!: trim_plain_ends simp: plain_key_def)

lemma plain_key_lower: "plain_key k \<Longrightarrow> to_ascii_lowercase k = k"
  unfolding to_ascii_lowercase_def
  by (intro map_idI) (auto simp: plain_key_def list_all_iff ascii_lower_def)

lemma plain_key_colon: "plain_key k \<Longrightarrow> without_colon k = k" "plain_key k \<Longrightarrow> without_colon (k @ '':'') = k"
  using plain_key_hd(2) plain_key_plain [of k "last k"]
  by (auto simp: without_colon_def plain_key_trim strip_suffix_def suffix_def)

lemma plain_key_parse:
  "plain_key k \<Longrightarrow> auth_parse k = auth_alias k" "plain_key k \<Longrightarrow> auth_parse (k @ '':'') = auth_alias k"
  by (simp_all add: auth_parse_def plain_key_trim plain_key_lower plain_key_colon)

lemma split_once_None: "split_once c s = None \<longleftrightarrow> c \<notin> set s"
  by (induction s) auto

lemma plain_key_views:
  assumes "plain_key k" and "auth_alias k = Some r"
  shows "auth_parse k = Some r" "cli_provider_arg_for_session_key k = Some (cli_provider_arg r)"
    "method_parse k = from_auth_route r" "pinned_mode_for (auth_provider r) (Some k) = Some (auth_mode r)"
proof -
  show p: "auth_parse k = Some r" using assms by (simp add: plain_key_parse)
  have "split_once (CHR '':'') k = None" using plain_key_plain [OF assms(1)] by (auto simp: split_once_None)
  then show "cli_provider_arg_for_session_key k = Some (cli_provider_arg r)"
    using p assms(1) by (simp add: cli_provider_arg_for_session_key_def plain_key_trim plain_key_lower)
  show "method_parse k = from_auth_route r"
    using p assms(1) by (simp add: method_parse_def plain_key_trim plain_key_lower)
  show "pinned_mode_for (auth_provider r) (Some k) = Some (auth_mode r)" using p by (simp add: pinned_mode_for_def)
qed

lemmas vocabulary = runtime_provider_key_def route_api_method_def model_prefix_def session_provider_key_def
  cli_provider_arg_def by_route_def from_auth_route_def anthropic_def openai_def

lemma auth_route_cases:
  obtains "r = anthropic Oauth" | "r = anthropic ApiKey" | "r = openai Oauth" | "r = openai ApiKey"
  by (cases r; cases "auth_provider r"; cases "auth_mode r") (auto simp: anthropic_def openai_def)

lemma alias_values:
  "auth_alias ''claude'' = Some (anthropic Oauth)"
  "auth_alias ''claude-oauth'' = Some (anthropic Oauth)"
  "auth_alias ''claude-api'' = Some (anthropic ApiKey)"
  "auth_alias ''anthropic-api-key'' = Some (anthropic ApiKey)"
  "auth_alias ''anthropic-api'' = Some (anthropic ApiKey)"
  "auth_alias ''openai'' = Some (openai Oauth)"
  "auth_alias ''openai-oauth'' = Some (openai Oauth)"
  "auth_alias ''openai-api'' = Some (openai ApiKey)"
  "auth_alias ''openai-api-key'' = Some (openai ApiKey)"
  by (simp_all add: auth_alias_def)

lemma plain_values:
  "plain_key ''claude''"
  "plain_key ''claude-oauth''"
  "plain_key ''claude-api''"
  "plain_key ''anthropic-api-key''"
  "plain_key ''anthropic-api''"
  "plain_key ''openai''"
  "plain_key ''openai-oauth''"
  "plain_key ''openai-api''"
  "plain_key ''openai-api-key''"
  by (simp_all add: plain_key_def)

lemma vocabulary_keys:
  "list_all (\<lambda>k. plain_key k \<and> auth_alias k = Some r)
     [runtime_provider_key r, route_api_method r, model_prefix r, session_provider_key r, cli_provider_arg r]"
  by (cases r rule: auth_route_cases)
    (simp_all only: list.pred_inject alias_values plain_values session_provider_key_def runtime_provider_key_def
      route_api_method_def model_prefix_def cli_provider_arg_def by_route_def anthropic_def openai_def
      AuthRoute.select_convs prod.case DualAuthProvider.case AuthMode.case simp_thms)

lemma explicit_prefix: "parse_explicit_credential_prefix (model_prefix r @ '':'') = Some r"
proof -
  have p: "plain_key (model_prefix r)" "auth_alias (model_prefix r) = Some r" using vocabulary_keys [of r] by simp_all
  have "model_prefix r \<notin> set [''claude'', ''anthropic'', ''openai'']"
    by (cases r rule: auth_route_cases) (simp_all add: vocabulary)
  with p show ?thesis
    by (simp add: parse_explicit_credential_prefix_def plain_key_colon plain_key_trim plain_key_lower plain_key_parse)
qed

text \<open>
  C39: the vocabularies of credentials agree. Every spelling the program emits for a route, in any of its
  five vocabularies, is read back as that route, with or without the colon of a model prefix; the
  command-line argument and the route method derived from any spelling are those of the route.
\<close>

theorem auth_vocabularies_agree:
  "list_all (\<lambda>key. auth_parse key = Some r \<and> cli_provider_arg_for_session_key key = Some (cli_provider_arg r)
       \<and> method_parse key = from_auth_route r \<and> pinned_mode_for (auth_provider r) (Some key) = Some (auth_mode r))
     [runtime_provider_key r, route_api_method r, model_prefix r, session_provider_key r, cli_provider_arg r]
   \<and> auth_parse (model_prefix r @ '':'') = Some r
   \<and> parse_explicit_credential_prefix (model_prefix r @ '':'') = Some r
   \<and> stable_id (from_api_method (from_auth_route r)) = route_api_method r"
proof -
  note k = vocabulary_keys [of r]
  then have p: "plain_key (model_prefix r)" "auth_alias (model_prefix r) = Some r" by simp_all
  note explicit_prefix
  moreover have "stable_id (from_api_method (from_auth_route r)) = route_api_method r"
    by (cases r rule: auth_route_cases) (simp_all add: vocabulary)
  moreover have "list_all (\<lambda>key. auth_parse key = Some r \<and> cli_provider_arg_for_session_key key = Some (cli_provider_arg r)
       \<and> method_parse key = from_auth_route r \<and> pinned_mode_for (auth_provider r) (Some key) = Some (auth_mode r))
     [runtime_provider_key r, route_api_method r, model_prefix r, session_provider_key r, cli_provider_arg r]"
    by (rule list.pred_mono_strong [OF k]) (simp add: plain_key_views)
  ultimately show ?thesis using p by (simp add: plain_key_parse)
qed

fun key_provider :: "RuntimeKey \<Rightarrow> ActiveProvider option" where
  "key_provider KeyClaudeOAuth = Some ActClaude"
| "key_provider KeyAnthropicApiKey = Some ActClaude"
| "key_provider KeyOpenAIOAuth = Some ActOpenAI"
| "key_provider KeyOpenAIApiKey = Some ActOpenAI"
| "key_provider KeyCopilot = Some ActCopilot"
| "key_provider KeyCursor = Some ActCursor"
| "key_provider KeyBedrock = Some ActBedrock"
| "key_provider KeyAntigravity = Some ActAntigravity"
| "key_provider _ = None"

text \<open>
  Supplement: a structured selection survives its textual form. The model spec of a route whose runtime has a
  prefix of its own is split again into the provider of that runtime and the trimmed model name, and for
  the four credential routes the prefix pins exactly that credential.
\<close>

theorem routed_spec_roundtrip:
  assumes "key_provider (runtime_key s) = Some p"
  shows "\<exists>pre. explicit_model_provider_prefix (routed_model_spec s) = Some (p, pre, trim (sel_model s))
    \<and> (from_active_provider p \<noteq> None \<longrightarrow>
        (\<exists>r. parse_explicit_credential_prefix pre = Some r \<and> active_provider (auth_provider r) = p
           \<and> stable_id (runtime_key s) = route_api_method r))"
proof -
  have cred: "parse_explicit_credential_prefix ''claude-oauth:'' = Some (anthropic Oauth)"
    "parse_explicit_credential_prefix ''claude-api:'' = Some (anthropic ApiKey)"
    "parse_explicit_credential_prefix ''openai-oauth:'' = Some (openai Oauth)"
    "parse_explicit_credential_prefix ''openai-api:'' = Some (openai ApiKey)"
    using explicit_prefix [of "anthropic Oauth"] explicit_prefix [of "anthropic ApiKey"]
      explicit_prefix [of "openai Oauth"] explicit_prefix [of "openai ApiKey"]
    by (simp_all add: vocabulary)
  note eval = explicit_model_provider_prefix_def PREFIXES_def strip_prefix_def routed_model_spec_def Let_def
  show ?thesis
  proof (cases "runtime_key s")
    case KeyClaudeOAuth
    then show ?thesis using assms cred(1) by (auto simp: eval vocabulary intro!: exI [of _ "anthropic Oauth"])
  next
    case KeyAnthropicApiKey
    then show ?thesis using assms cred(2) by (auto simp: eval vocabulary intro!: exI [of _ "anthropic ApiKey"])
  next
    case KeyOpenAIOAuth
    then show ?thesis using assms cred(3) by (auto simp: eval vocabulary intro!: exI [of _ "openai Oauth"])
  next
    case KeyOpenAIApiKey
    then show ?thesis using assms cred(4) by (auto simp: eval vocabulary intro!: exI [of _ "openai ApiKey"])
  qed (use assms in \<open>auto simp: eval\<close>)
qed

theorem routed_spec_roundtrip_witness:
  "\<exists>pre. explicit_model_provider_prefix (routed_model_spec
      \<lparr>sel_model = ''m'', runtime_key = KeyCopilot, sel_method = ''copilot'', sel_provider = ''x'', sel_detail = []\<rparr>)
    = Some (ActCopilot, pre, trim ''m'')"
  using routed_spec_roundtrip [of "\<lparr>sel_model = ''m'', runtime_key = KeyCopilot, sel_method = ''copilot'',
    sel_provider = ''x'', sel_detail = []\<rparr>" ActCopilot] by auto

section \<open>Merging catalogs\<close>

definition same_slot :: "ModelRoute \<Rightarrow> ModelRoute \<Rightarrow> bool" where
  "same_slot x r \<longleftrightarrow> route_provider x = route_provider r \<and> route_model x = route_model r
     \<and> duplicate_route_api_method (route_method x) (route_method r)"

text \<open>The reference: each route is compared with all routes kept so far.\<close>

fun merge_route :: "ModelRoute \<Rightarrow> ModelRoute list \<Rightarrow> ModelRoute list" where
  "merge_route r [] = [r]"
| "merge_route r (x # xs) =
     (if same_slot x r then (if should_replace_duplicate_route x r then r else x) # xs else x # merge_route r xs)"

definition merge_linear :: "ModelRoute list \<Rightarrow> ModelRoute list" where
  "merge_linear routes = fold merge_route routes []"

lemma find_filter: "find P (filter Q xs) = find (\<lambda>x. Q x \<and> P x) xs"
  by (induction xs) auto

lemma find_map: "find P (map f xs) = map_option f (find (\<lambda>x. P (f x)) xs)"
  by (induction xs) auto

lemma merge_route_find:
  "merge_route r ds =
     (case find (\<lambda>i. same_slot (ds ! i) r) [0..<length ds] of
        Some i \<Rightarrow> if should_replace_duplicate_route (ds ! i) r then ds[i := r] else ds
      | None \<Rightarrow> ds @ [r])"
proof (induction ds)
  case (Cons x xs)
  have "[0..<length (x # xs)] = 0 # map Suc [0..<length xs]" by (simp add: map_Suc_upt upt_conv_Cons del: upt_Suc)
  then show ?case using Cons by (auto simp: find_map split: option.splits)
qed simp

definition buckets_ok :: "merge_state \<Rightarrow> bool" where
  "buckets_ok st \<longleftrightarrow> (\<forall>p m. snd st (p, m) =
     filter (\<lambda>i. route_provider (fst st ! i) = p \<and> route_model (fst st ! i) = m) [0..<length (fst st)])"

lemma dedupe_step_linear:
  assumes "buckets_ok st"
  shows "fst (dedupe_step r st) = merge_route r (fst st) \<and> buckets_ok (dedupe_step r st)"
proof -
  obtain ds b where st: "st = (ds, b)" by (cases st)
  let ?key = "(route_provider r, route_model r)"
  have b: "b (p, m) = filter (\<lambda>i. route_provider (ds ! i) = p \<and> route_model (ds ! i) = m) [0..<length ds]" for p m
    using assms by (simp add: st buckets_ok_def)
  have f: "find (\<lambda>i. duplicate_route_api_method (route_method (ds ! i)) (route_method r)) (b ?key)
      = find (\<lambda>i. same_slot (ds ! i) r) [0..<length ds]"
    unfolding b find_filter by (simp add: same_slot_def conj_assoc)
  show ?thesis
  proof (cases "find (\<lambda>i. same_slot (ds ! i) r) [0..<length ds]")
    case None
    then have "buckets_ok (dedupe_step r st)" using f b
      by (auto simp: dedupe_step_def st buckets_ok_def nth_append intro!: filter_cong)
    with None f show ?thesis by (simp add: dedupe_step_def st merge_route_find Let_def)
  next
    case (Some i)
    then have i: "i < length ds" "same_slot (ds ! i) r" by (auto simp: find_Some_iff)
    then have "buckets_ok (ds[i := r], b)"
      using b by (auto simp: buckets_ok_def nth_list_update same_slot_def intro!: filter_cong)
    with Some f assms st show ?thesis by (simp add: dedupe_step_def merge_route_find Let_def)
  qed
qed

lemma dedupe_is_linear: "dedupe_model_routes routes = merge_linear routes"
proof -
  have "fst (fold dedupe_step routes st) = fold merge_route routes (fst st) \<and> buckets_ok (fold dedupe_step routes st)"
    if "buckets_ok st" for st
    using that by (induction routes arbitrary: st) (simp_all add: dedupe_step_linear)
  from this [of "([], \<lambda>_. [])"] show ?thesis
    by (simp add: dedupe_model_routes_def merge_linear_def buckets_ok_def)
qed

lemma merge_route_set: "set (merge_route r ds) \<subseteq> insert r (set ds)" "merge_route r ds \<noteq> []"
  by (induction ds) auto

lemma same_slot_sym: "same_slot x y = same_slot y x"
  by (auto simp: same_slot_def duplicate_route_api_method_def)

lemma profile_not_generic: "is_profile_openai_compatible_route m \<Longrightarrow> \<not> is_generic_openai_compatible_route m"
  by (auto simp: is_profile_openai_compatible_route_def is_generic_openai_compatible_route_def)

lemma replaced_is_generic:
  "same_slot x r \<Longrightarrow> should_replace_duplicate_route x r \<Longrightarrow>
     is_generic_openai_compatible_route (route_method x) \<and> is_profile_openai_compatible_route (route_method r)"
  by (auto simp: same_slot_def should_replace_duplicate_route_def duplicate_route_api_method_def)

lemma merge_route_distinct:
  assumes "sorted_wrt (\<lambda>x y. \<not> same_slot x y) ds"
  shows "sorted_wrt (\<lambda>x y. \<not> same_slot x y) (merge_route r ds)"
  using assms
proof (induction ds)
  case (Cons x xs)
  show ?case
  proof (cases "same_slot x r")
    case True
    have "\<not> same_slot r y" if "should_replace_duplicate_route x r" "\<not> same_slot x y" for y
      using that True replaced_is_generic [OF True that(1)] profile_not_generic
      by (auto simp: same_slot_def duplicate_route_api_method_def is_generic_openai_compatible_route_def)
    with Cons True show ?thesis by auto
  next
    case False
    then show ?thesis using Cons merge_route_set(1) [of r xs] by auto
  qed
qed simp

text \<open>Route \<open>y\<close> stands for route \<open>r\<close>: the same provider and model, by the same method or, for a generic
  route, by a profile.\<close>

definition stands_for :: "ModelRoute \<Rightarrow> ModelRoute \<Rightarrow> bool" where
  "stands_for y r \<longleftrightarrow> route_provider y = route_provider r \<and> route_model y = route_model r \<and>
     (route_method y = route_method r \<or>
      is_generic_openai_compatible_route (route_method r) \<and> is_profile_openai_compatible_route (route_method y))"

lemma merge_route_keeps:
  assumes "y \<in> set ds" and "stands_for y q"
  shows "\<exists>z \<in> set (merge_route r ds). stands_for z q"
  using assms
proof (induction ds)
  case (Cons x xs)
  have "stands_for r q" if "same_slot x r" "should_replace_duplicate_route x r" "stands_for x q"
    using that replaced_is_generic [OF that(1,2)] profile_not_generic
    by (auto simp: stands_for_def same_slot_def is_generic_openai_compatible_route_def)
  with Cons show ?case by (cases "same_slot x r") auto
qed simp

lemma merge_route_new: "\<exists>z \<in> set (merge_route r ds). stands_for z r"
proof (induction ds)
  case (Cons x xs)
  have "stands_for x r" if "same_slot x r" "\<not> should_replace_duplicate_route x r"
    using that profile_not_generic
    by (auto simp: stands_for_def same_slot_def should_replace_duplicate_route_def duplicate_route_api_method_def)
  with Cons show ?case by (auto simp: stands_for_def)
qed (simp add: stands_for_def)

lemma merge_fresh: "\<forall>x \<in> set ds. \<not> same_slot x r \<Longrightarrow> merge_route r ds = ds @ [r]"
  by (induction ds) auto

lemma merge_linear_spec:
  "sorted_wrt (\<lambda>x y. \<not> same_slot x y) (merge_linear rs)" "set (merge_linear rs) \<subseteq> set rs"
  "r \<in> set rs \<Longrightarrow> \<exists>y \<in> set (merge_linear rs). stands_for y r"
proof -
  show "sorted_wrt (\<lambda>x y. \<not> same_slot x y) (merge_linear rs)" unfolding merge_linear_def
    by (induction rs rule: rev_induct) (simp_all add: merge_route_distinct)
  show "set (merge_linear rs) \<subseteq> set rs" unfolding merge_linear_def
    by (induction rs rule: rev_induct) (use merge_route_set(1) in \<open>fastforce+\<close>)
  show "r \<in> set rs \<Longrightarrow> \<exists>y \<in> set (merge_linear rs). stands_for y r" unfolding merge_linear_def
    by (induction rs rule: rev_induct) (auto simp: merge_route_new intro: merge_route_keeps)
qed

lemma merge_linear_id: "sorted_wrt (\<lambda>x y. \<not> same_slot x y) rs \<Longrightarrow> merge_linear rs = rs"
  unfolding merge_linear_def
  by (induction rs rule: rev_induct) (auto simp: sorted_wrt_append merge_fresh)

text \<open>
  Supplement: merging catalogs with buckets is the linear merge. The result equals comparing each route with all
  kept ones; it consists of given routes, has no two routes to one model that differ at most in naming a
  profile, has for every given route one that stands for it, and merging again changes nothing.
\<close>

theorem dedupe_routes_exact:
  "dedupe_model_routes routes = merge_linear routes
   \<and> set (dedupe_model_routes routes) \<subseteq> set routes
   \<and> sorted_wrt (\<lambda>x y. \<not> same_slot x y) (dedupe_model_routes routes)
   \<and> (\<forall>r \<in> set routes. \<exists>y \<in> set (dedupe_model_routes routes). stands_for y r)
   \<and> dedupe_model_routes (dedupe_model_routes routes) = dedupe_model_routes routes"
  by (simp add: dedupe_is_linear merge_linear_spec merge_linear_id)

section \<open>Falling back\<close>

lemma fold_min: "fold min xs (x :: 'a::linorder) \<in> insert x (set xs) \<and> (\<forall>y \<in> insert x (set xs). fold min xs x \<le> y)"
proof (induction xs arbitrary: x)
  case (Cons a xs)
  from Cons [of "min a x"] show ?case by (auto simp: min_def split: if_splits)
qed simp

lemma least_spec: "least xs = None \<longleftrightarrow> xs = []" "least xs = Some m \<Longrightarrow> m \<in> set xs \<and> (\<forall>y \<in> set xs. m \<le> y)"
  using fold_min by (cases xs; fastforce)+

lemma candidates_set:
  "set (fallback_candidates routes model provider method options) =
     {(t, u, i). i < length routes \<and> available (routes ! i)
        \<and> fallback_rank model provider method options (routes ! i) = Some (t, u)}"
  by (force simp: fallback_candidates_def List.map_filter_def in_set_enumerate_eq image_iff)

text \<open>
  Supplement: the offered fallback. A route is ruled out exactly when it is on the failed provider with the
  failed credential (or one that may be it) and either leads to the failed model or the credential itself
  failed. Nothing is offered exactly when every available route is ruled out; what is offered is
  available, not ruled out, and least by tier (same model, same provider, other), then subscription
  logins first, then catalog order.
\<close>

theorem fallback_pick_exact:
  "(fallback_rank model provider method options r = None \<longleftrightarrow>
      same_provider provider r \<and> (api_methods_match (route_method r) method \<or> trim method = [])
      \<and> (models_match (route_model r) model \<or> credential_failure options))
   \<and> (pick_next_fallback_route_with_options routes model provider method options = None \<longleftrightarrow>
        list_all (\<lambda>q. available q \<longrightarrow> fallback_rank model provider method options q = None) routes)
   \<and> (case pick_next_fallback_route_with_options routes model provider method options of
        None \<Rightarrow> True
      | Some i \<Rightarrow> i < length routes \<and> available (routes ! i)
          \<and> (\<exists>t u. fallback_rank model provider method options (routes ! i) = Some (t, u)
              \<and> (\<forall>j t' u'. j < length routes \<and> available (routes ! j)
                  \<and> fallback_rank model provider method options (routes ! j) = Some (t', u') \<longrightarrow>
                  (t, u, i) \<le> (t', u', j))))"
proof -
  let ?c = "fallback_candidates routes model provider method options"
  have ruled: "fallback_rank model provider method options r = None \<longleftrightarrow>
      same_provider provider r \<and> (api_methods_match (route_method r) method \<or> trim method = [])
      \<and> (models_match (route_model r) model \<or> credential_failure options)"
    by (auto simp: fallback_rank_def Let_def)
  have none: "pick_next_fallback_route_with_options routes model provider method options = None \<longleftrightarrow>
        list_all (\<lambda>q. available q \<longrightarrow> fallback_rank model provider method options q = None) routes"
  proof -
    have "?c = [] \<longleftrightarrow> (\<forall>i < length routes. available (routes ! i) \<longrightarrow>
        fallback_rank model provider method options (routes ! i) = None)"
      unfolding set_empty [symmetric] candidates_set by auto (metis not_None_eq surj_pair)
    then show ?thesis
      by (simp add: pick_next_fallback_route_with_options_def least_spec(1) list_all_length)
  qed
  have some: "i < length routes \<and> available (routes ! i)
      \<and> (\<exists>t u. fallback_rank model provider method options (routes ! i) = Some (t, u)
          \<and> (\<forall>j t' u'. j < length routes \<and> available (routes ! j)
              \<and> fallback_rank model provider method options (routes ! j) = Some (t', u') \<longrightarrow>
              (t, u, i) \<le> (t', u', j)))"
    if "pick_next_fallback_route_with_options routes model provider method options = Some i" for i
  proof -
    from that obtain t u where "least ?c = Some (t, u, i)"
      by (auto simp: pick_next_fallback_route_with_options_def)
    from least_spec(2) [OF this] show ?thesis unfolding candidates_set by blast
  qed
  show ?thesis using ruled none some by (simp split: option.split)
qed

section \<open>Retrying\<close>

lemma delta_seconds: "list_all is_ascii_digit s \<Longrightarrow> parse_delta_seconds s = min 60 (digits_val s)"
proof (induction s rule: rev_induct)
  case (snoc c s)
  then have "byte c - 48 = digit_val c" "digit_val c \<le> 9" "parse_delta_seconds s = min 60 (digits_val s)"
    by (auto simp: digit_val_def is_ascii_digit_def)
  then show ?case
    by (simp add: parse_delta_seconds_def digits_val_def MAX_RETRY_AFTER_def sat_add_def min_def)
qed (simp add: parse_delta_seconds_def digits_val_def)

text \<open>
  Supplement: the delay a server asks for is honoured up to a minute. Digits of any length mean that many
  seconds, capped at 60, without overflow; a date means the time until then, never negative and capped;
  every other value, and a missing or blank header, is ignored.
\<close>

theorem retry_after_capped:
  "retry_after_delay_at http_date header now =
     (case header of
        None \<Rightarrow> None
      | Some h \<Rightarrow>
          if trim h = [] then None
          else if list_all is_ascii_digit (trim h) then Some (min 60 (digits_val (trim h)) * 10 ^ 9)
          else map_option (\<lambda>t. min (t - now) (60 * 10 ^ 9)) (http_date (trim h)))
   \<and> (case retry_after_delay_at http_date header now of None \<Rightarrow> True | Some d \<Rightarrow> d \<le> 60 * 10 ^ 9)"
proof -
  have "retry_after_delay_at http_date header now =
     (case header of
        None \<Rightarrow> None
      | Some h \<Rightarrow>
          if trim h = [] then None
          else if list_all is_ascii_digit (trim h) then Some (min 60 (digits_val (trim h)) * 10 ^ 9)
          else map_option (\<lambda>t. min (t - now) (60 * 10 ^ 9)) (http_date (trim h)))"
    by (simp add: retry_after_delay_at_def Let_def delta_seconds MAX_RETRY_AFTER_def split: option.split)
  then show ?thesis by (auto split: option.split)
qed

section \<open>Failing over\<close>

lemma lines_from_first:
  "CHR 0x0A \<notin> set a \<Longrightarrow> lines_from acc (a @ CHR 0x0A # b) = strip_cr (acc @ a) # lines_from [] b"
  by (induction a arbitrary: acc) auto

text \<open>
  Supplement: the failover prompt survives the trip through an error message. For a JSON codec that reads back
  what it wrote and writes one line that ends in a brace, the message of a prompt parses to that prompt.
\<close>

theorem failover_prompt_roundtrip:
  assumes codec: "from_json (to_json p) = Some p" and line: "CHR 0x0A \<notin> set (to_json p)"
    and brace: "to_json p \<noteq> []" "last (to_json p) = CHR ''}''"
  shows "parse_failover_prompt_message from_json (to_error_message to_json p) = Some p"
proof -
  let ?l = "PROVIDER_FAILOVER_PROMPT_PREFIX @ to_json p"
  have nl: "CHR 0x0A \<notin> set ?l" using line by (simp add: PROVIDER_FAILOVER_PROMPT_PREFIX_def)
  have ends: "last ?l = CHR ''}''" "hd ?l = CHR ''[''" using brace by (simp_all add: PROVIDER_FAILOVER_PROMPT_PREFIX_def)
  then have "trim ?l = ?l" by (intro trim_plain_ends) simp
  moreover have "strip_cr ?l = ?l" using ends by (simp add: strip_cr_def)
  moreover obtain rest where "to_error_message to_json p = ?l @ CHR 0x0A # rest" by (simp add: to_error_message_def)
  ultimately show ?thesis using lines_from_first [OF nl, of "[]" rest] codec
    by (simp add: parse_failover_prompt_message_def str_lines_def strip_prefix_def)
qed

definition demo_prompt :: ProviderFailoverPrompt where
  "demo_prompt = \<lparr>from_provider = ''claude'', from_label = ''Anthropic'', to_provider = ''openai'',
     to_label = ''OpenAI'', failover_reason = ''rate limit'', estimated_input_chars = 1200,
     estimated_input_tokens = 300\<rparr>"

theorem failover_prompt_roundtrip_witness:
  "parse_failover_prompt_message (\<lambda>s. if s = ''{1}'' then Some demo_prompt else None)
     (to_error_message (\<lambda>_. ''{1}'') demo_prompt) = Some demo_prompt"
  by (rule failover_prompt_roundtrip) simp_all

section \<open>Selecting\<close>

text \<open>
  Supplement: provider selection. The default is configured whenever any provider is, keys are read back as
  their provider, and the sequence of fallbacks starts with the active provider and repeats none.
\<close>

theorem provider_selection_sound:
  "((\<exists>p. is_configured a p) \<longrightarrow> is_configured a (auto_default_provider a))
   \<and> parse_provider_hint (provider_key p) = Some p \<and> provider_from_model_key (provider_key p) = Some p
   \<and> hd (fallback_sequence p) = p \<and> distinct (fallback_sequence p)
   \<and> {ActClaude, ActOpenAI, ActCopilot, ActGemini, ActCursor, ActOpenRouter} \<subseteq> set (fallback_sequence p)"
proof -
  have "is_configured a (auto_default_provider a)" if "is_configured a q" for q
    using that by (cases q) (auto simp: auto_default_provider_def)
  moreover have "plain_key (provider_key p)" by (cases p) (simp_all add: plain_key_def)
  then have "parse_provider_hint (provider_key p) = Some p"
    by (cases p) (simp_all add: parse_provider_hint_def plain_key_trim plain_key_lower)
  moreover have "provider_from_model_key (provider_key p) = Some p"
    by (cases p) (simp_all add: provider_from_model_key_def)
  moreover have "hd (fallback_sequence p) = p \<and> distinct (fallback_sequence p)
    \<and> {ActClaude, ActOpenAI, ActCopilot, ActGemini, ActCursor, ActOpenRouter} \<subseteq> set (fallback_sequence p)"
    by (cases p) simp_all
  ultimately show ?thesis by blast
qed

section \<open>Instances\<close>

definition demo_routes :: "ModelRoute list" where
  "demo_routes = map (\<lambda>(m, p, k). \<lparr>route_model = m, route_provider = p, route_method = k, available = True,
     route_detail = [], cheapness = None\<rparr>)
     [(''gpt'', ''nim'', ''openai-compatible''), (''gpt'', ''nim'', ''openai-compatible:nim''),
      (''opus'', ''anthropic'', ''claude-oauth'')]"

theorem dedupe_routes_exact_witness:
  "length (dedupe_model_routes demo_routes) = 2 \<and> set (dedupe_model_routes demo_routes) \<subseteq> set demo_routes"
proof -
  have "length (merge_linear demo_routes) = 2"
    by (simp add: merge_linear_def demo_routes_def same_slot_def duplicate_route_api_method_def
        is_generic_openai_compatible_route_def is_profile_openai_compatible_route_def)
  moreover from dedupe_routes_exact [of demo_routes] have "dedupe_model_routes demo_routes = merge_linear demo_routes"
    and "set (dedupe_model_routes demo_routes) \<subseteq> set demo_routes" by blast+
  ultimately show ?thesis by (simp only: simp_thms)
qed

definition twin_routes :: "ModelRoute list" where
  "twin_routes = map (\<lambda>k. \<lparr>route_model = ''opus'', route_provider = ''anthropic'', route_method = k, available = True,
     route_detail = [], cheapness = None\<rparr>) [''claude-api'', ''claude-oauth'']"

lemma twin_ranks:
  "fallback_rank ''opus'' ''claude'' ''claude-api'' \<lparr>credential_failure = True\<rparr> (twin_routes ! 0) = None"
  "fallback_rank ''opus'' ''claude'' ''claude-api'' \<lparr>credential_failure = True\<rparr> (twin_routes ! 1) = Some (0, 0)"
proof -
  have m: "method_parse ''claude-api'' = AnthropicApiKey" "method_parse ''claude-oauth'' = ClaudeOAuth"
    using plain_key_views(3) [OF plain_values(3) alias_values(3)] plain_key_views(3) [OF plain_values(2) alias_values(2)]
    by (simp_all add: vocabulary)
  have "plain_key ''anthropic''" by (simp add: plain_key_def)
  then have "normalize_model_route_provider_label ''anthropic'' = ''anthropic''"
    "normalize_model_route_provider_label ''claude'' = ''claude''"
    using plain_values(1) by (simp_all add: normalize_model_route_provider_label_def plain_key_trim plain_key_lower)
  then have "model_route_provider_labels_match ''anthropic'' ''claude''"
    by (simp add: model_route_provider_labels_match_def label_aliases_def)
  then have p: "same_provider ''claude'' (twin_routes ! 0)" "same_provider ''claude'' (twin_routes ! 1)"
    by (simp_all add: same_provider_def twin_routes_def)
  show "fallback_rank ''opus'' ''claude'' ''claude-api'' \<lparr>credential_failure = True\<rparr> (twin_routes ! 0) = None"
    using p(1) by (simp add: fallback_rank_def Let_def api_methods_match_def twin_routes_def)
  show "fallback_rank ''opus'' ''claude'' ''claude-api'' \<lparr>credential_failure = True\<rparr> (twin_routes ! 1) = Some (0, 0)"
    using p(2) plain_key_trim(1) [OF plain_values(3)]
    by (simp add: fallback_rank_def Let_def api_methods_match_def twin_routes_def m models_match_def eq_ignore_ascii_case_def)
qed

theorem fallback_pick_exact_witness:
  "pick_next_fallback_route_with_options twin_routes ''opus'' ''claude'' ''claude-api'' \<lparr>credential_failure = True\<rparr> = Some 1"
proof -
  let ?pick = "pick_next_fallback_route_with_options twin_routes ''opus'' ''claude'' ''claude-api'' \<lparr>credential_failure = True\<rparr>"
  note exact = fallback_pick_exact [of "''opus''" "''claude''" "''claude-api''" "\<lparr>credential_failure = True\<rparr>"
    "twin_routes ! 0" twin_routes]
  have len: "length twin_routes = 2" "available (twin_routes ! 1)" by (simp_all add: twin_routes_def)
  then have "?pick \<noteq> None" using exact twin_ranks(2) by (auto simp: list_all_length)
  then obtain i where i: "?pick = Some i" by blast
  with exact len(1) have "i < 2"
    and "fallback_rank ''opus'' ''claude'' ''claude-api'' \<lparr>credential_failure = True\<rparr> (twin_routes ! i) \<noteq> None"
    by auto
  with twin_ranks(1) have "i = 1" by (cases "i = 0") auto
  with i show ?thesis by simp
qed

theorem provider_selection_sound_witness:
  "is_configured \<lparr>av_openai = False, av_claude = False, av_copilot = False, av_antigravity = False, av_gemini = True,
     av_cursor = False, av_bedrock = False, av_openrouter = False, copilot_premium_zero = False\<rparr>
     (auto_default_provider \<lparr>av_openai = False, av_claude = False, av_copilot = False, av_antigravity = False,
       av_gemini = True, av_cursor = False, av_bedrock = False, av_openrouter = False, copilot_premium_zero = False\<rparr>)"
proof -
  let ?a = "\<lparr>av_openai = False, av_claude = False, av_copilot = False, av_antigravity = False, av_gemini = True,
     av_cursor = False, av_bedrock = False, av_openrouter = False, copilot_premium_zero = False\<rparr>"
  have "is_configured ?a ActGemini" by simp
  with provider_selection_sound [of ?a ActGemini] show ?thesis by blast
qed

end
