(* ===== verification/Tool_Pairing.thy ===== *)
theory Tool_Pairing
  imports Message_Types
begin

text \<open>
  Tool calls and their results in a transcript, as the request builders of the OpenAI and the
  OpenRouter providers treat them (\<^verbatim>\<open>src/crates/jcode-provider-openai/src/request.rs\<close>,
  \<^verbatim>\<open>src/crates/jcode-provider-openrouter/src/request.rs\<close>): both first record where the last
  result of every tool id stands, then walk the transcript matching calls and results, and finally
  put the outputs directly behind their calls. This theory holds the shared helpers, the invariant
  of the walk with its step lemmas, and the contract of the final pass as a locale.
\<close>

section \<open>Results and calls of a transcript\<close>

definition missing_output :: str where
  "missing_output = ''[Error] '' @ TOOL_OUTPUT_MISSING_TEXT"

definition result_output :: "str \<Rightarrow> bool option \<Rightarrow> str" where
  "result_output content is_error = (if is_error = Some True then ''[Error] '' @ content else content)"

definition tool_arguments :: "(json \<Rightarrow> str) \<Rightarrow> json \<Rightarrow> str" where
  "tool_arguments to_json input = (if is_object input then to_json input else ''{}'')"

fun block_outputs :: "ContentBlock \<Rightarrow> (str \<times> str) list" where
  "block_outputs (ToolResult i content is_error) = [(i, result_output content is_error)]"
| "block_outputs _ = []"

fun block_calls :: "ContentBlock \<Rightarrow> str list" where
  "block_calls (ToolUse i _ _ _) = [i]"
| "block_calls _ = []"

definition message_results :: "Message \<Rightarrow> (str \<times> str) list" where
  "message_results m =
     (case msg_role m of User \<Rightarrow> concat (map block_outputs (msg_content m)) | Assistant \<Rightarrow> [])"

definition message_uses :: "Message \<Rightarrow> str list" where
  "message_uses m =
     (case msg_role m of User \<Rightarrow> [] | Assistant \<Rightarrow> concat (map block_calls (msg_content m)))"

definition transcript_results :: "Message list \<Rightarrow> (str \<times> str) list" where
  "transcript_results ms = concat (map message_results ms)"

definition transcript_uses :: "Message list \<Rightarrow> str list" where
  "transcript_uses ms = concat (map message_uses ms)"

text \<open>The text a call is answered with: its first result, or the notice that there is none.\<close>

definition answer :: "Message list \<Rightarrow> str \<Rightarrow> str" where
  "answer ms i = (case map_of (transcript_results ms) i of Some t \<Rightarrow> t | None \<Rightarrow> missing_output)"

text \<open>The map \<open>tool_result_last_pos\<close>: the position of the last message with a result of an id.\<close>

fun last_pos_from :: "nat \<Rightarrow> Message list \<Rightarrow> (str \<rightharpoonup> nat) \<Rightarrow> (str \<rightharpoonup> nat)" where
  "last_pos_from idx [] pos = pos"
| "last_pos_from idx (m # ms) pos =
     last_pos_from (Suc idx) ms (foldl (\<lambda>pos r. pos(fst r \<mapsto> idx)) pos (message_results m))"

definition tool_result_last_pos :: "Message list \<Rightarrow> (str \<rightharpoonup> nat)" where
  "tool_result_last_pos ms = last_pos_from 0 ms Map.empty"

definition has_future_output :: "(str \<rightharpoonup> nat) \<Rightarrow> nat \<Rightarrow> str \<Rightarrow> bool" where
  "has_future_output pos idx i = (case pos i of Some p \<Rightarrow> idx < p | None \<Rightarrow> False)"

lemma transcript_results_simps [simp]:
  "transcript_results [] = []"
  "transcript_results (m # ms) = message_results m @ transcript_results ms"
  "transcript_results (ms @ ns) = transcript_results ms @ transcript_results ns"
  by (simp_all add: transcript_results_def)

lemma transcript_uses_simps [simp]:
  "transcript_uses [] = []"
  "transcript_uses (m # ms) = message_uses m @ transcript_uses ms"
  "transcript_uses (ms @ ns) = transcript_uses ms @ transcript_uses ns"
  by (simp_all add: transcript_uses_def)

lemma record_results:
  "foldl (\<lambda>pos r. pos(fst r \<mapsto> idx)) pos rs i = (if i \<in> fst ` set rs then Some idx else pos i)"
  by (induction rs arbitrary: pos) auto

lemma last_pos_from_append:
  "last_pos_from idx (ms @ ns) pos = last_pos_from (idx + length ms) ns (last_pos_from idx ms pos)"
  by (induction ms arbitrary: idx pos) simp_all

lemma last_pos_from_other:
  "i \<notin> fst ` set (transcript_results ms) \<Longrightarrow> last_pos_from idx ms pos i = pos i"
proof (induction ms arbitrary: idx pos)
  case (Cons m ms)
  then have "i \<notin> fst ` set (message_results m)" by auto
  with Cons show ?case by (simp add: record_results image_Un)
qed simp

lemma last_pos_from_future:
  assumes "case pos i of Some p \<Rightarrow> p < idx | None \<Rightarrow> True"
  shows "(case last_pos_from idx ms pos i of Some p \<Rightarrow> idx \<le> p | None \<Rightarrow> False)
    \<longleftrightarrow> i \<in> fst ` set (transcript_results ms)"
  using assms
proof (induction ms arbitrary: idx pos)
  case Nil
  then show ?case by (auto split: option.splits)
next
  case (Cons m ms)
  let ?pos = "foldl (\<lambda>pos r. pos(fst r \<mapsto> idx)) pos (message_results m)"
  have s: "?pos i = (if i \<in> fst ` set (message_results m) then Some idx else pos i)"
    by (rule record_results)
  have "case ?pos i of Some p \<Rightarrow> p < Suc idx | None \<Rightarrow> True"
    using Cons.prems by (auto simp: s split: option.splits)
  note ih = Cons.IH [where pos = ?pos and idx = "Suc idx", OF this]
  show ?case
  proof (cases "i \<in> fst ` set (transcript_results ms)")
    case True
    then show ?thesis using ih by (auto split: option.splits)
  next
    case False
    have "last_pos_from (Suc idx) ms ?pos i = ?pos i"
      using False by (rule last_pos_from_other)
    then show ?thesis using False Cons.prems by (auto simp: s split: option.splits)
  qed
qed

lemma last_pos_from_bound:
  "(\<And>p. pos i = Some p \<Longrightarrow> p < idx + length ms) \<Longrightarrow> last_pos_from idx ms pos i = Some p
    \<Longrightarrow> p < idx + length ms"
proof (induction ms arbitrary: idx pos)
  case (Cons m ms)
  then show ?case
    by (auto simp: record_results split: if_splits dest!: Cons.IH [rotated])
qed simp

text \<open>The recorded position tells exactly whether a later message still brings a result.\<close>

lemma has_future_output_iff:
  "has_future_output (tool_result_last_pos (pre @ m # post)) (length pre) i
    \<longleftrightarrow> i \<in> fst ` set (transcript_results post)"
proof -
  let ?q = "last_pos_from 0 (pre @ [m]) Map.empty"
  have b: "case ?q i of Some p \<Rightarrow> p < Suc (length pre) | None \<Rightarrow> True"
    by (auto split: option.splits dest!: last_pos_from_bound [rotated])
  have "tool_result_last_pos (pre @ m # post) = last_pos_from (Suc (length pre)) post ?q"
    using last_pos_from_append [of 0 "pre @ [m]" post Map.empty] by (simp add: tool_result_last_pos_def)
  then show ?thesis
    using last_pos_from_future [where pos = ?q and idx = "Suc (length pre)" and ms = post, OF b]
    by (auto simp: has_future_output_def split: option.splits)
qed

section \<open>The invariant of the walk\<close>

text \<open>
  \<open>pre\<close> are the results met so far and \<open>post\<close> those still to come; \<open>called\<close> are the ids called so
  far, \<open>pending\<close> the results that arrived before their call, \<open>used\<close> the ids whose output is emitted
  and \<open>emitted\<close> the outputs themselves.
\<close>

definition tracked ::
  "(str \<times> str) list \<Rightarrow> (str \<times> str) list \<Rightarrow> str set \<Rightarrow> (str \<rightharpoonup> str) \<Rightarrow> str set \<Rightarrow> (str \<times> str) list \<Rightarrow> bool" where
  "tracked pre post called pending used emitted \<longleftrightarrow>
     (\<forall>i. i \<in> fst ` set pre \<longrightarrow> i \<in> used \<or> i \<in> dom pending)
   \<and> (\<forall>i t. pending i = Some t \<longrightarrow> map_of pre i = Some t \<and> i \<notin> called)
   \<and> (\<forall>i. i \<in> used \<longrightarrow> i \<in> called
        \<and> (i, case map_of (pre @ post) i of Some t \<Rightarrow> t | None \<Rightarrow> missing_output) \<in> set emitted)
   \<and> (\<forall>i t. (i, t) \<in> set emitted \<longrightarrow> i \<in> called \<and> (map_of (pre @ post) i = Some t \<or> t = missing_output))
   \<and> called - used \<subseteq> fst ` set post"

lemma tracked_start: "tracked [] post {} Map.empty {} []"
  by (simp add: tracked_def)

lemma tracked_fresh:
  assumes "tracked pre post called pending used emitted" and "i \<notin> used" and "i \<in> called \<or> pending i = None"
  shows "map_of pre i = None"
  using assms unfolding tracked_def by (auto simp: map_of_eq_None_iff dom_def)

lemma tracked_pending_unused:
  assumes "tracked pre post called pending used emitted" and "pending i = Some t"
  shows "i \<notin> called" and "i \<notin> used" and "map_of (pre @ post) i = Some t"
  using assms unfolding tracked_def by (auto simp: map_add_def)

lemma tracked_skip:
  assumes "tracked pre ((i, t) # post) called pending used emitted" and "i \<in> used \<or> i \<in> dom pending"
  shows "tracked (pre @ [(i, t)]) post called pending used emitted"
proof -
  have "i \<notin> called - used" using assms unfolding tracked_def by auto
  then show ?thesis using assms unfolding tracked_def by (auto simp: map_add_def)
qed

lemma tracked_answer:
  assumes "tracked pre ((i, t) # post) called pending used emitted" and "i \<notin> used" and "i \<in> called"
  shows "tracked (pre @ [(i, t)]) post called pending (insert i used) (emitted @ [(i, t)])"
proof -
  have f: "map_of pre i = None" using tracked_fresh assms by blast
  show ?thesis using assms f unfolding tracked_def by (auto simp: map_add_def)
qed

lemma tracked_delay:
  assumes "tracked pre ((i, t) # post) called pending used emitted"
    and "i \<notin> used" and "i \<notin> called" and "pending i = None"
  shows "tracked (pre @ [(i, t)]) post called (pending(i \<mapsto> t)) used emitted"
proof -
  have f: "map_of pre i = None" using tracked_fresh assms by blast
  show ?thesis using assms f unfolding tracked_def by (auto simp: map_add_def)
qed

lemma tracked_call_pending:
  assumes "tracked pre post called pending used emitted" and "pending i = Some t"
  shows "tracked pre post (insert i called) (pending(i := None)) (insert i used) (emitted @ [(i, t)])"
  using assms tracked_pending_unused [OF assms] unfolding tracked_def by auto

lemma tracked_call_open:
  assumes "tracked pre post called pending used emitted" and "pending i = None"
    and "i \<in> fst ` set post"
  shows "tracked pre post (insert i called) pending used emitted"
  using assms unfolding tracked_def by auto

lemma tracked_call_missing:
  assumes t: "tracked pre post called pending used emitted" and p: "pending i = None"
    and "i \<notin> fst ` set post"
  shows "tracked pre post (insert i called) pending (insert i used) (emitted @ [(i, missing_output)])"
proof -
  have "map_of (pre @ post) i = None" if "i \<notin> used"
    using tracked_fresh [OF t that] p assms(3) by (simp add: map_of_eq_None_iff)
  then have "(case map_of (pre @ post) i of Some t \<Rightarrow> t | None \<Rightarrow> missing_output) = missing_output
      \<or> i \<in> used" by (cases "i \<in> used") (simp_all add: map_add_def)
  then show ?thesis using assms unfolding tracked_def by auto
qed

text \<open>After the walk every call is answered and the pending results belong to no call.\<close>

lemma tracked_done:
  assumes "tracked pre [] called pending used emitted"
  shows "called = used"
    and "pending i = (if i \<in> called then None else map_of pre i)"
    and "i \<in> called \<Longrightarrow> (i, case map_of pre i of Some t \<Rightarrow> t | None \<Rightarrow> missing_output) \<in> set emitted"
    and "(i, t) \<in> set emitted \<Longrightarrow> i \<in> called \<and> (map_of pre i = Some t \<or> t = missing_output)"
proof -
  show c: "called = used" using assms unfolding tracked_def by auto
  have "pending i = map_of pre i" if "i \<notin> called"
  proof (cases "map_of pre i")
    case None
    then show ?thesis using assms unfolding tracked_def by (cases "pending i") auto
  next
    case (Some t)
    then have "i \<in> fst ` set pre" by (metis map_of_eq_None_iff option.distinct(1))
    then show ?thesis using assms that c Some unfolding tracked_def by (auto simp: dom_def) 
  qed
  then show "pending i = (if i \<in> called then None else map_of pre i)"
    using assms unfolding tracked_def by (cases "pending i") auto
qed (use assms in \<open>auto simp: tracked_def\<close>)

section \<open>The final pass\<close>

text \<open>Every item with calls is directly followed by one output per call, in order, and there is no
  other output.\<close>

function paired :: "('i \<Rightarrow> str list) \<Rightarrow> ('i \<Rightarrow> str option) \<Rightarrow> 'i list \<Rightarrow> bool" where
  "paired calls_of out_id [] = True"
| "paired calls_of out_id (x # xs) \<longleftrightarrow>
     out_id x = None
   \<and> map out_id (take (length (calls_of x)) xs) = map Some (calls_of x)
   \<and> paired calls_of out_id (drop (length (calls_of x)) xs)"
  by pat_completeness auto
termination by (relation "measure (\<lambda>(_, _, xs). length xs)") auto

text \<open>Every output comes after an item that calls its id.\<close>

fun preceded :: "('i \<Rightarrow> str list) \<Rightarrow> ('i \<Rightarrow> str option) \<Rightarrow> str set \<Rightarrow> 'i list \<Rightarrow> bool" where
  "preceded calls_of out_id seen [] = True"
| "preceded calls_of out_id seen (x # xs) =
     (case out_id x of
        Some c \<Rightarrow> c \<in> seen \<and> preceded calls_of out_id seen xs
      | None \<Rightarrow> preceded calls_of out_id (seen \<union> set (calls_of x)) xs)"

lemma preceded_append:
  "preceded calls_of out_id seen (xs @ ys) \<longleftrightarrow> preceded calls_of out_id seen xs
    \<and> preceded calls_of out_id
        (seen \<union> set (concat (map calls_of (filter (\<lambda>x. out_id x = None) xs)))) ys"
  by (induction xs arbitrary: seen) (auto simp: Un_assoc split: option.splits)

locale call_pairing =
  fixes calls_of :: "'i \<Rightarrow> str list"
    and out_id :: "'i \<Rightarrow> str option"
    and missing_out :: "str \<Rightarrow> 'i"
    and recover :: "'i \<Rightarrow> 'i list"
    and reorder :: "(str \<rightharpoonup> 'i) \<Rightarrow> str set \<Rightarrow> 'i list \<Rightarrow> 'i list"
  assumes reorder_Nil: "reorder m used [] = []"
    and reorder_out: "out_id x = Some c \<Longrightarrow>
      reorder m used (x # xs) = (if c \<in> used then [] else recover x) @ reorder m used xs"
    and reorder_item: "out_id x = None \<Longrightarrow>
      reorder m used (x # xs) =
        x # map (\<lambda>c. case m c of Some y \<Rightarrow> y | None \<Rightarrow> missing_out c) (calls_of x)
          @ reorder m (used \<union> set (calls_of x)) xs"
    and out_id_missing: "out_id (missing_out c) = Some c"
    and recover_plain: "y \<in> set (recover x) \<Longrightarrow> out_id y = None \<and> calls_of y = []"
begin

lemma paired_plain:
  "(\<And>y. y \<in> set ys \<Longrightarrow> out_id y = None \<and> calls_of y = []) \<Longrightarrow>
    paired calls_of out_id (ys @ xs) = paired calls_of out_id xs"
  by (induction ys) simp_all

lemma reorder_paired:
  assumes "\<And>c y. m c = Some y \<Longrightarrow> out_id y = Some c"
  shows "paired calls_of out_id (reorder m used xs)"
proof (induction xs arbitrary: used)
  case (Cons x xs)
  have "out_id (case m c of Some y \<Rightarrow> y | None \<Rightarrow> missing_out c) = Some c" for c
    using assms out_id_missing by (auto split: option.split)
  then show ?case
    by (cases "out_id x") (auto simp: reorder_item reorder_out Cons paired_plain recover_plain comp_def)
qed (simp add: reorder_Nil)

lemma reorder_calls:
  assumes "\<And>c y. m c = Some y \<Longrightarrow> out_id y = Some c"
  shows "concat (map calls_of (filter (\<lambda>x. out_id x = None) (reorder m used xs)))
    = concat (map calls_of (filter (\<lambda>x. out_id x = None) xs))"
proof (induction xs arbitrary: used)
  case (Cons x xs)
  have o: "out_id (case m c of Some y \<Rightarrow> y | None \<Rightarrow> missing_out c) = Some c" for c
    using assms out_id_missing by (auto split: option.split)
  have "concat (map calls_of (filter (\<lambda>y. out_id y = None) (recover x))) = []"
    using recover_plain by auto
  then show ?case
    by (cases "out_id x") (auto simp: reorder_item reorder_out Cons o comp_def)
qed (simp add: reorder_Nil)

lemma reorder_expand:
  assumes "preceded calls_of out_id used xs \<or> (\<forall>x. recover x = [])"
  shows "reorder m used xs =
    concat (map (\<lambda>x. x # map (\<lambda>c. case m c of Some y \<Rightarrow> y | None \<Rightarrow> missing_out c) (calls_of x))
      (filter (\<lambda>x. out_id x = None) xs))"
  using assms
proof (induction xs arbitrary: used)
  case (Cons x xs)
  then show ?case by (cases "out_id x") (auto simp: reorder_item reorder_out)
qed (simp add: reorder_Nil)

end

section \<open>Choosing the output of an id\<close>

text \<open>Both builders keep the first output of an id, unless it is the notice of a missing output and
  a real one follows.\<close>

locale output_choice =
  fixes mk_out :: "str \<Rightarrow> str \<Rightarrow> 'i"
    and out_id :: "'i \<Rightarrow> str option"
    and outputs :: "'i list \<Rightarrow> (str \<times> str) list"
    and note_out :: "(str \<rightharpoonup> 'i) \<Rightarrow> 'i \<Rightarrow> (str \<rightharpoonup> 'i)"
  assumes out_id_mk: "out_id (mk_out c t) = Some c"
    and out_id_cases: "out_id x = Some c \<Longrightarrow> \<exists>t. x = mk_out c t"
    and outputs_Nil: "outputs [] = []"
    and outputs_mk: "outputs (mk_out c t # xs) = (c, t) # outputs xs"
    and outputs_plain: "out_id x = None \<Longrightarrow> outputs (x # xs) = outputs xs"
    and note_plain: "out_id x = None \<Longrightarrow> note_out m x = m"
    and note_new: "m c = None \<Longrightarrow> note_out m (mk_out c t) = m(c \<mapsto> mk_out c t)"
    and note_old: "m c = Some (mk_out c u) \<Longrightarrow> note_out m (mk_out c t) =
      (if u = missing_output \<and> t \<noteq> missing_output then m(c \<mapsto> mk_out c t) else m)"
begin

lemma note_outs_ids:
  assumes "\<And>c y. m c = Some y \<Longrightarrow> out_id y = Some c" and "foldl note_out m xs c = Some y"
  shows "out_id y = Some c"
  using assms
proof (induction xs arbitrary: m)
  case (Cons x xs)
  have "note_out m x d = Some z \<Longrightarrow> out_id z = Some d" for d z
  proof (cases "out_id x")
    case None
    then show "note_out m x d = Some z \<Longrightarrow> out_id z = Some d" using Cons.prems(1) by (simp add: note_plain)
  next
    case (Some e)
    then obtain t where x: "x = mk_out e t" using out_id_cases by blast
    assume a: "note_out m x d = Some z"
    show "out_id z = Some d"
    proof (cases "m e")
      case None
      then show ?thesis using a Cons.prems(1) by (auto simp: x note_new out_id_mk split: if_splits)
    next
      case (Some old)
      then obtain u where "old = mk_out e u" using Cons.prems(1) out_id_cases by blast
      with Some show ?thesis
        using a Cons.prems(1) by (auto simp: x note_old out_id_mk split: if_splits)
    qed
  qed
  then show ?case using Cons.IH [of "note_out m x"] Cons.prems(2) by simp
qed simp

lemma outputs_chosen_ids: "foldl note_out Map.empty xs c = Some y \<Longrightarrow> out_id y = Some c"
  by (rule note_outs_ids [of Map.empty]) simp_all

lemma note_outs_best:
  assumes "\<And>c y. m c = Some y \<Longrightarrow> out_id y = Some c"
    and "(c, a) \<in> set (outputs xs) \<and> (m c = None \<or> m c = Some (mk_out c missing_output))
      \<or> m c = Some (mk_out c a)"
    and "\<forall>(k, t) \<in> set (outputs xs). k = c \<longrightarrow> t = a \<or> t = missing_output"
  shows "foldl note_out m xs c = Some (mk_out c a)"
  using assms
proof (induction xs arbitrary: m)
  case Nil
  then show ?case by (simp add: outputs_Nil)
next
  case (Cons x xs)
  have ids: "note_out m x d = Some y \<Longrightarrow> out_id y = Some d" for d y
    using note_outs_ids [of m "[x]" d y] Cons.prems(1) by simp
  show ?case
  proof (cases "out_id x")
    case None
    then show ?thesis using Cons by (simp add: note_plain outputs_plain)
  next
    case (Some e)
    then obtain t where x: "x = mk_out e t" using out_id_cases by blast
    have rest: "\<forall>(k, t) \<in> set (outputs xs). k = c \<longrightarrow> t = a \<or> t = missing_output"
      using Cons.prems(3) by (simp add: x outputs_mk)
    have "(c, a) \<in> set (outputs xs) \<and> (note_out m x c = None \<or> note_out m x c = Some (mk_out c missing_output))
        \<or> note_out m x c = Some (mk_out c a)"
    proof (cases "e = c")
      case False
      have "note_out m x c = m c"
      proof (cases "m e")
        case (Some old)
        then obtain u where "old = mk_out e u" using Cons.prems(1) out_id_cases by blast
        with Some False show ?thesis by (simp add: x note_old)
      qed (use False in \<open>simp add: x note_new\<close>)
      then show ?thesis using Cons.prems(2) False by (simp add: x outputs_mk)
    next
      case True
      have ta: "t = a \<or> t = missing_output" using Cons.prems(3) True by (simp add: x outputs_mk)
      consider "m c = None" | "m c = Some (mk_out c missing_output)" | "m c = Some (mk_out c a)"
        using Cons.prems(2) by (elim disjE conjE) simp_all
      then show ?thesis
        by cases (use True ta Cons.prems(2) in \<open>auto simp: x outputs_mk note_new note_old\<close>)
    qed
    from Cons.IH [of "note_out m x", OF ids this rest] show ?thesis by simp
  qed
qed

lemma best_output_chosen:
  assumes "(c, a) \<in> set (outputs xs)"
    and "\<forall>(k, t) \<in> set (outputs xs). k = c \<longrightarrow> t = a \<or> t = missing_output"
  shows "foldl note_out Map.empty xs c = Some (mk_out c a)"
  by (rule note_outs_best) (use assms in auto)

end

end
