(* ===== verification/Openai_Request.thy ===== *)
theory Openai_Request
  imports Tool_Pairing Compaction_Manager "HOL-Library.AList" "HOL-Library.Multiset"
begin

text \<open>
  The input of an OpenAI Responses request (\<^verbatim>\<open>src/crates/jcode-provider-openai/src/request.rs\<close>).
  The builder walks the transcript once, emitting items and matching tool results with tool calls,
  recovers results without a call as user messages, injects outputs for calls without one and
  reorders the items so that every output directly follows its call. An item is a datatype with
  one constructor per JSON shape the code builds, \<open>item_json\<close> is the JSON itself; the logger and
  the counters that only it reads are left out. \<open>to_json\<close> stands for \<open>serde_json::to_string\<close> and
  \<open>hash_order\<close> for the iteration order of a \<open>HashSet\<close>.
\<close>

section \<open>Items\<close>

datatype input_part = InputText str | InputImage str | OutputText str

datatype input_item =
    MessageItem Role "input_part list"
  | CompactionItem str
  | ReasoningItem str "str list" "str option" "str option"
  | FunctionCall str str str
  | FunctionCallOutput str str

fun part_json :: "input_part \<Rightarrow> json" where
  "part_json (InputText t) = JObject [(''type'', JString ''input_text''), (''text'', JString t)]"
| "part_json (InputImage u) = JObject [(''type'', JString ''input_image''), (''image_url'', JString u)]"
| "part_json (OutputText t) = JObject [(''type'', JString ''output_text''), (''text'', JString t)]"

definition role_text :: "Role \<Rightarrow> str" where
  "role_text r = (case r of User \<Rightarrow> ''user'' | Assistant \<Rightarrow> ''assistant'')"

definition opt_field :: "str \<Rightarrow> str option \<Rightarrow> (str \<times> json) list" where
  "opt_field k v = (case v of Some s \<Rightarrow> [(k, JString s)] | None \<Rightarrow> [])"

fun item_json :: "input_item \<Rightarrow> json" where
  "item_json (MessageItem r parts) =
     JObject [(''type'', JString ''message''), (''role'', JString (role_text r)),
       (''content'', JArray (map part_json parts))]"
| "item_json (CompactionItem e) =
     JObject [(''type'', JString ''compaction''), (''encrypted_content'', JString e)]"
| "item_json (ReasoningItem i summary e status) =
     JObject ([(''type'', JString ''reasoning''), (''id'', JString i),
       (''summary'', JArray (map (\<lambda>t. JObject [(''type'', JString ''summary_text''),
          (''text'', JString t)]) summary))]
       @ opt_field ''encrypted_content'' e @ opt_field ''status'' status)"
| "item_json (FunctionCall name arguments c) =
     JObject [(''type'', JString ''function_call''), (''name'', JString name),
       (''arguments'', JString arguments), (''call_id'', JString c)]"
| "item_json (FunctionCallOutput c output) =
     JObject [(''type'', JString ''function_call_output''), (''call_id'', JString c),
       (''output'', JString output)]"

fun item_calls :: "input_item \<Rightarrow> str list" where
  "item_calls (FunctionCall _ _ c) = [c]"
| "item_calls _ = []"

fun item_out :: "input_item \<Rightarrow> str option" where
  "item_out (FunctionCallOutput c _) = Some c"
| "item_out _ = None"

text \<open>The tests of the code on the JSON of an item are the tests on its constructor.\<close>

lemma item_json_tests:
  "json_get ''type'' (item_json x) = Some (JString ''function_call_output'') \<longleftrightarrow> item_out x \<noteq> None"
  "json_get ''type'' (item_json x) = Some (JString ''function_call'') \<longleftrightarrow> item_calls x \<noteq> []"
  "json_get ''type'' (item_json x) \<noteq> Some (JString ''custom_tool_call'')"
  "item_out x = Some c \<Longrightarrow> json_get ''call_id'' (item_json x) = Some (JString c)"
  "item_calls x = [c] \<Longrightarrow> json_get ''call_id'' (item_json x) = Some (JString c)"
  by (cases x; auto)+

section \<open>The walk over the transcript\<close>

record resp_state =
  resp_items :: "input_item list"
  open_calls :: "str list"
  pending_outputs :: "(str \<times> str) list"
  used_outputs :: "str set"

definition push_item :: "input_item \<Rightarrow> resp_state \<Rightarrow> resp_state" where
  "push_item x s = s\<lparr>resp_items := resp_items s @ [x]\<rparr>"

definition flush_parts :: "input_part list \<Rightarrow> resp_state \<Rightarrow> resp_state" where
  "flush_parts parts s = (if parts = [] then s else push_item (MessageItem User parts) s)"

definition compaction_item :: "str \<Rightarrow> input_item" where
  "compaction_item e =
     (if openai_encrypted_content_is_sendable e then CompactionItem e
      else MessageItem User [InputText (openai_encrypted_content_fallback_summary (length e))])"

definition push_result :: "str \<Rightarrow> str \<Rightarrow> resp_state \<Rightarrow> resp_state" where
  "push_result i output s =
     (if i \<in> used_outputs s then s
      else if i \<in> set (open_calls s) then
        (push_item (FunctionCallOutput (sanitize_tool_id i) output) s)
          \<lparr>open_calls := removeAll i (open_calls s), used_outputs := insert i (used_outputs s)\<rparr>
      else if i \<in> fst ` set (pending_outputs s) then s
      else s\<lparr>pending_outputs := (i, output) # pending_outputs s\<rparr>)"

fun user_blocks :: "ContentBlock list \<Rightarrow> input_part list \<Rightarrow> resp_state \<Rightarrow> resp_state" where
  "user_blocks [] parts s = flush_parts parts s"
| "user_blocks (Image media_type data # bs) parts s =
     user_blocks bs (parts @ [InputImage (''data:'' @ media_type @ '';base64,'' @ data)]) s"
| "user_blocks (Text t _ # bs) parts s = user_blocks bs (parts @ [InputText t]) s"
| "user_blocks (OpenAICompaction e # bs) parts s =
     user_blocks bs [] (push_item (compaction_item e) (flush_parts parts s))"
| "user_blocks (ToolResult i content is_error # bs) parts s =
     user_blocks bs [] (push_result i (result_output content is_error) (flush_parts parts s))"
| "user_blocks (_ # bs) parts s = user_blocks bs parts s"

definition push_call :: "(json \<Rightarrow> str) \<Rightarrow> (str \<rightharpoonup> nat) \<Rightarrow> nat \<Rightarrow> str \<Rightarrow> str \<Rightarrow> json \<Rightarrow> resp_state \<Rightarrow> resp_state" where
  "push_call to_json pos idx i name input s =
     (let s = push_item (FunctionCall name (tool_arguments to_json input) (sanitize_tool_id i)) s in
      case map_of (pending_outputs s) i of
        Some output \<Rightarrow>
          (push_item (FunctionCallOutput (sanitize_tool_id i) output) s)
            \<lparr>pending_outputs := AList.delete i (pending_outputs s),
             used_outputs := insert i (used_outputs s)\<rparr>
      | None \<Rightarrow>
          if has_future_output pos idx i then s\<lparr>open_calls := List.insert i (open_calls s)\<rparr>
          else (push_item (FunctionCallOutput (sanitize_tool_id i) missing_output) s)
                 \<lparr>used_outputs := insert i (used_outputs s)\<rparr>)"

fun assistant_block :: "(json \<Rightarrow> str) \<Rightarrow> (str \<rightharpoonup> nat) \<Rightarrow> nat \<Rightarrow> ContentBlock \<Rightarrow> resp_state \<Rightarrow> resp_state" where
  "assistant_block to_json pos idx (Text t _) s = push_item (MessageItem Assistant [OutputText t]) s"
| "assistant_block to_json pos idx (OpenAIReasoning i summary e status) s =
     push_item (ReasoningItem i summary e status) s"
| "assistant_block to_json pos idx (ToolUse i name input _) s = push_call to_json pos idx i name input s"
| "assistant_block to_json pos idx _ s = s"

fun walk_messages :: "(json \<Rightarrow> str) \<Rightarrow> (str \<rightharpoonup> nat) \<Rightarrow> nat \<Rightarrow> Message list \<Rightarrow> resp_state \<Rightarrow> resp_state" where
  "walk_messages to_json pos idx [] s = s"
| "walk_messages to_json pos idx (m # ms) s =
     walk_messages to_json pos (Suc idx) ms
       (case msg_role m of
          User \<Rightarrow> user_blocks (msg_content m) [] s
        | Assistant \<Rightarrow> foldl (\<lambda>s b. assistant_block to_json pos idx b s) s (msg_content m))"

section \<open>Leftovers\<close>

definition close_call :: "resp_state \<Rightarrow> str \<Rightarrow> resp_state" where
  "close_call s i =
     (if i \<in> used_outputs s then s
      else case map_of (pending_outputs s) i of
        Some output \<Rightarrow>
          (push_item (FunctionCallOutput (sanitize_tool_id i) output) s)
            \<lparr>pending_outputs := AList.delete i (pending_outputs s)\<rparr>
      | None \<Rightarrow> push_item (FunctionCallOutput (sanitize_tool_id i) missing_output) s)"

fun orphan_tool_output_to_user_message :: "input_item \<Rightarrow> input_item option" where
  "orphan_tool_output_to_user_message (FunctionCallOutput c output) =
     (let t = trim output in
      if t = [] \<or> t = missing_output then None
      else Some (MessageItem User
        [InputText (''[Recovered orphaned tool output: '' @ c @ '']'' @ nl @ t)]))"
| "orphan_tool_output_to_user_message _ = None"

definition recover_output :: "input_item \<Rightarrow> input_item list" where
  "recover_output x = (case orphan_tool_output_to_user_message x of Some y \<Rightarrow> [y] | None \<Rightarrow> [])"

definition recover_pending :: "(str \<times> str) list \<Rightarrow> input_item list" where
  "recover_pending pending =
     concat (map (\<lambda>(i, output). recover_output (FunctionCallOutput (sanitize_tool_id i) output))
       (sort_key fst pending))"

section \<open>Injection and reordering\<close>

definition item_outputs :: "input_item list \<Rightarrow> (str \<times> str) list" where
  "item_outputs xs = concat (map (\<lambda>x. case x of FunctionCallOutput c t \<Rightarrow> [(c, t)] | _ \<Rightarrow> []) xs)"

fun inject_missing :: "str set \<Rightarrow> input_item list \<Rightarrow> input_item list" where
  "inject_missing output_ids [] = []"
| "inject_missing output_ids (FunctionCall name arguments c # xs) =
     FunctionCall name arguments c
       # (if c \<in> output_ids then inject_missing output_ids xs
          else FunctionCallOutput c missing_output # inject_missing (insert c output_ids) xs)"
| "inject_missing output_ids (x # xs) = x # inject_missing output_ids xs"

text \<open>The best output of every id: the first one, unless it is the notice of a missing output and
  a real one follows.\<close>

fun is_missing :: "input_item \<Rightarrow> bool" where
  "is_missing (FunctionCallOutput _ t) \<longleftrightarrow> t = missing_output"
| "is_missing _ = False"

definition note_output :: "(str \<rightharpoonup> input_item) \<Rightarrow> input_item \<Rightarrow> (str \<rightharpoonup> input_item)" where
  "note_output outs x =
     (case item_out x of
        None \<Rightarrow> outs
      | Some c \<Rightarrow>
          (case outs c of
             Some old \<Rightarrow> if is_missing old \<and> \<not> is_missing x then outs(c \<mapsto> x) else outs
           | None \<Rightarrow> outs(c \<mapsto> x)))"

definition output_map :: "input_item list \<Rightarrow> (str \<rightharpoonup> input_item)" where
  "output_map xs = foldl note_output Map.empty xs"

fun reorder_items :: "(str \<rightharpoonup> input_item) \<Rightarrow> str set \<Rightarrow> input_item list \<Rightarrow> input_item list" where
  "reorder_items outs used [] = []"
| "reorder_items outs used (FunctionCall name arguments c # xs) =
     FunctionCall name arguments c
       # (case outs c of Some y \<Rightarrow> y | None \<Rightarrow> FunctionCallOutput c missing_output)
       # reorder_items outs (insert c used) xs"
| "reorder_items outs used (FunctionCallOutput c t # xs) =
     (if c \<in> used then [] else recover_output (FunctionCallOutput c t)) @ reorder_items outs used xs"
| "reorder_items outs used (x # xs) = x # reorder_items outs used xs"

definition gather_items :: "(json \<Rightarrow> str) \<Rightarrow> (str list \<Rightarrow> str list) \<Rightarrow> Message list \<Rightarrow> input_item list" where
  "gather_items to_json hash_order messages =
     (let s = walk_messages to_json (tool_result_last_pos messages) 0 messages
                \<lparr>resp_items = [], open_calls = [], pending_outputs = [], used_outputs = {}\<rparr>;
          s = foldl close_call s (hash_order (open_calls s))
      in resp_items s @ recover_pending (pending_outputs s))"

definition build_responses_input ::
  "(json \<Rightarrow> str) \<Rightarrow> (str list \<Rightarrow> str list) \<Rightarrow> Message list \<Rightarrow> input_item list" where
  "build_responses_input to_json hash_order messages =
     (let its = gather_items to_json hash_order messages;
          normalized = inject_missing (set (map fst (item_outputs its))) its
      in reorder_items (output_map normalized) {} normalized)"

text \<open>Which provider errors say that a native compaction payload was too large.\<close>

definition is_openai_encrypted_content_too_large_error :: "str \<Rightarrow> bool" where
  "is_openai_encrypted_content_too_large_error e =
     (let lower = to_ascii_lowercase e in
      sublist ''encrypted_content'' lower
      \<and> (sublist ''string_above_max_length'' lower \<or> sublist ''string too long'' lower
        \<or> sublist ''maximum length'' lower \<or> sublist ''large_string_param'' lower
        \<or> sublist ''largestringparam'' lower))"

section \<open>Every output directly follows its call\<close>

interpretation responses: call_pairing item_calls item_out
  "\<lambda>c. FunctionCallOutput c missing_output" recover_output reorder_items
proof unfold_locales
  fix x c m used xs
  show "item_out x = Some c \<Longrightarrow> reorder_items m used (x # xs) =
      (if c \<in> used then [] else recover_output x) @ reorder_items m used xs"
    by (cases x) auto
  show "item_out x = None \<Longrightarrow> reorder_items m used (x # xs) =
      x # map (\<lambda>c. case m c of Some y \<Rightarrow> y | None \<Rightarrow> FunctionCallOutput c missing_output) (item_calls x)
        @ reorder_items m (used \<union> set (item_calls x)) xs"
    by (cases x) auto
next
  fix x y
  show "y \<in> set (recover_output x) \<Longrightarrow> item_out y = None \<and> item_calls y = []"
    by (cases x) (auto simp: recover_output_def Let_def split: if_splits)
qed simp_all

interpretation response_outputs: output_choice FunctionCallOutput item_out item_outputs note_output
proof unfold_locales
  fix x c m xs
  show "item_out x = Some c \<Longrightarrow> \<exists>t. x = FunctionCallOutput c t" by (cases x) auto
  show "item_out x = None \<Longrightarrow> item_outputs (x # xs) = item_outputs xs"
    by (cases x) (auto simp: item_outputs_def)
  show "item_out x = None \<Longrightarrow> note_output m x = m" by (cases x) (auto simp: note_output_def)
qed (auto simp: item_outputs_def note_output_def)

lemma output_map_out: "output_map xs c = Some y \<Longrightarrow> item_out y = Some c"
  unfolding output_map_def by (rule response_outputs.outputs_chosen_ids)

lemma inject_missing_calls:
  "concat (map item_calls (filter (\<lambda>x. item_out x = None) (inject_missing ids xs)))
    = concat (map item_calls (filter (\<lambda>x. item_out x = None) xs))"
  by (induction ids xs rule: inject_missing.induct) simp_all

section \<open>The invariant of the walk\<close>

definition resp_inv :: "(str \<times> str) list \<Rightarrow> (str \<times> str) list \<Rightarrow> str set \<Rightarrow> resp_state \<Rightarrow> bool" where
  "resp_inv pre post called s \<longleftrightarrow>
     (\<exists>E. tracked pre post called (map_of (pending_outputs s)) (used_outputs s) E
        \<and> item_outputs (resp_items s) = map (\<lambda>(i, t). (sanitize_tool_id i, t)) E)
   \<and> called - used_outputs s \<subseteq> set (open_calls s) \<and> set (open_calls s) \<subseteq> called
   \<and> preceded item_calls item_out {} (resp_items s)
   \<and> set (concat (map item_calls (filter (\<lambda>x. item_out x = None) (resp_items s)))) = sanitize_tool_id ` called
   \<and> distinct (map fst (pending_outputs s))"

lemma item_outputs_simps [simp]:
  "item_outputs [] = []"
  "item_outputs (x # xs) = (case x of FunctionCallOutput c t \<Rightarrow> [(c, t)] | _ \<Rightarrow> []) @ item_outputs xs"
  "item_outputs (xs @ ys) = item_outputs xs @ item_outputs ys"
  by (simp_all add: item_outputs_def)

lemma item_outputs_plain: "item_out x = None \<Longrightarrow> item_outputs [x] = []"
  by (cases x) simp_all

lemma resp_inv_plain:
  assumes "resp_inv pre post called s" and "item_out x = None" and "item_calls x = []"
  shows "resp_inv pre post called (push_item x s)"
  using assms item_outputs_plain [of x]
  by (auto simp: resp_inv_def push_item_def preceded_append)

lemma resp_inv_flush: "resp_inv pre post called s \<Longrightarrow> resp_inv pre post called (flush_parts parts s)"
  by (simp add: flush_parts_def resp_inv_plain)

lemma resp_inv_open:
  assumes "resp_inv pre post called s" and "i \<notin> used_outputs s"
  shows "i \<in> set (open_calls s) \<longleftrightarrow> i \<in> called"
  using assms by (auto simp: resp_inv_def)

lemma resp_inv_result:
  assumes inv: "resp_inv pre ((i, t) # post) called s"
  shows "resp_inv (pre @ [(i, t)]) post called (push_result i t s)"
proof -
  from inv obtain E where tr: "tracked pre ((i, t) # post) called (map_of (pending_outputs s)) (used_outputs s) E"
    and out: "item_outputs (resp_items s) = map (\<lambda>(i, t). (sanitize_tool_id i, t)) E"
    unfolding resp_inv_def by blast
  consider (skip) "i \<in> used_outputs s \<or> i \<notin> called \<and> i \<in> fst ` set (pending_outputs s)"
    | (answer) "i \<notin> used_outputs s" "i \<in> called"
    | (delay) "i \<notin> used_outputs s" "i \<notin> called" "i \<notin> fst ` set (pending_outputs s)" by blast
  then show ?thesis
  proof cases
    case skip
    have "push_result i t s = s"
      using skip resp_inv_open [OF inv] by (auto simp: push_result_def)
    moreover have "tracked (pre @ [(i, t)]) post called (map_of (pending_outputs s)) (used_outputs s) E"
      using skip by (intro tracked_skip [OF tr]) (auto simp: dom_map_of_conv_image_fst)
    ultimately show ?thesis using inv out unfolding resp_inv_def by auto
  next
    case answer
    have "push_result i t s = (push_item (FunctionCallOutput (sanitize_tool_id i) t) s)
        \<lparr>open_calls := removeAll i (open_calls s), used_outputs := insert i (used_outputs s)\<rparr>"
      using answer resp_inv_open [OF inv] by (simp add: push_result_def)
    then show ?thesis
      using inv out answer tracked_answer [OF tr answer] unfolding resp_inv_def
      by (auto simp: push_item_def preceded_append intro!: exI [of _ "E @ [(i, t)]"])
  next
    case delay
    have "push_result i t s = s\<lparr>pending_outputs := (i, t) # pending_outputs s\<rparr>"
      using delay resp_inv_open [OF inv] by (simp add: push_result_def)
    moreover have "map_of (pending_outputs s) i = None" using delay by (simp add: map_of_eq_None_iff)
    ultimately show ?thesis
      using inv out delay tracked_delay [OF tr delay(1,2)] unfolding resp_inv_def by auto
  qed
qed

lemma resp_inv_call:
  assumes inv: "resp_inv pre post called s"
    and fut: "has_future_output pos idx i \<longleftrightarrow> i \<in> fst ` set post"
  shows "resp_inv pre post (insert i called) (push_call to_json pos idx i name input s)"
proof -
  let ?call = "FunctionCall name (tool_arguments to_json input) (sanitize_tool_id i)"
  from inv obtain E where tr: "tracked pre post called (map_of (pending_outputs s)) (used_outputs s) E"
    and out: "item_outputs (resp_items s) = map (\<lambda>(i, t). (sanitize_tool_id i, t)) E"
    unfolding resp_inv_def by blast
  have s: "pending_outputs (push_item ?call s) = pending_outputs s" by (simp add: push_item_def)
  show ?thesis
  proof (cases "map_of (pending_outputs s) i")
    case (Some t)
    then show ?thesis
      using inv out tracked_call_pending [OF tr Some] unfolding resp_inv_def
      by (auto simp: push_call_def s push_item_def preceded_append AList.delete_conv' distinct_delete
          intro!: exI [of _ "E @ [(i, t)]"])
  next
    case None
    show ?thesis
    proof (cases "i \<in> fst ` set post")
      case True
      then show ?thesis
        using inv out None fut tracked_call_open [OF tr None True] unfolding resp_inv_def
        by (auto simp: push_call_def s push_item_def preceded_append)
    next
      case False
      then show ?thesis
        using inv out None fut tracked_call_missing [OF tr None False] unfolding resp_inv_def
        by (auto simp: push_call_def s push_item_def preceded_append
          intro!: exI [of _ "E @ [(i, missing_output)]"])
    qed
  qed
qed

lemma resp_inv_user:
  "resp_inv pre (concat (map block_outputs bs) @ post) called s \<Longrightarrow>
    resp_inv (pre @ concat (map block_outputs bs)) post called (user_blocks bs parts s)"
proof (induction bs parts s arbitrary: pre rule: user_blocks.induct)
  case (4 e bs parts s)
  have "item_out (compaction_item e) = None" "item_calls (compaction_item e) = []"
    by (simp_all add: compaction_item_def)
  with 4 show ?case by (simp add: resp_inv_plain resp_inv_flush)
next
  case (5 i content is_error bs parts s)
  let ?t = "result_output content is_error"
  have "resp_inv (pre @ [(i, ?t)]) (concat (map block_outputs bs) @ post) called
      (push_result i ?t (flush_parts parts s))"
    using 5(2) by (intro resp_inv_result resp_inv_flush) simp
  from 5(1) [OF this] show ?case by simp
qed (simp_all add: resp_inv_flush)

lemma resp_inv_assistant:
  assumes "\<And>i. has_future_output pos idx i \<longleftrightarrow> i \<in> fst ` set post"
  shows "resp_inv pre post called s \<Longrightarrow>
    resp_inv pre post (called \<union> set (concat (map block_calls bs)))
      (foldl (\<lambda>s b. assistant_block to_json pos idx b s) s bs)"
proof (induction bs arbitrary: called s)
  case (Cons b bs)
  have "resp_inv pre post (called \<union> set (block_calls b)) (assistant_block to_json pos idx b s)"
    using Cons.prems assms by (cases b) (simp_all add: resp_inv_plain resp_inv_call)
  from Cons.IH [OF this] show ?case by (simp add: Un_assoc)
qed simp

lemma resp_inv_walk:
  assumes "resp_inv (transcript_results pre) (transcript_results post) (set (transcript_uses pre)) s"
  shows "resp_inv (transcript_results (pre @ post)) [] (set (transcript_uses (pre @ post)))
    (walk_messages to_json (tool_result_last_pos (pre @ post)) (length pre) post s)"
  using assms
proof (induction post arbitrary: pre s)
  case (Cons m post)
  let ?pos = "tool_result_last_pos (pre @ m # post)"
  let ?s = "case msg_role m of User \<Rightarrow> user_blocks (msg_content m) [] s
    | Assistant \<Rightarrow> foldl (\<lambda>s b. assistant_block to_json ?pos (length pre) b s) s (msg_content m)"
  have "resp_inv (transcript_results (pre @ [m])) (transcript_results post)
      (set (transcript_uses (pre @ [m]))) ?s"
  proof (cases "msg_role m")
    case User
    then show ?thesis using Cons.prems
      by (simp add: message_results_def message_uses_def resp_inv_user)
  next
    case Assistant
    have "resp_inv (transcript_results pre) (transcript_results post)
        (set (transcript_uses pre) \<union> set (concat (map block_calls (msg_content m)))) ?s"
      using Cons.prems Assistant
      by (simp add: message_results_def resp_inv_assistant has_future_output_iff del: set_concat)
    then show ?thesis using Assistant by (simp add: message_results_def message_uses_def)
  qed
  from Cons.IH [OF this] show ?case by simp
qed simp

section \<open>The reference builder\<close>

text \<open>The items of a user message: text and images gathered into one message, interrupted by tool
  results and by native compaction payloads.\<close>

fun user_items :: "ContentBlock list \<Rightarrow> input_part list \<Rightarrow> input_item list" where
  "user_items [] parts = (if parts = [] then [] else [MessageItem User parts])"
| "user_items (Image media_type data # bs) parts =
     user_items bs (parts @ [InputImage (''data:'' @ media_type @ '';base64,'' @ data)])"
| "user_items (Text t _ # bs) parts = user_items bs (parts @ [InputText t])"
| "user_items (OpenAICompaction e # bs) parts =
     (if parts = [] then [] else [MessageItem User parts]) @ compaction_item e # user_items bs []"
| "user_items (ToolResult _ _ _ # bs) parts =
     (if parts = [] then [] else [MessageItem User parts]) @ user_items bs []"
| "user_items (_ # bs) parts = user_items bs parts"

fun plain_block :: "(json \<Rightarrow> str) \<Rightarrow> ContentBlock \<Rightarrow> input_item list" where
  "plain_block to_json (Text t _) = [MessageItem Assistant [OutputText t]]"
| "plain_block to_json (OpenAIReasoning i summary e status) = [ReasoningItem i summary e status]"
| "plain_block to_json (ToolUse i name input _) =
     [FunctionCall name (tool_arguments to_json input) (sanitize_tool_id i)]"
| "plain_block to_json _ = []"

text \<open>One pass: every block gives its item, a tool call is directly answered.\<close>

definition answered_block :: "(json \<Rightarrow> str) \<Rightarrow> (str \<Rightarrow> str) \<Rightarrow> ContentBlock \<Rightarrow> input_item list" where
  "answered_block to_json ans b =
     plain_block to_json b @ map (\<lambda>i. FunctionCallOutput (sanitize_tool_id i) (ans i)) (block_calls b)"

definition reference_message :: "(json \<Rightarrow> str) \<Rightarrow> (str \<Rightarrow> str) \<Rightarrow> Message \<Rightarrow> input_item list" where
  "reference_message to_json ans m =
     (case msg_role m of
        User \<Rightarrow> user_items (msg_content m) []
      | Assistant \<Rightarrow> concat (map (answered_block to_json ans) (msg_content m)))"

definition uncalled_results :: "Message list \<Rightarrow> (str \<times> str) list" where
  "uncalled_results ms =
     filter (\<lambda>r. fst r \<notin> set (transcript_uses ms)) (AList.clearjunk (transcript_results ms))"

definition reference_input :: "(json \<Rightarrow> str) \<Rightarrow> Message list \<Rightarrow> input_item list" where
  "reference_input to_json ms =
     concat (map (reference_message to_json (answer ms)) ms) @ recover_pending (uncalled_results ms)"

section \<open>Items other than outputs\<close>

definition plain_items :: "input_item list \<Rightarrow> input_item list" where
  "plain_items xs = filter (\<lambda>x. item_out x = None) xs"

lemma plain_items_simps [simp]:
  "plain_items [] = []"
  "plain_items (x # xs) = (if item_out x = None then [x] else []) @ plain_items xs"
  "plain_items (xs @ ys) = plain_items xs @ plain_items ys"
  by (simp_all add: plain_items_def)

definition plain_message :: "(json \<Rightarrow> str) \<Rightarrow> Message \<Rightarrow> input_item list" where
  "plain_message to_json m =
     (case msg_role m of
        User \<Rightarrow> user_items (msg_content m) []
      | Assistant \<Rightarrow> concat (map (plain_block to_json) (msg_content m)))"

lemma compaction_item_plain [simp]: "item_out (compaction_item e) = None" "item_calls (compaction_item e) = []"
  by (simp_all add: compaction_item_def)

lemma plain_flush:
  "plain_items (resp_items (flush_parts parts s)) =
    plain_items (resp_items s) @ (if parts = [] then [] else [MessageItem User parts])"
  by (simp add: flush_parts_def push_item_def)

lemma plain_push_result: "plain_items (resp_items (push_result i t s)) = plain_items (resp_items s)"
  by (simp add: push_result_def push_item_def)

lemma plain_user_blocks:
  "plain_items (resp_items (user_blocks bs parts s)) = plain_items (resp_items s) @ user_items bs parts"
  by (induction bs parts s rule: user_blocks.induct)
    (simp_all add: plain_flush plain_push_result push_item_def)

lemma plain_assistant_block:
  "plain_items (resp_items (assistant_block to_json pos idx b s)) =
    plain_items (resp_items s) @ plain_block to_json b"
  by (cases b) (simp_all add: push_item_def push_call_def Let_def split: option.split)

lemma plain_assistant:
  "plain_items (resp_items (foldl (\<lambda>s b. assistant_block to_json pos idx b s) s bs)) =
    plain_items (resp_items s) @ concat (map (plain_block to_json) bs)"
  by (induction bs arbitrary: s) (simp_all add: plain_assistant_block)

lemma plain_walk:
  "plain_items (resp_items (walk_messages to_json pos idx ms s)) =
    plain_items (resp_items s) @ concat (map (plain_message to_json) ms)"
proof (induction ms arbitrary: idx s)
  case (Cons m ms)
  then show ?case
    by (cases "msg_role m") (simp_all add: plain_message_def plain_user_blocks plain_assistant)
qed simp

lemma plain_close: "plain_items (resp_items (foldl close_call s xs)) = plain_items (resp_items s)"
proof (induction xs arbitrary: s)
  case (Cons i xs)
  have "plain_items (resp_items (close_call s i)) = plain_items (resp_items s)"
    by (simp add: close_call_def push_item_def split: option.split)
  with Cons show ?case by simp
qed simp

lemma recover_output_plain:
  "y \<in> set (recover_output x) \<Longrightarrow> item_out y = None \<and> item_calls y = [] \<and> item_outputs [y] = []"
  by (cases x) (auto simp: recover_output_def Let_def split: if_splits)

lemma recover_pending_plain:
  "y \<in> set (recover_pending p) \<Longrightarrow> item_out y = None \<and> item_calls y = [] \<and> item_outputs [y] = []"
  by (auto simp: recover_pending_def dest: recover_output_plain)

lemma plain_recover: "plain_items (recover_pending p) = recover_pending p"
  unfolding plain_items_def by (rule filter_True) (simp add: recover_pending_plain)

lemma plain_gather:
  "\<exists>p. plain_items (gather_items to_json hash_order ms) =
    concat (map (plain_message to_json) ms) @ recover_pending p"
  by (auto simp: gather_items_def Let_def plain_walk plain_close plain_recover)

lemma user_items_plain: "x \<in> set (user_items bs parts) \<Longrightarrow> item_calls x = []"
  by (induction bs parts rule: user_items.induct) (auto split: if_splits)

lemma plain_block_calls: "concat (map item_calls (plain_block to_json b)) = map sanitize_tool_id (block_calls b)"
  by (cases b) simp_all

lemma plain_message_calls:
  "concat (map item_calls (plain_message to_json m)) = map sanitize_tool_id (message_uses m)"
proof (cases "msg_role m")
  case User
  then show ?thesis by (auto simp: plain_message_def message_uses_def dest: user_items_plain)
next
  case Assistant
  have "concat (map item_calls (concat (map (plain_block to_json) bs))) =
      map sanitize_tool_id (concat (map block_calls bs))" for bs
    by (induction bs) (simp_all add: plain_block_calls)
  then show ?thesis using Assistant by (simp add: plain_message_def message_uses_def)
qed

lemma gather_calls:
  "concat (map item_calls (plain_items (gather_items to_json hash_order ms))) =
    map sanitize_tool_id (transcript_uses ms)"
proof -
  obtain p where p: "plain_items (gather_items to_json hash_order ms) =
      concat (map (plain_message to_json) ms) @ recover_pending p"
    using plain_gather by blast
  have "concat (map item_calls (recover_pending p)) = []" by (simp add: recover_pending_plain)
  moreover have "concat (map item_calls (concat (map (plain_message to_json) ns))) =
      map sanitize_tool_id (transcript_uses ns)" for ns
    by (induction ns) (simp_all add: plain_message_calls)
  ultimately show ?thesis by (simp add: p)
qed

text \<open>C18: whatever the transcript looks like, in the input sent to the provider every function call
  is directly followed by exactly one output of its id, no output stands anywhere else, and the
  calls are those of the transcript in their order.\<close>

theorem responses_outputs_follow_calls:
  "paired item_calls item_out (build_responses_input to_json hash_order ms)
   \<and> concat (map item_calls (plain_items (build_responses_input to_json hash_order ms)))
     = map sanitize_tool_id (transcript_uses ms)"
proof -
  define its where "its = gather_items to_json hash_order ms"
  define norm where "norm = inject_missing (set (map fst (item_outputs its))) its"
  have b: "build_responses_input to_json hash_order ms = reorder_items (output_map norm) {} norm"
    by (simp add: build_responses_input_def its_def norm_def Let_def)
  have "concat (map item_calls (plain_items (reorder_items (output_map norm) {} norm)))
      = concat (map item_calls (plain_items norm))"
    unfolding plain_items_def by (rule responses.reorder_calls) (rule output_map_out)
  also have "\<dots> = concat (map item_calls (plain_items its))"
    unfolding norm_def plain_items_def by (rule inject_missing_calls)
  also have "\<dots> = map sanitize_tool_id (transcript_uses ms)" unfolding its_def by (rule gather_calls)
  finally show ?thesis
    unfolding b by (intro conjI responses.reorder_paired) (auto dest: output_map_out)
qed

section \<open>Which output answers a call\<close>

lemma inject_missing_none:
  "set (concat (map item_calls xs)) \<subseteq> ids \<Longrightarrow> inject_missing ids xs = xs"
  by (induction ids xs rule: inject_missing.induct) auto

lemma sort_pairs_unique:
  assumes "distinct (map fst xs)" and "distinct (map fst ys)" and "map_of xs = map_of ys"
  shows "sort_key fst xs = sort_key fst ys"
proof (rule sort_key_inj_key_eq)
  have "set xs = set ys" using assms by (simp add: map_of_inject_set)
  then show "mset xs = mset (sort_key fst ys)"
    using assms by (simp add: distinct_map set_eq_iff_mset_eq_distinct)
  show "inj_on fst (set xs)" using assms by (simp add: distinct_map)
qed simp

lemma close_calls_used: "set xs \<subseteq> used_outputs s \<Longrightarrow> foldl close_call s xs = s"
  by (induction xs) (simp_all add: close_call_def)

lemma preceded_plain:
  "(\<And>y. y \<in> set ys \<Longrightarrow> item_out y = None \<and> item_calls y = []) \<Longrightarrow> preceded item_calls item_out seen ys"
  by (induction ys arbitrary: seen) simp_all

lemma item_outputs_recover: "item_outputs (recover_pending p) = []"
proof -
  have "item_outputs xs = []" if "\<And>x. x \<in> set xs \<Longrightarrow> item_outputs [x] = []" for xs
    using that by (induction xs) (simp_all del: item_outputs_simps(2) add: item_outputs_def)
  then show ?thesis using recover_pending_plain by blast
qed

lemma map_of_uncalled:
  "map_of (uncalled_results ms) i =
    (if i \<in> set (transcript_uses ms) then None else map_of (transcript_results ms) i)"
proof -
  have "map_of (filter (\<lambda>r. P (fst r)) xs) i = (if P i then map_of xs i else None)" for P and xs :: "(str \<times> str) list"
    by (induction xs) auto
  from this [of "\<lambda>k. k \<notin> set (transcript_uses ms)"] show ?thesis
    by (simp add: uncalled_results_def map_of_clearjunk)
qed

lemma expand_message:
  assumes "\<And>i. i \<in> set (message_uses m) \<Longrightarrow>
    ans (sanitize_tool_id i) = FunctionCallOutput (sanitize_tool_id i) (f i)"
  shows "concat (map (\<lambda>x. x # map ans (item_calls x)) (plain_message to_json m)) =
    reference_message to_json f m"
proof (cases "msg_role m")
  case User
  have "concat (map (\<lambda>x. x # map ans (item_calls x)) xs) = xs" if "\<And>x. x \<in> set xs \<Longrightarrow> item_calls x = []" for xs
    using that by (induction xs) simp_all
  then show ?thesis using User user_items_plain by (simp add: plain_message_def reference_message_def)
next
  case Assistant
  have b: "concat (map (\<lambda>x. x # map ans (item_calls x)) (plain_block to_json b)) = answered_block to_json f b"
    if "set (block_calls b) \<subseteq> set (message_uses m)" for b
    using that assms by (cases b) (simp_all add: answered_block_def)
  have "concat (map (\<lambda>x. x # map ans (item_calls x)) (concat (map (plain_block to_json) bs))) =
      concat (map (answered_block to_json f) bs)"
    if "set (concat (map block_calls bs)) \<subseteq> set (message_uses m)" for bs
    using that by (induction bs) (simp_all add: b)
  then show ?thesis using Assistant
    by (simp add: plain_message_def reference_message_def message_uses_def)
qed

text \<open>The state after the walk, in terms of the transcript.\<close>

lemma walk_result:
  fixes to_json ms
  defines "s \<equiv> walk_messages to_json (tool_result_last_pos ms) 0 ms
    \<lparr>resp_items = [], open_calls = [], pending_outputs = [], used_outputs = {}\<rparr>"
  shows "resp_inv (transcript_results ms) [] (set (transcript_uses ms)) s"
proof -
  have "resp_inv [] (transcript_results ms) {}
      \<lparr>resp_items = [], open_calls = [], pending_outputs = [], used_outputs = {}\<rparr>"
    using tracked_start by (auto simp: resp_inv_def)
  then show ?thesis using resp_inv_walk [of "[]" ms] by (simp add: s_def)
qed

lemma gathered_result:
  fixes to_json hash_order ms
  defines "its \<equiv> gather_items to_json hash_order ms"
  assumes "\<And>xs. set (hash_order xs) = set xs"
  shows "plain_items its = concat (map (plain_message to_json) ms) @ recover_pending (uncalled_results ms)"
    and "preceded item_calls item_out {} its"
    and "set (concat (map item_calls its)) = sanitize_tool_id ` set (transcript_uses ms)"
    and "i \<in> set (transcript_uses ms) \<Longrightarrow> (sanitize_tool_id i, answer ms i) \<in> set (item_outputs its)"
    and "(c, t) \<in> set (item_outputs its) \<Longrightarrow>
      \<exists>i \<in> set (transcript_uses ms). c = sanitize_tool_id i \<and> (t = answer ms i \<or> t = missing_output)"
proof -
  define s where "s = walk_messages to_json (tool_result_last_pos ms) 0 ms
    \<lparr>resp_items = [], open_calls = [], pending_outputs = [], used_outputs = {}\<rparr>"
  have inv: "resp_inv (transcript_results ms) [] (set (transcript_uses ms)) s"
    unfolding s_def by (rule walk_result)
  then obtain E where tr: "tracked (transcript_results ms) [] (set (transcript_uses ms))
      (map_of (pending_outputs s)) (used_outputs s) E"
    and out: "item_outputs (resp_items s) = map (\<lambda>(i, t). (sanitize_tool_id i, t)) E"
    unfolding resp_inv_def by blast
  note td = tracked_done [OF tr]
  have "foldl close_call s (hash_order (open_calls s)) = s"
    using inv td(1) assms(2) by (intro close_calls_used) (simp add: resp_inv_def)
  moreover have "recover_pending (pending_outputs s) = recover_pending (uncalled_results ms)"
  proof -
    have "map_of (pending_outputs s) = map_of (uncalled_results ms)"
      by (rule ext) (simp add: td(2) map_of_uncalled)
    moreover have "distinct (map fst (uncalled_results ms))"
      unfolding uncalled_results_def by (rule distinct_map_filter) (rule distinct_clearjunk)
    moreover have "distinct (map fst (pending_outputs s))" using inv by (simp add: resp_inv_def)
    ultimately have "sort_key fst (pending_outputs s) = sort_key fst (uncalled_results ms)"
      by (intro sort_pairs_unique)
    then show ?thesis by (simp add: recover_pending_def)
  qed
  ultimately have its: "its = resp_items s @ recover_pending (uncalled_results ms)"
    unfolding its_def gather_items_def Let_def s_def by simp
  have o: "item_outputs its = map (\<lambda>(i, t). (sanitize_tool_id i, t)) E"
    by (simp add: its out item_outputs_recover)
  show "plain_items its = concat (map (plain_message to_json) ms) @ recover_pending (uncalled_results ms)"
    by (simp add: its plain_recover) (simp add: s_def plain_walk)
  show "preceded item_calls item_out {} its"
    unfolding its preceded_append using inv recover_pending_plain
    by (auto simp: resp_inv_def intro!: preceded_plain)
  have c: "concat (map item_calls xs) = concat (map item_calls (plain_items xs))" for xs
  proof (induction xs)
    case (Cons x xs)
    then show ?case by (cases x) simp_all
  qed simp
  show "set (concat (map item_calls its)) = sanitize_tool_id ` set (transcript_uses ms)"
    by (subst c) (simp only: its_def gather_calls set_map)
  show "i \<in> set (transcript_uses ms) \<Longrightarrow> (sanitize_tool_id i, answer ms i) \<in> set (item_outputs its)"
    using td(3) [of i] by (force simp: o answer_def)
  show "(c, t) \<in> set (item_outputs its) \<Longrightarrow>
      \<exists>i \<in> set (transcript_uses ms). c = sanitize_tool_id i \<and> (t = answer ms i \<or> t = missing_output)"
    using td(4) by (fastforce simp: o answer_def)
qed

text \<open>C9: as long as the sanitised ids of the calls stay apart, the whole three-pass builder
  computes the one-pass reference: user parts and assistant items in their order, every call
  directly answered by the first result of its id in the transcript (or by the notice that there
  is none), and behind them, sorted by id, the results of ids nobody called, as user messages.\<close>

theorem responses_input_is_reference:
  assumes "\<And>xs. set (hash_order xs) = set xs"
    and "inj_on sanitize_tool_id (set (transcript_uses ms))"
  shows "build_responses_input to_json hash_order ms = reference_input to_json ms"
proof -
  define its where "its = gather_items to_json hash_order ms"
  note g = gathered_result [OF assms(1), where to_json = to_json and ms = ms, folded its_def]
  let ?ans = "\<lambda>c. case output_map its c of Some y \<Rightarrow> y | None \<Rightarrow> FunctionCallOutput c missing_output"
  have "inject_missing (set (map fst (item_outputs its))) its = its"
    using g(3,4) by (intro inject_missing_none) force
  then have b: "build_responses_input to_json hash_order ms = reorder_items (output_map its) {} its"
    by (simp add: build_responses_input_def its_def Let_def)
  have ans: "?ans (sanitize_tool_id i) = FunctionCallOutput (sanitize_tool_id i) (answer ms i)"
    if i: "i \<in> set (transcript_uses ms)" for i
  proof -
    have "\<forall>(k, t) \<in> set (item_outputs its). k = sanitize_tool_id i \<longrightarrow> t = answer ms i \<or> t = missing_output"
      using g(5) i assms(2) by (blast dest: inj_onD)
    from response_outputs.best_output_chosen [OF g(4) [OF i] this] show ?thesis
      by (simp add: output_map_def)
  qed
  have e: "concat (map (\<lambda>x. x # map ?ans (item_calls x)) (concat (map (plain_message to_json) ns))) =
      concat (map (reference_message to_json (answer ms)) ns)"
    if "set (transcript_uses ns) \<subseteq> set (transcript_uses ms)" for ns
    using that by (induction ns) (simp_all add: expand_message [where f = "answer ms"] ans subset_iff)
  have r: "concat (map (\<lambda>x. x # map ?ans (item_calls x)) (recover_pending p)) = recover_pending p" for p
  proof -
    have "concat (map (\<lambda>x. x # map ?ans (item_calls x)) xs) = xs" if "\<And>x. x \<in> set xs \<Longrightarrow> item_calls x = []" for xs
      using that by (induction xs) simp_all
    then show ?thesis using recover_pending_plain by blast
  qed
  show ?thesis
    unfolding b responses.reorder_expand [OF disjI1 [OF g(2)]] plain_items_def [symmetric] g(1)
    by (simp only: map_append concat_append e [OF subset_refl] r reference_input_def)
qed

theorem responses_input_is_reference_witness:
  "build_responses_input (\<lambda>_. ''{}'') (\<lambda>xs. xs)
      [\<lparr>msg_role = Assistant, msg_content = [ToolUse ''a'' ''read'' JNull None],
        msg_timestamp = None, msg_duration = None\<rparr>,
       \<lparr>msg_role = User, msg_content = [ToolResult ''a'' ''ok'' None],
        msg_timestamp = None, msg_duration = None\<rparr>]
    = [FunctionCall ''read'' ''{}'' (sanitize_tool_id ''a''), FunctionCallOutput (sanitize_tool_id ''a'') ''ok'']"
proof -
  let ?ms = "[\<lparr>msg_role = Assistant, msg_content = [ToolUse ''a'' ''read'' JNull None],
        msg_timestamp = None, msg_duration = None\<rparr>,
       \<lparr>msg_role = User, msg_content = [ToolResult ''a'' ''ok'' None],
        msg_timestamp = None, msg_duration = None\<rparr>] :: Message list"
  have i: "inj_on sanitize_tool_id (set (transcript_uses ?ms))"
    by (simp add: message_uses_def)
  have "build_responses_input (\<lambda>_. ''{}'') (\<lambda>xs. xs) ?ms = reference_input (\<lambda>_. ''{}'') ?ms"
    by (rule responses_input_is_reference [OF refl i])
  also have "\<dots> = [FunctionCall ''read'' ''{}'' (sanitize_tool_id ''a''),
      FunctionCallOutput (sanitize_tool_id ''a'') ''ok'']"
    by (simp add: reference_input_def reference_message_def answered_block_def answer_def
        message_results_def message_uses_def result_output_def tool_arguments_def uncalled_results_def
        recover_pending_def)
  finally show ?thesis .
qed

text \<open>Two call ids that differ only in a character outside the alphabet of tool ids are sanitised
  to one id: both calls are then answered with the output of the first, the other is dropped.\<close>

definition tool_transcript :: "(str \<times> str) list \<Rightarrow> Message list" where
  "tool_transcript calls =
     [\<lparr>msg_role = Assistant, msg_content = map (\<lambda>(i, _). ToolUse i ''read'' JNull None) calls,
        msg_timestamp = None, msg_duration = None\<rparr>,
      \<lparr>msg_role = User, msg_content = map (\<lambda>(i, t). ToolResult i t None) calls,
        msg_timestamp = None, msg_duration = None\<rparr>]"

lemma colliding_ids_share_output:
  "build_responses_input to_json (\<lambda>xs. xs) (tool_transcript [(''a.b'', ''one''), (''a:b'', ''two'')]) =
    [FunctionCall ''read'' ''{}'' ''a_b'', FunctionCallOutput ''a_b'' ''one'',
     FunctionCall ''read'' ''{}'' ''a_b'', FunctionCallOutput ''a_b'' ''one'']"
proof -
  have "sanitize_tool_id ''a.b'' = ''a_b''" "sanitize_tool_id ''a:b'' = ''a_b''" by code_simp+
  then show ?thesis
    by (simp add: build_responses_input_def gather_items_def tool_transcript_def Let_def push_call_def
        push_item_def push_result_def flush_parts_def has_future_output_def tool_result_last_pos_def
        message_results_def result_output_def tool_arguments_def recover_pending_def output_map_def
        note_output_def missing_output_def TOOL_OUTPUT_MISSING_TEXT_def)
qed

end
