(* ===== verification/Openrouter_Request.thy ===== *)
theory Openrouter_Request
  imports Tool_Pairing
begin

text \<open>
  The chat messages of an OpenAI-compatible request
  (\<^verbatim>\<open>src/crates/jcode-provider-openrouter/src/request.rs\<close>, \<open>build_chat_messages\<close>): a walk over the
  transcript, a pass that injects outputs for calls without a later one and fills in reasoning, a
  pass that appends outputs that still do not follow their call, and a pass that puts the outputs
  directly behind the assistant message with the calls. A chat message is a datatype with one
  constructor per role; an absent JSON key is \<open>None\<close> or an empty list of calls. Log lines are left
  out; \<open>to_json\<close> stands for \<open>serde_json::to_string\<close> and \<open>hash_order\<close> for the iteration order of a
  \<open>HashSet\<close>.
\<close>

section \<open>Chat messages\<close>

datatype chat_part = PartText str "CacheControl option" | PartImage str

datatype chat_content = ContentText str | ContentParts "chat_part list"

record chat_call =
  chat_call_id :: str
  chat_call_name :: str
  chat_call_arguments :: str

datatype chat_message =
    SystemMsg str
  | UserMsg chat_content
  | AssistantMsg "str option" "chat_call list" "str option"
  | ToolMsg str str

fun chat_calls :: "chat_message \<Rightarrow> str list" where
  "chat_calls (AssistantMsg _ calls _) = map chat_call_id calls"
| "chat_calls _ = []"

fun chat_out :: "chat_message \<Rightarrow> str option" where
  "chat_out (ToolMsg c _) = Some c"
| "chat_out _ = None"

definition content_from_parts :: "chat_part list \<Rightarrow> chat_content option" where
  "content_from_parts parts =
     (case parts of
        [] \<Rightarrow> None
      | [PartText t None] \<Rightarrow> Some (ContentText t)
      | _ \<Rightarrow> Some (ContentParts parts))"

definition image_part :: "bool \<Rightarrow> str \<Rightarrow> str \<Rightarrow> chat_part" where
  "image_part allow_image_input media_type data =
     (if allow_image_input then PartImage (''data:'' @ media_type @ '';base64,'' @ data)
      else PartText (''[Image omitted: this provider/model does not support image input; media_type=''
        @ media_type @ '']'') None)"

section \<open>The walk over the transcript\<close>

record chat_state =
  api_messages :: "chat_message list"
  tool_calls_seen :: "str set"
  pending_tool_results :: "str \<rightharpoonup> str"
  used_tool_results :: "str set"

definition push_msg :: "chat_message \<Rightarrow> chat_state \<Rightarrow> chat_state" where
  "push_msg m s = s\<lparr>api_messages := api_messages s @ [m]\<rparr>"

definition flush_user :: "chat_part list \<Rightarrow> chat_state \<Rightarrow> chat_state" where
  "flush_user parts s =
     (case content_from_parts parts of Some c \<Rightarrow> push_msg (UserMsg c) s | None \<Rightarrow> s)"

definition chat_result :: "str \<Rightarrow> str \<Rightarrow> chat_state \<Rightarrow> chat_state" where
  "chat_result i output s =
     (if i \<in> used_tool_results s then s
      else if i \<in> tool_calls_seen s then
        (push_msg (ToolMsg (sanitize_tool_id i) output) s)
          \<lparr>used_tool_results := insert i (used_tool_results s)\<rparr>
      else if pending_tool_results s i \<noteq> None then s
      else s\<lparr>pending_tool_results := (pending_tool_results s)(i \<mapsto> output)\<rparr>)"

fun chat_user_blocks :: "bool \<Rightarrow> ContentBlock list \<Rightarrow> chat_part list \<Rightarrow> chat_state \<Rightarrow> chat_state" where
  "chat_user_blocks img [] parts s = flush_user parts s"
| "chat_user_blocks img (Text t cache # bs) parts s = chat_user_blocks img bs (parts @ [PartText t cache]) s"
| "chat_user_blocks img (Image media_type data # bs) parts s =
     chat_user_blocks img bs (parts @ [image_part img media_type data]) s"
| "chat_user_blocks img (ToolResult i content is_error # bs) parts s =
     chat_user_blocks img bs [] (chat_result i (result_output content is_error) (flush_user parts s))"
| "chat_user_blocks img (_ # bs) parts s = chat_user_blocks img bs parts s"

record turn_state =
  turn_text :: str
  turn_reasoning :: str
  turn_calls :: "chat_call list"
  turn_post :: "(str \<times> str) list"
  turn_missing :: "str list"

definition empty_turn :: turn_state where
  "empty_turn = \<lparr>turn_text = [], turn_reasoning = [], turn_calls = [], turn_post = [], turn_missing = []\<rparr>"

definition chat_tool_use ::
  "(json \<Rightarrow> str) \<Rightarrow> (str \<rightharpoonup> nat) \<Rightarrow> nat \<Rightarrow> str \<Rightarrow> str \<Rightarrow> json \<Rightarrow> turn_state \<times> chat_state \<Rightarrow> turn_state \<times> chat_state" where
  "chat_tool_use to_json pos idx i name input = (\<lambda>(t, s).
     let t = t\<lparr>turn_calls := turn_calls t @ [\<lparr>chat_call_id = sanitize_tool_id i, chat_call_name = name,
                 chat_call_arguments = tool_arguments to_json input\<rparr>]\<rparr>;
         s = s\<lparr>tool_calls_seen := insert i (tool_calls_seen s)\<rparr>
     in case pending_tool_results s i of
          Some output \<Rightarrow>
            (t\<lparr>turn_post := turn_post t @ [(i, output)]\<rparr>,
             s\<lparr>pending_tool_results := (pending_tool_results s)(i := None),
               used_tool_results := insert i (used_tool_results s)\<rparr>)
        | None \<Rightarrow>
            if has_future_output pos idx i then (t, s)
            else (t\<lparr>turn_missing := turn_missing t @ [i]\<rparr>,
                  s\<lparr>used_tool_results := insert i (used_tool_results s)\<rparr>))"

fun chat_assistant_block ::
  "(json \<Rightarrow> str) \<Rightarrow> (str \<rightharpoonup> nat) \<Rightarrow> nat \<Rightarrow> ContentBlock \<Rightarrow> turn_state \<times> chat_state \<Rightarrow> turn_state \<times> chat_state" where
  "chat_assistant_block to_json pos idx (Text x _) (t, s) = (t\<lparr>turn_text := turn_text t @ x\<rparr>, s)"
| "chat_assistant_block to_json pos idx (Reasoning x) (t, s) = (t\<lparr>turn_reasoning := turn_reasoning t @ x\<rparr>, s)"
| "chat_assistant_block to_json pos idx (ToolUse i name input _) ts = chat_tool_use to_json pos idx i name input ts"
| "chat_assistant_block to_json pos idx _ ts = ts"

text \<open>The assistant message of a turn, \<open>None\<close> when the turn would carry neither content nor calls.\<close>

definition assistant_message :: "bool \<Rightarrow> bool \<Rightarrow> str \<Rightarrow> str \<Rightarrow> chat_call list \<Rightarrow> chat_message option" where
  "assistant_message allow_reasoning include_reasoning text_content reasoning calls =
     (let has_reasoning = reasoning \<noteq> [];
          payload = (if allow_reasoning \<and> (include_reasoning \<or> has_reasoning) \<and> (has_reasoning \<or> calls \<noteq> [])
                     then Some (if has_reasoning then reasoning else '' '') else None)
      in if text_content \<noteq> [] \<or> calls \<noteq> []
         then Some (AssistantMsg (if text_content = [] then None else Some text_content) calls payload)
         else if payload \<noteq> None then Some (AssistantMsg (Some []) calls payload)
         else None)"

definition finish_turn :: "bool \<Rightarrow> bool \<Rightarrow> turn_state \<times> chat_state \<Rightarrow> chat_state" where
  "finish_turn allow_reasoning include_reasoning = (\<lambda>(t, s).
     case assistant_message allow_reasoning include_reasoning (turn_text t) (turn_reasoning t) (turn_calls t) of
       None \<Rightarrow> s
     | Some m \<Rightarrow>
         s\<lparr>api_messages := api_messages s @ m
             # map (\<lambda>(i, output). ToolMsg (sanitize_tool_id i) output) (turn_post t)
             @ map (\<lambda>i. ToolMsg (sanitize_tool_id i) missing_output) (turn_missing t)\<rparr>)"

fun walk_chat ::
  "(json \<Rightarrow> str) \<Rightarrow> bool \<Rightarrow> bool \<Rightarrow> bool \<Rightarrow> (str \<rightharpoonup> nat) \<Rightarrow> nat \<Rightarrow> Message list \<Rightarrow> chat_state \<Rightarrow> chat_state" where
  "walk_chat to_json allow incl img pos idx [] s = s"
| "walk_chat to_json allow incl img pos idx (m # ms) s =
     walk_chat to_json allow incl img pos (Suc idx) ms
       (case msg_role m of
          User \<Rightarrow> chat_user_blocks img (msg_content m) [] s
        | Assistant \<Rightarrow> finish_turn allow incl
            (foldl (\<lambda>ts b. chat_assistant_block to_json pos idx b ts) (empty_turn, s) (msg_content m)))"

section \<open>The safety passes\<close>

fun missing_calls :: "str set \<Rightarrow> str list \<Rightarrow> str set \<times> str list" where
  "missing_calls outputs_after [] = (outputs_after, [])"
| "missing_calls outputs_after (c # cs) =
     (if c \<in> outputs_after then missing_calls outputs_after cs
      else let (after, missing) = missing_calls (insert c outputs_after) cs in (after, c # missing))"

text \<open>The backward loop: the ids answered from here on, and the calls of every message that no
  later tool message answers.\<close>

fun missing_by_index :: "chat_message list \<Rightarrow> str set \<times> str list list" where
  "missing_by_index [] = ({}, [])"
| "missing_by_index (m # ms) =
     (let (after, missing) = missing_by_index ms in
      case chat_out m of
        Some c \<Rightarrow> (insert c after, [] # missing)
      | None \<Rightarrow> let (after', here) = missing_calls after (chat_calls m) in (after', here # missing))"

fun fill_reasoning :: "bool \<Rightarrow> chat_message \<Rightarrow> chat_message" where
  "fill_reasoning allow (AssistantMsg content calls reasoning) =
     (if allow \<and> calls \<noteq> [] \<and> (case reasoning of Some r \<Rightarrow> trim r = [] | None \<Rightarrow> True)
      then AssistantMsg content calls (Some '' '') else AssistantMsg content calls reasoning)"
| "fill_reasoning allow m = m"

definition inject_outputs :: "bool \<Rightarrow> chat_message list \<Rightarrow> chat_message list" where
  "inject_outputs allow ms =
     concat (map2 (\<lambda>m missing. fill_reasoning allow m # map (\<lambda>i. ToolMsg i missing_output) missing)
       ms (snd (missing_by_index ms)))"

fun first_output_pos :: "nat \<Rightarrow> chat_message list \<Rightarrow> (str \<rightharpoonup> nat)" where
  "first_output_pos idx [] = Map.empty"
| "first_output_pos idx (m # ms) =
     (case chat_out m of
        Some c \<Rightarrow> (first_output_pos (Suc idx) ms)(c \<mapsto> idx)
      | None \<Rightarrow> first_output_pos (Suc idx) ms)"

fun missing_after :: "(str \<rightharpoonup> nat) \<Rightarrow> nat \<Rightarrow> chat_message list \<Rightarrow> str list \<Rightarrow> str list" where
  "missing_after pos idx [] acc = acc"
| "missing_after pos idx (m # ms) acc =
     missing_after pos (Suc idx) ms
       (foldl (\<lambda>acc c. if has_future_output pos idx c then acc else List.insert c acc) acc (chat_calls m))"

definition append_missing :: "(str list \<Rightarrow> str list) \<Rightarrow> chat_message list \<Rightarrow> chat_message list" where
  "append_missing hash_order ms =
     ms @ map (\<lambda>i. ToolMsg i missing_output) (hash_order (missing_after (first_output_pos 0 ms) 0 ms []))"

section \<open>Reordering\<close>

fun is_missing_msg :: "chat_message \<Rightarrow> bool" where
  "is_missing_msg (ToolMsg _ t) \<longleftrightarrow> t = missing_output"
| "is_missing_msg _ = False"

definition note_tool_output :: "(str \<rightharpoonup> chat_message) \<Rightarrow> chat_message \<Rightarrow> (str \<rightharpoonup> chat_message)" where
  "note_tool_output outs m =
     (case chat_out m of
        None \<Rightarrow> outs
      | Some c \<Rightarrow>
          (case outs c of
             Some old \<Rightarrow> if is_missing_msg old \<and> \<not> is_missing_msg m then outs(c \<mapsto> m) else outs
           | None \<Rightarrow> outs(c \<mapsto> m)))"

definition tool_output_map :: "chat_message list \<Rightarrow> (str \<rightharpoonup> chat_message)" where
  "tool_output_map ms = foldl note_tool_output Map.empty ms"

text \<open>A tool message is dropped whether its id was used or not, so the set of used ids does not
  matter; it is kept as in the code.\<close>

fun reorder_messages :: "(str \<rightharpoonup> chat_message) \<Rightarrow> str set \<Rightarrow> chat_message list \<Rightarrow> chat_message list" where
  "reorder_messages outs used [] = []"
| "reorder_messages outs used (AssistantMsg content calls reasoning # ms) =
     AssistantMsg content calls reasoning
       # map (\<lambda>c. case outs (chat_call_id c) of Some y \<Rightarrow> y | None \<Rightarrow> ToolMsg (chat_call_id c) missing_output) calls
       @ reorder_messages outs (used \<union> chat_call_id ` set calls) ms"
| "reorder_messages outs used (ToolMsg c t # ms) = reorder_messages outs used ms"
| "reorder_messages outs used (m # ms) = m # reorder_messages outs used ms"

definition system_messages :: "str \<Rightarrow> chat_message list" where
  "system_messages system = (if system = [] then [] else [SystemMsg system])"

definition gather_chat ::
  "(json \<Rightarrow> str) \<Rightarrow> Message list \<Rightarrow> str \<Rightarrow> bool \<Rightarrow> bool \<Rightarrow> bool \<Rightarrow> chat_message list" where
  "gather_chat to_json messages system allow_reasoning include_reasoning allow_image_input =
     api_messages (walk_chat to_json allow_reasoning include_reasoning allow_image_input
       (tool_result_last_pos messages) 0 messages
       \<lparr>api_messages = system_messages system, tool_calls_seen = {}, pending_tool_results = Map.empty,
        used_tool_results = {}\<rparr>)"

definition build_chat_messages ::
  "(json \<Rightarrow> str) \<Rightarrow> (str list \<Rightarrow> str list) \<Rightarrow> Message list \<Rightarrow> str \<Rightarrow> bool \<Rightarrow> bool \<Rightarrow> bool \<Rightarrow> chat_message list" where
  "build_chat_messages to_json hash_order messages system allow_reasoning include_reasoning allow_image_input =
     (let gathered = gather_chat to_json messages system allow_reasoning include_reasoning allow_image_input;
          ms = append_missing hash_order (inject_outputs allow_reasoning gathered)
      in reorder_messages (tool_output_map ms) {} ms)"

section \<open>Outputs directly follow their calls\<close>

definition chat_outputs :: "chat_message list \<Rightarrow> (str \<times> str) list" where
  "chat_outputs ms = concat (map (\<lambda>m. case m of ToolMsg c t \<Rightarrow> [(c, t)] | _ \<Rightarrow> []) ms)"

interpretation chat: call_pairing chat_calls chat_out
  "\<lambda>c. ToolMsg c missing_output" "\<lambda>_. []" reorder_messages
proof unfold_locales
  fix x c m used xs
  show "chat_out x = Some c \<Longrightarrow> reorder_messages m used (x # xs) =
      (if c \<in> used then [] else []) @ reorder_messages m used xs"
    by (cases x) auto
  show "chat_out x = None \<Longrightarrow> reorder_messages m used (x # xs) =
      x # map (\<lambda>c. case m c of Some y \<Rightarrow> y | None \<Rightarrow> ToolMsg c missing_output) (chat_calls x)
        @ reorder_messages m (used \<union> set (chat_calls x)) xs"
    by (cases x) auto
qed simp_all

interpretation chat_choice: output_choice ToolMsg chat_out chat_outputs note_tool_output
proof unfold_locales
  fix x c m xs
  show "chat_out x = Some c \<Longrightarrow> \<exists>t. x = ToolMsg c t" by (cases x) auto
  show "chat_out x = None \<Longrightarrow> chat_outputs (x # xs) = chat_outputs xs"
    by (cases x) (auto simp: chat_outputs_def)
  show "chat_out x = None \<Longrightarrow> note_tool_output m x = m" by (cases x) (auto simp: note_tool_output_def)
qed (auto simp: chat_outputs_def note_tool_output_def)

lemma tool_output_map_out: "tool_output_map xs c = Some y \<Longrightarrow> chat_out y = Some c"
  unfolding tool_output_map_def by (rule chat_choice.outputs_chosen_ids)

section \<open>The reference builder\<close>

definition user_content :: "chat_part list \<Rightarrow> chat_message list" where
  "user_content parts = (case content_from_parts parts of Some c \<Rightarrow> [UserMsg c] | None \<Rightarrow> [])"

fun chat_user_items :: "bool \<Rightarrow> ContentBlock list \<Rightarrow> chat_part list \<Rightarrow> chat_message list" where
  "chat_user_items img [] parts = user_content parts"
| "chat_user_items img (Text t cache # bs) parts = chat_user_items img bs (parts @ [PartText t cache])"
| "chat_user_items img (Image media_type data # bs) parts =
     chat_user_items img bs (parts @ [image_part img media_type data])"
| "chat_user_items img (ToolResult _ _ _ # bs) parts = user_content parts @ chat_user_items img bs []"
| "chat_user_items img (_ # bs) parts = chat_user_items img bs parts"

fun chat_block_text :: "ContentBlock \<Rightarrow> str" where
  "chat_block_text (Text t _) = t"
| "chat_block_text _ = []"

fun block_reasoning :: "ContentBlock \<Rightarrow> str" where
  "block_reasoning (Reasoning t) = t"
| "block_reasoning _ = []"

fun block_chat_calls :: "(json \<Rightarrow> str) \<Rightarrow> ContentBlock \<Rightarrow> chat_call list" where
  "block_chat_calls to_json (ToolUse i name input _) =
     [\<lparr>chat_call_id = sanitize_tool_id i, chat_call_name = name,
       chat_call_arguments = tool_arguments to_json input\<rparr>]"
| "block_chat_calls to_json _ = []"

definition plain_chat :: "(json \<Rightarrow> str) \<Rightarrow> bool \<Rightarrow> bool \<Rightarrow> bool \<Rightarrow> Message \<Rightarrow> chat_message list" where
  "plain_chat to_json allow incl img m =
     (case msg_role m of
        User \<Rightarrow> chat_user_items img (msg_content m) []
      | Assistant \<Rightarrow>
          (case assistant_message allow incl (concat (map chat_block_text (msg_content m)))
                  (concat (map block_reasoning (msg_content m)))
                  (concat (map (block_chat_calls to_json) (msg_content m))) of
             Some a \<Rightarrow> [a] | None \<Rightarrow> []))"

definition reference_chat_message ::
  "(json \<Rightarrow> str) \<Rightarrow> (str \<Rightarrow> str) \<Rightarrow> bool \<Rightarrow> bool \<Rightarrow> bool \<Rightarrow> Message \<Rightarrow> chat_message list" where
  "reference_chat_message to_json ans allow incl img m =
     map (fill_reasoning allow) (plain_chat to_json allow incl img m)
     @ map (\<lambda>i. ToolMsg (sanitize_tool_id i) (ans i)) (message_uses m)"

definition reference_chat ::
  "(json \<Rightarrow> str) \<Rightarrow> Message list \<Rightarrow> str \<Rightarrow> bool \<Rightarrow> bool \<Rightarrow> bool \<Rightarrow> chat_message list" where
  "reference_chat to_json ms system allow incl img =
     system_messages system
     @ concat (map (reference_chat_message to_json (answer ms) allow incl img) ms)"

section \<open>Messages other than tool outputs\<close>

definition plain_msgs :: "chat_message list \<Rightarrow> chat_message list" where
  "plain_msgs xs = filter (\<lambda>x. chat_out x = None) xs"

lemma plain_msgs_simps [simp]:
  "plain_msgs [] = []"
  "plain_msgs (x # xs) = (if chat_out x = None then [x] else []) @ plain_msgs xs"
  "plain_msgs (xs @ ys) = plain_msgs xs @ plain_msgs ys"
  by (simp_all add: plain_msgs_def)

lemma plain_msgs_tools:
  "plain_msgs (map (\<lambda>i. ToolMsg (f i) (g i)) is) = []"
  "plain_msgs (map (\<lambda>(i, t). ToolMsg (f i) t) ps) = []"
  by (auto simp: plain_msgs_def filter_empty_conv)

lemma plain_flush_user:
  "plain_msgs (api_messages (flush_user parts s)) = plain_msgs (api_messages s) @ user_content parts"
  by (auto simp: flush_user_def user_content_def push_msg_def split: option.split)

lemma plain_chat_result: "plain_msgs (api_messages (chat_result i t s)) = plain_msgs (api_messages s)"
  by (simp add: chat_result_def push_msg_def)

lemma plain_chat_user:
  "plain_msgs (api_messages (chat_user_blocks img bs parts s)) =
    plain_msgs (api_messages s) @ chat_user_items img bs parts"
  by (induction img bs parts s rule: chat_user_blocks.induct)
    (simp_all add: plain_flush_user plain_chat_result)

lemma turn_contents:
  assumes "foldl (\<lambda>ts b. chat_assistant_block to_json pos idx b ts) (t, s) bs = (t', s')"
  shows "turn_text t' = turn_text t @ concat (map chat_block_text bs)
    \<and> turn_reasoning t' = turn_reasoning t @ concat (map block_reasoning bs)
    \<and> turn_calls t' = turn_calls t @ concat (map (block_chat_calls to_json) bs)
    \<and> api_messages s' = api_messages s"
  using assms
proof (induction bs arbitrary: t s)
  case (Cons b bs)
  obtain t1 s1 where 1: "chat_assistant_block to_json pos idx b (t, s) = (t1, s1)" by fastforce
  have "turn_text t1 = turn_text t @ chat_block_text b \<and> turn_reasoning t1 = turn_reasoning t @ block_reasoning b
      \<and> turn_calls t1 = turn_calls t @ block_chat_calls to_json b \<and> api_messages s1 = api_messages s"
    using 1 by (cases b) (auto simp: chat_tool_use_def Let_def split: option.splits if_splits)
  moreover have "foldl (\<lambda>ts b. chat_assistant_block to_json pos idx b ts) (t1, s1) bs = (t', s')"
    using Cons.prems 1 by simp
  ultimately show ?case using Cons.IH by fastforce
qed simp

lemma assistant_message_plain:
  "assistant_message allow incl x r calls = Some a \<Longrightarrow>
    chat_out a = None \<and> chat_calls a = map chat_call_id calls"
  by (auto simp: assistant_message_def Let_def split: if_splits)

lemma plain_finish_turn:
  "plain_msgs (api_messages (finish_turn allow incl
      (foldl (\<lambda>ts b. chat_assistant_block to_json pos idx b ts) (empty_turn, s) bs))) =
    plain_msgs (api_messages s)
    @ (case assistant_message allow incl (concat (map chat_block_text bs)) (concat (map block_reasoning bs))
          (concat (map (block_chat_calls to_json) bs)) of Some a \<Rightarrow> [a] | None \<Rightarrow> [])"
proof -
  obtain t' s' where f: "foldl (\<lambda>ts b. chat_assistant_block to_json pos idx b ts) (empty_turn, s) bs = (t', s')"
    by fastforce
  have c: "turn_text t' = concat (map chat_block_text bs)" "turn_reasoning t' = concat (map block_reasoning bs)"
    "turn_calls t' = concat (map (block_chat_calls to_json) bs)" "api_messages s' = api_messages s"
    using turn_contents [OF f] by (simp_all add: empty_turn_def)
  show ?thesis
  proof (cases "assistant_message allow incl (concat (map chat_block_text bs)) (concat (map block_reasoning bs))
          (concat (map (block_chat_calls to_json) bs))")
    case None
    then show ?thesis by (simp add: f finish_turn_def c)
  next
    case (Some a)
    then show ?thesis
      using assistant_message_plain [OF Some] by (simp add: f finish_turn_def c plain_msgs_tools)
  qed
qed

lemma plain_walk_chat:
  "plain_msgs (api_messages (walk_chat to_json allow incl img pos idx ms s)) =
    plain_msgs (api_messages s) @ concat (map (plain_chat to_json allow incl img) ms)"
proof (induction ms arbitrary: idx s)
  case (Cons m ms)
  then show ?case
    by (cases "msg_role m") (simp_all add: plain_chat_def plain_chat_user plain_finish_turn)
qed simp

lemma plain_gather_chat:
  "plain_msgs (gather_chat to_json ms system allow incl img) =
    system_messages system @ concat (map (plain_chat to_json allow incl img) ms)"
  by (simp add: gather_chat_def plain_walk_chat system_messages_def)

lemma length_missing_by_index [simp]: "length (snd (missing_by_index ms)) = length ms"
  by (induction ms) (auto simp: split_beta split: option.split)

lemma chat_out_fill [simp]: "chat_out (fill_reasoning allow m) = chat_out m"
  and chat_calls_fill [simp]: "chat_calls (fill_reasoning allow m) = chat_calls m"
  by (cases m; simp)+

lemma plain_injected:
  assumes "length missing = length ms"
  shows "plain_msgs (concat (map2 (\<lambda>m missing. fill_reasoning allow m # map (\<lambda>i. ToolMsg i missing_output) missing)
      ms missing)) = map (fill_reasoning allow) (plain_msgs ms)"
  using assms
proof (induction missing ms rule: list_induct2)
  case (Cons x xs y ys)
  then show ?case using plain_msgs_tools(1) [of "\<lambda>i. i" "\<lambda>_. missing_output" x] by simp
qed simp

lemma plain_inject_outputs:
  "plain_msgs (inject_outputs allow ms) = map (fill_reasoning allow) (plain_msgs ms)"
  unfolding inject_outputs_def by (rule plain_injected) simp

lemma plain_append_missing: "plain_msgs (append_missing hash_order ms) = plain_msgs ms"
  using plain_msgs_tools(1) [of "\<lambda>i. i" "\<lambda>_. missing_output"] by (simp add: append_missing_def)

lemma chat_user_items_user: "m \<in> set (chat_user_items img bs parts) \<Longrightarrow> \<exists>c. m = UserMsg c"
  by (induction img bs parts rule: chat_user_items.induct)
    (auto simp: user_content_def split: option.splits)

lemma plain_chat_calls:
  "concat (map chat_calls (plain_chat to_json allow incl img m)) = map sanitize_tool_id (message_uses m)"
proof (cases "msg_role m")
  case User
  then show ?thesis by (auto simp: plain_chat_def message_uses_def dest!: chat_user_items_user)
next
  case Assistant
  have ids: "map chat_call_id (concat (map (block_chat_calls to_json) bs)) =
      map sanitize_tool_id (concat (map block_calls bs))" for bs
  proof (induction bs)
    case (Cons b bs)
    then show ?case by (cases b) simp_all
  qed simp
  show ?thesis
  proof (cases "assistant_message allow incl (concat (map chat_block_text (msg_content m)))
      (concat (map block_reasoning (msg_content m))) (concat (map (block_chat_calls to_json) (msg_content m)))")
    case None
    then have "concat (map (block_chat_calls to_json) (msg_content m)) = []"
      unfolding assistant_message_def Let_def by (simp only: split: if_splits) simp_all
    then have "map sanitize_tool_id (concat (map block_calls (msg_content m))) = []"
      using ids [of "msg_content m"] by (simp only: list.map(1))
    with None Assistant show ?thesis by (simp add: plain_chat_def message_uses_def)
  next
    case (Some a)
    then show ?thesis using Assistant assistant_message_plain [OF Some] ids [of "msg_content m"]
      by (simp add: plain_chat_def message_uses_def)
  qed
qed

lemma plain_build:
  "plain_msgs (append_missing hash_order (inject_outputs allow (gather_chat to_json ms system allow incl img))) =
    system_messages system
    @ map (fill_reasoning allow) (concat (map (plain_chat to_json allow incl img) ms))"
  by (simp add: plain_append_missing plain_inject_outputs plain_gather_chat system_messages_def)

text \<open>A message a strict endpoint accepts: an assistant message carries content or calls, and with
  reasoning enabled one with calls carries reasoning content.\<close>

fun acceptable :: "bool \<Rightarrow> chat_message \<Rightarrow> bool" where
  "acceptable allow (AssistantMsg content calls reasoning) \<longleftrightarrow>
     (content \<noteq> None \<or> calls \<noteq> [])
     \<and> (if allow \<and> calls \<noteq> [] then (case reasoning of Some r \<Rightarrow> r \<noteq> [] | None \<Rightarrow> False) else True)"
| "acceptable allow _ = True"

lemma fill_acceptable:
  assumes "assistant_message allow incl x r calls = Some a"
  shows "acceptable allow (fill_reasoning allow a)"
proof -
  have t: "trim [] = []" by code_simp
  from assms obtain content reasoning where a: "a = AssistantMsg content calls reasoning"
    and c: "content \<noteq> None \<or> calls \<noteq> []"
    unfolding assistant_message_def Let_def by (auto split: if_splits)
  show ?thesis unfolding a using c t by (cases reasoning) auto
qed

lemma plain_chat_acceptable:
  assumes "m \<in> set (plain_chat to_json allow incl img x)"
  shows "acceptable allow (fill_reasoning allow m)"
proof (cases "msg_role x")
  case User
  then have "m \<in> set (chat_user_items img (msg_content x) [])" using assms by (simp add: plain_chat_def)
  then show ?thesis using chat_user_items_user by fastforce
next
  case Assistant
  then show ?thesis using assms fill_acceptable by (auto simp: plain_chat_def split: option.splits)
qed

text \<open>C19: in the messages sent to an OpenAI-compatible endpoint every assistant message with tool
  calls is directly followed by exactly one tool message per call, in the order of the calls, no
  other tool message is sent, the calls are those of the transcript in their order, and every
  message is acceptable to a strict endpoint: an assistant message carries content or calls, and
  one with calls carries reasoning content where reasoning is enabled.\<close>

theorem chat_outputs_follow_calls:
  "let sent = build_chat_messages to_json hash_order ms system allow incl img in
   paired chat_calls chat_out sent
   \<and> concat (map chat_calls (plain_msgs sent)) = map sanitize_tool_id (transcript_uses ms)
   \<and> list_all (acceptable allow) sent"
proof -
  define ns where "ns = append_missing hash_order (inject_outputs allow (gather_chat to_json ms system allow incl img))"
  have b: "build_chat_messages to_json hash_order ms system allow incl img = reorder_messages (tool_output_map ns) {} ns"
    by (simp add: build_chat_messages_def ns_def Let_def)
  note pb = plain_build [of hash_order allow to_json ms system incl img, folded ns_def]
  have "concat (map chat_calls (plain_msgs (reorder_messages (tool_output_map ns) {} ns)))
      = concat (map chat_calls (plain_msgs ns))"
    unfolding plain_msgs_def by (rule chat.reorder_calls) (rule tool_output_map_out)
  also have "\<dots> = map sanitize_tool_id (transcript_uses ms)"
  proof -
    have "concat (map chat_calls (map (fill_reasoning allow) (concat (map (plain_chat to_json allow incl img) xs))))
        = map sanitize_tool_id (transcript_uses xs)" for xs
    proof (induction xs)
      case (Cons x xs)
      then show ?case using plain_chat_calls [of to_json allow incl img x] by (simp add: comp_def)
    qed simp
    then show ?thesis by (simp add: pb system_messages_def del: map_map)
  qed
  finally have calls: "concat (map chat_calls (plain_msgs (reorder_messages (tool_output_map ns) {} ns)))
      = map sanitize_tool_id (transcript_uses ms)" .
  have tool: "acceptable allow y" if "chat_out y = Some c" for y c using that by (cases y) auto
  have "list_all (acceptable allow) (reorder_messages (tool_output_map ns) {} ns)"
    unfolding chat.reorder_expand [OF disjI2, simplified] plain_msgs_def [symmetric] pb
    using tool_output_map_out plain_chat_acceptable
    by (auto simp: list_all_iff system_messages_def intro: tool split: option.splits if_splits)
  then show ?thesis
    unfolding b Let_def using calls chat.reorder_paired [of "tool_output_map ns"] tool_output_map_out by auto
qed

section \<open>The invariant of the walk\<close>

definition chat_inv :: "(str \<times> str) list \<Rightarrow> (str \<times> str) list \<Rightarrow> str set \<Rightarrow> chat_state \<Rightarrow> bool" where
  "chat_inv pre post called s \<longleftrightarrow>
     tool_calls_seen s = called
   \<and> (\<exists>E. tracked pre post called (pending_tool_results s) (used_tool_results s) E
        \<and> set (chat_outputs (api_messages s)) = (\<lambda>(i, t). (sanitize_tool_id i, t)) ` set E)"

lemma chat_outputs_simps [simp]:
  "chat_outputs [] = []"
  "chat_outputs (x # xs) = (case x of ToolMsg c t \<Rightarrow> [(c, t)] | _ \<Rightarrow> []) @ chat_outputs xs"
  "chat_outputs (xs @ ys) = chat_outputs xs @ chat_outputs ys"
  by (simp_all add: chat_outputs_def)

lemma chat_inv_flush: "chat_inv pre post called s \<Longrightarrow> chat_inv pre post called (flush_user parts s)"
  by (simp add: chat_inv_def flush_user_def push_msg_def split: option.split)

lemma chat_inv_result:
  assumes inv: "chat_inv pre ((i, t) # post) called s"
  shows "chat_inv (pre @ [(i, t)]) post called (chat_result i t s)"
proof -
  from inv obtain E where seen: "tool_calls_seen s = called"
    and tr: "tracked pre ((i, t) # post) called (pending_tool_results s) (used_tool_results s) E"
    and out: "set (chat_outputs (api_messages s)) = (\<lambda>(i, t). (sanitize_tool_id i, t)) ` set E"
    unfolding chat_inv_def by blast
  consider (skip) "i \<in> used_tool_results s \<or> i \<notin> called \<and> i \<in> dom (pending_tool_results s)"
    | (answer) "i \<notin> used_tool_results s" "i \<in> called"
    | (delay) "i \<notin> used_tool_results s" "i \<notin> called" "pending_tool_results s i = None" by blast
  then show ?thesis
  proof cases
    case skip
    then have "chat_result i t s = s" using seen by (auto simp: chat_result_def)
    then show ?thesis using skip seen out tracked_skip [OF tr] unfolding chat_inv_def by auto
  next
    case answer
    then show ?thesis using seen out tracked_answer [OF tr answer]
      by (auto simp: chat_inv_def chat_result_def push_msg_def intro!: exI [of _ "E @ [(i, t)]"])
  next
    case delay
    then show ?thesis using seen out tracked_delay [OF tr delay]
      by (auto simp: chat_inv_def chat_result_def)
  qed
qed

lemma chat_inv_user:
  "chat_inv pre (concat (map block_outputs bs) @ post) called s \<Longrightarrow>
    chat_inv (pre @ concat (map block_outputs bs)) post called (chat_user_blocks img bs parts s)"
proof (induction img bs parts s arbitrary: pre rule: chat_user_blocks.induct)
  case (4 img i content is_error bs parts s)
  let ?t = "result_output content is_error"
  have "chat_inv (pre @ [(i, ?t)]) (concat (map block_outputs bs) @ post) called
      (chat_result i ?t (flush_user parts s))"
    using 4(2) by (intro chat_inv_result chat_inv_flush) simp
  from 4(1) [OF this] show ?case by simp
qed (simp_all add: chat_inv_flush)

text \<open>In a turn the outputs that are to follow the assistant message are still held back.\<close>

definition turn_outputs :: "turn_state \<Rightarrow> (str \<times> str) list" where
  "turn_outputs t = turn_post t @ map (\<lambda>i. (i, missing_output)) (turn_missing t)"

definition turn_inv :: "(str \<times> str) list \<Rightarrow> (str \<times> str) list \<Rightarrow> str set \<Rightarrow> turn_state \<times> chat_state \<Rightarrow> bool" where
  "turn_inv pre post called = (\<lambda>(t, s).
     tool_calls_seen s = called
   \<and> (turn_calls t = [] \<longrightarrow> turn_outputs t = [])
   \<and> (\<exists>E. tracked pre post called (pending_tool_results s) (used_tool_results s) (E @ turn_outputs t)
        \<and> set (chat_outputs (api_messages s)) = (\<lambda>(i, t). (sanitize_tool_id i, t)) ` set E))"

lemma tracked_set_cong:
  "set E = set E' \<Longrightarrow> tracked pre post called pending used E = tracked pre post called pending used E'"
  by (simp add: tracked_def)

lemma turn_inv_use:
  assumes inv: "turn_inv pre post called (t, s)"
    and fut: "has_future_output pos idx i \<longleftrightarrow> i \<in> fst ` set post"
  shows "turn_inv pre post (insert i called) (chat_tool_use to_json pos idx i name input (t, s))"
proof -
  from inv obtain E where seen: "tool_calls_seen s = called"
    and tr: "tracked pre post called (pending_tool_results s) (used_tool_results s) (E @ turn_outputs t)"
    and out: "set (chat_outputs (api_messages s)) = (\<lambda>(i, t). (sanitize_tool_id i, t)) ` set E"
    unfolding turn_inv_def by auto
  show ?thesis
  proof (cases "pending_tool_results s i")
    case (Some x)
    have "tracked pre post (insert i called) ((pending_tool_results s)(i := None)) (insert i (used_tool_results s))
        (E @ turn_outputs (t\<lparr>turn_post := turn_post t @ [(i, x)]\<rparr>))"
      using tracked_call_pending [OF tr Some]
      by (subst tracked_set_cong [where E' = "(E @ turn_outputs t) @ [(i, x)]"]) (auto simp: turn_outputs_def)
    then show ?thesis using Some seen out
      by (auto simp: turn_inv_def chat_tool_use_def Let_def turn_outputs_def)
  next
    case None
    show ?thesis
    proof (cases "i \<in> fst ` set post")
      case True
      then show ?thesis using None seen out fut tracked_call_open [OF tr None True]
        by (auto simp: turn_inv_def chat_tool_use_def Let_def turn_outputs_def)
    next
      case False
      have "tracked pre post (insert i called) (pending_tool_results s) (insert i (used_tool_results s))
          (E @ turn_outputs (t\<lparr>turn_missing := turn_missing t @ [i]\<rparr>))"
        using tracked_call_missing [OF tr None False]
        by (subst tracked_set_cong [where E' = "(E @ turn_outputs t) @ [(i, missing_output)]"])
          (auto simp: turn_outputs_def)
      then show ?thesis using None seen out fut False
        by (auto simp: turn_inv_def chat_tool_use_def Let_def turn_outputs_def)
    qed
  qed
qed

lemma turn_inv_blocks:
  assumes "\<And>i. has_future_output pos idx i \<longleftrightarrow> i \<in> fst ` set post"
  shows "turn_inv pre post called ts \<Longrightarrow>
    turn_inv pre post (called \<union> set (concat (map block_calls bs)))
      (foldl (\<lambda>ts b. chat_assistant_block to_json pos idx b ts) ts bs)"
proof (induction bs arbitrary: called ts)
  case (Cons b bs)
  obtain t s where ts: "ts = (t, s)" by fastforce
  have "turn_inv pre post (called \<union> set (block_calls b)) (chat_assistant_block to_json pos idx b ts)"
    using Cons.prems assms
    by (cases b) (simp_all add: ts turn_inv_use, simp_all add: turn_inv_def turn_outputs_def)
  from Cons.IH [OF this] show ?case by (simp add: Un_assoc)
qed simp

lemma chat_inv_finish:
  assumes "turn_inv pre post called (t, s)"
  shows "chat_inv pre post called (finish_turn allow incl (t, s))"
proof -
  from assms obtain E where seen: "tool_calls_seen s = called"
    and e: "turn_calls t = [] \<longrightarrow> turn_outputs t = []"
    and tr: "tracked pre post called (pending_tool_results s) (used_tool_results s) (E @ turn_outputs t)"
    and out: "set (chat_outputs (api_messages s)) = (\<lambda>(i, t). (sanitize_tool_id i, t)) ` set E"
    unfolding turn_inv_def by auto
  have o: "set (chat_outputs (map (\<lambda>(i, t). ToolMsg (sanitize_tool_id i) t) ps)) =
      (\<lambda>(i, t). (sanitize_tool_id i, t)) ` set ps" for ps
    by (induction ps) auto
  have o2: "chat_outputs (map (\<lambda>i. ToolMsg (sanitize_tool_id i) missing_output) is) =
      map (\<lambda>i. (sanitize_tool_id i, missing_output)) is" for "is"
    by (induction "is") auto
  show ?thesis
  proof (cases "assistant_message allow incl (turn_text t) (turn_reasoning t) (turn_calls t)")
    case None
    then have "turn_calls t = []"
      unfolding assistant_message_def Let_def by (simp only: split: if_splits) simp_all
    then show ?thesis using None seen e tr out by (auto simp: finish_turn_def chat_inv_def)
  next
    case (Some a)
    have a: "(case a of ToolMsg c t \<Rightarrow> [(c, t)] | _ \<Rightarrow> []) = []"
      using assistant_message_plain [OF Some] by (cases a) auto
    show ?thesis using Some seen tr out a
      by (auto simp: finish_turn_def chat_inv_def o o2 turn_outputs_def image_Un image_image
          intro!: exI [of _ "E @ turn_post t @ map (\<lambda>i. (i, missing_output)) (turn_missing t)"])
  qed
qed

lemma chat_inv_walk:
  assumes "chat_inv (transcript_results pre) (transcript_results post) (set (transcript_uses pre)) s"
  shows "chat_inv (transcript_results (pre @ post)) [] (set (transcript_uses (pre @ post)))
    (walk_chat to_json allow incl img (tool_result_last_pos (pre @ post)) (length pre) post s)"
  using assms
proof (induction post arbitrary: pre s)
  case (Cons m post)
  let ?pos = "tool_result_last_pos (pre @ m # post)"
  let ?ts = "foldl (\<lambda>ts b. chat_assistant_block to_json ?pos (length pre) b ts) (empty_turn, s) (msg_content m)"
  let ?s = "case msg_role m of User \<Rightarrow> chat_user_blocks img (msg_content m) [] s
    | Assistant \<Rightarrow> finish_turn allow incl ?ts"
  have "chat_inv (transcript_results (pre @ [m])) (transcript_results post)
      (set (transcript_uses (pre @ [m]))) ?s"
  proof (cases "msg_role m")
    case User
    then show ?thesis using Cons.prems
      by (simp add: message_results_def message_uses_def chat_inv_user)
  next
    case Assistant
    have "turn_inv (transcript_results pre) (transcript_results post) (set (transcript_uses pre)) (empty_turn, s)"
      using Cons.prems Assistant
      by (auto simp: turn_inv_def chat_inv_def empty_turn_def turn_outputs_def message_results_def)
    then have "turn_inv (transcript_results pre) (transcript_results post)
        (set (transcript_uses pre) \<union> set (concat (map block_calls (msg_content m)))) ?ts"
      by (intro turn_inv_blocks) (rule has_future_output_iff)
    then have "chat_inv (transcript_results pre) (transcript_results post)
        (set (transcript_uses pre) \<union> set (concat (map block_calls (msg_content m)))) (finish_turn allow incl ?ts)"
      using chat_inv_finish by (metis surj_pair)
    then show ?thesis using Assistant by (simp add: message_results_def message_uses_def)
  qed
  from Cons.IH [OF this] show ?case by simp
qed simp

lemma chat_walk_result:
  "chat_inv (transcript_results ms) [] (set (transcript_uses ms))
    (walk_chat to_json allow incl img (tool_result_last_pos ms) 0 ms
      \<lparr>api_messages = system_messages system, tool_calls_seen = {}, pending_tool_results = Map.empty,
       used_tool_results = {}\<rparr>)"
proof -
  have "chat_inv [] (transcript_results ms) {} \<lparr>api_messages = system_messages system, tool_calls_seen = {},
      pending_tool_results = Map.empty, used_tool_results = {}\<rparr>"
    using tracked_start by (auto simp: chat_inv_def system_messages_def)
  then show ?thesis using chat_inv_walk [of "[]" ms] by simp
qed

lemma gathered_chat_outputs:
  shows "i \<in> set (transcript_uses ms) \<Longrightarrow>
      (sanitize_tool_id i, answer ms i) \<in> set (chat_outputs (gather_chat to_json ms system allow incl img))"
    and "(c, t) \<in> set (chat_outputs (gather_chat to_json ms system allow incl img)) \<Longrightarrow>
      \<exists>i \<in> set (transcript_uses ms). c = sanitize_tool_id i \<and> (t = answer ms i \<or> t = missing_output)"
proof -
  define s where "s = walk_chat to_json allow incl img (tool_result_last_pos ms) 0 ms
      \<lparr>api_messages = system_messages system, tool_calls_seen = {}, pending_tool_results = Map.empty,
       used_tool_results = {}\<rparr>"
  have "chat_inv (transcript_results ms) [] (set (transcript_uses ms)) s"
    unfolding s_def by (rule chat_walk_result)
  then obtain E where tr: "tracked (transcript_results ms) [] (set (transcript_uses ms))
      (pending_tool_results s) (used_tool_results s) E"
    and o: "set (chat_outputs (api_messages s)) = (\<lambda>(i, t). (sanitize_tool_id i, t)) ` set E"
    unfolding chat_inv_def by blast
  have out: "set (chat_outputs (gather_chat to_json ms system allow incl img)) =
      (\<lambda>(i, t). (sanitize_tool_id i, t)) ` set E"
    using o by (simp add: gather_chat_def s_def)
  note td = tracked_done [OF tr]
  show "i \<in> set (transcript_uses ms) \<Longrightarrow>
      (sanitize_tool_id i, answer ms i) \<in> set (chat_outputs (gather_chat to_json ms system allow incl img))"
    using td(3) [of i] by (force simp: out answer_def)
  show "(c, t) \<in> set (chat_outputs (gather_chat to_json ms system allow incl img)) \<Longrightarrow>
      \<exists>i \<in> set (transcript_uses ms). c = sanitize_tool_id i \<and> (t = answer ms i \<or> t = missing_output)"
    using td(4) by (fastforce simp: out answer_def)
qed

text \<open>The safety passes only add notices of missing outputs.\<close>

lemma chat_outputs_fill: "chat_outputs (fill_reasoning allow m # ms) = chat_outputs (m # ms)"
  by (cases m) simp_all

lemma chat_outputs_notices: "chat_outputs (map (\<lambda>i. ToolMsg i missing_output) is) = map (\<lambda>i. (i, missing_output)) is"
  by (induction "is") simp_all

lemma injected_outputs:
  assumes "length missing = length ms"
  shows "set (chat_outputs (concat (map2 (\<lambda>m missing.
      fill_reasoning allow m # map (\<lambda>i. ToolMsg i missing_output) missing) ms missing))) =
    set (chat_outputs ms) \<union> (\<lambda>i. (i, missing_output)) ` set (concat missing)"
  using assms
proof (induction missing ms rule: list_induct2)
  case (Cons x xs y ys)
  let ?rest = "concat (map2 (\<lambda>m missing. fill_reasoning allow m # map (\<lambda>i. ToolMsg i missing_output) missing) ys xs)"
  have "chat_outputs (fill_reasoning allow y # map (\<lambda>i. ToolMsg i missing_output) x @ ?rest) =
      chat_outputs [y] @ map (\<lambda>i. (i, missing_output)) x @ chat_outputs ?rest"
    unfolding chat_outputs_fill by (simp add: chat_outputs_notices)
  moreover have "set (chat_outputs (y # ys)) = set (chat_outputs [y]) \<union> set (chat_outputs ys)" by simp
  ultimately show ?case
    unfolding zip_Cons_Cons list.map prod.case concat.simps append_Cons
    by (simp only: set_append set_map Cons.IH image_Un Un_assoc) (simp only: Un_left_commute)
qed simp

lemma safe_outputs:
  "set (chat_outputs ms) \<subseteq> set (chat_outputs (append_missing hash_order (inject_outputs allow ms)))"
  "(c, t) \<in> set (chat_outputs (append_missing hash_order (inject_outputs allow ms))) \<Longrightarrow>
    (c, t) \<in> set (chat_outputs ms) \<or> t = missing_output"
  using injected_outputs [of "snd (missing_by_index ms)" ms allow]
  by (auto simp: append_missing_def inject_outputs_def chat_outputs_notices)

lemma expand_chat_message:
  assumes "\<And>i. i \<in> set (message_uses m) \<Longrightarrow>
    ans (sanitize_tool_id i) = ToolMsg (sanitize_tool_id i) (f i)"
  shows "concat (map (\<lambda>x. x # map ans (chat_calls x)) (map (fill_reasoning allow) (plain_chat to_json allow incl img m)))
    = reference_chat_message to_json f allow incl img m"
proof (cases "msg_role m")
  case User
  then have "\<And>x. x \<in> set (plain_chat to_json allow incl img m) \<Longrightarrow> chat_calls x = []"
    using chat_user_items_user by (fastforce simp: plain_chat_def)
  then have "concat (map (\<lambda>x. x # map ans (chat_calls x)) (map (fill_reasoning allow) xs)) = map (fill_reasoning allow) xs"
    if "set xs \<subseteq> set (plain_chat to_json allow incl img m)" for xs
    using that by (induction xs) auto
  then show ?thesis using User by (simp add: reference_chat_message_def message_uses_def)
next
  case Assistant
  then have "length (plain_chat to_json allow incl img m) \<le> 1"
    by (simp add: plain_chat_def split: option.split)
  then consider "plain_chat to_json allow incl img m = []" | a where "plain_chat to_json allow incl img m = [a]"
    by (cases "plain_chat to_json allow incl img m") auto
  then show ?thesis
  proof cases
    case 1
    then show ?thesis using plain_chat_calls [of to_json allow incl img m]
      by (simp add: reference_chat_message_def)
  next
    case 2
    then show ?thesis using plain_chat_calls [of to_json allow incl img m] assms
      by (simp add: reference_chat_message_def)
  qed
qed

text \<open>C10: as long as the sanitised ids of the calls stay apart, the four passes of the builder
  compute the one-pass reference: the system prompt, then the transcript's messages in their order,
  every assistant message directly followed by one tool message per call, carrying the first result
  of its id in the transcript or the notice that there is none. Results of ids nobody called are not
  sent, and the hash order never shows.\<close>

theorem chat_messages_are_reference:
  assumes "inj_on sanitize_tool_id (set (transcript_uses ms))"
  shows "build_chat_messages to_json hash_order ms system allow incl img =
    reference_chat to_json ms system allow incl img"
proof -
  define g where "g = gather_chat to_json ms system allow incl img"
  define ns where "ns = append_missing hash_order (inject_outputs allow g)"
  let ?ans = "\<lambda>c. case tool_output_map ns c of Some y \<Rightarrow> y | None \<Rightarrow> ToolMsg c missing_output"
  have b: "build_chat_messages to_json hash_order ms system allow incl img = reorder_messages (tool_output_map ns) {} ns"
    by (simp add: build_chat_messages_def ns_def g_def Let_def)
  note go = gathered_chat_outputs [where ms = ms and to_json = to_json and system = system
    and allow = allow and incl = incl and img = img, folded g_def]
  have ans: "?ans (sanitize_tool_id i) = ToolMsg (sanitize_tool_id i) (answer ms i)"
    if i: "i \<in> set (transcript_uses ms)" for i
  proof -
    have "\<forall>(k, t) \<in> set (chat_outputs ns). k = sanitize_tool_id i \<longrightarrow> t = answer ms i \<or> t = missing_output"
      using safe_outputs(2) [of _ _ hash_order allow g, folded ns_def] go(2) i assms
      by (blast dest: inj_onD)
    moreover have "(sanitize_tool_id i, answer ms i) \<in> set (chat_outputs ns)"
      using safe_outputs(1) [of g hash_order allow, folded ns_def] go(1) [OF i] by blast
    ultimately show ?thesis by (simp add: tool_output_map_def chat_choice.best_output_chosen)
  qed
  have e: "concat (map (\<lambda>x. x # map ?ans (chat_calls x))
        (map (fill_reasoning allow) (concat (map (plain_chat to_json allow incl img) xs)))) =
      concat (map (reference_chat_message to_json (answer ms) allow incl img) xs)"
    if "set (transcript_uses xs) \<subseteq> set (transcript_uses ms)" for xs
    using that
  proof (induction xs)
    case (Cons x xs)
    have "concat (map (\<lambda>x. x # map ?ans (chat_calls x)) (map (fill_reasoning allow) (plain_chat to_json allow incl img x)))
        = reference_chat_message to_json (answer ms) allow incl img x"
      using Cons.prems by (intro expand_chat_message ans) auto
    then show ?case using Cons by simp
  qed simp
  have s: "concat (map (\<lambda>x. x # map ?ans (chat_calls x)) (system_messages system)) = system_messages system"
    by (simp add: system_messages_def)
  show ?thesis
    unfolding b chat.reorder_expand [OF disjI2, simplified] plain_msgs_def [symmetric]
      plain_build [of hash_order allow to_json ms system incl img, folded g_def ns_def]
    by (simp only: map_append concat_append e [OF subset_refl] s reference_chat_def)
qed

theorem chat_messages_are_reference_witness:
  "build_chat_messages (\<lambda>_. ''{}'') (\<lambda>xs. xs)
      [\<lparr>msg_role = User, msg_content = [ToolResult ''a'' ''early'' None],
        msg_timestamp = None, msg_duration = None\<rparr>,
       \<lparr>msg_role = Assistant, msg_content = [ToolUse ''a'' ''read'' JNull None],
        msg_timestamp = None, msg_duration = None\<rparr>] [] False False False
    = [AssistantMsg None [\<lparr>chat_call_id = sanitize_tool_id ''a'', chat_call_name = ''read'',
         chat_call_arguments = ''{}''\<rparr>] None, ToolMsg (sanitize_tool_id ''a'') ''early'']"
proof -
  let ?ms = "[\<lparr>msg_role = User, msg_content = [ToolResult ''a'' ''early'' None],
        msg_timestamp = None, msg_duration = None\<rparr>,
       \<lparr>msg_role = Assistant, msg_content = [ToolUse ''a'' ''read'' JNull None],
        msg_timestamp = None, msg_duration = None\<rparr>] :: Message list"
  have i: "inj_on sanitize_tool_id (set (transcript_uses ?ms))"
    by (simp add: message_uses_def)
  show ?thesis
    unfolding chat_messages_are_reference [OF i]
    by (simp add: reference_chat_def reference_chat_message_def plain_chat_def assistant_message_def
        answer_def message_results_def message_uses_def result_output_def tool_arguments_def
        user_content_def content_from_parts_def system_messages_def)
qed

end
