(* ===== verification/Anthropic_Request.thy ===== *)
theory Anthropic_Request
  imports Tool_Pairing
begin

text \<open>
  The messages, system prompt and cache breakpoints of an Anthropic request
  (\<^verbatim>\<open>src/crates/jcode-provider-anthropic/src/lib.rs\<close>, and the OAuth tool names of
  \<^verbatim>\<open>src/crates/jcode-provider-core/src/anthropic.rs\<close>). Tool calls without any result are answered by a
  synthetic one, consecutive messages of one role are merged, and a validation pass reports calls
  that the next message does not answer; the reports, which the code logs, are the value of
  \<open>validate_messages\<close>. The roles are the two strings the code writes. Other log lines are left out.
\<close>

section \<open>Wire types\<close>

datatype result_block = ResultText str | ResultImage str str

datatype result_content = ResultString str | ResultBlocks "result_block list"

datatype api_block =
    ApiText str "CacheControl option"
  | ApiToolUse str str json "CacheControl option"
  | ApiToolResult str result_content bool
  | ApiThinking str str
  | ApiImage str str

record ApiMessage =
  api_role :: Role
  api_content :: "api_block list"

definition cache_param :: "bool \<Rightarrow> CacheControl" where
  "cache_param cache_ttl_1h =
     (if cache_ttl_1h then \<lparr>cache_kind = ''ephemeral'', cache_ttl = Some ''1h''\<rparr>
      else \<lparr>cache_kind = ''ephemeral'', cache_ttl = None\<rparr>)"

definition anthropic_map_tool_name_for_oauth :: "str \<Rightarrow> str" where
  "anthropic_map_tool_name_for_oauth name =
     (if name = ''bash'' then ''Bash'' else if name = ''read'' then ''Read''
      else if name = ''write'' then ''Write'' else if name = ''edit'' then ''Edit''
      else if name = ''glob'' then ''Glob'' else if name = ''grep'' then ''Grep''
      else if name = ''subagent'' then ''Agent'' else if name = ''schedule'' then ''ScheduleWakeup''
      else if name = ''skill_manage'' then ''Skill'' else name)"

definition anthropic_map_tool_name_from_oauth :: "str \<Rightarrow> str" where
  "anthropic_map_tool_name_from_oauth name =
     (if name = ''Bash'' then ''bash'' else if name = ''Read'' then ''read''
      else if name = ''Write'' then ''write'' else if name = ''Edit'' then ''edit''
      else if name = ''Glob'' then ''glob'' else if name = ''Grep'' then ''grep''
      else if name = ''Agent'' then ''subagent'' else if name = ''ScheduleWakeup'' then ''schedule''
      else if name = ''Skill'' then ''skill_manage'' else name)"

section \<open>Content blocks\<close>

fun is_result_image :: "result_block \<Rightarrow> bool" where
  "is_result_image (ResultImage _ _) = True"
| "is_result_image _ = False"

text \<open>What the code does through \<open>result.last_mut()\<close>: the last block, when it is a tool result.\<close>

definition last_result :: "api_block list \<Rightarrow> (str \<times> result_content \<times> bool) option" where
  "last_result acc =
     (if acc = [] then None
      else case last acc of ApiToolResult i c e \<Rightarrow> Some (i, c, e) | _ \<Rightarrow> None)"

definition push_api_text :: "str \<Rightarrow> api_block list \<Rightarrow> api_block list" where
  "push_api_text t acc =
     (case last_result acc of
        Some (i, ResultBlocks bs, e) \<Rightarrow>
          if list_ex is_result_image bs
          then butlast acc @ [ApiToolResult i (ResultBlocks (bs @ [ResultText t])) e]
          else acc @ [ApiText t None]
      | _ \<Rightarrow> acc @ [ApiText t None])"

definition push_api_image :: "str \<Rightarrow> str \<Rightarrow> api_block list \<Rightarrow> api_block list" where
  "push_api_image media_type data acc =
     (case last_result acc of
        Some (i, ResultString t, e) \<Rightarrow>
          butlast acc @ [ApiToolResult i (ResultBlocks [ResultText t, ResultImage media_type data]) e]
      | Some (i, ResultBlocks bs, e) \<Rightarrow>
          butlast acc @ [ApiToolResult i (ResultBlocks (bs @ [ResultImage media_type data])) e]
      | None \<Rightarrow> acc @ [ApiImage media_type data])"

fun push_api_block :: "bool \<Rightarrow> api_block list \<Rightarrow> ContentBlock \<Rightarrow> api_block list" where
  "push_api_block is_oauth acc (Text t _) = push_api_text t acc"
| "push_api_block is_oauth acc (AnthropicThinking thinking signature) = acc @ [ApiThinking thinking signature]"
| "push_api_block is_oauth acc (ToolUse i name input _) =
     acc @ [ApiToolUse (sanitize_tool_id i)
       (if is_oauth then anthropic_map_tool_name_for_oauth name else name)
       (if is_object input then input else JObject []) None]"
| "push_api_block is_oauth acc (ToolResult i content is_error) =
     acc @ [ApiToolResult (sanitize_tool_id i) (ResultString content)
       (case is_error of Some e \<Rightarrow> e | None \<Rightarrow> False)]"
| "push_api_block is_oauth acc (Image media_type data) = push_api_image media_type data acc"
| "push_api_block is_oauth acc _ = acc"

definition format_content_blocks :: "bool \<Rightarrow> ContentBlock list \<Rightarrow> api_block list" where
  "format_content_blocks is_oauth blocks = foldl (push_api_block is_oauth) [] blocks"

section \<open>Messages\<close>

definition all_use_ids :: "Message list \<Rightarrow> str list" where
  "all_use_ids ms = concat (map (\<lambda>m. concat (map block_calls (msg_content m))) ms)"

definition all_result_ids :: "Message list \<Rightarrow> str list" where
  "all_result_ids ms = map fst (concat (map (\<lambda>m. concat (map block_outputs (msg_content m))) ms))"

definition dangling_uses :: "Message list \<Rightarrow> str set" where
  "dangling_uses ms = set (all_use_ids ms) - set (all_result_ids ms)"

definition interrupted_result :: "str \<Rightarrow> api_block" where
  "interrupted_result i =
     ApiToolResult (sanitize_tool_id i)
       (ResultString ''[Session interrupted before tool execution completed]'') True"

definition format_message :: "bool \<Rightarrow> str set \<Rightarrow> Message \<Rightarrow> ApiMessage list" where
  "format_message is_oauth dangling m =
     (let content = format_content_blocks is_oauth (msg_content m);
          synthetic = (case msg_role m of
             Assistant \<Rightarrow> map interrupted_result
               (filter (\<lambda>i. i \<in> dangling) (concat (map block_calls (msg_content m))))
           | User \<Rightarrow> [])
      in (if content = [] then [] else [\<lparr>api_role = msg_role m, api_content = content\<rparr>])
         @ (if synthetic = [] then [] else [\<lparr>api_role = User, api_content = synthetic\<rparr>]))"

definition merge_message :: "ApiMessage list \<Rightarrow> ApiMessage \<Rightarrow> ApiMessage list" where
  "merge_message merged m =
     (if merged \<noteq> [] \<and> api_role (last merged) = api_role m
      then butlast merged @ [(last merged)\<lparr>api_content := api_content (last merged) @ api_content m\<rparr>]
      else merged @ [m])"

definition format_messages :: "bool \<Rightarrow> Message list \<Rightarrow> ApiMessage list" where
  "format_messages is_oauth ms =
     foldl merge_message [] (concat (map (format_message is_oauth (dangling_uses ms)) ms))"

fun api_uses :: "api_block \<Rightarrow> str list" where
  "api_uses (ApiToolUse i _ _ _) = [i]"
| "api_uses _ = []"

fun api_results :: "api_block \<Rightarrow> str list" where
  "api_results (ApiToolResult i _ _) = [i]"
| "api_results _ = []"

definition use_ids :: "ApiMessage \<Rightarrow> str list" where
  "use_ids m = concat (map api_uses (api_content m))"

definition result_ids :: "ApiMessage \<Rightarrow> str list" where
  "result_ids m = concat (map api_results (api_content m))"

datatype request_warning = NextNotUser nat | ResultMissing nat str | NoNextMessage nat

definition check_message :: "nat \<Rightarrow> ApiMessage \<Rightarrow> ApiMessage list \<Rightarrow> request_warning list" where
  "check_message i m rest =
     (if api_role m = Assistant \<and> use_ids m \<noteq> [] then
        (case rest of
           [] \<Rightarrow> [NoNextMessage i]
         | n # _ \<Rightarrow>
             if api_role n \<noteq> User then [NextNotUser i]
             else map (ResultMissing i) (filter (\<lambda>u. u \<notin> set (result_ids n)) (use_ids m)))
      else [])"

fun validate_messages :: "nat \<Rightarrow> ApiMessage list \<Rightarrow> request_warning list" where
  "validate_messages i [] = []"
| "validate_messages i (m # rest) = check_message i m rest @ validate_messages (Suc i) rest"

section \<open>System prompt and cache breakpoints\<close>

record ApiSystemBlock =
  system_text :: str
  system_cache :: "CacheControl option"

definition OAUTH_BILLING_HEADER :: str where
  "OAUTH_BILLING_HEADER = ''cc_version=2.1.123; cc_entrypoint=sdk-cli; cch=33f85;''"

definition CLAUDE_CODE_IDENTITY :: str where
  \<open>CLAUDE_CODE_IDENTITY = ''You are a Claude agent, built on Anthropic'' @ [CHR 0x27] @ ''s Claude Agent SDK.''\<close>

definition build_system_param_split :: "str \<Rightarrow> str \<Rightarrow> bool \<Rightarrow> bool \<Rightarrow> ApiSystemBlock list option" where
  "build_system_param_split static_part dynamic_part is_oauth cache_ttl_1h =
     (let body =
        (if static_part = [] then []
         else [\<lparr>system_text = static_part, system_cache = Some (cache_param cache_ttl_1h)\<rparr>])
        @ (if dynamic_part = [] then [] else [\<lparr>system_text = dynamic_part, system_cache = None\<rparr>])
      in if is_oauth
         then Some ([\<lparr>system_text = ''x-anthropic-billing-header: '' @ OAUTH_BILLING_HEADER, system_cache = None\<rparr>,
                     \<lparr>system_text = CLAUDE_CODE_IDENTITY, system_cache = None\<rparr>] @ body)
         else if static_part = [] \<and> dynamic_part = [] then None
         else Some body)"

definition build_system_param :: "str \<Rightarrow> bool \<Rightarrow> bool \<Rightarrow> ApiSystemBlock list option" where
  "build_system_param system is_oauth cache_ttl_1h = build_system_param_split system [] is_oauth cache_ttl_1h"

fun mark_first :: "CacheControl \<Rightarrow> api_block list \<Rightarrow> api_block list" where
  "mark_first c [] = []"
| "mark_first c (ApiText t _ # bs) = ApiText t (Some c) # bs"
| "mark_first c (ApiToolUse i n v _ # bs) = ApiToolUse i n v (Some c) # bs"
| "mark_first c (b # bs) = b # mark_first c bs"

text \<open>The loop over \<open>content.iter_mut().rev()\<close> that stops at the first block it can mark.\<close>

definition mark_message :: "bool \<Rightarrow> ApiMessage \<Rightarrow> ApiMessage" where
  "mark_message cache_ttl_1h m =
     m\<lparr>api_content := rev (mark_first (cache_param cache_ttl_1h) (rev (api_content m)))\<rparr>"

definition assistant_indices :: "ApiMessage list \<Rightarrow> nat list" where
  "assistant_indices ms = take 2 (filter (\<lambda>i. api_role (ms ! i) = Assistant) (rev [0..<length ms]))"

definition add_message_cache_breakpoint :: "bool \<Rightarrow> ApiMessage list \<Rightarrow> ApiMessage list" where
  "add_message_cache_breakpoint cache_ttl_1h ms =
     (if length ms < 3 then ms
      else foldl (\<lambda>ms i. ms[i := mark_message cache_ttl_1h (ms ! i)]) ms (assistant_indices ms))"

definition format_messages_with_identity :: "ApiMessage list \<Rightarrow> bool \<Rightarrow> bool \<Rightarrow> ApiMessage list" where
  "format_messages_with_identity ms is_oauth cache_ttl_1h = add_message_cache_breakpoint cache_ttl_1h ms"

section \<open>Merging\<close>

text \<open>The merge, read from the right: runs of one role become one message.\<close>

fun merge_runs :: "ApiMessage list \<Rightarrow> ApiMessage list" where
  "merge_runs [] = []"
| "merge_runs (x # xs) =
     (case merge_runs xs of
        [] \<Rightarrow> [x]
      | y # ys \<Rightarrow>
          if api_role x = api_role y then x\<lparr>api_content := api_content x @ api_content y\<rparr> # ys
          else x # y # ys)"

lemma merge_runs_hd: "merge_runs (x # xs) = y # ys \<Longrightarrow> api_role y = api_role x"
  by (auto split: list.splits if_splits)

lemma merge_runs_Nil [simp]: "merge_runs xs = [] \<longleftrightarrow> xs = []"
  by (cases xs) (auto split: list.splits)

lemma merge_message_append:
  "merged \<noteq> [] \<Longrightarrow> merge_message (acc @ merged) m = acc @ merge_message merged m"
  by (simp add: merge_message_def butlast_append)

lemma merge_message_ne [simp]: "merge_message merged m \<noteq> []"
  by (simp add: merge_message_def)

lemma foldl_merge_append:
  "merged \<noteq> [] \<Longrightarrow> foldl merge_message (acc @ merged) xs = acc @ foldl merge_message merged xs"
  by (induction xs arbitrary: merged) (simp_all add: merge_message_append)

lemma merge_runs_join:
  assumes "api_role x = api_role y"
  shows "merge_runs (x\<lparr>api_content := api_content x @ api_content y\<rparr> # xs) =
    merge_runs (x # y # xs)"
  using assms by (cases "merge_runs xs") auto

lemma foldl_merge_runs: "foldl merge_message [x] xs = merge_runs (x # xs)"
proof (induction xs arbitrary: x)
  case (Cons y ys)
  show ?case
  proof (cases "api_role x = api_role y")
    case True
    then have "foldl merge_message [x] (y # ys) = foldl merge_message [x\<lparr>api_content := api_content x @ api_content y\<rparr>] ys"
      by (simp add: merge_message_def)
    then show ?thesis by (simp only: Cons merge_runs_join [OF True])
  next
    case False
    have "foldl merge_message [x] (y # ys) = [x] @ foldl merge_message [y] ys"
      using False foldl_merge_append [of "[y]" "[x]" ys] by (simp add: merge_message_def)
    moreover obtain z zs where z: "merge_runs (y # ys) = z # zs"
      by (metis list.exhaust list.distinct(1) merge_runs_Nil)
    ultimately show ?thesis using False merge_runs_hd [OF z] Cons
      by (simp del: merge_runs.simps add: merge_runs.simps(2) [of x])
  qed
qed simp

lemma merge_is_runs: "foldl merge_message [] xs = merge_runs xs"
proof (cases xs)
  case (Cons x ys)
  then show ?thesis using foldl_merge_runs [of x ys] by (simp add: merge_message_def)
qed simp

lemma merge_runs_alternate: "distinct_adj (map api_role (merge_runs xs))"
proof (induction xs)
  case (Cons x xs)
  then show ?case
    by (cases "merge_runs xs") (auto simp: distinct_adj_Cons split: list.splits)
qed simp

lemma merge_runs_content: "concat (map api_content (merge_runs xs)) = concat (map api_content xs)"
  by (induction xs) (auto split: list.splits)

lemma merge_runs_nonempty:
  "list_all (\<lambda>m. api_content m \<noteq> []) xs \<Longrightarrow> list_all (\<lambda>m. api_content m \<noteq> []) (merge_runs xs)"
  by (induction xs) (auto split: list.splits)

section \<open>Calls and results survive the formatting\<close>

lemma last_result_split: "last_result acc = Some (i, c, e) \<Longrightarrow> acc = butlast acc @ [ApiToolResult i c e]"
  by (auto simp: last_result_def split: if_splits api_block.splits) (metis append_butlast_last_id)

lemma push_api_text_cases:
  obtains "push_api_text t acc = acc @ [ApiText t None]"
  | pre i bs e where "acc = pre @ [ApiToolResult i (ResultBlocks bs) e]" "list_ex is_result_image bs"
      "push_api_text t acc = pre @ [ApiToolResult i (ResultBlocks (bs @ [ResultText t])) e]"
proof (cases "last_result acc")
  case None
  then show ?thesis using that(1) by (simp add: push_api_text_def)
next
  case (Some r)
  obtain i c e where r: "r = (i, c, e)" by (cases r)
  note s = last_result_split [OF Some [unfolded r]]
  show ?thesis
  proof (cases c)
    case (ResultString x)
    then show ?thesis using that(1) Some by (simp add: push_api_text_def r)
  next
    case (ResultBlocks bs)
    then show ?thesis using that s Some by (cases "list_ex is_result_image bs") (simp_all add: push_api_text_def r)
  qed
qed

lemma push_api_image_cases:
  obtains "push_api_image m d acc = acc @ [ApiImage m d]"
  | pre i c c' e where "acc = pre @ [ApiToolResult i c e]" "push_api_image m d acc = pre @ [ApiToolResult i c' e]"
proof (cases "last_result acc")
  case None
  then show ?thesis using that(1) by (simp add: push_api_image_def)
next
  case (Some r)
  obtain i c e where r: "r = (i, c, e)" by (cases r)
  note s = last_result_split [OF Some [unfolded r]]
  show ?thesis using that(2) [OF s] Some by (cases c) (auto simp: push_api_image_def r)
qed

lemma push_api_block_ids:
  "concat (map api_uses (push_api_block oa acc b)) = concat (map api_uses acc) @ map sanitize_tool_id (block_calls b)"
  "concat (map api_results (push_api_block oa acc b)) =
    concat (map api_results acc) @ map (\<lambda>r. sanitize_tool_id (fst r)) (block_outputs b)"
proof -
  show "concat (map api_uses (push_api_block oa acc b)) = concat (map api_uses acc) @ map sanitize_tool_id (block_calls b)"
  proof (cases b)
    case (Text t c)
    then show ?thesis by (cases rule: push_api_text_cases [of t acc]) auto
  next
    case (Image m d)
    then show ?thesis by (cases rule: push_api_image_cases [of m d acc]) auto
  qed simp_all
  show "concat (map api_results (push_api_block oa acc b)) =
    concat (map api_results acc) @ map (\<lambda>r. sanitize_tool_id (fst r)) (block_outputs b)"
  proof (cases b)
    case (Text t c)
    then show ?thesis by (cases rule: push_api_text_cases [of t acc]) auto
  next
    case (Image m d)
    then show ?thesis by (cases rule: push_api_image_cases [of m d acc]) auto
  qed simp_all
qed

lemma format_content_ids:
  "concat (map api_uses (format_content_blocks oa bs)) = map sanitize_tool_id (concat (map block_calls bs))"
  "concat (map api_results (format_content_blocks oa bs)) =
    map (\<lambda>r. sanitize_tool_id (fst r)) (concat (map block_outputs bs))"
proof -
  have "concat (map api_uses (foldl (push_api_block oa) acc bs)) =
      concat (map api_uses acc) @ map sanitize_tool_id (concat (map block_calls bs))"
    and "concat (map api_results (foldl (push_api_block oa) acc bs)) =
      concat (map api_results acc) @ map (\<lambda>r. sanitize_tool_id (fst r)) (concat (map block_outputs bs))" for acc
    by (induction bs arbitrary: acc) (simp_all add: push_api_block_ids)
  then show "concat (map api_uses (format_content_blocks oa bs)) = map sanitize_tool_id (concat (map block_calls bs))"
    and "concat (map api_results (format_content_blocks oa bs)) =
      map (\<lambda>r. sanitize_tool_id (fst r)) (concat (map block_outputs bs))"
    by (simp_all add: format_content_blocks_def)
qed

lemma use_ids_concat: "concat (map use_ids ms) = concat (map api_uses (concat (map api_content ms)))"
  by (induction ms) (simp_all add: use_ids_def)

lemma result_ids_concat: "concat (map result_ids ms) = concat (map api_results (concat (map api_content ms)))"
  by (induction ms) (simp_all add: result_ids_def)

lemma synthetic_ids:
  "concat (map api_uses (map interrupted_result is)) = []"
  "concat (map api_results (map interrupted_result is)) = map sanitize_tool_id is"
  by (induction "is") (simp_all add: interrupted_result_def)

lemma format_message_uses:
  "concat (map use_ids (format_message oa D m)) = map sanitize_tool_id (concat (map block_calls (msg_content m)))"
proof -
  let ?c = "format_content_blocks oa (msg_content m)"
  let ?s = "case msg_role m of Assistant \<Rightarrow> map interrupted_result
      (filter (\<lambda>i. i \<in> D) (concat (map block_calls (msg_content m)))) | User \<Rightarrow> []"
  have "concat (map api_uses ?s) = []" by (cases "msg_role m") (simp_all only: Role.case list.map concat.simps synthetic_ids(1))
  moreover have "concat (map use_ids (format_message oa D m)) = concat (map api_uses (?c @ ?s))"
    unfolding use_ids_concat by (simp add: format_message_def Let_def)
  ultimately show ?thesis by (simp only: map_append concat_append format_content_ids(1) append_Nil2)
qed

lemma format_message_nonempty: "list_all (\<lambda>m. api_content m \<noteq> []) (format_message oa D m)"
  by (simp add: format_message_def Let_def)

text \<open>Supplement: the messages sent to Anthropic strictly alternate between the roles, none is empty, and
  the tool calls are those of the transcript in their order.\<close>

theorem anthropic_messages_alternate:
  "distinct_adj (map api_role (format_messages oa ms))
   \<and> list_all (\<lambda>m. api_content m \<noteq> []) (format_messages oa ms)
   \<and> concat (map use_ids (format_messages oa ms)) = map sanitize_tool_id (all_use_ids ms)"
proof -
  have "concat (map use_ids (concat (map (format_message oa D) xs))) = map sanitize_tool_id (all_use_ids xs)" for D xs
    by (induction xs) (simp_all add: format_message_uses all_use_ids_def)
  moreover have "list_all (\<lambda>m. api_content m \<noteq> []) (concat (map (format_message oa D) xs))" for D xs
    by (induction xs) (simp_all add: format_message_nonempty)
  ultimately show ?thesis
    by (simp add: format_messages_def merge_is_runs merge_runs_alternate merge_runs_nonempty
        use_ids_concat merge_runs_content)
qed

section \<open>Every call is answered by the next message\<close>

text \<open>A transcript whose results come promptly: a call that has a result anywhere has one in the user
  messages directly behind its message.\<close>

fun prompt_from :: "str set \<Rightarrow> Message list \<Rightarrow> bool" where
  "prompt_from answered [] = True"
| "prompt_from answered (m # ms) \<longleftrightarrow>
     (msg_role m = Assistant \<longrightarrow>
        list_all (\<lambda>i. i \<in> answered \<longrightarrow>
            i \<in> set (all_result_ids (takeWhile (\<lambda>n. msg_role n = User) ms)))
          (concat (map block_calls (msg_content m))))
     \<and> prompt_from answered ms"

definition prompt_transcript :: "Message list \<Rightarrow> bool" where
  "prompt_transcript ms = prompt_from (set (all_result_ids ms)) ms"

fun answered_next :: "ApiMessage list \<Rightarrow> bool" where
  "answered_next [] = True"
| "answered_next (x # xs) \<longleftrightarrow>
     (api_role x = Assistant \<longrightarrow>
        set (use_ids x) \<subseteq> set (concat (map result_ids (takeWhile (\<lambda>m. api_role m = User) xs))))
     \<and> answered_next xs"

lemma merge_runs_results:
  "merge_runs xs = y # ys \<Longrightarrow> api_role y = User \<Longrightarrow>
    result_ids y = concat (map result_ids (takeWhile (\<lambda>m. api_role m = User) xs))"
proof (induction xs arbitrary: y ys)
  case (Cons x xs)
  show ?case
  proof (cases "merge_runs xs")
    case Nil
    then show ?thesis using Cons.prems by auto
  next
    case (Cons z zs)
    then obtain w ws where xs: "xs = w # ws" by (cases xs) auto
    have wz: "api_role z = api_role w" using merge_runs_hd [of w ws z zs] Cons xs by simp
    have xu: "api_role x = User" using Cons.prems merge_runs_hd by metis
    show ?thesis
    proof (cases "api_role z = User")
      case True
      have "result_ids z = concat (map result_ids (takeWhile (\<lambda>m. api_role m = User) xs))"
        using Cons.IH Cons True by blast
      moreover have "y = x\<lparr>api_content := api_content x @ api_content z\<rparr>"
        using Cons.prems(1) Cons True xu by simp
      then have "result_ids y = result_ids x @ result_ids z" by (simp add: result_ids_def)
      ultimately show ?thesis using xu by simp
    next
      case False
      then show ?thesis using Cons.prems(1) Cons xu xs wz by auto
    qed
  qed
qed simp

lemma validate_merge_runs: "answered_next xs \<Longrightarrow> validate_messages i (merge_runs xs) = []"
proof (induction xs arbitrary: i)
  case (Cons x xs)
  show ?case
  proof (cases "merge_runs xs")
    case Nil
    then show ?thesis using Cons.prems by (auto simp: check_message_def)
  next
    case (Cons z zs)
    then obtain w ws where xs: "xs = w # ws" by (cases xs) auto
    have wz: "api_role z = api_role w" using merge_runs_hd [of w ws z zs] Cons xs by simp
    have ih: "validate_messages j (z # zs) = []" for j using Cons.IH Cons.prems Cons by simp
    show ?thesis
    proof (cases "api_role x = api_role z")
      case True
      have "use_ids x = []" if "api_role x = Assistant"
        using that Cons.prems True wz xs by simp
      then have "check_message i (x\<lparr>api_content := api_content x @ api_content z\<rparr>) zs = check_message i z zs"
        using True by (auto simp: check_message_def use_ids_def split: list.split)
      then show ?thesis using ih [of i] Cons True by simp
    next
      case False
      have "check_message i x (z # zs) = []"
        using False Cons.prems merge_runs_results [OF Cons] Role.exhaust
        by (cases "api_role x"; cases "api_role z") (auto simp: check_message_def filter_empty_conv)
      then show ?thesis using ih [of "Suc i"] Cons False by simp
    qed
  qed
qed simp

lemma format_user: "msg_role m = User \<Longrightarrow> x \<in> set (format_message oa D m) \<Longrightarrow> api_role x = User"
  by (auto simp: format_message_def Let_def split: if_splits)

lemma format_user_results:
  "msg_role m = User \<Longrightarrow>
    concat (map result_ids (format_message oa D m)) = map sanitize_tool_id (all_result_ids [m])"
  using format_content_ids(2) [of oa "msg_content m"]
  by (auto simp: format_message_def Let_def result_ids_def all_result_ids_def)

lemma run_results:
  "sanitize_tool_id ` set (all_result_ids (takeWhile (\<lambda>n. msg_role n = User) ms)) \<subseteq>
    set (concat (map result_ids (takeWhile (\<lambda>m. api_role m = User) (concat (map (format_message oa D) ms)))))"
proof (induction ms)
  case (Cons m ms)
  show ?case
  proof (cases "msg_role m = User")
    case True
    have 1: "takeWhile (\<lambda>m. api_role m = User) (concat (map (format_message oa D) (m # ms))) =
        format_message oa D m @ takeWhile (\<lambda>m. api_role m = User) (concat (map (format_message oa D) ms))"
      using format_user [OF True] by (simp add: takeWhile_append2)
    have 2: "takeWhile (\<lambda>n. msg_role n = User) (m # ms) = m # takeWhile (\<lambda>n. msg_role n = User) ms"
      using True by simp
    have 3: "set (all_result_ids (m # ns)) = set (all_result_ids [m]) \<union> set (all_result_ids ns)" for ns
      by (simp add: all_result_ids_def image_Un)
    have 4: "set (concat (map result_ids (format_message oa D m))) = sanitize_tool_id ` set (all_result_ids [m])"
      by (simp only: format_user_results [OF True] set_map)
    show ?thesis
      unfolding 1 2 3 [of "takeWhile (\<lambda>n. msg_role n = User) ms"] map_append concat_append set_append image_Un 4
      by (intro Un_mono subset_refl Cons.IH)
  qed (simp add: all_result_ids_def)
qed (simp add: all_result_ids_def)

lemma answered_next_users:
  "(\<And>x. x \<in> set xs \<Longrightarrow> api_role x = User) \<Longrightarrow> answered_next (xs @ ys) = answered_next ys"
  by (induction xs) simp_all

lemma format_assistant:
  assumes "msg_role m = Assistant"
    and "\<And>i. i \<in> set (concat (map block_calls (msg_content m))) \<Longrightarrow> i \<notin> D \<Longrightarrow>
      sanitize_tool_id i \<in> set (concat (map result_ids (takeWhile (\<lambda>m. api_role m = User) rest)))"
    and "answered_next rest"
  shows "answered_next (format_message oa D m @ rest)"
proof -
  let ?calls = "concat (map block_calls (msg_content m))"
  let ?content = "format_content_blocks oa (msg_content m)"
  let ?synth = "map interrupted_result (filter (\<lambda>i. i \<in> D) ?calls)"
  let ?tail = "(if ?synth = [] then [] else [\<lparr>api_role = User, api_content = ?synth\<rparr>]) @ rest"
  have f: "format_message oa D m @ rest =
      (if ?content = [] then [] else [\<lparr>api_role = Assistant, api_content = ?content\<rparr>]) @ ?tail"
    using assms(1) by (simp add: format_message_def Let_def)
  have tail: "answered_next ?tail" using assms(3) by simp
  have "set (concat (map result_ids (takeWhile (\<lambda>m. api_role m = User) ?tail))) =
      sanitize_tool_id ` {i \<in> set ?calls. i \<in> D}
      \<union> set (concat (map result_ids (takeWhile (\<lambda>m. api_role m = User) rest)))"
  proof (cases "?synth = []")
    case True
    then show ?thesis by (auto simp: filter_empty_conv)
  next
    case False
    have "result_ids \<lparr>api_role = User, api_content = ?synth\<rparr> = map sanitize_tool_id (filter (\<lambda>i. i \<in> D) ?calls)"
      by (simp add: result_ids_def synthetic_ids(2) del: map_map)
    then show ?thesis using False by (simp del: map_map set_concat filter_empty_conv)
  qed
  moreover have "use_ids \<lparr>api_role = Assistant, api_content = ?content\<rparr> = map sanitize_tool_id ?calls"
    by (simp add: use_ids_def format_content_ids(1))
  ultimately have "set (use_ids \<lparr>api_role = Assistant, api_content = ?content\<rparr>) \<subseteq>
      set (concat (map result_ids (takeWhile (\<lambda>m. api_role m = User) ?tail)))"
    using assms(2) by (auto simp del: set_concat)
  then show ?thesis unfolding f using tail by simp
qed

lemma format_answered:
  assumes "prompt_from R ms" and "\<And>i. i \<in> set (all_use_ids ms) \<Longrightarrow> i \<notin> D \<Longrightarrow> i \<in> R"
  shows "answered_next (concat (map (format_message oa D) ms))"
  using assms
proof (induction ms)
  case (Cons m ms)
  have ih: "answered_next (concat (map (format_message oa D) ms))"
    using Cons by (simp add: all_use_ids_def)
  show ?case
  proof (cases "msg_role m")
    case User
    then show ?thesis using ih answered_next_users [of "format_message oa D m"] format_user by simp
  next
    case Assistant
    have "sanitize_tool_id i \<in>
        set (concat (map result_ids (takeWhile (\<lambda>m. api_role m = User) (concat (map (format_message oa D) ms)))))"
      if i: "i \<in> set (concat (map block_calls (msg_content m)))" "i \<notin> D" for i
    proof -
      have "i \<in> R" using Cons.prems(2) i by (simp add: all_use_ids_def)
      then have "i \<in> set (all_result_ids (takeWhile (\<lambda>n. msg_role n = User) ms))"
        using Cons.prems(1) Assistant i(1) by (simp add: list_all_iff del: set_concat)
      then show ?thesis using run_results by blast
    qed
    then show ?thesis using format_assistant [OF Assistant _ ih] by simp
  qed
qed simp

text \<open>C20: when the results of the transcript come promptly, the validation of the request finds
  nothing to report: every message with tool calls is followed by a user message with a result for
  each of them. Calls without any result never matter, a synthetic result directly follows them.\<close>

theorem prompt_requests_validate:
  assumes "prompt_transcript ms"
  shows "validate_messages 0 (format_messages oa ms) = []"
  unfolding format_messages_def merge_is_runs
  by (rule validate_merge_runs, rule format_answered [where R = "set (all_result_ids ms)"])
    (use assms in \<open>auto simp: prompt_transcript_def dangling_uses_def\<close>)

theorem prompt_requests_validate_witness:
  "validate_messages 0 (format_messages False
     [\<lparr>msg_role = Assistant, msg_content = [ToolUse ''a'' ''read'' JNull None, ToolUse ''b'' ''read'' JNull None],
        msg_timestamp = None, msg_duration = None\<rparr>,
      \<lparr>msg_role = User, msg_content = [ToolResult ''a'' ''ok'' None], msg_timestamp = None, msg_duration = None\<rparr>]) = []"
  by (rule prompt_requests_validate)
    (simp add: prompt_transcript_def all_result_ids_def)

section \<open>Tool results stay together\<close>

text \<open>A tool result with the images it produced and their labels, as the tools emit them.\<close>

record result_group =
  group_id :: str
  group_content :: str
  group_error :: "bool option"
  group_images :: "(str \<times> str) list"
  group_labels :: "str list"

definition group_blocks :: "result_group \<Rightarrow> ContentBlock list" where
  "group_blocks g =
     ToolResult (group_id g) (group_content g) (group_error g)
     # map (\<lambda>(m, d). Image m d) (group_images g)
     @ (if group_images g = [] then [] else map (\<lambda>t. Text t None) (group_labels g))"

definition group_result :: "result_group \<Rightarrow> api_block" where
  "group_result g =
     ApiToolResult (sanitize_tool_id (group_id g))
       (if group_images g = [] then ResultString (group_content g)
        else ResultBlocks (ResultText (group_content g) # map (\<lambda>(m, d). ResultImage m d) (group_images g)
               @ map ResultText (group_labels g)))
       (case group_error g of Some e \<Rightarrow> e | None \<Rightarrow> False)"

lemma push_images:
  "foldl (push_api_block oa) (acc @ [ApiToolResult i (ResultBlocks bs) e]) (map (\<lambda>(m, d). Image m d) imgs) =
    acc @ [ApiToolResult i (ResultBlocks (bs @ map (\<lambda>(m, d). ResultImage m d) imgs)) e]"
  by (induction imgs arbitrary: bs) (auto simp: push_api_image_def last_result_def)

lemma push_labels:
  "list_ex is_result_image bs \<Longrightarrow>
    foldl (push_api_block oa) (acc @ [ApiToolResult i (ResultBlocks bs) e]) (map (\<lambda>t. Text t None) labels) =
    acc @ [ApiToolResult i (ResultBlocks (bs @ map ResultText labels)) e]"
  by (induction labels arbitrary: bs) (auto simp: push_api_text_def last_result_def)

lemma push_group: "foldl (push_api_block oa) acc (group_blocks g) = acc @ [group_result g]"
proof (cases "group_images g")
  case Nil
  then show ?thesis by (simp add: group_blocks_def group_result_def)
next
  case (Cons md imgs)
  obtain m d where md: "md = (m, d)" by (cases md)
  show ?thesis
    using push_labels [where oa = oa and acc = acc and i = "sanitize_tool_id (group_id g)" and labels = "group_labels g"
        and e = "case group_error g of Some e \<Rightarrow> e | None \<Rightarrow> False"
        and bs = "ResultText (group_content g) # ResultImage m d # map (\<lambda>(m, d). ResultImage m d) imgs"]
    by (simp add: group_blocks_def group_result_def Cons md push_api_image_def last_result_def push_images)
qed

text \<open>Supplement: however many images and labels parallel tools attach to their results, the user message
  with the results consists of exactly one tool result block per result, in their order and with
  nothing between them: the images and labels are folded into the result they belong to.\<close>

theorem tool_results_stay_contiguous:
  "format_content_blocks oa (concat (map group_blocks gs)) = map group_result gs"
proof -
  have "foldl (push_api_block oa) acc (concat (map group_blocks gs)) = acc @ map group_result gs" for acc
    by (induction gs arbitrary: acc) (simp_all add: push_group)
  then show ?thesis by (simp add: format_content_blocks_def)
qed

section \<open>Cache breakpoints\<close>

fun block_markers :: "api_block \<Rightarrow> nat" where
  "block_markers (ApiText _ c) = (if c = None then 0 else 1)"
| "block_markers (ApiToolUse _ _ _ c) = (if c = None then 0 else 1)"
| "block_markers _ = 0"

definition message_markers :: "ApiMessage \<Rightarrow> nat" where
  "message_markers m = sum_list (map block_markers (api_content m))"

definition markers :: "ApiMessage list \<Rightarrow> nat" where
  "markers ms = sum_list (map message_markers ms)"

definition system_markers :: "ApiSystemBlock list option \<Rightarrow> nat" where
  "system_markers s =
     (case s of None \<Rightarrow> 0 | Some bs \<Rightarrow> length (filter (\<lambda>b. system_cache b \<noteq> None) bs))"

fun unmarked_block :: "api_block \<Rightarrow> api_block" where
  "unmarked_block (ApiText t _) = ApiText t None"
| "unmarked_block (ApiToolUse i n v _) = ApiToolUse i n v None"
| "unmarked_block b = b"

definition unmarked :: "ApiMessage \<Rightarrow> ApiMessage" where
  "unmarked m = m\<lparr>api_content := map unmarked_block (api_content m)\<rparr>"

lemma mark_first_unmarked: "map unmarked_block (mark_first c bs) = map unmarked_block bs"
  by (induction c bs rule: mark_first.induct) simp_all

lemma mark_first_markers: "sum_list (map block_markers (mark_first c bs)) \<le> Suc (sum_list (map block_markers bs))"
  by (induction c bs rule: mark_first.induct) simp_all

lemma mark_message_facts:
  "api_role (mark_message h m) = api_role m"
  "unmarked (mark_message h m) = unmarked m"
  "message_markers (mark_message h m) \<le> Suc (message_markers m)"
proof -
  show "unmarked (mark_message h m) = unmarked m"
    using arg_cong [OF mark_first_unmarked [of "cache_param h" "rev (api_content m)"], of rev]
    by (simp add: unmarked_def mark_message_def rev_map)
  show "message_markers (mark_message h m) \<le> Suc (message_markers m)"
    using mark_first_markers [of "cache_param h" "rev (api_content m)"]
    by (simp add: message_markers_def mark_message_def rev_map [symmetric] sum_list_rev)
qed (simp add: mark_message_def)

declare mark_message_facts(1,2) [simp]

lemma assistant_indices_props:
  "set (assistant_indices ms) \<subseteq> {i. i < length ms \<and> api_role (ms ! i) = Assistant}"
  "distinct (assistant_indices ms)" "length (assistant_indices ms) \<le> 2"
  by (auto simp: assistant_indices_def dest: in_set_takeD)

text \<open>The marking loop as a point-wise change.\<close>

lemma mark_loop:
  assumes "distinct is"
  shows "length (foldl (\<lambda>ms i. ms[i := mark_message h (ms ! i)]) ms is) = length ms"
    and "k < length ms \<Longrightarrow> foldl (\<lambda>ms i. ms[i := mark_message h (ms ! i)]) ms is ! k =
      (if k \<in> set is then mark_message h (ms ! k) else ms ! k)"
proof -
  show "length (foldl (\<lambda>ms i. ms[i := mark_message h (ms ! i)]) ms is) = length ms"
    by (induction "is" arbitrary: ms) simp_all
  show "k < length ms \<Longrightarrow> foldl (\<lambda>ms i. ms[i := mark_message h (ms ! i)]) ms is ! k =
      (if k \<in> set is then mark_message h (ms ! k) else ms ! k)"
    using assms
  proof (induction "is" arbitrary: ms)
    case (Cons a "is")
    then show ?case by (cases "k = a") auto
  qed simp
qed

lemma breakpoint_nth:
  assumes "k < length ms"
  shows "add_message_cache_breakpoint h ms ! k =
    (if 3 \<le> length ms \<and> k \<in> set (assistant_indices ms) then mark_message h (ms ! k) else ms ! k)"
  using assms mark_loop(2) [OF assistant_indices_props(2), of k ms]
  by (simp add: add_message_cache_breakpoint_def)

lemma length_breakpoint [simp]: "length (add_message_cache_breakpoint h ms) = length ms"
  by (simp add: add_message_cache_breakpoint_def mark_loop(1) assistant_indices_props(2))

lemma loop_markers:
  "(\<And>i. i \<in> set is \<Longrightarrow> i < length ms) \<Longrightarrow>
    markers (foldl (\<lambda>ms i. ms[i := mark_message h (ms ! i)]) ms is) \<le> markers ms + length is"
proof (induction "is" arbitrary: ms)
  case (Cons i "is")
  have i: "i < length ms" using Cons.prems by simp
  have "markers (ms[i := mark_message h (ms ! i)]) \<le> Suc (markers ms)"
    using i mark_message_facts(3) [of h "ms ! i"] elem_le_sum_list [of i "map message_markers ms"]
    by (simp add: markers_def map_update sum_list_update)
  moreover have "markers (foldl (\<lambda>ms i. ms[i := mark_message h (ms ! i)]) (ms[i := mark_message h (ms ! i)]) is)
      \<le> markers (ms[i := mark_message h (ms ! i)]) + length is"
    using Cons by simp
  ultimately show ?case by simp
qed simp

lemma breakpoint_markers: "markers (add_message_cache_breakpoint h ms) \<le> markers ms + 2"
proof (cases "length ms < 3")
  case False
  have "markers (add_message_cache_breakpoint h ms) \<le> markers ms + length (assistant_indices ms)"
    unfolding add_message_cache_breakpoint_def using False assistant_indices_props(1)
    by (auto intro!: loop_markers)
  then show ?thesis using assistant_indices_props(3) [of ms] by linarith
qed (simp add: add_message_cache_breakpoint_def)

lemma format_content_unmarked: "sum_list (map block_markers (format_content_blocks oa bs)) = 0"
proof -
  have step: "sum_list (map block_markers (push_api_block oa acc b)) = sum_list (map block_markers acc)" for acc b
  proof (cases b)
    case (Text t c)
    then show ?thesis by (cases rule: push_api_text_cases [of t acc]) auto
  next
    case (Image m d)
    then show ?thesis by (cases rule: push_api_image_cases [of m d acc]) auto
  qed simp_all
  have "sum_list (map block_markers (foldl (push_api_block oa) acc bs)) = sum_list (map block_markers acc)" for acc
    by (induction bs arbitrary: acc) (simp_all add: step)
  then show ?thesis by (simp add: format_content_blocks_def)
qed

lemma markers_concat: "markers ms = sum_list (map block_markers (concat (map api_content ms)))"
  by (induction ms) (simp_all add: markers_def message_markers_def)

lemma format_messages_unmarked: "markers (format_messages oa ms) = 0"
proof -
  have "block_markers (interrupted_result i) = 0" for i by (simp add: interrupted_result_def)
  then have "sum_list (map block_markers (concat (map api_content (format_message oa D m)))) = 0" for D m
    using format_content_unmarked [of oa "msg_content m"]
    by (cases "msg_role m") (simp_all add: format_message_def Let_def)
  then have "sum_list (map block_markers (concat (map api_content (concat (map (format_message oa D) xs))))) = 0" for D xs
    by (induction xs) simp_all
  then show ?thesis
    unfolding format_messages_def merge_is_runs markers_concat merge_runs_content by blast
qed

lemma system_markers_le: "system_markers (build_system_param_split s d oa h) \<le> 1"
  by (simp add: system_markers_def build_system_param_split_def Let_def)

text \<open>Supplement: the breakpoints the builder places in the messages of a request are at most two, all of
  them on assistant messages, and apart from them the messages are unchanged; with the one of the
  system prompt they are at most three, which leaves the fourth that the provider allows to the
  tools.\<close>

theorem cache_breakpoints_within_budget:
  "let ms = format_messages oa msgs;
       sent = format_messages_with_identity ms oa h;
       system = build_system_param_split static_part dynamic_part oa h
   in markers sent \<le> 2 \<and> system_markers system + markers sent \<le> 3
      \<and> list_all (\<lambda>m. message_markers m = 0 \<or> api_role m = Assistant) sent
      \<and> map unmarked sent = map unmarked ms \<and> map api_role sent = map api_role ms"
proof -
  let ?ms = "format_messages oa msgs" let ?sent = "add_message_cache_breakpoint h ?ms"
  have m: "markers ?sent \<le> 2" using breakpoint_markers [of h ?ms] format_messages_unmarked by simp
  have z: "message_markers (?ms ! k) = 0" if "k < length ?ms" for k
    using format_messages_unmarked [of oa msgs] that by (simp add: markers_def)
  have "list_all (\<lambda>m. message_markers m = 0 \<or> api_role m = Assistant) ?sent"
    unfolding list_all_length
  proof (intro allI impI)
    fix k assume "k < length ?sent"
    then show "message_markers (?sent ! k) = 0 \<or> api_role (?sent ! k) = Assistant"
      using assistant_indices_props(1) [of ?ms] z [of k] by (auto simp: breakpoint_nth)
  qed
  moreover have "map unmarked ?sent = map unmarked ?ms" "map api_role ?sent = map api_role ?ms"
    by (auto intro!: nth_equalityI simp: breakpoint_nth)
  ultimately show ?thesis
    using m system_markers_le [of static_part dynamic_part oa h]
    by (simp add: Let_def format_messages_with_identity_def)
qed

section \<open>A memory suffix keeps the cached prefix\<close>

lemma assistant_indices_users:
  assumes "list_all (\<lambda>m. api_role m = User) us"
  shows "assistant_indices (pre @ us) = assistant_indices pre"
proof -
  have "filter (\<lambda>i. api_role ((pre @ us) ! i) = Assistant) (rev [0..<length pre + length us]) =
      filter (\<lambda>i. api_role (pre ! i) = Assistant) (rev [0..<length pre])"
    using assms
  proof (induction us rule: rev_induct)
    case Nil
    then show ?case by (auto intro: filter_cong)
  next
    case (snoc u us)
    have "filter (\<lambda>i. api_role ((pre @ us @ [u]) ! i) = Assistant) (rev [0..<length pre + length us]) =
        filter (\<lambda>i. api_role ((pre @ us) ! i) = Assistant) (rev [0..<length pre + length us])"
      by (rule filter_cong) (auto simp: nth_append)
    then show ?case using snoc by (simp add: nth_append)
  qed
  then show ?thesis by (simp add: assistant_indices_def)
qed

lemma breakpoint_users:
  assumes "list_all (\<lambda>m. api_role m = User) us" and "3 \<le> length (pre @ us)"
  shows "add_message_cache_breakpoint h (pre @ us) =
    foldl (\<lambda>ms i. ms[i := mark_message h (ms ! i)]) pre (assistant_indices pre) @ us"
proof (rule nth_equalityI)
  let ?l = "foldl (\<lambda>ms i. ms[i := mark_message h (ms ! i)]) pre (assistant_indices pre)"
  have l: "length ?l = length pre" by (simp add: mark_loop(1) assistant_indices_props(2))
  show "length (add_message_cache_breakpoint h (pre @ us)) = length (?l @ us)" by (simp add: l)
  fix k assume k: "k < length (add_message_cache_breakpoint h (pre @ us))"
  have "k \<in> set (assistant_indices pre) \<Longrightarrow> k < length pre" using assistant_indices_props(1) by auto
  then show "add_message_cache_breakpoint h (pre @ us) ! k = (?l @ us) ! k"
    using k assms(2)
    by (auto simp: breakpoint_nth assistant_indices_users [OF assms(1)] nth_append l
        mark_loop(2) assistant_indices_props(2))
qed

lemma format_memory_suffix:
  assumes "msg_role m = User" and "msg_content m = [Text t c]"
  shows "format_messages oa (ms @ [m]) =
    merge_message (format_messages oa ms) \<lparr>api_role = User, api_content = [ApiText t None]\<rparr>"
proof -
  have "dangling_uses (ms @ [m]) = dangling_uses ms"
    using assms by (simp add: dangling_uses_def all_use_ids_def all_result_ids_def)
  moreover have "format_message oa D m = [\<lparr>api_role = User, api_content = [ApiText t None]\<rparr>]" for D
    using assms by (simp add: format_message_def format_content_blocks_def push_api_text_def last_result_def)
  ultimately show ?thesis by (simp add: format_messages_def)
qed


definition chat_turn :: "Role \<Rightarrow> str \<Rightarrow> Message" where
  "chat_turn r t = \<lparr>msg_role = r, msg_content = [Text t None], msg_timestamp = None, msg_duration = None\<rparr>"


section \<open>OAuth tool names\<close>

definition oauth_tool_names :: "str list" where
  "oauth_tool_names = [''Bash'', ''Read'', ''Write'', ''Edit'', ''Glob'', ''Grep'', ''Agent'', ''ScheduleWakeup'', ''Skill'']"

lemma oauth_tool_name_roundtrip:
  assumes "name \<notin> set oauth_tool_names"
  shows "anthropic_map_tool_name_from_oauth (anthropic_map_tool_name_for_oauth name) = name"
  using assms unfolding anthropic_map_tool_name_for_oauth_def anthropic_map_tool_name_from_oauth_def
    oauth_tool_names_def by (simp split: if_split)

end
