(* ===== verification/Tool_Schema.thy ===== *)
theory Tool_Schema
  imports Anthropic_Request
begin

text \<open>
  The JSON schemas of tools, as the providers want them:
  \<^verbatim>\<open>src/crates/jcode-provider-core/src/openai_schema.rs\<close> (merging of \<open>allOf\<close> branches, the test for and the
  normalisation to strict mode), the schema functions of
  \<^verbatim>\<open>src/crates/jcode-provider-openrouter/src/request.rs\<close> and of
  \<^verbatim>\<open>src/crates/jcode-provider-anthropic/src/lib.rs\<close>, and the tool lists built from them. A JSON object is
  a \<open>BTreeMap\<close>: an association list in the order of its keys, updated in place or by sorted insertion.
\<close>

section \<open>JSON objects\<close>

type_synonym obj = "(str \<times> json) list"

fun obj_insert :: "str \<Rightarrow> json \<Rightarrow> obj \<Rightarrow> obj" where
  "obj_insert k v [] = [(k, v)]"
| "obj_insert k v ((a, b) # kvs) =
     (if k < a then (k, v) # (a, b) # kvs
      else if k = a then (k, v) # kvs else (a, b) # obj_insert k v kvs)"

definition or_insert :: "str \<Rightarrow> json \<Rightarrow> obj \<Rightarrow> obj" where
  "or_insert k v kvs = (case map_of kvs k of Some _ \<Rightarrow> kvs | None \<Rightarrow> obj_insert k v kvs)"

fun as_array :: "json \<Rightarrow> json list option" where
  "as_array (JArray xs) = Some xs"
| "as_array _ = None"

fun as_object :: "json \<Rightarrow> obj option" where
  "as_object (JObject kvs) = Some kvs"
| "as_object _ = None"

fun json_ok :: "json \<Rightarrow> bool" where
  "json_ok (JObject kvs) \<longleftrightarrow> sorted_wrt (<) (map fst kvs) \<and> list_all (\<lambda>(k, v). json_ok v) kvs"
| "json_ok (JArray xs) \<longleftrightarrow> list_all json_ok xs"
| "json_ok _ = True"

lemma map_of_obj_insert:
  "sorted_wrt (<) (map fst kvs) \<Longrightarrow> map_of (obj_insert k v kvs) = (map_of kvs)(k \<mapsto> v)"
proof (induction kvs)
  case (Cons x kvs)
  then show ?case by (cases x) (auto simp: fun_eq_iff)
qed simp

lemma set_obj_insert: "set (obj_insert k v kvs) \<subseteq> insert (k, v) (set kvs)"
  by (induction k v kvs rule: obj_insert.induct) auto

lemma keys_obj_insert: "fst ` set (obj_insert k v kvs) = insert k (fst ` set kvs)"
  by (induction k v kvs rule: obj_insert.induct) auto

lemma sorted_obj_insert: "sorted_wrt (<) (map fst kvs) \<Longrightarrow> sorted_wrt (<) (map fst (obj_insert k v kvs))"
proof (induction kvs)
  case (Cons x kvs)
  have "\<forall>y \<in> fst ` set (obj_insert k v kvs). y = k \<or> y \<in> fst ` set kvs"
    by (simp add: keys_obj_insert)
  then show ?case using Cons by (cases x) fastforce
qed simp

section \<open>Merging schemas\<close>

fun collect_strings :: "json \<Rightarrow> str list option" where
  "collect_strings (JString s) = Some [s]"
| "collect_strings (JArray xs) =
     (if list_all (\<lambda>x. as_str x \<noteq> None) xs then Some (map (\<lambda>x. case as_str x of Some s \<Rightarrow> s | None \<Rightarrow> []) xs) else None)"
| "collect_strings _ = None"

definition merge_string_sets :: "json \<Rightarrow> json \<Rightarrow> json option" where
  "merge_string_sets existing incoming =
     (case collect_strings existing of
        None \<Rightarrow> None
      | Some xs \<Rightarrow>
          (case collect_strings incoming of
             None \<Rightarrow> None
           | Some ys \<Rightarrow>
               (case push_missing xs ys of
                  [s] \<Rightarrow> Some (JString s)
                | combined \<Rightarrow> Some (JArray (map JString combined)))))"

definition child_map_keys :: "str list" where
  "child_map_keys = [''properties'', ''$defs'', ''definitions'', ''patternProperties'']"

definition string_set_keys :: "str list" where
  "string_set_keys = [''required'', ''enum'', ''type'']"

function merge_schema_values :: "json \<Rightarrow> json \<Rightarrow> json"
  and merge_schema_objects :: "obj \<Rightarrow> obj \<Rightarrow> obj"
  and merge_children :: "obj \<Rightarrow> obj \<Rightarrow> obj" where
  "merge_schema_values existing incoming =
     (if existing = incoming then existing
      else case incoming of
        JObject incoming_map \<Rightarrow>
          (case existing of
             JObject existing_map \<Rightarrow> JObject (merge_schema_objects existing_map incoming_map)
           | _ \<Rightarrow> JObject incoming_map)
      | JArray incoming_items \<Rightarrow>
          (case existing of
             JArray existing_items \<Rightarrow> JArray (push_missing existing_items incoming_items)
           | _ \<Rightarrow> JArray incoming_items)
      | incoming_value \<Rightarrow> incoming_value)"
| "merge_schema_objects target [] = target"
| "merge_schema_objects target ((key, v) # rest) =
     merge_schema_objects
       (if key \<in> set child_map_keys then
          (case v of
             JObject cs \<Rightarrow>
               (case map_of target key of
                  Some (JObject es) \<Rightarrow> obj_insert key (JObject (merge_children es cs)) target
                | _ \<Rightarrow> obj_insert key (JObject cs) target)
           | _ \<Rightarrow> obj_insert key v target)
        else if key \<in> set string_set_keys then
          (case map_of target key of
             Some e \<Rightarrow> (case merge_string_sets e v of Some m \<Rightarrow> obj_insert key m target | None \<Rightarrow> target)
           | None \<Rightarrow> obj_insert key v target)
        else if key \<in> {''description'', ''title''} then or_insert key v target
        else if key = ''additionalProperties'' then
          (case map_of target key of
             Some (JBool b) \<Rightarrow> if v = JBool False then obj_insert key (JBool False) target else target
           | Some (JObject eo) \<Rightarrow>
               (case v of
                  JObject io \<Rightarrow> obj_insert key (JObject (merge_schema_objects eo io)) target
                | _ \<Rightarrow> if v = JBool False then obj_insert key (JBool False) target else target)
           | Some _ \<Rightarrow> if v = JBool False then obj_insert key (JBool False) target else target
           | None \<Rightarrow> obj_insert key v target)
        else
          (case map_of target key of
             Some e \<Rightarrow> obj_insert key (merge_schema_values e v) target
           | None \<Rightarrow> obj_insert key v target))
       rest"
| "merge_children es [] = es"
| "merge_children es ((c, v) # cs) =
     merge_children
       (case map_of es c of
          Some e \<Rightarrow> obj_insert c (merge_schema_values e v) es
        | None \<Rightarrow> obj_insert c v es)
       cs"
  by pat_completeness auto
termination
  by (relation "measure (\<lambda>x. case x of Inl (_, v) \<Rightarrow> 2 * size v + 1
      | Inr (Inl (_, kvs)) \<Rightarrow> 2 * size (JObject kvs) | Inr (Inr (_, kvs)) \<Rightarrow> 2 * size (JObject kvs))") auto

definition flatten_all_of_schema :: "obj \<Rightarrow> json" where
  "flatten_all_of_schema kvs =
     (let rest = remove_key ''allOf'' kvs in
      case map_of kvs ''allOf'' of
        Some (JArray all_of) \<Rightarrow>
          (let merged = foldl (\<lambda>m x. case x of JObject im \<Rightarrow> merge_schema_objects m im | _ \<Rightarrow> m) rest all_of;
               fallback = filter (\<lambda>x. as_object x = None) all_of
           in JObject
             (if fallback = [] then merged
              else case map_of merged ''anyOf'' of
                Some (JArray xs) \<Rightarrow> obj_insert ''anyOf'' (JArray (xs @ fallback)) merged
              | _ \<Rightarrow> obj_insert ''anyOf'' (JArray fallback) merged))
      | _ \<Rightarrow> JObject rest)"

definition normalized_key :: "str \<Rightarrow> str" where
  "normalized_key k = (if k = ''oneOf'' then ''anyOf'' else k)"

fun openai_compatible_schema :: "json \<Rightarrow> json" where
  "openai_compatible_schema (JObject kvs) =
     flatten_all_of_schema
       (foldl (\<lambda>out (k, v). obj_insert (normalized_key k) v out) []
          (map (\<lambda>(k, v). (k, openai_compatible_schema v)) kvs))"
| "openai_compatible_schema (JArray xs) = JArray (map openai_compatible_schema xs)"
| "openai_compatible_schema v = v"

section \<open>Strict mode\<close>

definition type_includes_object :: "json option \<Rightarrow> bool" where
  "type_includes_object ty =
     (case ty of
        Some (JString t) \<Rightarrow> t = ''object''
      | Some (JArray types) \<Rightarrow> list_ex (\<lambda>v. as_str v = Some ''object'') types
      | _ \<Rightarrow> False)"

definition schema_is_object_typed :: "obj \<Rightarrow> bool" where
  "schema_is_object_typed kvs = type_includes_object (map_of kvs ''type'')"

definition strict_node_allowed :: "obj \<Rightarrow> bool" where
  "strict_node_allowed kvs =
     (let has_properties = (case Option.bind (map_of kvs ''properties'') as_object of
                              Some props \<Rightarrow> props \<noteq> [] | None \<Rightarrow> False)
      in \<not> (schema_is_object_typed kvs
             \<and> (\<not> has_properties
                \<or> (case map_of kvs ''additionalProperties'' of
                     Some (JBool True) \<Rightarrow> True | Some (JObject _) \<Rightarrow> True | _ \<Rightarrow> False))))"

fun schema_supports_strict :: "json \<Rightarrow> bool" where
  "schema_supports_strict (JObject kvs) \<longleftrightarrow>
     strict_node_allowed kvs \<and> list_all (\<lambda>(k, v). schema_supports_strict v) kvs"
| "schema_supports_strict (JArray xs) \<longleftrightarrow> list_all schema_supports_strict xs"
| "schema_supports_strict _ = True"

definition null_type :: json where
  "null_type = JObject [(''type'', JString ''null'')]"

definition schema_contains_null_type :: "json \<Rightarrow> bool" where
  "schema_contains_null_type v \<longleftrightarrow> Option.bind (json_get ''type'' v) as_str = Some ''null''"

definition nullable_object :: "obj \<Rightarrow> json" where
  "nullable_object kvs =
     (case map_of kvs ''type'' of
        Some (JString t) \<Rightarrow>
          JObject (if t \<noteq> ''null'' then obj_insert ''type'' (JArray [JString t, JString ''null'']) kvs else kvs)
      | Some (JArray types) \<Rightarrow>
          JObject (obj_insert ''type'' (JArray
            (if list_ex (\<lambda>v. as_str v = Some ''null'') types then types else types @ [JString ''null''])) kvs)
      | _ \<Rightarrow>
          (case map_of kvs ''anyOf'' of
             Some (JArray any_of) \<Rightarrow>
               JObject (obj_insert ''anyOf'' (JArray
                 (if list_ex schema_contains_null_type any_of then any_of else any_of @ [null_type])) kvs)
           | _ \<Rightarrow> JObject [(''anyOf'', JArray [JObject kvs, null_type])]))"

fun make_schema_nullable :: "json \<Rightarrow> json" where
  "make_schema_nullable (JObject kvs) = nullable_object kvs"
| "make_schema_nullable v = JObject [(''anyOf'', JArray [v, null_type])]"

definition existing_required_keys :: "obj \<Rightarrow> str set" where
  "existing_required_keys kvs =
     (case Option.bind (map_of kvs ''required'') as_array of
        Some xs \<Rightarrow> set (List.map_filter as_str xs) | None \<Rightarrow> {})"

definition normalize_required_properties :: "obj \<Rightarrow> obj" where
  "normalize_required_properties kvs =
     (case Option.bind (map_of kvs ''properties'') as_object of
        None \<Rightarrow> kvs
      | Some props \<Rightarrow>
          (let names = sort (map fst props);
               required = existing_required_keys kvs;
               props' = map (\<lambda>(n, s). (n, if n \<in> required then s else make_schema_nullable s)) props
           in obj_insert ''required'' (JArray (map JString names))
                (obj_insert ''properties'' (JObject props') kvs)))"

definition finish_strict :: "obj \<Rightarrow> obj" where
  "finish_strict out =
     (let is_object_typed = schema_is_object_typed out;
          out = normalize_required_properties out
      in if is_object_typed \<or> map_of out ''properties'' \<noteq> None
         then obj_insert ''additionalProperties'' (JBool False) out else out)"

text \<open>The four keywords with an array of schemas need no case of their own here: an array is
  normalised item by item in either branch of the code.\<close>

fun strict_normalize_schema :: "json \<Rightarrow> json" where
  "strict_normalize_schema (JObject kvs) =
     JObject (finish_strict (map (\<lambda>(k, v).
       (k, if k \<in> set child_map_keys
           then (case v of
                   JObject cs \<Rightarrow> JObject (map (\<lambda>(c, x). (c, strict_normalize_schema x)) cs)
                 | _ \<Rightarrow> strict_normalize_schema v)
           else strict_normalize_schema v)) kvs))"
| "strict_normalize_schema (JArray xs) = JArray (map strict_normalize_schema xs)"
| "strict_normalize_schema v = v"

record ToolDefinition =
  def_name :: str
  def_description :: str
  def_schema :: json

record OpenAiTool =
  openai_name :: str
  openai_description :: str
  openai_strict :: bool
  openai_parameters :: json

definition openai_tool :: "ToolDefinition \<Rightarrow> OpenAiTool" where
  "openai_tool t =
     (let compatible = openai_compatible_schema (def_schema t);
          strict = schema_supports_strict compatible
      in \<lparr>openai_name = def_name t, openai_description = def_description t, openai_strict = strict,
          openai_parameters = (if strict then strict_normalize_schema compatible else compatible)\<rparr>)"

definition build_tools :: "ToolDefinition list \<Rightarrow> OpenAiTool list" where
  "build_tools tools = map openai_tool tools"

section \<open>Flattening top-level combinators\<close>

definition branch_properties :: "json \<Rightarrow> obj" where
  "branch_properties branch =
     (case Option.bind (json_get ''properties'' branch) as_object of Some ps \<Rightarrow> ps | None \<Rightarrow> [])"

definition branch_required :: "json \<Rightarrow> str list" where
  "branch_required branch =
     (case Option.bind (json_get ''required'' branch) as_array of
        Some xs \<Rightarrow> List.map_filter as_str xs | None \<Rightarrow> [])"

definition merge_branch :: "obj \<Rightarrow> json \<Rightarrow> obj" where
  "merge_branch props branch = foldl (\<lambda>ps (n, p). or_insert n p ps) props (branch_properties branch)"

record flatten_state =
  flat_output :: obj
  flat_properties :: obj
  flat_required :: "str list"
  flat_saw :: bool

definition flatten_keyword :: "flatten_state \<Rightarrow> str \<Rightarrow> flatten_state" where
  "flatten_keyword s keyword =
     (let out = remove_key keyword (flat_output s) in
      case Option.bind (map_of (flat_output s) keyword) as_array of
        None \<Rightarrow> s\<lparr>flat_output := out\<rparr>
      | Some branches \<Rightarrow>
          \<lparr>flat_output = out,
           flat_properties = foldl merge_branch (flat_properties s) branches,
           flat_required =
             (if keyword = ''allOf'' then push_missing (flat_required s) (concat (map branch_required branches))
              else flat_required s),
           flat_saw = True\<rparr>)"

definition flatten_keywords :: "obj \<Rightarrow> flatten_state" where
  "flatten_keywords kvs =
     foldl flatten_keyword
       \<lparr>flat_output = kvs,
        flat_properties = (case Option.bind (map_of kvs ''properties'') as_object of Some ps \<Rightarrow> ps | None \<Rightarrow> []),
        flat_required = [], flat_saw = False\<rparr>
       [''oneOf'', ''anyOf'', ''allOf'']"

definition promote_required :: "str list \<Rightarrow> obj \<Rightarrow> obj" where
  "promote_required names out =
     (if names = [] then out
      else let out = or_insert ''required'' (JArray []) out in
        case map_of out ''required'' of
          Some (JArray xs) \<Rightarrow> obj_insert ''required'' (JArray (push_missing xs (map JString names))) out
        | _ \<Rightarrow> out)"

definition finish_flatten :: "flatten_state \<Rightarrow> obj" where
  "finish_flatten s =
     promote_required (flat_required s)
       (obj_insert ''properties'' (JObject (flat_properties s))
         (obj_insert ''type'' (JString ''object'') (flat_output s)))"

definition flatten_top_level_combinators :: "obj \<Rightarrow> obj" where
  "flatten_top_level_combinators kvs =
     (let s = flatten_keywords kvs in if flat_saw s then finish_flatten s else flat_output s)"

definition anthropic_input_schema :: "json \<Rightarrow> json" where
  "anthropic_input_schema schema =
     (case schema of
        JObject kvs \<Rightarrow> JObject (finish_flatten (flatten_keywords kvs))
      | _ \<Rightarrow> JObject [(''properties'', JObject []), (''type'', JString ''object'')])"

section \<open>Schemas of strict OpenAI-compatible endpoints\<close>

definition walked_maps :: "str list" where
  "walked_maps = [''properties'', ''patternProperties'', ''$defs'', ''definitions'']"

definition walked_schemas :: "str list" where
  "walked_schemas = [''items'', ''additionalProperties'', ''anyOf'', ''oneOf'', ''allOf'', ''not'', ''if'',
     ''then'', ''else'', ''prefixItems'', ''contains'']"

definition ensure_properties :: "obj \<Rightarrow> obj" where
  "ensure_properties kvs =
     (if schema_is_object_typed kvs then or_insert ''properties'' (JObject []) kvs else kvs)"

lemma set_ensure_properties: "set (ensure_properties kvs) \<subseteq> insert (''properties'', JObject []) (set kvs)"
  using set_obj_insert [of "''properties''" "JObject []" kvs]
  by (auto simp: ensure_properties_def or_insert_def split: option.splits)

lemma json_member_size:
  "(k, v) \<in> set kvs \<Longrightarrow> size v < size (JObject kvs)"
  by (induction kvs) auto

function walk_schema :: "json \<Rightarrow> json" where
  "walk_schema (JObject kvs) =
     JObject (map (\<lambda>(k, v).
       (k, if k \<in> set walked_maps
           then (case v of JObject cs \<Rightarrow> JObject (map (\<lambda>(c, x). (c, walk_schema x)) cs) | _ \<Rightarrow> v)
           else if k \<in> set walked_schemas then walk_schema v else v)) (ensure_properties kvs))"
| "walk_schema (JArray xs) = JArray (map walk_schema xs)"
| "walk_schema JNull = JNull"
| "walk_schema (JBool b) = JBool b"
| "walk_schema (JNumber n) = JNumber n"
| "walk_schema (JString s) = JString s"
  by pat_completeness auto
termination
proof (relation "measure size", goal_cases)
  case (2 kvs z k v cs p c x)
  then have "(k, JObject cs) \<in> set (ensure_properties kvs)" "(c, x) \<in> set cs" by auto
  then have "size x < size (JObject cs)" "(k, JObject cs) \<in> set kvs"
    using set_ensure_properties [of kvs] json_member_size by auto
  then show ?case using json_member_size [of k "JObject cs" kvs] by simp
next
  case (3 kvs z k v)
  then have "(k, v) \<in> set (ensure_properties kvs)" "k \<notin> set walked_maps" by auto
  then have "(k, v) \<in> set kvs" using set_ensure_properties [of kvs] by (auto simp: walked_maps_def)
  then show ?case using json_member_size [of k v kvs] by simp
next
  case (4 xs x)
  then show ?case by (induction xs) auto
qed simp

definition sanitize_tool_parameters_schema :: "json \<Rightarrow> json" where
  "sanitize_tool_parameters_schema schema =
     (let kvs = (case schema of JObject kvs \<Rightarrow> kvs | _ \<Rightarrow> [(''type'', JString ''object'')]);
          kvs = (if kvs = [] then [(''type'', JString ''object'')] else kvs)
      in walk_schema (JObject (flatten_top_level_combinators kvs)))"

section \<open>The tools of an Anthropic request\<close>

record ApiTool =
  tool_name :: str
  tool_description :: str
  tool_schema :: json
  tool_cache :: "CacheControl option"

definition OAUTH_BUILTIN_LOCAL_TOOLS :: "str list" where
  "OAUTH_BUILTIN_LOCAL_TOOLS =
     [''subagent'', ''bash'', ''edit'', ''glob'', ''grep'', ''read'', ''schedule'', ''skill_manage'', ''write'']"

text \<open>A property with a plain type.\<close>

abbreviation typed :: "str \<Rightarrow> str \<Rightarrow> str \<times> json" where
  "typed k t \<equiv> (k, JObject [(''type'', JString t)])"

definition oauth_builtin_tools :: "ApiTool list" where
  "oauth_builtin_tools =
     [
      \<lparr>tool_name = ''Agent'',
        tool_description = ''Launch a new agent to handle complex, multi-step tasks.'',
        tool_schema = JObject [(''additionalProperties'', JBool False), (''properties'',
          JObject [typed ''description'' ''string'', typed ''prompt'' ''string'',
          typed ''run_in_background'' ''boolean'', typed ''subagent_type'' ''string'']), (''required'',
          JArray [JString ''description'', JString ''prompt'']), (''type'', JString ''object'')],
        tool_cache = None\<rparr>,
      \<lparr>tool_name = ''Bash'',
        tool_description = ''Executes a given bash command and returns its output.'',
        tool_schema = JObject [(''additionalProperties'', JBool False), (''properties'',
          JObject [typed ''command'' ''string'', typed ''run_in_background'' ''boolean'',
          typed ''timeout'' ''integer'']), (''required'', JArray [JString ''command'']), (''type'',
          JString ''object'')],
        tool_cache = None\<rparr>,
      \<lparr>tool_name = ''Edit'',
        tool_description = ''Performs exact string replacements in files.'',
        tool_schema = JObject [(''additionalProperties'', JBool False), (''properties'',
          JObject [typed ''file_path'' ''string'', typed ''new_string'' ''string'',
          typed ''old_string'' ''string'', (''replace_all'', JObject [(''default'', JBool False),
          (''type'', JString ''boolean'')])]), (''required'', JArray [JString ''file_path'',
          JString ''old_string'', JString ''new_string'']), (''type'', JString ''object'')],
        tool_cache = None\<rparr>,
      \<lparr>tool_name = ''Glob'',
        tool_description = ''Fast file pattern matching tool.'',
        tool_schema = JObject [(''additionalProperties'', JBool False), (''properties'',
          JObject [typed ''path'' ''string'', typed ''pattern'' ''string'']), (''required'',
          JArray [JString ''pattern'']), (''type'', JString ''object'')],
        tool_cache = None\<rparr>,
      \<lparr>tool_name = ''Grep'',
        tool_description = ''A powerful search tool built on ripgrep.'',
        tool_schema = JObject [(''additionalProperties'', JBool False), (''properties'',
          JObject [typed ''-A'' ''number'', typed ''-B'' ''number'', typed ''-C'' ''number'',
          typed ''-i'' ''boolean'', typed ''-n'' ''boolean'', typed ''context'' ''number'',
          typed ''glob'' ''string'', typed ''head_limit'' ''number'', typed ''multiline'' ''boolean'',
          typed ''offset'' ''number'', (''output_mode'', JObject [(''enum'', JArray [JString ''content'',
          JString ''files_with_matches'', JString ''count'']), (''type'', JString ''string'')]),
          typed ''path'' ''string'', typed ''pattern'' ''string'', typed ''type'' ''string'']),
          (''required'', JArray [JString ''pattern'']), (''type'', JString ''object'')],
        tool_cache = None\<rparr>,
      \<lparr>tool_name = ''Read'',
        tool_description = ''Reads a file from the local filesystem.'',
        tool_schema = JObject [(''additionalProperties'', JBool False), (''properties'',
          JObject [typed ''file_path'' ''string'', (''limit'', JObject [(''exclusiveMinimum'',
          JNumber ''0''), (''type'', JString ''integer'')]), (''offset'', JObject [(''minimum'',
          JNumber ''0''), (''type'', JString ''integer'')]), typed ''pages'' ''string'']), (''required'',
          JArray [JString ''file_path'']), (''type'', JString ''object'')],
        tool_cache = None\<rparr>,
      \<lparr>tool_name = ''ScheduleWakeup'',
        tool_description = ''Schedule when to resume work in /loop dynamic mode.'',
        tool_schema = JObject [(''additionalProperties'', JBool False), (''properties'',
          JObject [typed ''delaySeconds'' ''number'', typed ''prompt'' ''string'',
          typed ''reason'' ''string'']), (''required'', JArray [JString ''delaySeconds'',
          JString ''reason'', JString ''prompt'']), (''type'', JString ''object'')],
        tool_cache = None\<rparr>,
      \<lparr>tool_name = ''Skill'',
        tool_description = ''Execute a skill within the main conversation'',
        tool_schema = JObject [(''additionalProperties'', JBool False), (''properties'',
          JObject [typed ''args'' ''string'', typed ''skill'' ''string'']), (''required'',
          JArray [JString ''skill'']), (''type'', JString ''object'')],
        tool_cache = None\<rparr>,
      \<lparr>tool_name = ''Write'',
        tool_description = ''Writes a file to the local filesystem.'',
        tool_schema = JObject [(''additionalProperties'', JBool False), (''properties'',
          JObject [typed ''content'' ''string'', typed ''file_path'' ''string'']), (''required'',
          JArray [JString ''file_path'', JString ''content'']), (''type'', JString ''object'')],
        tool_cache = None\<rparr>
     ]"

definition mark_last_tool :: "bool \<Rightarrow> ApiTool list \<Rightarrow> ApiTool list" where
  "mark_last_tool cache_ttl_1h tools =
     (if tools = [] then []
      else butlast tools @ [(last tools)\<lparr>tool_cache := Some (cache_param cache_ttl_1h)\<rparr>])"

definition plain_tool :: "str \<Rightarrow> ToolDefinition \<Rightarrow> ApiTool" where
  "plain_tool name t =
     \<lparr>tool_name = name, tool_description = def_description t,
      tool_schema = anthropic_input_schema (def_schema t), tool_cache = None\<rparr>"

definition format_tools :: "ToolDefinition list \<Rightarrow> bool \<Rightarrow> bool \<Rightarrow> ApiTool list" where
  "format_tools tools is_oauth cache_ttl_1h =
     (if is_oauth
      then mark_last_tool cache_ttl_1h
        (oauth_builtin_tools
         @ map (\<lambda>t. plain_tool (anthropic_map_tool_name_for_oauth (def_name t)) t)
             (filter (\<lambda>t. def_name t \<notin> set OAUTH_BUILTIN_LOCAL_TOOLS) tools))
      else map (\<lambda>(i, t). (plain_tool (def_name t) t)
             \<lparr>tool_cache := (if i = length tools - 1 then Some (cache_param cache_ttl_1h) else None)\<rparr>)
           (enumerate 0 tools))"

end
