(* ===== verification/Schema_Laws.thy ===== *)
theory Schema_Laws
  imports Tool_Schema
begin

text \<open>
  Laws of the tool schemas and tool lists of \<open>Tool_Schema\<close>: what merging keeps (a locale, interpreted
  for the absence of a key and for well-formedness), strict mode, the flattening of combinators,
  complete object schemas, and the cache budget of an Anthropic request.
\<close>

section \<open>Properties kept by merging\<close>

lemma remove_obj_insert:
  assumes "sorted_wrt (<) (map fst kvs)"
  shows "remove_key a (obj_insert k v kvs) = (if k = a then remove_key a kvs else obj_insert k v (remove_key a kvs))"
  using assms
proof (induction kvs)
  case (Cons x kvs)
  obtain b w where x: "x = (b, w)" by (cases x)
  have "a = b \<Longrightarrow> remove_key a kvs = kvs" using Cons.prems by (force simp: x remove_key_def intro: filter_True)
  moreover have "k < b \<Longrightarrow> obj_insert k v (remove_key a kvs) = (k, v) # remove_key a kvs"
    using Cons.prems by (cases "remove_key a kvs") (force simp: x remove_key_def filter_eq_Cons_iff)+
  ultimately show ?case using Cons by (auto simp: x remove_key_def)
qed (simp add: remove_key_def)

locale schema_property =
  fixes ok :: "json \<Rightarrow> bool" and ok_obj :: "obj \<Rightarrow> bool" and ok_key :: "str \<Rightarrow> bool"
  assumes ok_JObject: "ok (JObject kvs) = ok_obj kvs"
    and ok_JArray: "ok (JArray xs) = list_all ok xs"
    and ok_atom: "as_array v = None \<Longrightarrow> as_object v = None \<Longrightarrow> ok v"
    and ok_obj_Nil: "ok_obj []"
    and ok_obj_Cons: "ok_obj ((k, v) # kvs) \<Longrightarrow> ok_key k \<and> ok v \<and> ok_obj kvs"
    and ok_obj_insert: "ok_obj kvs \<Longrightarrow> ok v \<Longrightarrow> ok_key k \<Longrightarrow> ok_obj (obj_insert k v kvs)"
begin

lemma ok_JString: "ok (JString s)" and ok_JBool: "ok (JBool b)"
  by (simp_all add: ok_atom)

lemma ok_map_of: "ok_obj kvs \<Longrightarrow> map_of kvs k = Some v \<Longrightarrow> ok v"
proof (induction kvs)
  case (Cons x kvs)
  then show ?case by (cases x) (auto split: if_splits dest: ok_obj_Cons)
qed simp

lemma ok_or_insert: "ok_obj kvs \<Longrightarrow> ok v \<Longrightarrow> ok_key k \<Longrightarrow> ok_obj (or_insert k v kvs)"
  by (simp add: or_insert_def ok_obj_insert split: option.split)

lemma ok_push_missing: "list_all ok xs \<Longrightarrow> list_all ok ys \<Longrightarrow> list_all ok (push_missing xs ys)"
  by (auto simp: list_all_iff)

lemma ok_string_sets: "merge_string_sets e v = Some m \<Longrightarrow> ok m"
  by (auto simp: merge_string_sets_def ok_JString ok_JArray list_all_iff split: option.splits list.splits)

lemma ok_merge:
  "ok e \<Longrightarrow> ok v \<Longrightarrow> ok (merge_schema_values e v)"
  "ok_obj target \<Longrightarrow> ok_obj incoming \<Longrightarrow> ok_obj (merge_schema_objects target incoming)"
  "ok_obj es \<Longrightarrow> ok_obj cs \<Longrightarrow> ok_obj (merge_children es cs)"
proof (induction e v and target incoming and es cs
    rule: merge_schema_values_merge_schema_objects_merge_children.induct)
  case (1 existing incoming)
  then show ?case
    by (cases incoming; cases existing) (auto simp: ok_JObject ok_JArray ok_push_missing)
next
  case (3 target key v rest)
  have kv: "ok_key key" "ok v" "ok_obj rest" using ok_obj_Cons [OF "3.prems"(2)] by simp_all
  note ins = ok_obj_insert [OF "3.prems"(1) _ kv(1)]
  note IH = "3.IH"
  show ?case
    unfolding merge_schema_objects.simps
  proof (rule IH(4), goal_cases)
    case 1
    show ?case
    proof (cases "key \<in> set child_map_keys")
      case True
      show ?thesis
      proof (cases "\<exists>cs es. v = JObject cs \<and> map_of target key = Some (JObject es)")
        case c: True
        then obtain cs es where v: "v = JObject cs" and m: "map_of target key = Some (JObject es)" by blast
        have "ok_obj es" "ok_obj cs" using ok_map_of [OF "3.prems"(1) m] kv(2) v ok_JObject by simp_all
        then show ?thesis using IH(1) [OF True v m refl] ins True by (simp add: v m ok_JObject)
      next
        case False
        then show ?thesis using ins True kv(2)
          by (cases v) (auto simp: ok_JObject split: option.split json.split)
      qed
    next
      case nc: False
      show ?thesis
      proof (cases "key \<in> set string_set_keys")
        case True
        then show ?thesis using nc ins kv(2) "3.prems"(1) ok_string_sets
          by (auto split: option.split)
      next
        case ns: False
        show ?thesis
        proof (cases "key \<in> {''description'', ''title''}")
          case True
          then show ?thesis using nc ns kv "3.prems"(1) by (simp add: ok_or_insert)
        next
          case nd: False
          show ?thesis
          proof (cases "key = ''additionalProperties''")
            case True
            show ?thesis
            proof (cases "\<exists>io eo. v = JObject io \<and> map_of target key = Some (JObject eo)")
              case c: True
              then obtain io eo where v: "v = JObject io" and m: "map_of target key = Some (JObject eo)" by blast
              have "ok_obj eo" "ok_obj io" using ok_map_of [OF "3.prems"(1) m] kv(2) v ok_JObject by simp_all
              then show ?thesis using IH(2) [OF nc ns nd True m refl v] ins nc ns nd True
                by (simp add: v m [unfolded True] ok_JObject)
            next
              case False
              then show ?thesis using nc ns nd True ins ok_JBool kv(2) "3.prems"(1)
                by (cases v) (auto split: option.split json.split)
            qed
          next
            case na: False
            show ?thesis
            proof (cases "map_of target key")
              case None
              then show ?thesis using nc ns nd na ins kv(2) by simp
            next
              case (Some e)
              have "ok e" using ok_map_of [OF "3.prems"(1) Some] .
              then show ?thesis using IH(3) [OF nc ns nd na Some] ins nc ns nd na Some kv(2) by simp
            qed
          qed
        qed
      qed
    qed
  qed (rule kv(3))
next
  case (5 es c v cs)
  have kv: "ok_key c" "ok v" "ok_obj cs" using ok_obj_Cons [OF "5.prems"(2)] by simp_all
  have "ok_obj (case map_of es c of Some e \<Rightarrow> obj_insert c (merge_schema_values e v) es | None \<Rightarrow> obj_insert c v es)"
    using "5.IH"(1) ok_map_of [OF "5.prems"(1)] ok_obj_insert [OF "5.prems"(1) _ kv(1)] kv(2)
    by (simp split: option.split)
  then show ?case using "5.IH"(2) kv(3) by simp
qed simp_all

lemma ok_flatten_all_of:
  assumes "ok_obj (remove_key ''allOf'' kvs)" and "ok_key ''anyOf''"
    and "\<And>v. map_of kvs ''allOf'' = Some v \<Longrightarrow> ok v"
  shows "ok (flatten_all_of_schema kvs)"
proof (cases "\<exists>xs. map_of kvs ''allOf'' = Some (JArray xs)")
  case True
  then obtain xs where xs: "map_of kvs ''allOf'' = Some (JArray xs)" by blast
  have oks: "list_all ok xs" using assms(3) [OF xs] ok_JArray by simp
  let ?step = "\<lambda>m x. case x of JObject im \<Rightarrow> merge_schema_objects m im | _ \<Rightarrow> m"
  have "ok_obj m \<Longrightarrow> list_all ok xs \<Longrightarrow> ok_obj (foldl ?step m xs)" for m xs
    by (induction xs arbitrary: m) (auto simp: ok_JObject ok_merge split: json.split)
  then have m: "ok_obj (foldl ?step (remove_key ''allOf'' kvs) xs)"
    using assms(1) oks by blast
  have f: "list_all ok (filter (\<lambda>x. as_object x = None) xs)" using oks by (auto simp: list_all_iff)
  have "ok (JArray (ys @ filter (\<lambda>x. as_object x = None) xs))"
    if "map_of (foldl ?step (remove_key ''allOf'' kvs) xs) ''anyOf'' = Some (JArray ys)" for ys
    using ok_map_of [OF m that] f by (simp add: ok_JArray)
  then show ?thesis
    using m f assms(2) by (auto simp: flatten_all_of_schema_def xs Let_def ok_JObject ok_JArray
        intro!: ok_obj_insert split: option.split json.split)
next
  case False
  then show ?thesis
    using assms(1) by (auto simp: flatten_all_of_schema_def Let_def ok_JObject split: option.split json.split)
qed

text \<open>The objects under construction: sorted, and good apart from a key \<open>allOf\<close> that is taken out
  again.\<close>

definition building :: "obj \<Rightarrow> bool" where
  "building out \<longleftrightarrow> sorted_wrt (<) (map fst out) \<and> ok_obj (remove_key ''allOf'' out)
     \<and> (case map_of out ''allOf'' of Some v \<Rightarrow> ok v | None \<Rightarrow> True)"

lemma building_insert:
  assumes "building out" and "ok v" and "k \<noteq> ''allOf'' \<Longrightarrow> ok_key k"
  shows "building (obj_insert k v out)"
  using assms sorted_obj_insert [of out k v]
  by (auto simp: building_def remove_obj_insert map_of_obj_insert ok_obj_insert)

lemma ok_compatible:
  assumes "\<And>k. normalized_key k \<noteq> ''allOf'' \<Longrightarrow> ok_key (normalized_key k)"
  shows "ok (openai_compatible_schema s)"
proof (induction s rule: openai_compatible_schema.induct)
  case (1 kvs)
  have "building out \<Longrightarrow> list_all (\<lambda>(k, v). ok v) xs \<Longrightarrow>
      building (foldl (\<lambda>out (k, v). obj_insert (normalized_key k) v out) out xs)" for out xs
    by (induction xs arbitrary: out) (auto simp: building_insert assms)
  moreover have "building []" by (simp add: building_def remove_key_def ok_obj_Nil)
  moreover have "list_all (\<lambda>(k, v). ok v) (map (\<lambda>(k, v). (k, openai_compatible_schema v)) kvs)"
    using 1 by (fastforce simp: list_all_iff)
  ultimately have "building (foldl (\<lambda>out (k, v). obj_insert (normalized_key k) v out) []
      (map (\<lambda>(k, v). (k, openai_compatible_schema v)) kvs))" by blast
  moreover have "ok_key ''anyOf''" using assms [of "''anyOf''"] by (simp add: normalized_key_def)
  ultimately show ?case
    by (auto simp: building_def intro!: ok_flatten_all_of)
qed (simp_all add: ok_JArray ok_atom list_all_iff)

end

section \<open>The compatible schema\<close>

fun lacks_key :: "str \<Rightarrow> json \<Rightarrow> bool" where
  "lacks_key k (JObject kvs) \<longleftrightarrow> k \<notin> set (map fst kvs) \<and> list_all (\<lambda>(_, v). lacks_key k v) kvs"
| "lacks_key k (JArray xs) \<longleftrightarrow> list_all (lacks_key k) xs"
| "lacks_key k _ = True"

lemma atom_cases: "as_array v = None \<Longrightarrow> as_object v = None \<Longrightarrow>
    (\<And>b. v = JBool b \<Longrightarrow> P) \<Longrightarrow> (\<And>s. v = JString s \<Longrightarrow> P) \<Longrightarrow> (\<And>n. v = JNumber n \<Longrightarrow> P) \<Longrightarrow> (v = JNull \<Longrightarrow> P) \<Longrightarrow> P"
  by (cases v) auto

lemma list_all_insert:
  "list_all P kvs \<Longrightarrow> P (k, v) \<Longrightarrow> list_all P (obj_insert k v kvs)"
  using set_obj_insert [of k v kvs] by (auto simp: list_all_iff)

interpretation lacking: schema_property "lacks_key k" "\<lambda>kvs. lacks_key k (JObject kvs)" "\<lambda>k'. k' \<noteq> k" for k
proof unfold_locales
  fix v show "as_array v = None \<Longrightarrow> as_object v = None \<Longrightarrow> lacks_key k v" by (erule (1) atom_cases) simp_all
  fix kvs k' show "lacks_key k (JObject kvs) \<Longrightarrow> lacks_key k v \<Longrightarrow> k' \<noteq> k \<Longrightarrow> lacks_key k (JObject (obj_insert k' v kvs))"
    using keys_obj_insert [of k' v kvs] list_all_insert [of "\<lambda>(_, v). lacks_key k v" kvs k' v] by auto
qed auto

interpretation well_formed: schema_property json_ok "\<lambda>kvs. json_ok (JObject kvs)" "\<lambda>_. True"
proof unfold_locales
  fix v show "as_array v = None \<Longrightarrow> as_object v = None \<Longrightarrow> json_ok v" by (erule (1) atom_cases) simp_all
  fix kvs k show "json_ok (JObject kvs) \<Longrightarrow> json_ok v \<Longrightarrow> True \<Longrightarrow> json_ok (JObject (obj_insert k v kvs))"
    by (simp add: sorted_obj_insert list_all_insert)
qed simp_all

text \<open>Supplement: whatever schema a tool declares, the schema sent to OpenAI contains neither \<open>allOf\<close> nor
  \<open>oneOf\<close>, at any depth, and its objects are well formed.\<close>

theorem compatible_schema_has_no_combinators:
  "lacks_key ''allOf'' (openai_compatible_schema s) \<and> lacks_key ''oneOf'' (openai_compatible_schema s)
   \<and> json_ok (openai_compatible_schema s)"
  using lacking.ok_compatible [of "''allOf''" s] lacking.ok_compatible [of "''oneOf''" s]
    well_formed.ok_compatible [of s] by (simp add: normalized_key_def)

text \<open>A schema with both \<open>anyOf\<close> and \<open>oneOf\<close> loses the first: the rewritten \<open>oneOf\<close> overwrites it.
  And a parameter that is called \<open>allOf\<close> is taken for a combinator and dropped.\<close>

lemma compatible_schema_overwrites_any_of:
  "openai_compatible_schema (JObject [(''anyOf'', JArray [JObject [(''type'', JString a)]]),
      (''oneOf'', JArray [JObject [(''type'', JString b)]])]) =
    JObject [(''anyOf'', JArray [JObject [(''type'', JString b)]])]"
  by (simp add: flatten_all_of_schema_def normalized_key_def remove_key_def)

lemma compatible_schema_drops_parameter:
  "openai_compatible_schema (JObject [(''properties'', JObject [(''allOf'', JObject [(''type'', JString t)])])]) =
    JObject [(''properties'', JObject [])]"
  by (simp add: flatten_all_of_schema_def normalized_key_def remove_key_def)

section \<open>Strict schemas\<close>

text \<open>What strict mode demands of a node and of everything below it: every property is required, and
  no further properties are allowed.\<close>

definition strict_node :: "obj \<Rightarrow> bool" where
  "strict_node kvs \<longleftrightarrow>
     (case Option.bind (map_of kvs ''properties'') as_object of
        Some ps \<Rightarrow> map_of kvs ''required'' = Some (JArray (map JString (sort (map fst ps))))
      | None \<Rightarrow> True)
     \<and> (schema_is_object_typed kvs \<or> map_of kvs ''properties'' \<noteq> None \<longrightarrow>
          map_of kvs ''additionalProperties'' = Some (JBool False))"

fun strict_ok :: "json \<Rightarrow> bool" where
  "strict_ok (JObject kvs) \<longleftrightarrow> strict_node kvs
     \<and> list_all (\<lambda>(k, v). if k \<in> set child_map_keys
         then (case v of JObject cs \<Rightarrow> list_all (\<lambda>(_, x). strict_ok x) cs | _ \<Rightarrow> strict_ok v)
         else strict_ok v) kvs"
| "strict_ok (JArray xs) \<longleftrightarrow> list_all strict_ok xs"
| "strict_ok _ = True"

definition strict_entry :: "str \<times> json \<Rightarrow> bool" where
  "strict_entry = (\<lambda>(k, v). if k \<in> set child_map_keys
     then (case v of JObject cs \<Rightarrow> list_all (\<lambda>(_, x). strict_ok x) cs | _ \<Rightarrow> strict_ok v)
     else strict_ok v)"

lemma strict_ok_obj: "strict_ok (JObject kvs) \<longleftrightarrow> strict_node kvs \<and> list_all strict_entry kvs"
  by (simp add: strict_entry_def)

lemma strict_entry_plain:
  "k \<notin> set child_map_keys \<Longrightarrow> strict_entry (k, v) = strict_ok v"
  by (simp add: strict_entry_def)

lemma not_child_map_keys [simp]:
  "''type'' \<notin> set child_map_keys" "''anyOf'' \<notin> set child_map_keys"
  "''required'' \<notin> set child_map_keys" "''additionalProperties'' \<notin> set child_map_keys"
  by (simp_all add: child_map_keys_def)

lemma sorted_strict_insert:
  assumes "sorted_wrt (<) (map fst kvs)" and "list_all strict_entry kvs" and "strict_entry (k, v)"
  shows "list_all strict_entry (obj_insert k v kvs)"
  using list_all_insert assms by blast

lemma null_type_strict [simp]: "strict_ok null_type"
  by (simp add: null_type_def strict_node_def schema_is_object_typed_def type_includes_object_def)

lemma strict_node_insert:
  assumes "sorted_wrt (<) (map fst kvs)" and "strict_node kvs"
    and "k \<notin> {''properties'', ''required'', ''additionalProperties''}"
    and "k = ''type'' \<Longrightarrow> type_includes_object (Some v) \<Longrightarrow> schema_is_object_typed kvs"
  shows "strict_node (obj_insert k v kvs)"
proof -
  note m = map_of_obj_insert [OF assms(1)]
  have g: "map_of (obj_insert k v kvs) ''properties'' = map_of kvs ''properties''"
    "map_of (obj_insert k v kvs) ''required'' = map_of kvs ''required''"
    "map_of (obj_insert k v kvs) ''additionalProperties'' = map_of kvs ''additionalProperties''"
    using assms(3) by (auto simp: m)
  have "schema_is_object_typed (obj_insert k v kvs) \<Longrightarrow> schema_is_object_typed kvs"
    using assms(4) by (cases "k = ''type''") (simp_all add: schema_is_object_typed_def m)
  then show ?thesis using assms(2) unfolding strict_node_def g by blast
qed

lemma wrap_nullable_strict: "strict_ok v \<Longrightarrow> strict_ok (JObject [(''anyOf'', JArray [v, null_type])])"
  by (simp add: strict_node_def schema_is_object_typed_def type_includes_object_def child_map_keys_def)

lemma nullable_strict:
  assumes "json_ok v" and "strict_ok v"
  shows "strict_ok (make_schema_nullable v)"
proof (cases v)
  case (JObject kvs)
  have s: "sorted_wrt (<) (map fst kvs)" using assms(1) JObject by simp
  have n: "strict_node kvs" "list_all strict_entry kvs" using assms(2) JObject strict_ok_obj by simp_all
  have ins: "strict_ok (JObject (obj_insert k w kvs))"
    if "k \<notin> {''properties'', ''required'', ''additionalProperties''}" "k \<notin> set child_map_keys" "strict_ok w"
      "k = ''type'' \<Longrightarrow> type_includes_object (Some w) \<Longrightarrow> schema_is_object_typed kvs" for k w
    unfolding strict_ok_obj using strict_node_insert [OF s n(1) that(1)] that sorted_strict_insert [OF s n(2)]
    by (simp add: strict_entry_plain)
  have ent: "strict_ok w" if "map_of kvs k = Some w" "k \<notin> set child_map_keys" for k w
    using n(2) map_of_SomeD [OF that(1)] that(2) by (auto simp: list_all_iff strict_entry_plain)
  have t: "strict_ok (nullable_object kvs)" if "map_of kvs ''type'' = Some (JString t)" for t
  proof (cases "t = ''null''")
    case True
    then show ?thesis using that assms(2) JObject by (simp add: nullable_object_def)
  next
    case False
    have "strict_ok (JObject (obj_insert ''type'' (JArray [JString t, JString ''null'']) kvs))"
      by (rule ins) (use that in \<open>auto simp: type_includes_object_def schema_is_object_typed_def\<close>)
    then show ?thesis using that False by (simp add: nullable_object_def)
  qed
  have ts: "strict_ok (nullable_object kvs)" if "map_of kvs ''type'' = Some (JArray types)" for types
  proof -
    have "strict_ok (JArray types)" using ent [OF that] by simp
    then have "strict_ok (JObject (obj_insert ''type'' (JArray
        (if list_ex (\<lambda>v. as_str v = Some ''null'') types then types else types @ [JString ''null''])) kvs))"
      by (intro ins) (use that in \<open>auto simp: type_includes_object_def schema_is_object_typed_def split: if_splits\<close>)
    then show ?thesis using that by (simp add: nullable_object_def)
  qed
  have other: "strict_ok (case map_of kvs ''anyOf'' of
       Some (JArray any_of) \<Rightarrow> JObject (obj_insert ''anyOf'' (JArray
         (if list_ex schema_contains_null_type any_of then any_of else any_of @ [null_type])) kvs)
     | _ \<Rightarrow> JObject [(''anyOf'', JArray [JObject kvs, null_type])])"
  proof (cases "\<exists>xs. map_of kvs ''anyOf'' = Some (JArray xs)")
    case True
    then obtain xs where xs: "map_of kvs ''anyOf'' = Some (JArray xs)" by blast
    have "strict_ok (JArray xs)" using ent [OF xs] by simp
    then show ?thesis unfolding xs option.case json.case by (intro ins) auto
  next
    case False
    then show ?thesis using wrap_nullable_strict [of "JObject kvs"] assms(2) JObject
      by (auto split: option.split json.split)
  qed
  have "strict_ok (nullable_object kvs)"
  proof (cases "map_of kvs ''type''")
    case None
    then show ?thesis using other by (simp only: nullable_object_def option.case)
  next
    case (Some w)
    then show ?thesis using t ts other
      by (cases w) (simp_all only: nullable_object_def [of kvs] Some option.case json.case)
  qed
  then show ?thesis by (simp add: JObject)
qed (use assms wrap_nullable_strict in simp_all)

lemma json_ok_insert: "json_ok (JObject kvs) \<Longrightarrow> json_ok v \<Longrightarrow> json_ok (JObject (obj_insert k v kvs))"
  using well_formed.ok_obj_insert by blast

lemma json_ok_get: "json_ok (JObject kvs) \<Longrightarrow> map_of kvs k = Some v \<Longrightarrow> json_ok v"
  using well_formed.ok_map_of by blast

lemma json_member_ok: "json_ok (JObject kvs) \<Longrightarrow> (k, v) \<in> set kvs \<Longrightarrow> json_ok v"
  by (auto simp: list_all_iff)

lemma null_type_ok [simp]: "json_ok null_type" by (simp add: null_type_def)

lemma nullable_ok:
  assumes "json_ok v"
  shows "json_ok (make_schema_nullable v)"
proof (cases v)
  case (JObject kvs)
  have k: "json_ok (JObject kvs)" using assms JObject by simp
  have "json_ok (case map_of kvs ''anyOf'' of
       Some (JArray any_of) \<Rightarrow> JObject (obj_insert ''anyOf'' (JArray
         (if list_ex schema_contains_null_type any_of then any_of else any_of @ [null_type])) kvs)
     | _ \<Rightarrow> JObject [(''anyOf'', JArray [JObject kvs, null_type])])"
    using k json_ok_get [OF k, of "''anyOf''"]
    by (auto simp del: json_ok.simps(1) simp: json_ok.simps(1) [of "[(''anyOf'', _)]"]
        intro!: json_ok_insert split: option.split json.split)
  moreover have "json_ok (JArray types)" if "map_of kvs ''type'' = Some (JArray types)" for types
    using json_ok_get [OF k that] .
  ultimately have "json_ok (nullable_object kvs)"
    unfolding nullable_object_def using k json_ok_insert [OF k]
    by (auto simp del: json_ok.simps(1) split: option.split json.split)
  then show ?thesis by (simp add: JObject)
qed (use assms in simp_all)

text \<open>The properties of a node after the required ones are settled.\<close>

lemma required_properties:
  assumes ok: "json_ok (JObject kvs)" and st: "list_all strict_entry kvs"
  shows "json_ok (JObject (normalize_required_properties kvs))"
    and "list_all strict_entry (normalize_required_properties kvs)"
    and "case Option.bind (map_of (normalize_required_properties kvs) ''properties'') as_object of
        Some ps \<Rightarrow> map_of (normalize_required_properties kvs) ''required'' =
          Some (JArray (map JString (sort (map fst ps))))
      | None \<Rightarrow> True"
    and "map_of (normalize_required_properties kvs) ''type'' = map_of kvs ''type''"
proof -
  let ?n = "normalize_required_properties kvs"
  have "json_ok (JObject ?n) \<and> list_all strict_entry ?n
    \<and> (case Option.bind (map_of ?n ''properties'') as_object of
        Some ps \<Rightarrow> map_of ?n ''required'' = Some (JArray (map JString (sort (map fst ps)))) | None \<Rightarrow> True)
    \<and> map_of ?n ''type'' = map_of kvs ''type''"
  proof (cases "Option.bind (map_of kvs ''properties'') as_object")
    case None
    then show ?thesis using ok st by (simp add: normalize_required_properties_def)
  next
    case (Some props)
    then have m: "map_of kvs ''properties'' = Some (JObject props)"
      by (cases "map_of kvs ''properties''") (auto elim: as_object.elims)
    let ?props = "map (\<lambda>(n, s). (n, if n \<in> existing_required_keys kvs then s else make_schema_nullable s)) props"
    let ?one = "obj_insert ''properties'' (JObject ?props) kvs"
    let ?req = "JArray (map JString (sort (map fst props)))"
    have n: "?n = obj_insert ''required'' ?req ?one"
      by (simp add: normalize_required_properties_def Some Let_def)
    have f: "map fst ?props = map fst props" by (simp add: comp_def split_beta)
    have po: "json_ok (JObject props)" using json_ok_get [OF ok m] .
    have "strict_entry (''properties'', JObject props)"
      using map_of_SomeD [OF m] st by (auto simp: list_all_iff simp del: strict_ok.simps)
    then have "list_all (\<lambda>(n, s). json_ok s \<and> strict_ok s) props"
      using po by (auto simp: list_all_iff strict_entry_def child_map_keys_def)
    then have each: "list_all (\<lambda>(n, s). json_ok s \<and> strict_ok s) ?props"
      using nullable_ok nullable_strict by (fastforce simp: list_all_iff)
    have pj: "json_ok (JObject ?props)" using po each f by (auto simp: list_all_iff simp del: map_map)
    have pe: "strict_entry (''properties'', JObject ?props)"
      using each by (auto simp: strict_entry_def child_map_keys_def list_all_iff)
    have one: "json_ok (JObject ?one)" by (rule json_ok_insert [OF ok pj])
    have s: "sorted_wrt (<) (map fst kvs)" "sorted_wrt (<) (map fst ?one)" using ok one by simp_all
    have re: "strict_entry (''required'', ?req)" by (simp add: strict_entry_plain list_all_iff)
    have "json_ok (JObject ?n)" unfolding n by (rule json_ok_insert [OF one]) (simp add: list_all_iff)
    moreover have "list_all strict_entry ?n" unfolding n by (intro list_all_insert st pe re)
    moreover have g: "map_of ?n ''properties'' = Some (JObject ?props)" "map_of ?n ''required'' = Some ?req"
      "map_of ?n ''type'' = map_of kvs ''type''"
      unfolding n by (simp_all add: map_of_obj_insert s)
    ultimately show ?thesis using f by (simp del: map_map)
  qed
  then show "json_ok (JObject ?n)" "list_all strict_entry ?n"
    "case Option.bind (map_of ?n ''properties'') as_object of
        Some ps \<Rightarrow> map_of ?n ''required'' = Some (JArray (map JString (sort (map fst ps)))) | None \<Rightarrow> True"
    "map_of ?n ''type'' = map_of kvs ''type''" by blast+
qed

lemma finish_strict_ok:
  assumes ok: "json_ok (JObject out)" and st: "list_all strict_entry out"
  shows "json_ok (JObject (finish_strict out)) \<and> strict_ok (JObject (finish_strict out))"
proof -
  define n where "n = normalize_required_properties out"
  note r = required_properties [OF ok st, folded n_def]
  have ty: "schema_is_object_typed n = schema_is_object_typed out"
    using r(4) by (simp add: schema_is_object_typed_def)
  show ?thesis
  proof (cases "schema_is_object_typed out \<or> map_of n ''properties'' \<noteq> None")
    case False
    then have "finish_strict out = n" by (simp add: finish_strict_def Let_def n_def)
    moreover have "strict_node n" using r(3) False ty by (simp add: strict_node_def)
    ultimately show ?thesis using r(1,2) by (simp add: strict_ok_obj del: json_ok.simps strict_ok.simps(1))
  next
    case True
    let ?f = "obj_insert ''additionalProperties'' (JBool False) n"
    have f: "finish_strict out = ?f" using True by (simp add: finish_strict_def Let_def n_def)
    have s: "sorted_wrt (<) (map fst n)" using r(1) by simp
    have g: "map_of ?f ''properties'' = map_of n ''properties''" "map_of ?f ''required'' = map_of n ''required''"
      "map_of ?f ''additionalProperties'' = Some (JBool False)"
      by (simp_all add: map_of_obj_insert s)
    have "strict_node ?f" using r(3) unfolding strict_node_def g by simp
    moreover have "list_all strict_entry ?f"
      by (intro list_all_insert r(2)) (simp add: strict_entry_plain)
    moreover have "json_ok (JObject ?f)" by (rule json_ok_insert [OF r(1)]) simp
    ultimately show ?thesis unfolding f by (simp add: strict_ok_obj del: json_ok.simps strict_ok.simps(1))
  qed
qed

lemma strict_normalize_ok: "json_ok s \<Longrightarrow> json_ok (strict_normalize_schema s) \<and> strict_ok (strict_normalize_schema s)"
proof (induction s rule: strict_normalize_schema.induct)
  case (1 kvs)
  let ?g = "\<lambda>k v. if k \<in> set child_map_keys
      then (case v of JObject cs \<Rightarrow> JObject (map (\<lambda>(c, x). (c, strict_normalize_schema x)) cs)
              | _ \<Rightarrow> strict_normalize_schema v) else strict_normalize_schema v"
  have e: "json_ok (?g k v) \<and> strict_entry (k, ?g k v)" if kv: "(k, v) \<in> set kvs" for k v
  proof (cases "k \<in> set child_map_keys \<and> (\<exists>cs. v = JObject cs)")
    case True
    then obtain cs where v: "v = JObject cs" and k: "k \<in> set child_map_keys" by blast
    have co: "json_ok (JObject cs)" using json_member_ok [OF "1.prems" kv] v by simp
    have "json_ok (strict_normalize_schema x) \<and> strict_ok (strict_normalize_schema x)" if "(c, x) \<in> set cs" for c x
    proof -
      have "json_ok x" using co that by (auto simp: list_all_iff)
      then show ?thesis using "1.IH"(6) [OF kv refl k v that refl] by simp
    qed
    then show ?thesis using co k
      by (auto simp: v strict_entry_def list_all_iff comp_def split_beta)
  next
    case False
    have v: "json_ok v" using json_member_ok [OF "1.prems" kv] .
    have g: "?g k v = strict_normalize_schema v" using False by (cases v) auto
    have "json_ok (strict_normalize_schema v) \<and> strict_ok (strict_normalize_schema v)"
    proof (cases "k \<in> set child_map_keys")
      case True
      then show ?thesis using False v "1.IH"(1-5) [OF kv refl True] by (cases v) auto
    next
      case nk: False
      then show ?thesis using "1.IH"(7) [OF kv refl nk] v by simp
    qed
    moreover have "strict_entry (k, strict_normalize_schema v)"
      if "strict_ok (strict_normalize_schema v)" "k \<in> set child_map_keys"
      using that False by (cases v) (auto simp: strict_entry_def)
    ultimately show ?thesis unfolding g by (cases "k \<in> set child_map_keys") (auto simp: strict_entry_plain)
  qed
  have "map fst (map (\<lambda>(k, v). (k, ?g k v)) kvs) = map fst kvs" by (simp add: comp_def split_beta)
  then have "json_ok (JObject (map (\<lambda>(k, v). (k, ?g k v)) kvs))"
    using "1.prems" e by (auto simp: list_all_iff simp del: map_map)
  moreover have "list_all strict_entry (map (\<lambda>(k, v). (k, ?g k v)) kvs)"
    using e by (auto simp: list_all_iff)
  ultimately show ?case unfolding strict_normalize_schema.simps(1) by (rule finish_strict_ok)
qed (simp_all add: list_all_iff)


section \<open>Flattened schemas\<close>

lemma sorted_remove: "sorted_wrt (<) (map fst kvs) \<Longrightarrow> sorted_wrt (<) (map fst (remove_key k kvs))"
proof -
  have "map fst (remove_key k kvs) = filter (\<lambda>a. a \<noteq> k) (map fst kvs)"
    by (simp add: remove_key_def filter_map comp_def)
  then show "sorted_wrt (<) (map fst kvs) \<Longrightarrow> sorted_wrt (<) (map fst (remove_key k kvs))"
    by (simp add: sorted_wrt_filter)
qed

lemma map_of_remove: "map_of (remove_key k kvs) a = (if a = k then None else map_of kvs a)"
  by (induction kvs) (auto simp: remove_key_def)

lemma or_insert_map_of:
  assumes "sorted_wrt (<) (map fst kvs)"
  shows "sorted_wrt (<) (map fst (or_insert k v kvs))"
    and "map_of (or_insert k v kvs) = map_of (kvs @ [(k, v)])"
  using assms
  by (auto simp: or_insert_def sorted_obj_insert map_of_obj_insert fun_eq_iff map_add_def split: option.split)

lemma or_insert_fold:
  assumes "sorted_wrt (<) (map fst ps)"
  shows "sorted_wrt (<) (map fst (foldl (\<lambda>ps (n, p). or_insert n p ps) ps qs))
    \<and> map_of (foldl (\<lambda>ps (n, p). or_insert n p ps) ps qs) = map_of (ps @ qs)"
  using assms
proof (induction qs arbitrary: ps)
  case (Cons q qs)
  obtain n p where q: "q = (n, p)" by (cases q)
  show ?case using Cons.IH [OF or_insert_map_of(1) [OF Cons.prems, of n p]] or_insert_map_of(2) [OF Cons.prems, of n p]
    by (simp add: q)
qed simp

definition branches_of :: "obj \<Rightarrow> str \<Rightarrow> json list" where
  "branches_of kvs keyword =
     (case Option.bind (map_of kvs keyword) as_array of Some xs \<Rightarrow> xs | None \<Rightarrow> [])"

definition own_properties :: "obj \<Rightarrow> obj" where
  "own_properties kvs =
     (case Option.bind (map_of kvs ''properties'') as_object of Some ps \<Rightarrow> ps | None \<Rightarrow> [])"

text \<open>The properties a schema offers: its own, then those of the branches of the three combinators.\<close>

definition offered_properties :: "obj \<Rightarrow> obj" where
  "offered_properties kvs =
     own_properties kvs
     @ concat (map (\<lambda>kw. concat (map branch_properties (branches_of kvs kw))) [''oneOf'', ''anyOf'', ''allOf''])"

lemma merge_branches:
  assumes "sorted_wrt (<) (map fst ps)"
  shows "sorted_wrt (<) (map fst (foldl merge_branch ps bs))
    \<and> map_of (foldl merge_branch ps bs) = map_of (ps @ concat (map branch_properties bs))"
  using assms
proof (induction bs arbitrary: ps)
  case (Cons b bs)
  have s: "sorted_wrt (<) (map fst (merge_branch ps b))" "map_of (merge_branch ps b) = map_of (ps @ branch_properties b)"
    using or_insert_fold [OF Cons.prems, of "branch_properties b"] by (simp_all add: merge_branch_def)
  show ?case using Cons.IH [OF s(1)] s(2) by simp
qed simp

lemma flatten_keyword_facts:
  fixes s keyword
  defines "t \<equiv> flatten_keyword s keyword"
  assumes "sorted_wrt (<) (map fst (flat_properties s))"
  shows "flat_output t = remove_key keyword (flat_output s)"
    and "sorted_wrt (<) (map fst (flat_properties t))"
    and "map_of (flat_properties t) =
      map_of (flat_properties s @ concat (map branch_properties (branches_of (flat_output s) keyword)))"
  using merge_branches [OF assms(2)] assms(2)
  by (simp_all add: t_def flatten_keyword_def Let_def branches_of_def split: option.split)

lemma branches_of_remove: "a \<noteq> k \<Longrightarrow> branches_of (remove_key k kvs) a = branches_of kvs a"
  by (simp add: branches_of_def map_of_remove)

lemma flatten_keywords_facts:
  assumes "json_ok (JObject kvs)"
  shows "flat_output (flatten_keywords kvs) = remove_key ''allOf'' (remove_key ''anyOf'' (remove_key ''oneOf'' kvs))"
    and "map_of (flat_properties (flatten_keywords kvs)) = map_of (offered_properties kvs)"
proof -
  define s0 where "s0 = \<lparr>flat_output = kvs, flat_properties = own_properties kvs, flat_required = [], flat_saw = False\<rparr>"
  define s1 where "s1 = flatten_keyword s0 ''oneOf''"
  define s2 where "s2 = flatten_keyword s1 ''anyOf''"
  have f: "flatten_keywords kvs = flatten_keyword s2 ''allOf''"
    by (simp add: flatten_keywords_def s2_def s1_def s0_def own_properties_def)
  have "sorted_wrt (<) (map fst (own_properties kvs))"
  proof (cases "map_of kvs ''properties''")
    case (Some v)
    then show ?thesis using json_ok_get [OF assms Some] by (cases v) (simp_all add: own_properties_def)
  qed (simp add: own_properties_def)
  then have 0: "sorted_wrt (<) (map fst (flat_properties s0))" by (simp add: s0_def)
  note 1 = flatten_keyword_facts [OF 0, of "''oneOf''", folded s1_def]
  note 2 = flatten_keyword_facts [OF 1(2), of "''anyOf''", folded s2_def]
  note 3 = flatten_keyword_facts [OF 2(2), of "''allOf''", folded f]
  show "flat_output (flatten_keywords kvs) = remove_key ''allOf'' (remove_key ''anyOf'' (remove_key ''oneOf'' kvs))"
    by (simp add: 3(1) 2(1) 1(1)) (simp add: s0_def)
  have o: "flat_output s0 = kvs" "flat_properties s0 = own_properties kvs" by (simp_all add: s0_def)
  have "map_of (flat_properties (flatten_keywords kvs)) =
      map_of (concat (map branch_properties (branches_of kvs ''allOf'')))
      ++ map_of (flat_properties s0 @ concat (map branch_properties (branches_of kvs ''oneOf''))
        @ concat (map branch_properties (branches_of kvs ''anyOf'')))"
    using 3(3) 2(3) 1(3) by (simp add: 2(1) 1(1) o branches_of_remove)
  then show "map_of (flat_properties (flatten_keywords kvs)) = map_of (offered_properties kvs)"
    by (simp add: offered_properties_def o)
qed

lemma promote_required_get:
  assumes "sorted_wrt (<) (map fst out)" and "k \<noteq> ''required''"
  shows "map_of (promote_required names out) k = map_of out k"
  using assms or_insert_map_of [OF assms(1), of "''required''" "JArray []"]
  by (auto simp: promote_required_def Let_def map_of_obj_insert map_add_def split: option.split json.split)

text \<open>Supplement: the input schema sent to Anthropic is an object schema without a combinator at its top level;
  its properties are exactly those the schema offers, its own first, then those of the branches of
  \<open>oneOf\<close>, \<open>anyOf\<close> and \<open>allOf\<close>; and apart from the type, the properties and the required names every
  other keyword is kept.\<close>

theorem anthropic_schema_is_flat:
  assumes "json_ok (JObject kvs)"
  shows "\<exists>out ps. anthropic_input_schema (JObject kvs) = JObject out
    \<and> map_of out ''type'' = Some (JString ''object'')
    \<and> map_of out ''properties'' = Some (JObject ps) \<and> map_of ps = map_of (offered_properties kvs)
    \<and> list_all (\<lambda>k. map_of out k = None) [''oneOf'', ''anyOf'', ''allOf'']
    \<and> (\<forall>k. k \<notin> {''type'', ''properties'', ''required'', ''oneOf'', ''anyOf'', ''allOf''} \<longrightarrow> map_of out k = map_of kvs k)"
proof -
  let ?s = "flatten_keywords kvs"
  let ?t = "obj_insert ''type'' (JString ''object'') (flat_output ?s)"
  let ?p = "obj_insert ''properties'' (JObject (flat_properties ?s)) ?t"
  have s: "sorted_wrt (<) (map fst (flat_output ?s))"
    using assms by (simp add: flatten_keywords_facts(1) [OF assms] sorted_remove)
  note s1 = sorted_obj_insert [OF s, of "''type''" "JString ''object''"]
  note s2 = sorted_obj_insert [OF s1, of "''properties''" "JObject (flat_properties ?s)"]
  have g: "map_of (finish_flatten ?s) k = map_of ?p k" if "k \<noteq> ''required''" for k
    using promote_required_get [OF s2 that] by (simp add: finish_flatten_def)
  have p: "map_of ?p = (map_of (flat_output ?s))(''type'' \<mapsto> JString ''object'', ''properties'' \<mapsto> JObject (flat_properties ?s))"
    by (simp add: map_of_obj_insert s s1)
  have o: "map_of (flat_output ?s) k = (if k \<in> {''oneOf'', ''anyOf'', ''allOf''} then None else map_of kvs k)" for k
    by (simp add: flatten_keywords_facts(1) [OF assms] map_of_remove)
  show ?thesis
    by (rule exI [of _ "finish_flatten ?s"], rule exI [of _ "flat_properties ?s"])
      (simp add: anthropic_input_schema_def g p o flatten_keywords_facts(2) [OF assms])
qed

theorem anthropic_schema_is_flat_witness:
  "\<exists>out ps. anthropic_input_schema (JObject [(''anyOf'', JArray [JObject [(''properties'', JObject [(''a'', JNull)])]])]) = JObject out
    \<and> map_of out ''properties'' = Some (JObject ps) \<and> map_of ps ''a'' = Some JNull"
proof -
  let ?kvs = "[(''anyOf'', JArray [JObject [(''properties'', JObject [(''a'', JNull)])]])]"
  have "json_ok (JObject ?kvs)" by simp
  from anthropic_schema_is_flat [OF this] obtain out ps where
    o: "anthropic_input_schema (JObject ?kvs) = JObject out" "map_of out ''properties'' = Some (JObject ps)"
      "map_of ps = map_of (offered_properties ?kvs)" by (elim exE conjE) rule
  have "map_of (offered_properties ?kvs) ''a'' = Some JNull"
    by (simp add: offered_properties_def own_properties_def branches_of_def branch_properties_def)
  then have "map_of ps ''a'' = Some JNull" by (simp only: o(3))
  with o(1,2) show ?thesis by (intro exI conjI)
qed

section \<open>Complete object schemas\<close>

text \<open>Every object-typed node the sanitiser reaches declares its properties.\<close>

fun declares_properties :: "json \<Rightarrow> bool" where
  "declares_properties (JObject kvs) \<longleftrightarrow>
     (schema_is_object_typed kvs \<longrightarrow> ''properties'' \<in> set (map fst kvs))
     \<and> list_all (\<lambda>(k, v). if k \<in> set walked_maps
         then (case v of JObject cs \<Rightarrow> list_all (\<lambda>(_, x). declares_properties x) cs | _ \<Rightarrow> True)
         else if k \<in> set walked_schemas then declares_properties v else True) kvs"
| "declares_properties (JArray xs) \<longleftrightarrow> list_all declares_properties xs"
| "declares_properties _ = True"

definition declared_entry :: "str \<times> json \<Rightarrow> bool" where
  "declared_entry = (\<lambda>(k, v). if k \<in> set walked_maps
     then (case v of JObject cs \<Rightarrow> list_all (\<lambda>(_, x). declares_properties x) cs | _ \<Rightarrow> True)
     else if k \<in> set walked_schemas then declares_properties v else True)"

lemma declares_obj:
  "declares_properties (JObject kvs) \<longleftrightarrow>
    (schema_is_object_typed kvs \<longrightarrow> ''properties'' \<in> set (map fst kvs)) \<and> list_all declared_entry kvs"
  by (simp add: declared_entry_def)

lemma map_of_keyed: "map_of (map (\<lambda>(k, v). (k, g k v)) kvs) a = map_option (g a) (map_of kvs a)"
  by (induction kvs) auto

lemma ensure_declares: "schema_is_object_typed (ensure_properties kvs) \<Longrightarrow> ''properties'' \<in> set (map fst (ensure_properties kvs))"
  using keys_obj_insert [of "''properties''" "JObject []" kvs]
  by (auto simp: ensure_properties_def or_insert_def split: if_splits option.splits dest!: map_of_SomeD)
    (metis fst_conv image_eqI)+

lemma walk_declares: "declares_properties (walk_schema s)"
proof (induction s rule: walk_schema.induct)
  case (1 kvs)
  let ?g = "\<lambda>k v. if k \<in> set walked_maps
      then (case v of JObject cs \<Rightarrow> JObject (map (\<lambda>(c, x). (c, walk_schema x)) cs) | _ \<Rightarrow> v)
      else if k \<in> set walked_schemas then walk_schema v else v"
  let ?out = "map (\<lambda>(k, v). (k, ?g k v)) (ensure_properties kvs)"
  have "map_of ?out ''type'' = map_of (ensure_properties kvs) ''type''"
    unfolding map_of_keyed by (simp add: walked_maps_def walked_schemas_def option.map_ident)
  moreover have "map fst ?out = map fst (ensure_properties kvs)" by (simp add: comp_def split_beta)
  ultimately have "schema_is_object_typed ?out \<Longrightarrow> ''properties'' \<in> set (map fst ?out)"
    using ensure_declares [of kvs] by (simp only: schema_is_object_typed_def)
  moreover have "declared_entry (k, ?g k v)" if kv: "(k, v) \<in> set (ensure_properties kvs)" for k v
  proof (cases "k \<in> set walked_maps")
    case True
    then show ?thesis using 1(1) [OF kv refl True]
      by (cases v) (fastforce simp: declared_entry_def list_all_iff)+
  next
    case False
    then show ?thesis using 1(2) [OF kv refl False] by (simp add: declared_entry_def)
  qed
  then have "list_all declared_entry ?out" by (auto simp: list_all_iff)
  ultimately show ?case unfolding walk_schema.simps(1) declares_obj by blast
qed (simp_all add: list_all_iff)

text \<open>Supplement: in the parameters schema sent to an OpenAI-compatible endpoint every object-typed schema
  declares its properties, wherever schemas nest.\<close>

theorem openrouter_schema_declares_properties:
  "declares_properties (sanitize_tool_parameters_schema schema)"
  unfolding sanitize_tool_parameters_schema_def Let_def by (rule walk_declares)

section \<open>The cache budget of a request\<close>

definition tool_markers :: "ApiTool list \<Rightarrow> nat" where
  "tool_markers ts = length (filter (\<lambda>t. tool_cache t \<noteq> None) ts)"

lemma mark_last_markers:
  assumes "list_all (\<lambda>t. tool_cache t = None) ts"
  shows "tool_markers (mark_last_tool h ts) \<le> 1"
proof (cases ts rule: rev_cases)
  case (snoc us u)
  then have "filter (\<lambda>t. tool_cache t \<noteq> None) us = []" using assms by (auto simp: list_all_iff filter_empty_conv)
  then show ?thesis by (simp add: tool_markers_def mark_last_tool_def snoc)
qed (simp add: tool_markers_def mark_last_tool_def)

lemma tool_markers_simps [simp]:
  "tool_markers [] = 0"
  "tool_markers (t # ts) = (if tool_cache t = None then 0 else 1) + tool_markers ts"
  by (simp_all add: tool_markers_def)

lemma indexed_markers:
  "tool_markers (map (\<lambda>(i, t). (plain_tool (def_name t) t)
      \<lparr>tool_cache := (if i = m then Some c else None)\<rparr>) (enumerate n ts)) \<le> (if n \<le> m then 1 else 0)"
proof (induction ts arbitrary: n)
  case (Cons t ts)
  consider "n < m" | "n = m" | "m < n" by linarith
  then show ?case by cases (use Cons.IH [of "Suc n"] in simp_all)
qed simp

lemma builtins_unmarked: "list_all (\<lambda>t. tool_cache t = None) oauth_builtin_tools"
  by (simp add: oauth_builtin_tools_def)

lemma format_tools_markers: "tool_markers (format_tools ts oa h) \<le> 1"
proof (cases oa)
  case True
  have "list_all (\<lambda>t. tool_cache t = None) (oauth_builtin_tools @ map (\<lambda>t. plain_tool (f t) t) us)" for f us
    using builtins_unmarked by (auto simp: list_all_iff plain_tool_def)
  then show ?thesis unfolding format_tools_def if_P [OF True] by (rule mark_last_markers)
next
  case False
  have "tool_markers (format_tools ts oa h) \<le> (if 0 \<le> length ts - 1 then 1 else 0)"
    using indexed_markers [of "length ts - 1" "cache_param h" 0 ts] False by (simp add: format_tools_def)
  then show ?thesis by simp
qed

text \<open>C33: a whole request carries at most four cache breakpoints, as many as the provider allows: one on
  the system prompt, one on the tools and two on the messages.\<close>

theorem request_stays_within_cache_budget:
  "system_markers (build_system_param_split static_part dynamic_part oa h)
   + tool_markers (format_tools tools oa h)
   + markers (format_messages_with_identity (format_messages oa msgs) oa h) \<le> 4"
  using system_markers_le [of static_part dynamic_part oa h] format_tools_markers [of tools oa h]
    breakpoint_markers [of h "format_messages oa msgs"] format_messages_unmarked [of oa msgs]
  by (simp add: format_messages_with_identity_def)

end
