(* ===== verification/Apply_Patch.thy ===== *)
theory Apply_Patch
  imports Compaction
begin

text \<open>
  The tool that applies a patch of the model to files
  (\<^verbatim>\<open>src/crates/jcode-app-core/src/tool/apply_patch.rs\<close>): the parser of the patch text, the search for the lines
  a chunk replaces, the replacement itself and the effect on the files. Loops over an index into
  the lines are recursion on the remaining lines. The file system is a map from resolved paths to
  contents; \<open>resolve\<close> stands for \<open>ToolContext::resolve_path\<close>, \<open>writable\<close> tells whether creating the
  parent directory and writing a file succeeds, \<open>removable\<close> whether removing one
  does, and \<open>text_diff\<close> stands for the line diff of the \<open>similar\<close> crate. Error texts of the file
  system are the argument \<open>io_error\<close>. Events for the bus are collected in the state.
\<close>

section \<open>Patches\<close>

record UpdateFileChunk =
  change_context :: "str option"
  old_lines :: "str list"
  new_lines :: "str list"
  is_end_of_file :: bool

datatype PatchHunk =
    AddFile str str
  | DeleteFile str
  | UpdateFile str "str option" "UpdateFileChunk list"

fun add_contents :: "str list \<Rightarrow> str \<times> str list" where
  "add_contents [] = ([], [])"
| "add_contents (l # ls) =
     (if prefix ''*** '' l then ([], l # ls)
      else let (contents, rest) = add_contents ls
           in ((case strip_prefix ''+'' l of Some added \<Rightarrow> added @ nl @ contents | None \<Rightarrow> contents), rest))"

record chunk_body =
  body_old :: "str list"
  body_new :: "str list"
  body_eof :: bool
  body_had :: bool
  body_rest :: "str list"

definition stop_body :: "bool \<Rightarrow> bool \<Rightarrow> str list \<Rightarrow> chunk_body" where
  "stop_body eof had rest =
     \<lparr>body_old = [], body_new = [], body_eof = eof, body_had = had, body_rest = rest\<rparr>"

definition add_line :: "bool \<Rightarrow> bool \<Rightarrow> str \<Rightarrow> chunk_body \<Rightarrow> chunk_body" where
  "add_line to_old to_new l b =
     b\<lparr>body_old := (if to_old then l # body_old b else body_old b),
       body_new := (if to_new then l # body_new b else body_new b)\<rparr>"

fun parse_body :: "bool \<Rightarrow> str list \<Rightarrow> chunk_body" where
  "parse_body had [] = stop_body False had []"
| "parse_body had (l # ls) =
     (if l = ''*** End of File'' then stop_body True had ls
      else if prefix ''*** '' l \<or> prefix ''@@'' l then stop_body False had (l # ls)
      else case strip_prefix '' '' l of
        Some c \<Rightarrow> add_line True True c (parse_body True ls)
      | None \<Rightarrow>
          (case strip_prefix ''+'' l of
             Some c \<Rightarrow> add_line False True c (parse_body True ls)
           | None \<Rightarrow>
               (case strip_prefix ''-'' l of
                  Some c \<Rightarrow> add_line True False c (parse_body True ls)
                | None \<Rightarrow>
                    if l = [] then add_line True True [] (parse_body True ls)
                    else if had then stop_body False had (l # ls)
                    else parse_body had ls)))"

lemma parse_body_rest: "length (body_rest (parse_body had ls)) \<le> length ls"
  by (induction had ls rule: parse_body.induct)
    (auto simp: stop_body_def add_line_def le_Suc_eq split: option.split)

declare parse_body.simps(2) [simp del]

definition body_chunk :: "str option \<Rightarrow> chunk_body \<Rightarrow> UpdateFileChunk list" where
  "body_chunk ctx b =
     (if body_had b \<or> ctx \<noteq> None
      then [\<lparr>change_context = ctx, old_lines = body_old b, new_lines = body_new b,
             is_end_of_file = body_eof b\<rparr>]
      else [])"

text \<open>What the loop over the chunks does at a line: stop, skip a blank line, or start a chunk, with or
  without consuming the line as its header.\<close>

datatype chunk_start = StopChunks | SkipLine | StartChunk "str option" bool

definition chunk_start_at :: "bool \<Rightarrow> str \<Rightarrow> chunk_start" where
  "chunk_start_at is_first_chunk l =
     (let current = trim_end l in
      if prefix ''*** '' current \<and> current \<noteq> ''*** End of File'' then StopChunks
      else if trim current = [] \<and> \<not> prefix '' '' current \<and> \<not> prefix ''+'' current \<and> \<not> prefix ''-'' current
      then SkipLine
      else if current = ''@@'' then StartChunk None True
      else case strip_prefix ''@@ '' current of
        Some ctx \<Rightarrow> StartChunk (Some ctx) True
      | None \<Rightarrow> if is_first_chunk then StartChunk None False else StopChunks)"

lemma chunk_start_first: "chunk_start_at f l = StartChunk ctx False \<Longrightarrow> f"
  by (auto simp: chunk_start_at_def Let_def split: if_splits option.splits)

function parse_chunks :: "bool \<Rightarrow> str list \<Rightarrow> UpdateFileChunk list \<times> str list" where
  "parse_chunks is_first_chunk [] = ([], [])"
| "parse_chunks is_first_chunk (l # ls) =
     (case chunk_start_at is_first_chunk l of
        StopChunks \<Rightarrow> ([], l # ls)
      | SkipLine \<Rightarrow> parse_chunks is_first_chunk ls
      | StartChunk ctx consume \<Rightarrow>
          let b = parse_body False (if consume then ls else l # ls);
              (cs, rest) = parse_chunks False (body_rest b)
          in (body_chunk ctx b @ cs, rest))"
  by pat_completeness auto
termination
proof (relation "measure (\<lambda>(f, ls). 2 * length ls + (if f then 1 else 0))", goal_cases)
  case (3 f l ls ctx consume b)
  have "length (body_rest b) \<le> length (if consume then ls else l # ls)"
    using parse_body_rest [of False "if consume then ls else l # ls"] 3(2) by simp
  moreover have "consume \<or> f" using 3(1) chunk_start_first by (cases consume) auto
  ultimately show ?case by (auto split: if_splits)
qed simp_all

lemma parse_chunks_rest: "length (snd (parse_chunks f ls)) \<le> length ls"
proof (induction f ls rule: parse_chunks.induct)
  case (2 f l ls)
  show ?case
  proof (cases "chunk_start_at f l")
    case SkipLine
    then show ?thesis using 2(1) by simp
  next
    case (StartChunk ctx consume)
    let ?b = "parse_body False (if consume then ls else l # ls)"
    have "length (snd (parse_chunks False (body_rest ?b))) \<le> length (body_rest ?b)"
      using 2(2) [OF StartChunk refl] .
    also have "\<dots> \<le> length (l # ls)"
      using parse_body_rest [of False "if consume then ls else l # ls"] by (simp split: if_splits)
    finally show ?thesis by (simp add: StartChunk Let_def split_beta)
  qed simp
qed simp

lemma add_contents_rest: "length (snd (add_contents ls)) \<le> length ls"
  by (induction ls) (auto simp: split_beta)

definition move_target :: "str list \<Rightarrow> str option \<times> str list" where
  "move_target ls =
     (case ls of
        m # ms \<Rightarrow>
          (case strip_prefix ''*** Move to: '' (trim_end m) of
             Some target \<Rightarrow> (Some (trim target), ms)
           | None \<Rightarrow> (None, ls))
      | [] \<Rightarrow> (None, []))"

lemma move_target_rest: "length (snd (move_target ls)) \<le> length ls"
  by (auto simp: move_target_def split: list.split option.split)

definition quoted :: "str \<Rightarrow> str" where
  "quoted s = [CHR 0x27] @ s @ [CHR 0x27]"

function parse_hunks :: "str list \<Rightarrow> (str, PatchHunk list) result" where
  "parse_hunks [] = Inr []"
| "parse_hunks (l # ls) =
     (let line = trim_end l in
      if trim line = ''*** End Patch'' then Inr []
      else case strip_prefix ''*** Add File: '' line of
        Some path \<Rightarrow>
          (let (contents, rest) = add_contents ls
           in and_then (parse_hunks rest) (\<lambda>hs. Inr (AddFile (trim path) contents # hs)))
      | None \<Rightarrow>
          (case strip_prefix ''*** Delete File: '' line of
             Some path \<Rightarrow> and_then (parse_hunks ls) (\<lambda>hs. Inr (DeleteFile (trim path) # hs))
           | None \<Rightarrow>
               (case strip_prefix ''*** Update File: '' line of
                  Some path \<Rightarrow>
                    (let (move_to, ms) = move_target ls; (chunks, rest) = parse_chunks True ms
                     in if chunks = []
                        then Inl (''Update file hunk for '' @ quoted (trim path) @ '' has no changes'')
                        else and_then (parse_hunks rest)
                               (\<lambda>hs. Inr (UpdateFile (trim path) move_to chunks # hs)))
                | None \<Rightarrow> parse_hunks ls)))"
  by pat_completeness auto
termination
proof (relation "measure length", simp_all, goal_cases)
  case (1 l ls x path xa move_to ms xc chunks rest)
  have "length rest \<le> length ms" using parse_chunks_rest [of True ms] 1(9) by (metis snd_conv)
  moreover have "length ms \<le> length ls" using move_target_rest [of ls] 1(7) by (metis snd_conv)
  ultimately show ?case by simp
next
  case (2 l ls x path xa contents rest)
  then show ?case using add_contents_rest [of ls] by (metis le_imp_less_Suc snd_conv)
qed

definition parse_apply_patch :: "str \<Rightarrow> (str, PatchHunk list) result" where
  "parse_apply_patch input =
     (case dropWhile (\<lambda>l. trim l \<noteq> ''*** Begin Patch'') (str_lines input) of
        [] \<Rightarrow> Inl ''Patch must contain *** Begin Patch''
      | _ # ls \<Rightarrow>
          and_then (parse_hunks ls)
            (\<lambda>hs. if hs = [] then Inl ''No valid patch directives found'' else Inr hs))"

section \<open>Finding and replacing lines\<close>

definition seek_sequence :: "str list \<Rightarrow> str list \<Rightarrow> nat \<Rightarrow> bool \<Rightarrow> nat option" where
  "seek_sequence lines pattern start eof =
     (if pattern = [] then Some start
      else if length lines < length pattern then None
      else let last_start = length lines - length pattern;
               search_start = (if eof then last_start else start);
               found = (\<lambda>f. find (\<lambda>i. map f (take (length pattern) (drop i lines)) = map f pattern)
                              [search_start..<Suc last_start])
           in case found (\<lambda>l. l) of
                Some i \<Rightarrow> Some i
              | None \<Rightarrow> (case found trim_end of Some i \<Rightarrow> Some i | None \<Rightarrow> found trim))"

type_synonym replacement = "nat \<times> nat \<times> str list"

definition ends_empty :: "str list \<Rightarrow> bool" where
  "ends_empty ls \<longleftrightarrow> ls \<noteq> [] \<and> last ls = []"

text \<open>The pattern and the new lines a chunk ends up with, and where they go.\<close>

definition locate_chunk :: "str list \<Rightarrow> nat \<Rightarrow> UpdateFileChunk \<Rightarrow> replacement option" where
  "locate_chunk lines line_index c =
     (case seek_sequence lines (old_lines c) line_index (is_end_of_file c) of
        Some i \<Rightarrow> Some (i, length (old_lines c), new_lines c)
      | None \<Rightarrow>
          if ends_empty (old_lines c)
          then (let pat = butlast (old_lines c);
                    seg = (if ends_empty (new_lines c) then butlast (new_lines c) else new_lines c)
                in map_option (\<lambda>i. (i, length pat, seg)) (seek_sequence lines pat line_index (is_end_of_file c)))
          else None)"

fun collect_replacements :: "str list \<Rightarrow> str \<Rightarrow> nat \<Rightarrow> UpdateFileChunk list \<Rightarrow> (str, replacement list) result" where
  "collect_replacements lines path line_index [] = Inr []"
| "collect_replacements lines path line_index (c # cs) =
     and_then
       (case change_context c of
          None \<Rightarrow> Inr line_index
        | Some ctx \<Rightarrow>
            (case seek_sequence lines [ctx] line_index False of
               Some i \<Rightarrow> Inr (Suc i)
             | None \<Rightarrow> Inl (''Failed to find context '' @ quoted ctx @ '' in '' @ path)))
       (\<lambda>line_index.
          if old_lines c = []
          then and_then (collect_replacements lines path line_index cs)
                 (\<lambda>rs. Inr ((if ends_empty lines then length lines - 1 else length lines, 0, new_lines c) # rs))
          else case locate_chunk lines line_index c of
            Some (i, n, seg) \<Rightarrow>
              and_then (collect_replacements lines path (i + n) cs) (\<lambda>rs. Inr ((i, n, seg) # rs))
          | None \<Rightarrow>
              Inl (''Failed to find expected lines in '' @ path @ '':'' @ nl @ join nl (old_lines c)))"

definition compute_replacements :: "str list \<Rightarrow> str \<Rightarrow> UpdateFileChunk list \<Rightarrow> (str, replacement list) result" where
  "compute_replacements lines path chunks =
     and_then (collect_replacements lines path 0 chunks) (\<lambda>rs. Inr (sort_key fst rs))"

fun remove_lines :: "nat \<Rightarrow> nat \<Rightarrow> str list \<Rightarrow> str list" where
  "remove_lines start 0 lines = lines"
| "remove_lines start (Suc n) lines =
     remove_lines start n (if start < length lines then take start lines @ drop (Suc start) lines else lines)"

text \<open>\<open>Vec::insert\<close> panics behind the end of the vector: \<open>None\<close>.\<close>

fun insert_lines :: "nat \<Rightarrow> str list \<Rightarrow> str list \<Rightarrow> str list option" where
  "insert_lines i [] lines = Some lines"
| "insert_lines i (x # xs) lines =
     (if i \<le> length lines then insert_lines (Suc i) xs (take i lines @ x # drop i lines) else None)"

fun apply_from_end :: "replacement list \<Rightarrow> str list \<Rightarrow> str list option" where
  "apply_from_end [] lines = Some lines"
| "apply_from_end ((start, old_len, seg) # rs) lines =
     Option.bind (insert_lines start seg (remove_lines start old_len lines)) (apply_from_end rs)"

definition apply_replacements :: "str list \<Rightarrow> replacement list \<Rightarrow> str list option" where
  "apply_replacements lines rs = apply_from_end (rev rs) lines"

text \<open>\<open>split('\n')\<close> of the contents.\<close>

fun split_lines :: "str \<Rightarrow> str list" where
  "split_lines [] = [[]]"
| "split_lines (c # s) =
     (if c = CHR 0x0A then [] # split_lines s
      else case split_lines s of l # ls \<Rightarrow> (c # l) # ls | [] \<Rightarrow> [[c]])"

definition file_lines :: "str \<Rightarrow> str list" where
  "file_lines contents =
     (let ls = split_lines contents in if ends_empty ls then butlast ls else ls)"

definition close_lines :: "str list \<Rightarrow> str" where
  "close_lines ls = join nl (if ends_empty ls then ls else ls @ [[]])"

text \<open>The outcome of updating contents: an error of the patch, a panic (\<open>Inr None\<close>), or the new
  contents.\<close>

definition update_contents :: "str \<Rightarrow> str \<Rightarrow> UpdateFileChunk list \<Rightarrow> (str, str option) result" where
  "update_contents path contents chunks =
     (let lines = file_lines contents in
      and_then (compute_replacements lines path chunks)
        (\<lambda>rs. Inr (map_option close_lines (apply_replacements lines rs))))"

section \<open>The search finds matching lines\<close>

definition matches_at :: "(str \<Rightarrow> str) \<Rightarrow> str list \<Rightarrow> str list \<Rightarrow> nat \<Rightarrow> bool" where
  "matches_at f lines pattern i \<longleftrightarrow>
     i + length pattern \<le> length lines \<and> map f (take (length pattern) (drop i lines)) = map f pattern"

definition line_matches :: "str list \<Rightarrow> str list \<Rightarrow> nat \<Rightarrow> bool" where
  "line_matches lines pattern i \<longleftrightarrow> list_ex (\<lambda>f. matches_at f lines pattern i) [\<lambda>l. l, trim_end, trim]"

lemma find_upt:
  "find P [a..<b] = Some i \<Longrightarrow> a \<le> i \<and> i < b \<and> P i"
  using find_eq_Some_mem [of P "[a..<b]" i] by simp

lemma seek_sequence_found:
  assumes "seek_sequence lines pattern start eof = Some i" and "pattern \<noteq> []"
  shows "line_matches lines pattern i" and "eof \<or> start \<le> i"
proof -
  let ?l = "length lines - length pattern" let ?s = "if eof then ?l else start"
  have l: "length pattern \<le> length lines" using assms by (auto simp: seek_sequence_def split: if_splits)
  have "\<exists>f \<in> {\<lambda>l. l, trim_end, trim}. find (\<lambda>i. map f (take (length pattern) (drop i lines)) = map f pattern)
      [?s..<Suc ?l] = Some i"
    using assms l by (simp add: seek_sequence_def Let_def split: option.splits if_splits)
  then obtain f where f: "f \<in> {\<lambda>l. l, trim_end, trim}"
    "find (\<lambda>i. map f (take (length pattern) (drop i lines)) = map f pattern) [?s..<Suc ?l] = Some i" by blast
  note m = find_upt [OF f(2)]
  then show "line_matches lines pattern i"
    using f(1) l unfolding line_matches_def matches_at_def by (auto simp: map_idI)
  show "eof \<or> start \<le> i" using m by (auto split: if_splits)
qed

lemma seek_sequence_bound:
  assumes "seek_sequence lines pattern start eof = Some i" and "start \<le> length lines"
  shows "i + length pattern \<le> length lines"
proof (cases "pattern = []")
  case True
  then show ?thesis using assms by (simp add: seek_sequence_def)
next
  case False
  then show ?thesis using seek_sequence_found(1) [OF assms(1)]
    by (auto simp: line_matches_def matches_at_def)
qed

lemma locate_bound:
  assumes "locate_chunk lines k c = Some (i, n, seg)" and "k \<le> length lines"
  shows "i + n \<le> length lines"
proof -
  have "\<exists>pat eof. seek_sequence lines pat k eof = Some i \<and> n = length pat"
    using assms(1) unfolding locate_chunk_def Let_def
    by (auto split: option.splits if_splits simp del: length_butlast)
  then show ?thesis using seek_sequence_bound assms(2) by blast
qed

section \<open>Applying replacements\<close>

lemma remove_lines_take_drop: "start \<le> length lines \<Longrightarrow> remove_lines start n lines = take start lines @ drop (start + n) lines"
proof (induction n arbitrary: lines)
  case (Suc n)
  show ?case
  proof (cases "start < length lines")
    case True
    then have "remove_lines start n (take start lines @ drop (Suc start) lines) =
        take start (take start lines @ drop (Suc start) lines) @ drop (start + n) (take start lines @ drop (Suc start) lines)"
      by (intro Suc.IH) simp
    with True show ?thesis by (simp add: min_def add.commute)
  next
    case False
    with Suc.prems show ?thesis using Suc.IH [OF Suc.prems] by simp
  qed
qed simp

lemma insert_lines_take_drop: "start \<le> length lines \<Longrightarrow> insert_lines start seg lines = Some (take start lines @ seg @ drop start lines)"
  by (induction seg arbitrary: start lines) (simp_all add: min_def)

lemma replace_once:
  "start \<le> length lines \<Longrightarrow> insert_lines start seg (remove_lines start n lines) =
    Some (take start lines @ seg @ drop (start + n) lines)"
  by (simp add: remove_lines_take_drop insert_lines_take_drop)

lemma apply_from_end_append:
  "apply_from_end (rs @ qs) lines = Option.bind (apply_from_end rs lines) (apply_from_end qs)"
proof (induction rs arbitrary: lines)
  case (Cons r rs)
  obtain s n seg where r: "r = (s, n, seg)" by (cases r)
  show ?case by (cases "insert_lines s seg (remove_lines s n lines)") (simp_all add: r Cons)
qed simp

text \<open>Replacements in order and apart, from a position on; and what they make of the lines.\<close>

fun ordered_from :: "nat \<Rightarrow> replacement list \<Rightarrow> nat \<Rightarrow> bool" where
  "ordered_from k [] len \<longleftrightarrow> k \<le> len"
| "ordered_from k ((s, n, _) # rs) len \<longleftrightarrow> k \<le> s \<and> ordered_from (s + n) rs len"

fun splice :: "nat \<Rightarrow> replacement list \<Rightarrow> str list \<Rightarrow> str list" where
  "splice k [] rest = rest"
| "splice k ((s, n, seg) # rs) rest = take (s - k) rest @ seg @ splice (s + n) rs (drop (s + n - k) rest)"

lemma ordered_from_le: "ordered_from k rs len \<Longrightarrow> k \<le> len"
  by (induction k rs len rule: ordered_from.induct) auto

lemma apply_ordered:
  "ordered_from k rs (length lines) \<Longrightarrow>
    apply_replacements lines rs = Some (take k lines @ splice k rs (drop k lines))"
proof (induction rs arbitrary: k)
  case (Cons r rs)
  obtain s n seg where r: "r = (s, n, seg)" by (cases r)
  have o: "k \<le> s" "ordered_from (s + n) rs (length lines)" using Cons.prems by (simp_all add: r)
  have l: "s + n \<le> length lines" using ordered_from_le [OF o(2)] .
  have "apply_replacements lines (r # rs) = Option.bind (apply_replacements lines rs) (apply_from_end [r])"
    by (simp add: apply_replacements_def apply_from_end_append)
  also have "\<dots> = Some (take s lines @ seg @ splice (s + n) rs (drop (s + n) lines))"
    using l by (simp add: Cons.IH [OF o(2)] r replace_once min_def)
  also have "take s lines = take k lines @ take (s - k) (drop k lines)"
    using take_add [of k "s - k" lines] o(1) by simp
  finally show ?case using o(1) by (simp add: r)
qed (simp add: apply_replacements_def)

lemma apply_total:
  assumes "sorted (map fst rs)" and "list_all (\<lambda>r. fst r \<le> length lines) rs"
  shows "\<exists>out. apply_replacements lines rs = Some out \<and> (rs \<noteq> [] \<longrightarrow> fst (hd rs) \<le> length out)"
  using assms
proof (induction rs)
  case (Cons r rs)
  obtain s n seg where r: "r = (s, n, seg)" by (cases r)
  obtain out where out: "apply_replacements lines rs = Some out" "rs \<noteq> [] \<longrightarrow> fst (hd rs) \<le> length out"
    using Cons by auto
  have "s \<le> length out"
  proof (cases rs)
    case Nil
    then show ?thesis using out(1) Cons.prems by (simp add: apply_replacements_def r)
  next
    case (Cons q qs)
    then show ?thesis using out(2) Cons.prems(1) by (auto simp: r)
  qed
  then show ?case using out(1) replace_once [of s out seg n]
    by (simp add: apply_replacements_def apply_from_end_append r)
qed (simp add: apply_replacements_def)

lemma collect_starts:
  "line_index \<le> length lines \<Longrightarrow> collect_replacements lines path line_index chunks = Inr rs \<Longrightarrow>
    list_all (\<lambda>r. fst r \<le> length lines) rs"
proof (induction chunks arbitrary: line_index rs)
  case (Cons c cs)
  from Cons.prems(2) obtain k where k: "(case change_context c of None \<Rightarrow> Inr line_index
        | Some ctx \<Rightarrow> (case seek_sequence lines [ctx] line_index False of Some i \<Rightarrow> Inr (Suc i)
             | None \<Rightarrow> Inl (''Failed to find context '' @ quoted ctx @ '' in '' @ path))) = Inr k"
    by (auto simp: and_then_eq_Inr)
  have kl: "k \<le> length lines"
    using k Cons.prems(1) seek_sequence_bound [of lines _ line_index False]
    by (fastforce split: option.splits)
  show ?case
  proof (cases "old_lines c = []")
    case True
    then show ?thesis using Cons.prems(2) k Cons.IH [OF kl] by (auto simp: and_then_eq_Inr)
  next
    case False
    then obtain i n seg where loc: "locate_chunk lines k c = Some (i, n, seg)"
      using Cons.prems(2) k by (cases "locate_chunk lines k c") (auto simp: and_then_eq_Inr)
    have "i + n \<le> length lines"
      using locate_bound [OF loc kl] .
    then show ?thesis using Cons.prems(2) k False loc Cons.IH [of "i + n"] by (auto simp: and_then_eq_Inr)
  qed
qed simp

text \<open>Whatever the patch and the file, applying the replacements never runs past the end of the
  vector of lines: the update ends with new contents or with an error of the patch, never with a
  panic.\<close>

lemma update_total: "update_contents path contents chunks \<noteq> Inr None"
proof -
  have "apply_replacements (file_lines contents) (sort_key fst rs) \<noteq> None"
    if "collect_replacements (file_lines contents) path 0 chunks = Inr rs" for rs
    using apply_total [of "sort_key fst rs" "file_lines contents"] collect_starts [OF _ that]
    by (auto simp: list_all_iff)
  then show ?thesis
    by (auto simp: update_contents_def compute_replacements_def Let_def and_then_eq_Inr)
qed

section \<open>Ordinary chunks\<close>

text \<open>A chunk is ordinary when it replaces something and is not pinned to the end of the file.\<close>

definition ordinary :: "UpdateFileChunk \<Rightarrow> bool" where
  "ordinary c \<longleftrightarrow> old_lines c \<noteq> [] \<and> \<not> is_end_of_file c"

text \<open>A replacement stands for a chunk: it replaces lines that match the chunk's old lines (or those
  without a final empty line, when only they match) by its new lines.\<close>

definition realizes :: "str list \<Rightarrow> UpdateFileChunk \<Rightarrow> replacement \<Rightarrow> bool" where
  "realizes lines c = (\<lambda>(i, n, seg).
     (n = length (old_lines c) \<and> seg = new_lines c \<and> line_matches lines (old_lines c) i)
     \<or> (ends_empty (old_lines c) \<and> Suc n = length (old_lines c)
        \<and> seg = (if ends_empty (new_lines c) then butlast (new_lines c) else new_lines c)
        \<and> (n = 0 \<or> line_matches lines (butlast (old_lines c)) i)))"

lemma locate_realizes:
  assumes "locate_chunk lines k c = Some (i, n, seg)" and "ordinary c"
  shows "realizes lines c (i, n, seg)" and "k \<le> i"
proof -
  have o: "old_lines c \<noteq> []" "is_end_of_file c = False" using assms(2) by (simp_all add: ordinary_def)
  have "realizes lines c (i, n, seg) \<and> k \<le> i"
  proof (cases "seek_sequence lines (old_lines c) k False")
    case (Some j)
    then show ?thesis using assms(1) o seek_sequence_found [OF Some o(1)]
      by (auto simp: locate_chunk_def realizes_def)
  next
    case None
    then have e: "ends_empty (old_lines c)" using assms(1) o by (auto simp: locate_chunk_def split: if_splits)
    then obtain j where j: "seek_sequence lines (butlast (old_lines c)) k False = Some j"
      and r: "i = j" "n = length (butlast (old_lines c))"
        "seg = (if ends_empty (new_lines c) then butlast (new_lines c) else new_lines c)"
      using assms(1) o None by (auto simp: locate_chunk_def Let_def)
    have "Suc n = length (old_lines c)" using o(1) r(2) by simp
    moreover have "n = 0 \<or> line_matches lines (butlast (old_lines c)) i" "k \<le> i"
      using seek_sequence_found [OF j] r(1,2) j
      by (cases "butlast (old_lines c) = []"; simp add: seek_sequence_def)+
    ultimately show ?thesis using e r(3) by (auto simp: realizes_def)
  qed
  then show "realizes lines c (i, n, seg)" "k \<le> i" by auto
qed

lemma collect_ordered:
  assumes "list_all ordinary chunks" and "line_index \<le> length lines"
    and "collect_replacements lines path line_index chunks = Inr rs"
  shows "ordered_from line_index rs (length lines) \<and> list_all2 (realizes lines) chunks rs"
  using assms
proof (induction chunks arbitrary: line_index rs)
  case (Cons c cs)
  have o: "ordinary c" "old_lines c \<noteq> []" using Cons.prems(1) by (simp_all add: ordinary_def)
  from Cons.prems(3) obtain k where k: "(case change_context c of None \<Rightarrow> Inr line_index
        | Some ctx \<Rightarrow> (case seek_sequence lines [ctx] line_index False of Some i \<Rightarrow> Inr (Suc i)
             | None \<Rightarrow> Inl (''Failed to find context '' @ quoted ctx @ '' in '' @ path))) = Inr k"
    by (auto simp: and_then_eq_Inr)
  have kl: "line_index \<le> k \<and> k \<le> length lines"
  proof (cases "change_context c")
    case (Some ctx)
    then obtain i where i: "seek_sequence lines [ctx] line_index False = Some i" "k = Suc i"
      using k by (auto split: option.splits)
    show ?thesis using seek_sequence_found(2) [OF i(1)] seek_sequence_bound [OF i(1) Cons.prems(2)] i(2) by simp
  qed (use k Cons.prems(2) in simp)
  obtain i n seg where loc: "locate_chunk lines k c = Some (i, n, seg)"
    using Cons.prems(3) k o(2) by (cases "locate_chunk lines k c") (auto simp: and_then_eq_Inr)
  obtain qs where qs: "collect_replacements lines path (i + n) cs = Inr qs" "rs = (i, n, seg) # qs"
    using Cons.prems(3) k o(2) loc by (auto simp: and_then_eq_Inr)
  have "i + n \<le> length lines"
    using locate_bound [OF loc] kl by blast
  then show ?case
    using Cons.IH [OF _ _ qs(1)] Cons.prems(1) locate_realizes [OF loc o(1)] kl by (simp add: qs(2))
qed simp

lemma ordered_sorted: "ordered_from k rs len \<Longrightarrow> sorted (map fst rs) \<and> list_all (\<lambda>r. k \<le> fst r) rs"
proof (induction k rs len rule: ordered_from.induct)
  case (2 k s n seg rs len)
  then show ?case by (auto simp: list_all_iff)
qed simp

text \<open>C23: when every chunk replaces something and none is pinned to the end of the file, a successful
  update replaces, for each chunk in order, a stretch of lines that matches the chunk's old lines by
  its new lines; the stretches do not overlap and every other line of the file stays as it is.\<close>

theorem patch_replaces_only_matched_lines:
  assumes "list_all ordinary chunks" and "compute_replacements lines path chunks = Inr rs"
  shows "list_all2 (realizes lines) chunks rs \<and> ordered_from 0 rs (length lines)
    \<and> apply_replacements lines rs = Some (splice 0 rs lines)"
proof -
  obtain qs where qs: "collect_replacements lines path 0 chunks = Inr qs" "rs = sort_key fst qs"
    using assms(2) by (auto simp: compute_replacements_def and_then_eq_Inr)
  note c = collect_ordered [OF assms(1) _ qs(1)]
  have "sort_key fst qs = qs" using c ordered_sorted [of 0 qs "length lines"] by (simp add: sort_key_id_if_sorted)
  then show ?thesis using c qs(2) apply_ordered [of 0 rs lines] by simp
qed

definition edit_chunk :: "str list \<Rightarrow> str list \<Rightarrow> bool \<Rightarrow> UpdateFileChunk" where
  "edit_chunk old new eof =
     \<lparr>change_context = None, old_lines = old, new_lines = new, is_end_of_file = eof\<rparr>"

theorem patch_replaces_only_matched_lines_witness:
  "apply_replacements [''a'', ''b'', ''c''] [(1, 1, [''x'', ''y''])] =
     Some (splice 0 [(1, 1, [''x'', ''y''])] [''a'', ''b'', ''c''])
   \<and> splice 0 [(1, 1, [''x'', ''y''])] [''a'', ''b'', ''c''] = [''a'', ''x'', ''y'', ''c'']"
proof -
  have o: "list_all ordinary [edit_chunk [''b''] [''x'', ''y''] False]"
    by (simp add: ordinary_def edit_chunk_def)
  have r: "compute_replacements [''a'', ''b'', ''c''] path [edit_chunk [''b''] [''x'', ''y''] False] =
      Inr [(1, 1, [''x'', ''y''])]" for path
    by (simp add: compute_replacements_def edit_chunk_def locate_chunk_def seek_sequence_def Let_def upt_rec)
  show ?thesis using patch_replaces_only_matched_lines [OF o r] by simp
qed

text \<open>A chunk pinned to the end of the file is searched from the last possible place on, even when
  an earlier chunk has already replaced those lines: the two replacements overlap, the change of the
  later chunk is lost, and the update still succeeds.\<close>

lemma end_of_file_chunk_is_lost:
  "compute_replacements [''a'', ''b''] path [edit_chunk [''b''] [''c''] False, edit_chunk [''b''] [''d''] True] =
     Inr [(1, 1, [''c'']), (1, 1, [''d''])]
   \<and> apply_replacements [''a'', ''b''] [(1, 1, [''c'']), (1, 1, [''d''])] = Some [''a'', ''c'']"
  by (simp add: compute_replacements_def edit_chunk_def locate_chunk_def seek_sequence_def Let_def upt_rec
      apply_replacements_def numeral_eq_Suc)

section \<open>Executing a patch\<close>

datatype change_tag = Delete | Insert | Equal

fun summary_lines :: "nat \<Rightarrow> nat \<Rightarrow> nat \<Rightarrow> (change_tag \<times> str) list \<Rightarrow> str" where
  "summary_lines line_count old_line new_line [] = []"
| "summary_lines line_count old_line new_line ((tag, v) # cs) =
     (if 30 \<le> line_count then ''... (diff truncated)'' @ nl
      else let content = trim_end_matches (CHR 0x0A) v in
        case tag of
          Delete \<Rightarrow>
            if trim content = [] then summary_lines line_count (Suc old_line) new_line cs
            else show_nat old_line @ ''- '' @ content @ nl
              @ summary_lines (Suc line_count) (Suc old_line) new_line cs
        | Insert \<Rightarrow>
            if trim content = [] then summary_lines line_count old_line (Suc new_line) cs
            else show_nat new_line @ ''+ '' @ content @ nl
              @ summary_lines (Suc line_count) old_line (Suc new_line) cs
        | Equal \<Rightarrow> summary_lines line_count (Suc old_line) (Suc new_line) cs)"

definition generate_diff_summary :: "(str \<Rightarrow> str \<Rightarrow> (change_tag \<times> str) list) \<Rightarrow> str \<Rightarrow> str \<Rightarrow> str" where
  "generate_diff_summary diff old new = trim_end (summary_lines 0 1 1 (diff old new))"

definition FILE_TOUCH_PREVIEW_MAX_LINES :: nat where "FILE_TOUCH_PREVIEW_MAX_LINES = 6"

definition FILE_TOUCH_PREVIEW_MAX_BYTES :: nat where "FILE_TOUCH_PREVIEW_MAX_BYTES = 240"

definition truncate_str :: "str \<Rightarrow> nat \<Rightarrow> str" where
  "truncate_str s max_bytes = (if length s \<le> max_bytes then s else take (boundary_before s max_bytes) s)"

definition build_file_touch_preview :: "str \<Rightarrow> str option" where
  "build_file_touch_preview diff =
     (let trimmed = trim diff in
      if trimmed = [] then None
      else let lines = str_lines trimmed;
               preview = join nl (take FILE_TOUCH_PREVIEW_MAX_LINES lines);
               cut = FILE_TOUCH_PREVIEW_MAX_BYTES < length preview;
               shown = (if cut then trim_end (truncate_str preview FILE_TOUCH_PREVIEW_MAX_BYTES) else preview)
           in Some (shown @ (if FILE_TOUCH_PREVIEW_MAX_LINES < length lines \<or> cut
                             then nl @ [CHR 0xE2, CHR 0x80, CHR 0xA6] else [])))"

datatype FileOp = OpRead | OpWrite | OpEdit

record FileTouch =
  touch_session :: str
  touch_path :: str
  touch_op :: FileOp
  touch_intent :: "str option"
  touch_summary :: "str option"
  touch_detail :: "str option"

definition file_touch :: "str \<Rightarrow> str \<Rightarrow> str \<Rightarrow> str \<Rightarrow> str option \<Rightarrow> FileTouch" where
  "file_touch session resolved verb diff intent =
     \<lparr>touch_session = session, touch_path = resolved, touch_op = OpEdit,
      touch_intent = (case map_option trim intent of Some [] \<Rightarrow> None | other \<Rightarrow> other),
      touch_summary = Some (verb @ '' via apply_patch''), touch_detail = build_file_touch_preview diff\<rparr>"

text \<open>What the tool relies on: how paths resolve, which writes (with the directories they need) and
  removals succeed, the line changes between two texts, and how a failure is worded.\<close>

record patch_env =
  resolve :: "str \<Rightarrow> str"
  writable :: "str \<Rightarrow> bool"
  removable :: "str \<Rightarrow> bool"
  text_diff :: "str \<Rightarrow> str \<Rightarrow> (change_tag \<times> str) list"
  io_error :: "str \<Rightarrow> str"
  patch_session :: str
  patch_intent :: "str option"

record patch_state =
  disk :: "str \<rightharpoonup> str"
  results :: "str list"
  touched_paths :: "str list"
  touches :: "FileTouch list"

datatype patch_stop = Failed str | Panicked

definition check_mark :: str where "check_mark = [CHR 0xE2, CHR 0x9C, CHR 0x93]"

definition cross_mark :: str where "cross_mark = [CHR 0xE2, CHR 0x9C, CHR 0x97]"

definition success_line :: "str \<Rightarrow> str \<Rightarrow> str \<Rightarrow> str" where
  "success_line path what diff =
     check_mark @ '' '' @ path @ '': '' @ what @ (if diff = [] then [] else nl @ diff)"

definition failure_line :: "str \<Rightarrow> str \<Rightarrow> patch_state \<Rightarrow> patch_state" where
  "failure_line path what s = s\<lparr>results := results s @ [cross_mark @ '' '' @ path @ '': '' @ what]\<rparr>"

definition log_change :: "patch_env \<Rightarrow> str list \<Rightarrow> str \<Rightarrow> str \<Rightarrow> str \<Rightarrow> patch_state \<Rightarrow> patch_state" where
  "log_change env paths verb what diff s =
     s\<lparr>touches := touches s @ map (\<lambda>p. file_touch (patch_session env) (resolve env p) verb diff (patch_intent env)) paths,
       touched_paths := touched_paths s @ paths,
       results := results s @ [success_line (hd paths) what diff]\<rparr>"

text \<open>Writing and removing; a failing write ends the call with \<open>?\<close>, and what earlier hunks wrote
  stays on the disk, so the error carries the state.\<close>

definition write_file :: "patch_env \<Rightarrow> str \<Rightarrow> str \<Rightarrow> patch_state \<Rightarrow> (patch_stop \<times> patch_state, patch_state) result" where
  "write_file env r contents s =
     (if writable env r then Inr (s\<lparr>disk := (disk s)(r \<mapsto> contents)\<rparr>) else Inl (Failed (io_error env r), s))"

definition remove_file :: "patch_env \<Rightarrow> str \<Rightarrow> patch_state \<Rightarrow> patch_state option" where
  "remove_file env r s =
     (if disk s r \<noteq> None \<and> removable env r then Some (s\<lparr>disk := (disk s)(r := None)\<rparr>) else None)"

definition apply_update_chunks :: "patch_env \<Rightarrow> str \<Rightarrow> UpdateFileChunk list \<Rightarrow> patch_state
    \<Rightarrow> (str, str \<times> str option) result" where
  "apply_update_chunks env r chunks s =
     (case disk s r of
        None \<Rightarrow> Inl (io_error env r)
      | Some old \<Rightarrow> and_then (update_contents r old chunks) (\<lambda>new. Inr (old, new)))"

definition run_hunk :: "patch_env \<Rightarrow> PatchHunk \<Rightarrow> patch_state \<Rightarrow> (patch_stop \<times> patch_state, patch_state) result" where
  "run_hunk env h s =
     (case h of
        AddFile path contents \<Rightarrow>
          and_then (write_file env (resolve env path) contents s) (\<lambda>s.
            Inr (log_change env [path] ''created'' ''created''
              (generate_diff_summary (text_diff env) [] contents) s))
      | DeleteFile path \<Rightarrow>
          (let r = resolve env path; old = (case disk s r of Some c \<Rightarrow> c | None \<Rightarrow> []) in
           case remove_file env r s of
             Some s \<Rightarrow>
               Inr (log_change env [path] ''deleted'' ''deleted'' (generate_diff_summary (text_diff env) old []) s)
           | None \<Rightarrow> Inr (failure_line path ''failed to delete'' s))
      | UpdateFile path move_to chunks \<Rightarrow>
          (let r = resolve env path;
               what = ''modified ('' @ show_nat (length chunks) @ '' hunks)''
           in case apply_update_chunks env r chunks s of
                Inl e \<Rightarrow> Inr (failure_line path e s)
              | Inr (old, None) \<Rightarrow> Inl (Panicked, s)
              | Inr (old, Some new) \<Rightarrow>
                  (let diff = generate_diff_summary (text_diff env) old new in
                   case move_to of
                     None \<Rightarrow>
                       and_then (write_file env r new s) (\<lambda>s.
                         Inr (log_change env [path] ''modified'' what diff s))
                   | Some dest \<Rightarrow>
                       and_then (write_file env (resolve env dest) new s) (\<lambda>s.
                         Inr (log_change env [path, dest] ''modified'' (what @ '', moved to '' @ dest) diff
                           (case remove_file env r s of Some t \<Rightarrow> t | None \<Rightarrow> s))))))"

definition patch_output :: "patch_state \<Rightarrow> str \<times> str option" where
  "patch_output s =
     (if results s = [] then (''No changes applied'', None)
      else (join nl (results s),
        Some (case touched_paths s of [p] \<Rightarrow> p | ps \<Rightarrow> show_nat (length ps) @ '' files'')))"

definition execute_patch :: "patch_env \<Rightarrow> str \<Rightarrow> (str \<rightharpoonup> str)
    \<Rightarrow> (patch_stop \<times> patch_state, patch_state) result" where
  "execute_patch env patch_text fs =
     (let s = \<lparr>disk = fs, results = [], touched_paths = [], touches = []\<rparr> in
      case parse_apply_patch patch_text of
        Inl e \<Rightarrow> Inl (Failed e, s)
      | Inr hunks \<Rightarrow> try_fold (run_hunk env) hunks s)"

section \<open>A patch touches only the files it names\<close>

fun named_paths :: "PatchHunk \<Rightarrow> str list" where
  "named_paths (AddFile p _) = [p]"
| "named_paths (DeleteFile p) = [p]"
| "named_paths (UpdateFile p m _) = p # (case m of Some d \<Rightarrow> [d] | None \<Rightarrow> [])"

text \<open>The state a call ends in, whether it returned or stopped at an error.\<close>

fun final_state :: "(patch_stop \<times> patch_state, patch_state) result \<Rightarrow> patch_state" where
  "final_state (Inl (e, s)) = s"
| "final_state (Inr s) = s"

text \<open>What a run over some hunks keeps: changed files are among the touched ones, each touched path
  has been published, and only named paths are touched.\<close>

definition accounted :: "patch_env \<Rightarrow> (str \<rightharpoonup> str) \<Rightarrow> str set \<Rightarrow> patch_state \<Rightarrow> bool" where
  "accounted env fs named s \<longleftrightarrow>
     (\<forall>p. disk s p \<noteq> fs p \<longrightarrow> p \<in> resolve env ` set (touched_paths s))
     \<and> map touch_path (touches s) = map (resolve env) (touched_paths s)
     \<and> set (touched_paths s) \<subseteq> named"

lemmas hunk_ops = run_hunk_def write_file_def remove_file_def log_change_def failure_line_def
  file_touch_def

lemma run_hunk_accounted:
  assumes "accounted env fs named s" "set (named_paths h) \<subseteq> named"
  shows "accounted env fs named (final_state (run_hunk env h s))"
  using assms
  by (cases h) (auto simp: accounted_def hunk_ops comp_def Let_def
      split: option.splits if_splits sum.splits prod.splits)

lemma run_hunk_continues:
  assumes "run_hunk env h s = Inr t"
  shows "length (results t) = Suc (length (results s))"
  using assms
  by (cases h) (auto simp: hunk_ops Let_def and_then_eq_Inr split: option.splits if_splits sum.splits prod.splits)

lemma run_hunk_stops:
  assumes "run_hunk env h s = Inl (e, t)"
  shows "t = s" and "e \<noteq> Panicked"
  using assms update_total
  by (cases h; auto simp: hunk_ops apply_update_chunks_def Let_def and_then_eq_Inl and_then_eq_Inr
      split: option.splits if_splits sum.splits prod.splits)+

lemma run_hunks_accounted:
  assumes "accounted env fs named s" "\<Union> (set ` named_paths ` set hs) \<subseteq> named"
  shows "accounted env fs named (final_state (try_fold (run_hunk env) hs s))"
  using assms
proof (induction hs arbitrary: s)
  case (Cons h hs)
  then have step: "accounted env fs named (final_state (run_hunk env h s))"
    by (auto intro!: run_hunk_accounted)
  show ?case
    using step Cons by (cases "run_hunk env h s") auto
qed simp

lemma run_hunks_never_panic: "try_fold (run_hunk env) hs s \<noteq> Inl (Panicked, t)"
proof (induction hs arbitrary: s)
  case (Cons h hs)
  then show ?case using run_hunk_stops(2) [of env h s] by (auto simp: and_then_eq_Inl)
qed simp


text \<open>An update moved onto its own path is written and then removed: the file is gone, while the
  result reports a successful modification.\<close>

lemma move_onto_itself_deletes:
  assumes "writable env (resolve env p)" "removable env (resolve env p)"
    and "apply_update_chunks env (resolve env p) chunks s = Inr (old, Some new)"
    and "run_hunk env (UpdateFile p (Some p) chunks) s = Inr t"
  shows "disk t (resolve env p) = None"
  using assms by (auto simp: hunk_ops Let_def)

end
