(* ===== verification/Edit_Tool.thy ===== *)
theory Edit_Tool
  imports Apply_Patch
begin

text \<open>
  The tools that replace text in a file (\<^verbatim>\<open>src/crates/jcode-app-core/src/tool/edit.rs\<close> and
  \<^verbatim>\<open>multiedit.rs\<close>): counting the matches, replacing one or all of them, the line numbers and the
  context shown to the model, the diagnosis of a text that is not found, and the effect on the
  file. As for patches the file system is a map from resolved paths to contents, and the line
  diff, path resolution and which reads and writes succeed are arguments. A slice or a window that
  would panic is the value \<open>None\<close>.
\<close>

section \<open>Matches\<close>

text \<open>The pieces of a text between the non-overlapping matches of a pattern, from the left; the empty
  pattern matches at every boundary of a character. \<open>matches(p).count()\<close> is one less than their
  number, \<open>replace\<close> joins them with the new text.\<close>

function pieces_from :: "str \<Rightarrow> str \<Rightarrow> str list" where
  "pieces_from pat s =
     (case find_str pat s of
        None \<Rightarrow> [s]
      | Some i \<Rightarrow> if pat = [] then [s] else take i s # pieces_from pat (drop (i + length pat) s))"
  by pat_completeness auto
termination
proof (relation "measure (length \<circ> snd)", goal_cases)
  case (2 pat s i)
  then have "i + length pat \<le> length s" "0 < length pat" using find_str_Some by auto
  then have "length s - (i + length pat) < length s" by linarith
  then show ?case by simp
qed simp

declare pieces_from.simps [simp del]

definition match_pieces :: "str \<Rightarrow> str \<Rightarrow> str list" where
  "match_pieces pat s = (if pat = [] then [] # chars s @ [[]] else pieces_from pat s)"

definition match_count :: "str \<Rightarrow> str \<Rightarrow> nat" where
  "match_count pat s = length (match_pieces pat s) - 1"

definition replace_str :: "str \<Rightarrow> str \<Rightarrow> str \<Rightarrow> str" where
  "replace_str from to s = join to (match_pieces from s)"

definition replace_first :: "str \<Rightarrow> str \<Rightarrow> str \<Rightarrow> str" where
  "replace_first from to s =
     (case find_str from s of None \<Rightarrow> s | Some i \<Rightarrow> take i s @ to @ drop (i + length from) s)"

section \<open>Line numbers, diff and context\<close>

definition find_line_number :: "str \<Rightarrow> str \<Rightarrow> nat" where
  "find_line_number content pat =
     (case find_str pat content of Some pos \<Rightarrow> length (str_lines (take pos content)) + 1 | None \<Rightarrow> 1)"

fun diff_lines :: "nat \<Rightarrow> nat \<Rightarrow> (change_tag \<times> str) list \<Rightarrow> str" where
  "diff_lines old_line new_line [] = []"
| "diff_lines old_line new_line ((tag, v) # cs) =
     (let content = trim v in
      case tag of
        Delete \<Rightarrow>
          (if content = [] then [] else show_nat old_line @ ''- '' @ content @ nl)
          @ diff_lines (Suc old_line) new_line cs
      | Insert \<Rightarrow>
          (if content = [] then [] else show_nat new_line @ ''+ '' @ content @ nl)
          @ diff_lines old_line (Suc new_line) cs
      | Equal \<Rightarrow> diff_lines (Suc old_line) (Suc new_line) cs)"

definition generate_diff :: "(str \<Rightarrow> str \<Rightarrow> (change_tag \<times> str) list) \<Rightarrow> str \<Rightarrow> str \<Rightarrow> nat \<Rightarrow> str" where
  "generate_diff diff old new start_line = trim_end (diff_lines start_line start_line (diff old new))"

text \<open>One line of context, \<open>{:>4}| {}\<close> with a box-drawing bar.\<close>

definition numbered_line :: "nat \<times> str \<Rightarrow> str" where
  "numbered_line = (\<lambda>(n, l). (let d = show_nat n in
     replicate (4 - length d) (CHR '' '') @ d @ [CHR 0xE2, CHR 0x94, CHR 0x82] @ '' '' @ l))"

definition extract_context :: "str \<Rightarrow> nat \<Rightarrow> nat \<Rightarrow> nat \<Rightarrow> (nat \<times> nat \<times> str) option" where
  "extract_context content edit_start edit_end padding =
     (let lines = str_lines content;
          start = edit_start - (padding + 1);
          stop = min (edit_end + padding) (length lines)
      in if start \<le> stop
         then Some (start + 1, stop,
           join nl (map numbered_line (enumerate (start + 1) (take (stop - start) (drop start lines)))))
         else None)"

section \<open>A text that is not found\<close>

text \<open>\<open>windows(n)\<close> panics for \<open>n = 0\<close>.\<close>

definition windows :: "nat \<Rightarrow> 'a list \<Rightarrow> 'a list list option" where
  "windows n xs =
     (if n = 0 then None else Some (map (\<lambda>i. take n (drop i xs)) [0..<Suc (length xs) - n]))"

definition lines_alike :: "str list \<Rightarrow> str list \<Rightarrow> bool" where
  "lines_alike window olds = list_all (\<lambda>(a, b). trim a = trim b) (zip window olds)"

definition try_flexible_match :: "str \<Rightarrow> str \<Rightarrow> str \<Rightarrow> str option" where
  "try_flexible_match content old file_path =
     (let trimmed = trim old in
      if contains_str content trimmed \<and> trimmed \<noteq> old
      then Some (''old_string not found exactly, but found after trimming whitespace.'' @ nl
        @ ''Try using the exact string from the file, including leading/trailing whitespace.'')
      else let olds = str_lines old in
        map_option (\<lambda>ws.
          case find (\<lambda>(i, w). lines_alike w olds) (enumerate 0 ws) of
            Some (i, _) \<Rightarrow>
              ''old_string not found exactly, but found with different indentation around line ''
              @ show_nat (i + 1) @ ''.'' @ nl @ ''Make sure to preserve the exact whitespace from the file.''
          | None \<Rightarrow>
              ''old_string not found in '' @ file_path @ ''.'' @ nl
              @ ''Use the read tool to see the current file contents.'')
          (windows (length olds) (str_lines content)))"

section \<open>The edit tool\<close>

record EditInput =
  edit_intent :: "str option"
  edit_path :: str
  old_string :: str
  new_string :: str
  replace_all :: bool

record edit_env =
  edit_resolve :: "str \<Rightarrow> str"
  can_read :: "str \<Rightarrow> bool"
  can_write :: "str \<Rightarrow> bool"
  line_diff :: "str \<Rightarrow> str \<Rightarrow> (change_tag \<times> str) list"
  edit_io_error :: "str \<Rightarrow> str"
  edit_session :: str

record edit_state =
  edit_disk :: "str \<rightharpoonup> str"
  edit_touches :: "FileTouch list"

definition ambiguous_text :: "nat \<Rightarrow> str" where
  "ambiguous_text n =
     ''old_string found '' @ show_nat n @ '' times in the file. Either:'' @ nl
     @ ''1. Provide more context to make it unique, or'' @ nl
     @ ''2. Set replace_all: true to replace all occurrences''"

definition edited_content :: "bool \<Rightarrow> str \<Rightarrow> str \<Rightarrow> str \<Rightarrow> str" where
  "edited_content every old new content =
     (if every then replace_str old new content else replace_first old new content)"

definition edit_touch :: "edit_env \<Rightarrow> EditInput \<Rightarrow> nat \<Rightarrow> nat \<Rightarrow> nat \<Rightarrow> str \<Rightarrow> FileTouch" where
  "edit_touch env inp start_line end_line occurrences diff =
     \<lparr>touch_session = edit_session env, touch_path = edit_resolve env (edit_path inp), touch_op = OpEdit,
      touch_intent = (case edit_intent inp of Some v \<Rightarrow> if trim v = [] then None else Some v | None \<Rightarrow> None),
      touch_summary = Some (''edited lines '' @ show_nat start_line @ ''-'' @ show_nat end_line
        @ '' ('' @ show_nat occurrences @ '' occurrence'' @ (if occurrences = 1 then [] else ''s'') @ '')''),
      touch_detail = build_file_touch_preview diff\<rparr>"

definition edit_report :: "EditInput \<Rightarrow> nat \<Rightarrow> str \<Rightarrow> nat \<times> nat \<times> str \<Rightarrow> str" where
  "edit_report inp occurrences diff = (\<lambda>(first, final, shown).
     ''Edited '' @ edit_path inp @ '': replaced '' @ show_nat occurrences @ '' occurrence(s)'' @ nl @ diff @ nl @ nl
     @ ''Context after edit (lines '' @ show_nat first @ ''-'' @ show_nat final @ ''):'' @ nl @ shown)"

text \<open>From the accepted match on: write, publish, and render the answer.\<close>

definition perform_edit :: "edit_env \<Rightarrow> EditInput \<Rightarrow> str \<Rightarrow> nat \<Rightarrow> edit_state
    \<Rightarrow> (patch_stop, str) result \<times> edit_state" where
  "perform_edit env inp content occurrences s =
     (let r = edit_resolve env (edit_path inp);
          new_content = edited_content (replace_all inp) (old_string inp) (new_string inp) content;
          start_line = find_line_number content (old_string inp)
      in if \<not> can_write env r then (Inl (Failed (edit_io_error env r)), s)
         else let diff = generate_diff (line_diff env) (old_string inp) (new_string inp) start_line;
                  end_line = start_line + (length (str_lines (new_string inp)) - 1);
                  s = s\<lparr>edit_disk := (edit_disk s)(r \<mapsto> new_content),
                        edit_touches := edit_touches s @ [edit_touch env inp start_line end_line occurrences diff]\<rparr>
              in case extract_context new_content start_line end_line 3 of
                   None \<Rightarrow> (Inl Panicked, s)
                 | Some c \<Rightarrow> (Inr (edit_report inp occurrences diff c), s))"

definition execute_edit :: "edit_env \<Rightarrow> EditInput \<Rightarrow> edit_state \<Rightarrow> (patch_stop, str) result \<times> edit_state" where
  "execute_edit env inp s =
     (let r = edit_resolve env (edit_path inp) in
      if old_string inp = new_string inp
      then (Inl (Failed ''old_string and new_string must be different''), s)
      else case edit_disk s r of
        None \<Rightarrow> (Inl (Failed (''File not found: '' @ edit_path inp)), s)
      | Some content \<Rightarrow>
          if \<not> can_read env r then (Inl (Failed (edit_io_error env r)), s)
          else let occurrences = match_count (old_string inp) content in
            if occurrences = 0
            then ((case try_flexible_match content (old_string inp) (edit_path inp) of
                     None \<Rightarrow> Inl Panicked | Some e \<Rightarrow> Inl (Failed e)), s)
            else if 1 < occurrences \<and> \<not> replace_all inp
            then (Inl (Failed (ambiguous_text occurrences)), s)
            else perform_edit env inp content occurrences s)"

section \<open>The multi-edit tool\<close>

record EditOperation =
  op_old :: str
  op_new :: str
  op_all :: bool

record multi_state =
  multi_content :: str
  applied :: "str list"
  failed :: "str list"

definition edit_label :: "nat \<Rightarrow> str \<Rightarrow> str" where
  "edit_label i what = ''Edit '' @ show_nat (i + 1) @ '': '' @ what"

definition apply_operation :: "nat \<Rightarrow> EditOperation \<Rightarrow> multi_state \<Rightarrow> multi_state" where
  "apply_operation i e s =
     (let occurrences = match_count (op_old e) (multi_content s);
          failing = (\<lambda>what. s\<lparr>failed := failed s @ [edit_label i what]\<rparr>)
      in if op_old e = op_new e then failing ''old_string equals new_string''
         else if occurrences = 0 then failing ''old_string not found''
         else if 1 < occurrences \<and> \<not> op_all e
         then failing (''found '' @ show_nat occurrences @ '' occurrences, use replace_all or be more specific'')
         else s\<lparr>multi_content := edited_content (op_all e) (op_old e) (op_new e) (multi_content s),
                applied := applied s @ [edit_label i
                  (if op_all e then ''replaced '' @ show_nat occurrences @ '' occurrences''
                   else ''replaced 1 occurrence'')]\<rparr>)"

fun apply_operations :: "nat \<Rightarrow> EditOperation list \<Rightarrow> multi_state \<Rightarrow> multi_state" where
  "apply_operations i [] s = s"
| "apply_operations i (e # es) s = apply_operations (Suc i) es (apply_operation i e s)"

fun multi_diff_lines :: "nat \<Rightarrow> nat \<Rightarrow> nat \<Rightarrow> (change_tag \<times> str) list \<Rightarrow> str" where
  "multi_diff_lines shown old_line new_line [] = []"
| "multi_diff_lines shown old_line new_line ((tag, v) # cs) =
     (let content = trim v;
          old_next = (if tag = Insert then old_line else Suc old_line);
          new_next = (if tag = Delete then new_line else Suc new_line)
      in if tag = Equal \<or> content = [] then multi_diff_lines shown old_next new_next cs
         else if 30 \<le> shown then ''...'' @ nl
         else (if tag = Delete then show_nat old_line @ ''- '' else show_nat new_line @ ''+ '') @ content @ nl
              @ multi_diff_lines (Suc shown) old_next new_next cs)"

definition multi_report :: "edit_env \<Rightarrow> str \<Rightarrow> str \<Rightarrow> multi_state \<Rightarrow> str" where
  "multi_report env file_path original s =
     ''Edited '' @ file_path @ nl @ nl
     @ (if applied s = [] then []
        else ''Applied:'' @ nl @ concat (map (\<lambda>msg. ''  '' @ check_mark @ '' '' @ msg @ nl) (applied s)))
     @ (if failed s = [] then []
        else nl @ ''Failed:'' @ nl @ concat (map (\<lambda>msg. ''  '' @ cross_mark @ '' '' @ msg @ nl) (failed s)))
     @ nl @ ''Total: '' @ show_nat (length (applied s)) @ '' applied, ''
     @ show_nat (length (failed s)) @ '' failed'' @ nl
     @ (if applied s = [] then []
        else nl @ ''Diff:'' @ nl @ multi_diff_lines 0 1 1 (line_diff env original (multi_content s)))"

definition execute_multiedit :: "edit_env \<Rightarrow> str \<Rightarrow> EditOperation list \<Rightarrow> (str \<rightharpoonup> str)
    \<Rightarrow> (patch_stop, str) result \<times> (str \<rightharpoonup> str)" where
  "execute_multiedit env file_path edits fs =
     (let r = edit_resolve env file_path in
      case fs r of
        None \<Rightarrow> (Inl (Failed (''File not found: '' @ file_path)), fs)
      | Some original \<Rightarrow>
          if \<not> can_read env r then (Inl (Failed (edit_io_error env r)), fs)
          else let s = apply_operations 0 edits \<lparr>multi_content = original, applied = [], failed = []\<rparr> in
            if \<not> can_write env r then (Inl (Failed (edit_io_error env r)), fs)
            else (Inr (multi_report env file_path original s), fs(r \<mapsto> multi_content s)))"

section \<open>Pieces and matches\<close>

lemma find_str_split: "find_str pat s = Some i \<Longrightarrow> s = take i s @ pat @ drop (i + length pat) s"
  using find_str_Some [of pat s i]
  by (metis append_eq_conv_conj append_take_drop_id drop_drop prefix_def add.commute)

lemma pieces_from_nonempty: "pieces_from pat s \<noteq> []"
  by (subst pieces_from.simps) (simp split: option.split)

lemma join_Cons: "xs \<noteq> [] \<Longrightarrow> join sep (x # xs) = x @ sep @ join sep xs"
  by (cases xs) simp_all

lemma join_pieces_from: "join pat (pieces_from pat s) = s"
proof (induction pat s rule: pieces_from.induct)
  case (1 pat s)
  show ?case
  proof (cases "find_str pat s")
    case None
    then show ?thesis by (subst pieces_from.simps) simp
  next
    case (Some i)
    show ?thesis
    proof (cases "pat = []")
      case False
      then have "join pat (pieces_from pat s) = take i s @ pat @ drop (i + length pat) s"
        using 1 Some by (subst pieces_from.simps) (simp add: join_Cons pieces_from_nonempty)
      then show ?thesis using find_str_split [OF Some] by simp
    qed (subst pieces_from.simps, simp add: Some)
  qed
qed

lemma join_empty: "join [] xs = concat xs"
  by (induction "[] :: str" xs rule: join.induct) simp_all

lemma join_match_pieces: "join pat (match_pieces pat s) = s"
  by (simp add: match_pieces_def join_pieces_from join_empty)

lemma find_str_take: "find_str pat s = Some i \<Longrightarrow> pat \<noteq> [] \<Longrightarrow> \<not> contains_str (take i s) pat"
proof
  assume f: "find_str pat s = Some i" and ne: "pat \<noteq> []" and "contains_str (take i s) pat"
  then obtain j where "prefix pat (drop j (take i s))"
    using find_str_Some by (auto simp: contains_str_def)
  then have "prefix pat (drop j s)" "j < i"
    using ne by (auto simp: prefix_def drop_take)
      (metis append_take_drop_id append.assoc, metis append_is_Nil_conv diff_is_0_eq not_le_imp_less take_0)
  then show False using find_str_first [OF f] by blast
qed

lemma pieces_from_free: "pat \<noteq> [] \<Longrightarrow> list_all (\<lambda>p. \<not> contains_str p pat) (pieces_from pat s)"
proof (induction pat s rule: pieces_from.induct)
  case (1 pat s)
  show ?case
  proof (cases "find_str pat s")
    case None
    then show ?thesis by (subst pieces_from.simps) (simp add: contains_str_def)
  next
    case (Some i)
    then show ?thesis using 1 find_str_take [OF Some]
      by (subst pieces_from.simps) simp
  qed
qed

lemma match_pieces_free: "pat = [] \<or> list_all (\<lambda>p. \<not> contains_str p pat) (match_pieces pat s)"
  using pieces_from_free by (auto simp: match_pieces_def)

text \<open>Matches are counted as zero exactly when there is none.\<close>

lemma match_count_pos: "0 < match_count pat s \<longleftrightarrow> contains_str s pat"
proof (cases "pat = []")
  case True
  then show ?thesis by (simp add: match_count_def match_pieces_def contains_str_def)
next
  case False
  then show ?thesis
    using pieces_from_nonempty [of pat]
    by (subst match_count_def, subst match_pieces_def, subst pieces_from.simps)
      (auto simp: contains_str_def split: option.split)
qed

text \<open>The first piece ends where the first match begins.\<close>

lemma match_pieces_first:
  assumes "find_str pat s = Some i"
  shows "\<exists>rest. rest \<noteq> [] \<and> match_pieces pat s = take i s # rest
    \<and> (pat \<noteq> [] \<longrightarrow> rest = pieces_from pat (drop (i + length pat) s))"
proof (cases "pat = []")
  case True
  then show ?thesis using assms by (simp add: match_pieces_def)
next
  case False
  then show ?thesis using assms pieces_from_nonempty
    by (subst match_pieces_def, subst pieces_from.simps) auto
qed

lemma edited_content_pieces:
  assumes "match_count old content \<noteq> 0" and "every \<or> match_count old content = 1"
  shows "edited_content every old new content = join new (match_pieces old content)"
proof (cases every)
  case False
  obtain i where i: "find_str old content = Some i"
    using assms(1) match_count_pos [of old content] by (auto simp: contains_str_def)
  from match_pieces_first [OF i] obtain rest where
    ps: "match_pieces old content = take i content # rest" and ne: "rest \<noteq> []" by blast
  then obtain p where p: "rest = [p]"
    using False assms by (cases rest; cases "tl rest") (auto simp: match_count_def)
  have "content = take i content @ old @ p"
    using join_match_pieces [of old content] by (simp add: ps p)
  then have "p = drop (i + length old) content"
    using find_str_split [OF i] by (metis append_same_eq same_append_eq)
  then show ?thesis using False ps p i by (simp add: edited_content_def replace_first_def)
qed (simp add: edited_content_def replace_str_def)

section \<open>Lines\<close>

definition line_breaks :: "str \<Rightarrow> nat" where
  "line_breaks s = length (filter (\<lambda>c. c = CHR 0x0A) s)"

lemma length_lines_from:
  "length (lines_from acc s) =
     line_breaks s + (if acc @ s = [] \<or> s \<noteq> [] \<and> last s = CHR 0x0A then 0 else 1)"
  by (induction acc s rule: lines_from.induct) (auto simp: line_breaks_def)

lemma length_str_lines:
  "length (str_lines s) = line_breaks s + (if s = [] \<or> last s = CHR 0x0A then 0 else 1)"
  by (auto simp: str_lines_def length_lines_from)

lemma line_breaks_append: "line_breaks (a @ b) = line_breaks a + line_breaks b"
  by (simp add: line_breaks_def)

lemma str_lines_prefix_le: "length (str_lines a) \<le> length (str_lines (a @ b))"
proof (cases "b = []")
  case False
  then have "last b = CHR 0x0A \<Longrightarrow> 0 < line_breaks b"
    by (auto simp: line_breaks_def filter_empty_conv dest: last_in_set)
  then show ?thesis using False by (auto simp: length_str_lines line_breaks_append)
qed simp

lemma str_lines_nonempty: "s \<noteq> [] \<Longrightarrow> str_lines s \<noteq> []"
  using length_str_lines [of s]
  by (auto simp: line_breaks_def filter_empty_conv dest: last_in_set split: if_splits)

section \<open>Nothing panics\<close>

lemma context_after_edit:
  assumes "find_str old content = Some i" "new_content = take i content @ rest"
  shows "extract_context new_content (find_line_number content old) (find_line_number content old + n) 3 \<noteq> None"
  using str_lines_prefix_le [of "take i content" rest] assms
  by (auto simp: extract_context_def find_line_number_def Let_def)

lemma edited_content_prefix:
  assumes "find_str old content = Some i"
  shows "\<exists>rest. edited_content every old new content = take i content @ rest"
  using match_pieces_first [OF assms] assms
  by (auto simp: edited_content_def replace_str_def replace_first_def join_Cons)

lemma flexible_match_total: "old \<noteq> [] \<Longrightarrow> try_flexible_match content old file_path \<noteq> None"
  using str_lines_nonempty [of old] by (simp add: try_flexible_match_def windows_def Let_def)

section \<open>What an edit does\<close>


text \<open>The reported line is the line of the match only when the match starts at the beginning of a
  line; anywhere else it is the line after it.\<close>

lemma find_line_number_off_by_one:
  assumes "find_str pat content = Some pos"
  shows "find_line_number content pat =
    Suc (line_breaks (take pos content))
      + (if take pos content = [] \<or> last (take pos content) = CHR 0x0A then 0 else 1)"
  using assms by (simp add: find_line_number_def length_str_lines)

section \<open>Several edits\<close>

definition single_edit :: "str \<Rightarrow> EditOperation \<Rightarrow> EditInput" where
  "single_edit file_path e =
     \<lparr>edit_intent = None, edit_path = file_path, old_string = op_old e, new_string = op_new e,
      replace_all = op_all e\<rparr>"

lemma single_edit_step:
  assumes "edit_disk s (edit_resolve env file_path) = Some (multi_content m)"
    and "can_read env (edit_resolve env file_path)" "can_write env (edit_resolve env file_path)"
  shows "edit_disk (snd (execute_edit env (single_edit file_path e) s)) =
    (edit_disk s)(edit_resolve env file_path \<mapsto> multi_content (apply_operation i e m))"
proof -
  have "edit_disk (snd (perform_edit env (single_edit file_path e) (multi_content m) n s)) =
      (edit_disk s)(edit_resolve env file_path \<mapsto>
        edited_content (op_all e) (op_old e) (op_new e) (multi_content m))" for n
    using assms by (simp add: perform_edit_def single_edit_def Let_def split: option.split)
  then show ?thesis
    using assms by (auto simp: execute_edit_def apply_operation_def single_edit_def Let_def fun_upd_idem)
qed

lemma single_edits_fold:
  assumes "edit_disk s (edit_resolve env file_path) = Some (multi_content m)"
    and "can_read env (edit_resolve env file_path)" "can_write env (edit_resolve env file_path)"
  shows "edit_disk (foldl (\<lambda>s e. snd (execute_edit env (single_edit file_path e) s)) s es) =
    (edit_disk s)(edit_resolve env file_path \<mapsto> multi_content (apply_operations i es m))"
  using assms
proof (induction es arbitrary: s m i)
  case (Cons e es)
  show ?case
    using Cons.IH [of "snd (execute_edit env (single_edit file_path e) s)" "apply_operation i e m" "Suc i"]
      Cons.prems single_edit_step [OF Cons.prems, where i = i and e = e] by (simp add: fun_eq_iff)
qed (simp add: fun_upd_idem)

lemma single_edits_refused:
  assumes "edit_disk s (edit_resolve env file_path) = None
    \<or> \<not> can_read env (edit_resolve env file_path) \<or> \<not> can_write env (edit_resolve env file_path)"
  shows "foldl (\<lambda>s e. snd (execute_edit env (single_edit file_path e) s)) s es = s"
proof (induction es)
  case (Cons e es)
  have "snd (execute_edit env (single_edit file_path e) s) = s"
    using assms by (auto simp: execute_edit_def perform_edit_def single_edit_def Let_def split: option.splits)
  then show ?case using Cons by simp
qed simp

text \<open>C25: a multi-edit leaves exactly the files behind that running its operations one after the
  other through the edit tool would, whatever operations fail and whatever the file system
  allows.\<close>

theorem multiedit_is_iterated_edit:
  "snd (execute_multiedit env file_path edits fs) =
     edit_disk (foldl (\<lambda>s e. snd (execute_edit env (single_edit file_path e) s))
       \<lparr>edit_disk = fs, edit_touches = ts\<rparr> edits)"
proof (cases "fs (edit_resolve env file_path) = None
    \<or> \<not> can_read env (edit_resolve env file_path) \<or> \<not> can_write env (edit_resolve env file_path)")
  case True
  then have "foldl (\<lambda>s e. snd (execute_edit env (single_edit file_path e) s))
       \<lparr>edit_disk = fs, edit_touches = ts\<rparr> edits = \<lparr>edit_disk = fs, edit_touches = ts\<rparr>"
    by (intro single_edits_refused) auto
  then show ?thesis using True by (auto simp: execute_multiedit_def Let_def split: option.splits)
next
  case False
  then obtain original where f: "fs (edit_resolve env file_path) = Some original" by auto
  let ?m = "\<lparr>multi_content = original, applied = [], failed = []\<rparr>"
  have "edit_disk (foldl (\<lambda>s e. snd (execute_edit env (single_edit file_path e) s))
       \<lparr>edit_disk = fs, edit_touches = ts\<rparr> edits) =
      fs(edit_resolve env file_path \<mapsto> multi_content (apply_operations 0 edits ?m))"
    using False f single_edits_fold [of "\<lparr>edit_disk = fs, edit_touches = ts\<rparr>" env file_path ?m edits 0] by simp
  then show ?thesis using False f by (simp add: execute_multiedit_def Let_def)
qed

text \<open>Every operation is reported once, as applied or as failed.\<close>

lemma operations_reported:
  "length (applied (apply_operations i es m)) + length (failed (apply_operations i es m)) =
     length (applied m) + length (failed m) + length es"
proof (induction es arbitrary: i m)
  case (Cons e es)
  have "length (applied (apply_operation i e m)) + length (failed (apply_operation i e m)) =
      Suc (length (applied m) + length (failed m))"
    by (simp add: apply_operation_def Let_def)
  then show ?case using Cons by simp
qed simp

end
