(* ===== verification/Openai_Stream.thy ===== *)
theory Openai_Stream
  imports Message_Types Rust_F64
begin

text \<open>
  The event stream of an OpenAI response (\<^verbatim>\<open>src/crates/jcode-provider-openai/src/stream.rs\<close>): chunks of
  bytes are collected in a buffer, cut into server-sent events at blank lines, and every event is
  translated into the events of the agent, with partial tool calls kept per item until they are
  complete. The parser of JSON, its printer, \<open>to_lowercase\<close>, the base64 decoder and the outcome of
  saving a generated image are arguments (\<open>stream_env\<close>). The static counter of made-up call ids is
  part of the state. Two members of one name, which the derived deserializer refuses, do not occur in
  a value of type \<open>json\<close>.
\<close>

section \<open>Events\<close>

datatype StreamEvent =
    TextDelta str
  | ToolUseStart str str
  | ToolInputDelta str
  | ToolUseEnd
  | ToolUseSignature str
  | ToolResultEvent str str bool
  | GeneratedImage str str "str option" str "str option"
  | ThinkingStart
  | ThinkingDelta str
  | ThinkingSignatureDelta str
  | OpenAIReasoningEvent str "str list" "str option" "str option"
  | ThinkingEnd
  | ThinkingDone f64
  | MessageEnd "str option"
  | RetryRollback "32 word" "32 word"
  | TokenUsage "64 word option" "64 word option" "64 word option" "64 word option"
  | ConnectionTypeEvent str
  | ConnectionPhaseEvent ConnectionPhase
  | StatusDetail str
  | StreamError str "64 word option"
  | SessionId str
  | CompactionEvent str "64 word option" "str option"
  | UpstreamProvider str
  | NativeToolCall str str json

record stream_env =
  from_json :: "str \<Rightarrow> json option"
  json_value :: "str \<Rightarrow> (json \<times> nat) option"
  json_text :: "json \<Rightarrow> str"
  lowercase :: "str \<Rightarrow> str"
  base64_length :: "str \<Rightarrow> nat option"
  image_dir :: str
  clock_ms :: nat
  dir_created :: bool
  image_written :: bool
  metadata_written :: bool

text \<open>\<open>Value::as_u64\<close>: a number without sign, fraction or exponent that fits.\<close>

fun as_u64 :: "json \<Rightarrow> 64 word option" where
  "as_u64 (JNumber t) =
     (if t \<noteq> [] \<and> list_all is_ascii_digit t \<and> digits_val t < 2 ^ 64 then Some (of_nat (digits_val t)) else None)"
| "as_u64 _ = None"

fun is_array :: "json \<Rightarrow> bool" where
  "is_array (JArray _) = True"
| "is_array _ = False"

definition get_str :: "str \<Rightarrow> json \<Rightarrow> str option" where
  "get_str k v = Option.bind (json_get k v) as_str"

definition get_array :: "str \<Rightarrow> json \<Rightarrow> json list option" where
  "get_array k v = (case json_get k v of Some (JArray xs) \<Rightarrow> Some xs | _ \<Rightarrow> None)"

definition or_else :: "'a option \<Rightarrow> 'a option \<Rightarrow> 'a option" where
  "or_else a b = (case a of Some x \<Rightarrow> Some x | None \<Rightarrow> b)"

definition unwrap_or :: "'a \<Rightarrow> 'a option \<Rightarrow> 'a" where
  "unwrap_or d a = (case a of Some x \<Rightarrow> x | None \<Rightarrow> d)"

section \<open>Notices and errors\<close>

definition WEBSOCKET_FALLBACK_NOTICE :: str where
  "WEBSOCKET_FALLBACK_NOTICE = ''falling back from websockets to https transport''"

definition is_structured_response_event :: "stream_env \<Rightarrow> str \<Rightarrow> bool" where
  "is_structured_response_event env data =
     (case Option.bind (from_json env data) (get_str ''type'') of
        None \<Rightarrow> False
      | Some kind \<Rightarrow> prefix ''response.'' kind \<or> kind = ''error'')"

definition is_websocket_fallback_notice :: "stream_env \<Rightarrow> str \<Rightarrow> bool" where
  "is_websocket_fallback_notice env data \<longleftrightarrow>
     \<not> is_structured_response_event env data
     \<and> contains_str (lowercase env data) WEBSOCKET_FALLBACK_NOTICE"

definition labelled_error :: "stream_env \<Rightarrow> str \<Rightarrow> str option \<Rightarrow> str option \<Rightarrow> str" where
  "labelled_error env message error_type code =
     (let lower = lowercase env message;
          unnamed = (\<lambda>x. \<not> contains_str lower (lowercase env x))
      in case (error_type, code) of
           (Some t, Some c) \<Rightarrow>
             if unnamed t \<and> unnamed c then t @ '' ('' @ c @ ''): '' @ message
             else if unnamed t then t @ '': '' @ message
             else if unnamed c then c @ '': '' @ message
             else message
         | (Some t, None) \<Rightarrow> if unnamed t then t @ '': '' @ message else message
         | (None, Some c) \<Rightarrow> if unnamed c then c @ '': '' @ message else message
         | (None, None) \<Rightarrow> message)"

definition extract_error_with_retry :: "stream_env \<Rightarrow> json option \<Rightarrow> json option \<Rightarrow> str \<times> 64 word option" where
  "extract_error_with_retry env response top_level_error =
     (case or_else (Option.bind response (json_get ''error'')) top_level_error of
        None \<Rightarrow>
          (case Option.bind (Option.bind response (\<lambda>r. or_else (json_get ''status_message'' r) (json_get ''message'' r))) as_str of
             Some msg \<Rightarrow> (msg, None)
           | None \<Rightarrow> (''OpenAI response stream error (no error details)'', None))
      | Some e \<Rightarrow>
          (labelled_error env (unwrap_or ''OpenAI response stream error (unknown)'' (get_str ''message'' e))
             (get_str ''type'' e) (get_str ''code'' e),
           or_else (Option.bind (json_get ''retry_after'' e) as_u64)
             (Option.bind (Option.bind response (json_get ''retry_after'')) as_u64)))"

section \<open>Tool calls written as text\<close>

type_synonym wrapped_call = "str \<times> str \<times> str \<times> str"

fun scan_braces :: "stream_env \<Rightarrow> str \<Rightarrow> str \<Rightarrow> str \<Rightarrow> wrapped_call option \<Rightarrow> wrapped_call option" where
  "scan_braces env pre tool_name [] fallback = fallback"
| "scan_braces env pre tool_name (c # cs) fallback =
     (if c \<noteq> CHR 0x7B then scan_braces env pre tool_name cs fallback
      else case json_value env (c # cs) of
        None \<Rightarrow> scan_braces env pre tool_name cs fallback
      | Some (parsed, consumed) \<Rightarrow>
          if \<not> is_object parsed then scan_braces env pre tool_name cs fallback
          else let suf = trim (drop consumed (c # cs));
                   found = (pre, tool_name, json_text env parsed, suf)
               in if suf = [] then Some found
                  else scan_braces env pre tool_name cs (or_else fallback (Some found)))"

definition is_name_char :: "char \<Rightarrow> bool" where
  "is_name_char c \<longleftrightarrow> is_ascii_alphanumeric c \<or> c = CHR ''_''"

definition parse_text_wrapped_tool_call :: "stream_env \<Rightarrow> str \<Rightarrow> wrapped_call option" where
  "parse_text_wrapped_tool_call env t =
     (case find_str ''to=functions.'' t of
        None \<Rightarrow> None
      | Some marker_idx \<Rightarrow>
          let after_marker = drop (marker_idx + length ''to=functions.'') t;
              tool_name = takeWhile is_name_char after_marker
          in if tool_name = [] then None
             else scan_braces env (trim_end (take marker_idx t)) tool_name (dropWhile is_name_char after_marker) None)"

definition starts_field :: "str \<Rightarrow> str \<Rightarrow> bool" where
  "starts_field field s = prefix ([CHR 0x2C, CHR 0x22] @ field @ [CHR 0x22]) s"

definition names_field :: "str \<Rightarrow> str \<Rightarrow> bool" where
  "names_field field s = contains_str s ([CHR 0x22] @ field @ [CHR 0x22])"

definition sanitize_recovered_tool_suffix :: "str \<Rightarrow> str" where
  "sanitize_recovered_tool_suffix suf =
     (let trimmed = trim suf; normalized = trim_start_matches [CHR 0x22] trimmed in
      if trimmed = [] then []
      else if starts_field ''item_id'' normalized \<or> starts_field ''output_index'' normalized
        \<or> starts_field ''sequence_number'' normalized \<or> starts_field ''call_id'' normalized
        \<or> prefix ([CHR 0x2C, CHR 0x22] @ ''type'' @ [CHR 0x22, CHR 0x3A, CHR 0x22] @ ''response.'') normalized
        \<or> (prefix [CHR 0x2C] normalized \<and> names_field ''item_id'' normalized
            \<and> (names_field ''output_index'' normalized \<or> names_field ''sequence_number'' normalized))
      then [] else suf)"

section \<open>The parser's state\<close>

record StreamingToolCallState =
  call_id :: "str option"
  call_name :: "str option"
  call_arguments :: str

definition empty_call :: StreamingToolCallState where
  "empty_call = \<lparr>call_id = None, call_name = None, call_arguments = []\<rparr>"

record parser_state =
  pending :: "StreamEvent list"
  saw_text_delta :: bool
  streaming_tool_calls :: "str \<rightharpoonup> StreamingToolCallState"
  completed_tool_items :: "str set"
  fallback_counter :: nat

type_synonym parsed = "StreamEvent option \<times> parser_state"

text \<open>Pushing events to the queue and returning its front.\<close>

definition emit :: "StreamEvent list \<Rightarrow> parser_state \<Rightarrow> parsed" where
  "emit evs p =
     (case pending p @ evs of
        [] \<Rightarrow> (None, p)
      | e # es \<Rightarrow> (Some e, p\<lparr>pending := es\<rparr>))"

definition fallback_id :: "parser_state \<Rightarrow> str" where
  "fallback_id p = ''fallback_text_call_'' @ show_nat (fallback_counter p)"

definition text_events :: "str \<Rightarrow> StreamEvent list" where
  "text_events t = (if t = [] then [] else [TextDelta t])"

definition stream_text_or_recovered_tool_call :: "stream_env \<Rightarrow> str \<Rightarrow> parser_state \<Rightarrow> parsed" where
  "stream_text_or_recovered_tool_call env t p =
     (if t = [] then (None, p)
      else case parse_text_wrapped_tool_call env t of
        None \<Rightarrow> (Some (TextDelta t), p)
      | Some (pre, tool_name, arguments, suf) \<Rightarrow>
          emit (text_events pre
              @ [ToolUseStart (fallback_id p) tool_name, ToolInputDelta arguments, ToolUseEnd]
              @ text_events (sanitize_recovered_tool_suffix suf))
            (p\<lparr>fallback_counter := Suc (fallback_counter p)\<rparr>))"

definition normalize_openai_tool_arguments :: "str \<Rightarrow> str" where
  "normalize_openai_tool_arguments raw =
     (let trimmed = trim raw in if trimmed = [] \<or> trimmed = ''null'' then ''{}'' else raw)"

definition streaming_tool_item_id :: "json \<Rightarrow> str option" where
  "streaming_tool_item_id item = or_else (get_str ''id'' item) (get_str ''item_id'' item)"

definition is_tool_item :: "json \<Rightarrow> bool" where
  "is_tool_item item \<longleftrightarrow> get_str ''type'' item = Some ''function_call'' \<or> get_str ''type'' item = Some ''custom_tool_call''"

definition non_empty :: "str option \<Rightarrow> str option" where
  "non_empty x = (case x of Some [] \<Rightarrow> None | _ \<Rightarrow> x)"

definition stream_tool_call_from_state :: "str option \<Rightarrow> StreamingToolCallState \<Rightarrow> parser_state \<Rightarrow> parsed" where
  "stream_tool_call_from_state item_id st p =
     (case non_empty (call_name st) of
        None \<Rightarrow> (None, p)
      | Some tool_name \<Rightarrow>
          let known = or_else (non_empty (call_id st)) item_id;
              raw_call_id = unwrap_or (fallback_id p) known;
              p = (if known = None then p\<lparr>fallback_counter := Suc (fallback_counter p)\<rparr> else p);
              arguments = normalize_openai_tool_arguments
                (if call_arguments st = [] then ''{}'' else call_arguments st)
          in emit [ToolUseStart (sanitize_tool_id raw_call_id) tool_name, ToolInputDelta arguments, ToolUseEnd] p)"

section \<open>Output items\<close>

definition extract_last_assistant_message_phase :: "json \<Rightarrow> str option" where
  "extract_last_assistant_message_phase response =
     Option.bind (get_array ''output'' response) (\<lambda>items.
       Option.bind (find (\<lambda>item. get_str ''type'' item = Some ''message'' \<and> get_str ''role'' item = Some ''assistant''
           \<and> get_str ''phase'' item \<noteq> None) (rev items)) (get_str ''phase''))"

definition extract_stop_reason_from_response :: "json \<Rightarrow> str option" where
  "extract_stop_reason_from_response response =
     (let status = get_str ''status'' response in
      if status = Some ''completed''
      then (if extract_last_assistant_message_phase response = Some ''commentary'' then Some ''commentary'' else None)
      else or_else (Option.bind (json_get ''incomplete_details'' response) (get_str ''reason'')) (non_empty status))"

definition extract_cached_input_tokens :: "json \<Rightarrow> 64 word option" where
  "extract_cached_input_tokens usage =
     Option.bind (or_else (json_get ''input_tokens_details'' usage) (json_get ''prompt_tokens_details'' usage))
       (\<lambda>details. Option.bind (json_get ''cached_tokens'' details) as_u64)"

definition extract_usage_from_response :: "json \<Rightarrow> StreamEvent option" where
  "extract_usage_from_response response =
     Option.bind (json_get ''usage'' response) (\<lambda>usage.
       let input_tokens = Option.bind (json_get ''input_tokens'' usage) as_u64;
           output_tokens = Option.bind (json_get ''output_tokens'' usage) as_u64;
           cached = extract_cached_input_tokens usage
       in if input_tokens \<noteq> None \<or> output_tokens \<noteq> None \<or> cached \<noteq> None
          then Some (TokenUsage input_tokens output_tokens cached None) else None)"

definition image_extension :: "str \<Rightarrow> str" where
  "image_extension output_format =
     (if output_format = ''jpeg'' \<or> output_format = ''jpg'' then ''jpg''
      else if output_format = ''webp'' then ''webp'' else ''png'')"

definition safe_image_id :: "str \<Rightarrow> str" where
  "safe_image_id item_id =
     (let s = take 80 (filter (\<lambda>c. is_ascii_alphanumeric c \<or> c = CHR ''_'' \<or> c = CHR ''-'') item_id)
      in if s = [] then ''image'' else s)"

definition image_markdown :: "str \<Rightarrow> str option \<Rightarrow> str" where
  "image_markdown path metadata_path =
     nl @ ''![Generated image]('' @ path @ '')'' @ nl @ nl @ ''Generated image saved to `'' @ path @ ''`.''
     @ (case metadata_path of Some m \<Rightarrow> nl @ ''Metadata saved to `'' @ m @ ''`.'' | None \<Rightarrow> []) @ nl"

definition handle_openai_image_generation_item :: "stream_env \<Rightarrow> json \<Rightarrow> parser_state \<Rightarrow> parsed" where
  "handle_openai_image_generation_item env item p =
     (case non_empty (get_str ''result'' item) of
        None \<Rightarrow> (None, p)
      | Some result_b64 \<Rightarrow>
          (case base64_length env result_b64 of
             None \<Rightarrow> (Some (TextDelta (nl @ ''[Generated image received, but Jcode could not decode it.]'' @ nl)), p)
           | Some n \<Rightarrow>
               let output_format = unwrap_or ''png'' (get_str ''output_format'' item);
                   item_id = unwrap_or ''image'' (get_str ''id'' item);
                   stem = image_dir env @ ''/'' @ show_nat (clock_ms env) @ ''-'' @ safe_image_id item_id;
                   path = stem @ ''.'' @ image_extension output_format;
                   metadata_path = (if metadata_written env then Some (stem @ ''.json'') else None)
               in if \<not> dir_created env
                  then (Some (TextDelta (nl @ ''[Generated image received ('' @ show_nat n
                          @ '' bytes), but Jcode could not save it.]'' @ nl)), p)
                  else if \<not> image_written env
                  then (Some (TextDelta (nl @ ''[Generated image received, but Jcode could not save it.]'' @ nl)), p)
                  else (Some (GeneratedImage item_id path metadata_path output_format (get_str ''revised_prompt'' item)),
                        p\<lparr>pending := pending p @ [TextDelta (image_markdown path metadata_path)]\<rparr>)))"

definition message_text :: "json \<Rightarrow> str" where
  "message_text item =
     (case get_array ''content'' item of
        None \<Rightarrow> []
      | Some entries \<Rightarrow> concat (map (\<lambda>entry.
          if get_str ''type'' entry = Some ''output_text'' \<or> get_str ''type'' entry = Some ''text''
          then unwrap_or [] (get_str ''text'' entry) else []) entries))"

definition summary_texts :: "json \<Rightarrow> str list" where
  "summary_texts item =
     (case get_array ''summary'' item of
        None \<Rightarrow> []
      | Some entries \<Rightarrow> List.map_filter (\<lambda>entry.
          if get_str ''type'' entry = Some ''summary_text'' then get_str ''text'' entry else None) entries)"

definition item_arguments :: "stream_env \<Rightarrow> json \<Rightarrow> str option" where
  "item_arguments env item =
     or_else (get_str ''arguments'' item)
       (Option.bind (json_get ''input'' item) (\<lambda>v.
          if is_object v \<or> is_array v then Some (json_text env v) else as_str v))"

definition reasoning_events :: "json \<Rightarrow> StreamEvent list" where
  "reasoning_events item =
     (let i = unwrap_or [] (get_str ''id'' item); summary = summary_texts item;
          encrypted = get_str ''encrypted_content'' item
      in (if i \<noteq> [] \<and> (encrypted \<noteq> None \<or> summary \<noteq> [])
          then [OpenAIReasoningEvent i summary encrypted (get_str ''status'' item)] else [])
         @ (if summary \<noteq> [] then [ThinkingStart, ThinkingDelta (join nl summary), ThinkingEnd] else []))"

definition handle_openai_output_item :: "stream_env \<Rightarrow> json \<Rightarrow> parser_state \<Rightarrow> parsed" where
  "handle_openai_output_item env item p =
     (case get_str ''type'' item of
        None \<Rightarrow> (None, p)
      | Some item_type \<Rightarrow>
          if item_type = ''compaction'' then
            (case get_str ''encrypted_content'' item of
               None \<Rightarrow> (None, p)
             | Some e \<Rightarrow> (Some (CompactionEvent ''openai_native_auto'' None (Some e)), p))
          else if item_type = ''function_call'' \<or> item_type = ''custom_tool_call'' then
            emit [ToolUseStart (unwrap_or [] (get_str ''call_id'' item)) (unwrap_or [] (get_str ''name'' item)),
              ToolInputDelta (normalize_openai_tool_arguments (unwrap_or ''{}'' (item_arguments env item))),
              ToolUseEnd] p
          else if item_type = ''image_generation_call'' then handle_openai_image_generation_item env item p
          else if item_type = ''message'' then
            (if saw_text_delta p then (None, p) else stream_text_or_recovered_tool_call env (message_text item) p)
          else if item_type = ''reasoning'' then emit (reasoning_events item) p
          else (None, p))"

section \<open>Server-sent events\<close>

record ResponseSseEvent =
  sse_kind :: str
  sse_item :: "json option"
  sse_delta :: "str option"
  sse_item_id :: "str option"
  sse_call_id :: "str option"
  sse_name :: "str option"
  sse_arguments :: "str option"
  sse_response :: "json option"
  sse_error :: "json option"

text \<open>The derived deserializer: an optional string may be missing or null, but nothing else.\<close>

definition opt_value :: "str \<Rightarrow> json \<Rightarrow> json option" where
  "opt_value k v = (case json_get k v of Some JNull \<Rightarrow> None | x \<Rightarrow> x)"

definition opt_string :: "str \<Rightarrow> json \<Rightarrow> str option option" where
  "opt_string k v = (case opt_value k v of None \<Rightarrow> Some None | Some (JString s) \<Rightarrow> Some (Some s) | Some _ \<Rightarrow> None)"

definition sse_event :: "json \<Rightarrow> ResponseSseEvent option" where
  "sse_event v =
     (case (get_str ''type'' v, opt_string ''delta'' v, opt_string ''item_id'' v, opt_string ''call_id'' v,
            opt_string ''name'' v, opt_string ''arguments'' v) of
        (Some kind, Some delta, Some item_id, Some cid, Some name, Some arguments) \<Rightarrow>
          Some \<lparr>sse_kind = kind, sse_item = opt_value ''item'' v, sse_delta = delta, sse_item_id = item_id,
            sse_call_id = cid, sse_name = name, sse_arguments = arguments,
            sse_response = opt_value ''response'' v, sse_error = opt_value ''error'' v\<rparr>
      | _ \<Rightarrow> None)"

definition call_state :: "parser_state \<Rightarrow> str \<Rightarrow> StreamingToolCallState" where
  "call_state p i = unwrap_or empty_call (streaming_tool_calls p i)"

definition put_call :: "str \<Rightarrow> StreamingToolCallState \<Rightarrow> parser_state \<Rightarrow> parser_state" where
  "put_call i st p = p\<lparr>streaming_tool_calls := (streaming_tool_calls p)(i \<mapsto> st)\<rparr>"

definition added_call :: "stream_env \<Rightarrow> json \<Rightarrow> StreamingToolCallState \<Rightarrow> StreamingToolCallState" where
  "added_call env item st =
     \<lparr>call_id = or_else (get_str ''call_id'' item) (call_id st),
      call_name = or_else (get_str ''name'' item) (call_name st),
      call_arguments =
        (case or_else (get_str ''arguments'' item) (get_str ''input'' item) of
           Some a \<Rightarrow> a
         | None \<Rightarrow>
             (case json_get ''input'' item of
                Some v \<Rightarrow> if is_object v \<or> is_array v then json_text env v else call_arguments st
              | None \<Rightarrow> call_arguments st))\<rparr>"

definition item_added :: "stream_env \<Rightarrow> json \<Rightarrow> parser_state \<Rightarrow> parsed" where
  "item_added env item p =
     (if get_str ''type'' item = Some ''reasoning'' then (Some ThinkingStart, p)
      else case streaming_tool_item_id item of
        Some i \<Rightarrow> (None, if is_tool_item item then put_call i (added_call env item (call_state p i)) p else p)
      | None \<Rightarrow> (None, p))"

text \<open>The ids an event carries override those known so far.\<close>

definition with_ids :: "ResponseSseEvent \<Rightarrow> StreamingToolCallState \<Rightarrow> StreamingToolCallState" where
  "with_ids ev st =
     st\<lparr>call_id := or_else (sse_call_id ev) (call_id st), call_name := or_else (sse_name ev) (call_name st)\<rparr>"

definition arguments_delta :: "ResponseSseEvent \<Rightarrow> parser_state \<Rightarrow> parsed" where
  "arguments_delta ev p =
     (case sse_item_id ev of
        None \<Rightarrow> (None, p)
      | Some i \<Rightarrow>
          (let st = with_ids ev (call_state p i) in
           (None, put_call i (st\<lparr>call_arguments := call_arguments st @ unwrap_or [] (sse_delta ev)\<rparr>) p)))"

definition arguments_done :: "ResponseSseEvent \<Rightarrow> parser_state \<Rightarrow> parsed" where
  "arguments_done ev p =
     (case sse_item_id ev of
        None \<Rightarrow> (None, p)
      | Some i \<Rightarrow>
          (let st = with_ids ev (call_state p i);
               st = st\<lparr>call_arguments := unwrap_or (call_arguments st) (sse_arguments ev)\<rparr>;
               removed = p\<lparr>streaming_tool_calls := (streaming_tool_calls p)(i := None)\<rparr>
           in case stream_tool_call_from_state (Some i) st removed of
                (Some e, q) \<Rightarrow> (Some e, q\<lparr>completed_tool_items := insert i (completed_tool_items q)\<rparr>)
              | (None, q) \<Rightarrow> (None, put_call i st q)))"

definition item_done :: "stream_env \<Rightarrow> json \<Rightarrow> parser_state \<Rightarrow> parsed" where
  "item_done env item p =
     (case streaming_tool_item_id item of
        Some i \<Rightarrow>
          if i \<in> completed_tool_items p \<and> is_tool_item item
          then (None, p\<lparr>completed_tool_items := completed_tool_items p - {i}\<rparr>)
          else handle_openai_output_item env item p
      | None \<Rightarrow> handle_openai_output_item env item p)"

definition response_ended :: "str option \<Rightarrow> json option \<Rightarrow> parser_state \<Rightarrow> parsed" where
  "response_ended stop_reason response p =
     emit ((case Option.bind response extract_usage_from_response of Some u \<Rightarrow> [u] | None \<Rightarrow> [])
       @ [MessageEnd stop_reason]) p"

definition handle_event :: "stream_env \<Rightarrow> ResponseSseEvent \<Rightarrow> parser_state \<Rightarrow> parsed" where
  "handle_event env ev p =
     (let kind = sse_kind ev; stop = Option.bind (sse_response ev) extract_stop_reason_from_response in
      if kind = ''response.output_text.delta'' then
        (case sse_delta ev of
           Some d \<Rightarrow> stream_text_or_recovered_tool_call env d (p\<lparr>saw_text_delta := True\<rparr>)
         | None \<Rightarrow> (None, p))
      else if kind = ''response.reasoning.delta'' \<or> kind = ''response.reasoning_summary_text.delta'' then
        (map_option ThinkingDelta (sse_delta ev), p)
      else if kind = ''response.reasoning.done'' \<or> kind = ''response.output_item.added'' then
        (case sse_item ev of Some item \<Rightarrow> item_added env item p | None \<Rightarrow> (None, p))
      else if kind = ''response.function_call_arguments.delta'' then arguments_delta ev p
      else if kind = ''response.function_call_arguments.done'' then arguments_done ev p
      else if kind = ''response.output_item.done'' then
        (case sse_item ev of Some item \<Rightarrow> item_done env item p | None \<Rightarrow> (None, p))
      else if kind = ''response.incomplete'' then
        response_ended (or_else stop (Some ''incomplete'')) (sse_response ev) p
      else if kind = ''response.completed'' then response_ended stop (sse_response ev) p
      else if kind = ''response.failed'' \<or> kind = ''response.error'' \<or> kind = ''error'' then
        (let (message, retry) = extract_error_with_retry env (sse_response ev) (sse_error ev)
         in (Some (StreamError message retry), p))
      else (None, p))"

definition parse_openai_response_event :: "stream_env \<Rightarrow> str \<Rightarrow> parser_state \<Rightarrow> parsed" where
  "parse_openai_response_event env data p =
     (if data = ''[DONE]'' then (Some (MessageEnd None), p)
      else if is_websocket_fallback_notice env data then (None, p)
      else if contains_str (lowercase env data) ''stream disconnected before completion''
        \<and> \<not> is_structured_response_event env data
      then (Some (StreamError data None), p)
      else case Option.bind (from_json env data) sse_event of
        None \<Rightarrow> (None, p)
      | Some ev \<Rightarrow> handle_event env ev p)"

section \<open>The stream\<close>

definition sse_data_line :: "str \<Rightarrow> str option" where
  "sse_data_line line =
     map_option (\<lambda>rest. unwrap_or rest (strip_prefix '' '' rest)) (strip_prefix ''data:'' line)"

definition event_data :: "str \<Rightarrow> str option" where
  "event_data event_str =
     (case List.map_filter sse_data_line (str_lines event_str) of [] \<Rightarrow> None | ds \<Rightarrow> Some (join nl ds))"

definition blank_line :: str where "blank_line = nl @ nl"

lemma frame_shrinks:
  assumes "find_str blank_line buf = Some pos"
  shows "length (drop (pos + 2) buf) < length buf"
  using find_str_Some [OF assms] by (simp add: blank_line_def) linarith

function parse_buffer :: "stream_env \<Rightarrow> str \<Rightarrow> parser_state \<Rightarrow> StreamEvent option \<times> str \<times> parser_state" where
  "parse_buffer env buf p =
     (case find_str blank_line buf of
        None \<Rightarrow> (None, buf, p)
      | Some pos \<Rightarrow>
          (let rest = drop (pos + 2) buf in
           case event_data (take pos buf) of
             None \<Rightarrow> parse_buffer env rest p
           | Some data \<Rightarrow>
               (case parse_openai_response_event env data p of
                  (Some e, q) \<Rightarrow> (Some e, rest, q)
                | (None, q) \<Rightarrow> parse_buffer env rest q)))"
  by pat_completeness auto
termination
proof (relation "measure (\<lambda>(env, buf, p). length buf)", goal_cases)
  case (2 env buf p pos rest)
  then show ?case using frame_shrinks [of buf pos] by simp
next
  case (3 env buf p pos rest data e q)
  then show ?case using frame_shrinks [of buf pos] by simp
qed simp

declare parse_buffer.simps [simp del]

definition parse_next_event :: "stream_env \<Rightarrow> str \<Rightarrow> parser_state \<Rightarrow> StreamEvent option \<times> str \<times> parser_state" where
  "parse_next_event env buf p =
     (case pending p of
        e # es \<Rightarrow> (Some e, buf, p\<lparr>pending := es\<rparr>)
      | [] \<Rightarrow> parse_buffer env buf p)"

lemma parse_buffer_shrinks: "parse_buffer env buf p = (Some e, buf', q) \<Longrightarrow> length buf' < length buf"
proof (induction env buf p rule: parse_buffer.induct)
  case (1 env buf p)
  show ?case
  proof (cases "find_str blank_line buf")
    case None
    have "parse_buffer env buf p = (None, buf, p)" by (subst parse_buffer.simps) (simp add: None)
    then show ?thesis using 1(3) by simp
  next
    case (Some pos)
    let ?rest = "drop (pos + 2) buf"
    note short = frame_shrinks [OF Some]
    show ?thesis
    proof (cases "event_data (take pos buf)")
      case None
      have "parse_buffer env buf p = parse_buffer env ?rest p"
        by (subst parse_buffer.simps) (simp add: Some None Let_def del: drop_drop)
      then show ?thesis using 1(1) [OF Some refl None] 1(3) short by simp
    next
      case (Some data)
      obtain r q' where r: "parse_openai_response_event env data p = (r, q')" by fastforce
      have "parse_buffer env buf p = (case r of Some e \<Rightarrow> (Some e, ?rest, q') | None \<Rightarrow> parse_buffer env ?rest q')"
        by (subst parse_buffer.simps) (simp add: \<open>find_str blank_line buf = Some pos\<close> Some r Let_def split: option.split)
      then show ?thesis
        using 1(2) [OF \<open>find_str blank_line buf = Some pos\<close> refl Some r [symmetric]] 1(3) short
        by (cases r) auto
    qed
  qed
qed

text \<open>What a consumer that polls until nothing is ready receives: the loop of \<open>poll_next\<close> between two
  chunks.\<close>

function drain :: "stream_env \<Rightarrow> str \<Rightarrow> parser_state \<Rightarrow> StreamEvent list \<times> str \<times> parser_state" where
  "drain env buf p =
     (case parse_next_event env buf p of
        (None, buf', q) \<Rightarrow> ([], buf', q)
      | (Some e, buf', q) \<Rightarrow> (let (es, r) = drain env buf' q in (e # es, r)))"
  by pat_completeness auto
termination
proof (relation "inv_image ({(a, b). a < b} <*lex*> {(a, b). a < b}) (\<lambda>(env, buf, p). (length buf, length (pending p)))",
    goal_cases)
  case 1
  show ?case by (intro wf_inv_image wf_lex_prod wf_less)
next
  case (2 env buf p x y e buf' q)
  then show ?case
    using parse_buffer_shrinks [of env buf p e buf' q]
    by (auto simp: parse_next_event_def split: list.splits)
qed

declare drain.simps [simp del]

text \<open>The width of the well-formed character a byte string starts with, 0 when there is none; and the
  test of \<open>str::from_utf8\<close>.\<close>

definition conts :: "nat \<Rightarrow> str \<Rightarrow> bool" where
  "conts n s \<longleftrightarrow> n \<le> length s \<and> list_all is_cont (take n s)"

fun utf8_char :: "str \<Rightarrow> nat" where
  "utf8_char [] = 0"
| "utf8_char (a # s) =
     (let n = byte a; b = byte (hd s) in
      if n < 0x80 then 1
      else if 0xC2 \<le> n \<and> n \<le> 0xDF \<and> conts 1 s then 2
      else if 0xE0 \<le> n \<and> n \<le> 0xEF \<and> conts 2 s \<and> (if n = 0xE0 then 0xA0 \<le> b else if n = 0xED then b \<le> 0x9F else True) then 3
      else if 0xF0 \<le> n \<and> n \<le> 0xF4 \<and> conts 3 s \<and> (if n = 0xF0 then 0x90 \<le> b else if n = 0xF4 then b \<le> 0x8F else True) then 4
      else 0)"

function utf8_ok :: "str \<Rightarrow> bool" where
  "utf8_ok s = (if s = [] then True else if utf8_char s = 0 then False else utf8_ok (drop (utf8_char s) s))"
  by pat_completeness auto
termination by (relation "measure length") auto

declare utf8_ok.simps [simp del]

datatype transport = Chunk str | TransportError str

fun push_chunk :: "transport \<Rightarrow> str \<Rightarrow> str" where
  "push_chunk (Chunk bytes) buf = (if utf8_ok bytes then buf @ bytes else buf)"
| "push_chunk (TransportError _) buf = buf"

fun transport_error :: "transport \<Rightarrow> (str, StreamEvent) result list" where
  "transport_error (Chunk _) = []"
| "transport_error (TransportError e) = [Inl (''Stream error: '' @ e)]"

text \<open>The whole stream: what is ready is returned, then the next item of the transport is taken.\<close>

fun run_stream :: "stream_env \<Rightarrow> transport list \<Rightarrow> str \<Rightarrow> parser_state \<Rightarrow> (str, StreamEvent) result list" where
  "run_stream env [] buf p = map Inr (fst (drain env buf p))"
| "run_stream env (t # ts) buf p =
     (let (es, buf', q) = drain env buf p
      in map Inr es @ transport_error t @ run_stream env ts (push_chunk t buf') q)"

definition new_parser :: "nat \<Rightarrow> parser_state" where
  "new_parser counter =
     \<lparr>pending = [], saw_text_delta = False, streaming_tool_calls = Map.empty, completed_tool_items = {},
      fallback_counter = counter\<rparr>"

section \<open>What one event emits\<close>

definition emitted :: "parsed \<Rightarrow> StreamEvent list" where
  "emitted = (\<lambda>(r, q). case r of None \<Rightarrow> [] | Some e \<Rightarrow> e # pending q)"

text \<open>Tool calls come as a start, the whole input and an end, with nothing between them.\<close>

fun calls_whole :: "StreamEvent list \<Rightarrow> bool" where
  "calls_whole [] = True"
| "calls_whole (ToolUseStart i n # es) =
     (case es of ToolInputDelta a # ToolUseEnd # rest \<Rightarrow> calls_whole rest | _ \<Rightarrow> False)"
| "calls_whole (ToolInputDelta a # es) = False"
| "calls_whole (ToolUseEnd # es) = False"
| "calls_whole (e # es) = calls_whole es"

lemma calls_whole_append: "calls_whole xs \<Longrightarrow> calls_whole ys \<Longrightarrow> calls_whole (xs @ ys)"
  by (induction xs rule: calls_whole.induct) (auto split: list.splits StreamEvent.splits)

definition tidy :: "parsed \<Rightarrow> bool" where
  "tidy r \<longleftrightarrow> (fst r = None \<longrightarrow> pending (snd r) = []) \<and> calls_whole (emitted r)"

named_theorems tidy_rules

lemma tidy_none [tidy_rules]: "pending p = [] \<Longrightarrow> tidy (None, p)"
  by (simp add: tidy_def emitted_def)

lemma tidy_emit: "pending p = [] \<Longrightarrow> calls_whole evs \<Longrightarrow> tidy (emit evs p)"
  by (cases evs) (simp_all add: tidy_def emitted_def emit_def)

lemma tidy_one [tidy_rules]: "pending p = [] \<Longrightarrow> calls_whole [e] \<Longrightarrow> tidy (Some e, p)"
  by (simp add: tidy_def emitted_def)

lemma calls_whole_text: "calls_whole (text_events t)"
  by (simp add: text_events_def)

lemma tidy_text [tidy_rules]:
  "pending p = [] \<Longrightarrow> tidy (stream_text_or_recovered_tool_call env t p)"
  by (auto simp: stream_text_or_recovered_tool_call_def calls_whole_text split: option.splits
      intro!: tidy_none tidy_one tidy_emit calls_whole_append)

lemma tidy_call [tidy_rules]:
  "pending p = [] \<Longrightarrow> tidy (stream_tool_call_from_state item_id st p)"
  by (auto simp: stream_tool_call_from_state_def Let_def split: option.splits intro!: tidy_none tidy_emit)

lemma tidy_image [tidy_rules]:
  "pending p = [] \<Longrightarrow> tidy (handle_openai_image_generation_item env item p)"
  by (auto simp: handle_openai_image_generation_item_def tidy_def emitted_def Let_def split: option.splits)

lemma calls_whole_reasoning: "calls_whole (reasoning_events item)"
  by (simp add: reasoning_events_def Let_def)

lemma tidy_output_item [tidy_rules]:
  "pending p = [] \<Longrightarrow> tidy (handle_openai_output_item env item p)"
  by (simp add: handle_openai_output_item_def calls_whole_reasoning tidy_rules tidy_emit split: option.split)

lemma tidy_item_added [tidy_rules]: "pending p = [] \<Longrightarrow> tidy (item_added env item p)"
  by (auto simp: item_added_def put_call_def split: option.splits intro!: tidy_rules)

lemma tidy_delta [tidy_rules]: "pending p = [] \<Longrightarrow> tidy (arguments_delta ev p)"
  by (auto simp: arguments_delta_def put_call_def Let_def split: option.splits intro!: tidy_rules)

lemma tidy_upd: "tidy (r, q) \<Longrightarrow> pending q' = pending q \<Longrightarrow> tidy (r, q')"
  by (auto simp: tidy_def emitted_def split: option.splits)

lemma tidy_done [tidy_rules]:
  assumes "pending p = []"
  shows "tidy (arguments_done ev p)"
proof (cases "sse_item_id ev")
  case (Some i)
  let ?p = "p\<lparr>streaming_tool_calls := (streaming_tool_calls p)(i := None)\<rparr>"
  let ?st = "with_ids ev (call_state p i)"
  let ?st' = "?st\<lparr>call_arguments := unwrap_or (call_arguments ?st) (sse_arguments ev)\<rparr>"
  obtain r q where rq: "stream_tool_call_from_state (Some i) ?st' ?p = (r, q)" by fastforce
  have "tidy (r, q)" unfolding rq [symmetric] using assms by (intro tidy_rules) simp
  then have "tidy (r, q\<lparr>completed_tool_items := insert i (completed_tool_items q)\<rparr>)"
    "tidy (r, put_call i ?st' q)"
    by (auto elim!: tidy_upd simp: put_call_def)
  then show ?thesis by (cases r) (simp_all add: arguments_done_def Some rq Let_def)
qed (simp add: arguments_done_def tidy_none assms)

lemma tidy_item_done [tidy_rules]: "pending p = [] \<Longrightarrow> tidy (item_done env item p)"
  by (simp add: item_done_def tidy_rules split: option.split)

lemma tidy_ended [tidy_rules]:
  assumes "pending p = []"
  shows "tidy (response_ended stop_reason response p)"
proof -
  have "calls_whole ((case Option.bind response extract_usage_from_response of Some u \<Rightarrow> [u] | None \<Rightarrow> []) @ [MessageEnd stop_reason])"
    by (auto simp: extract_usage_from_response_def Let_def bind_eq_Some_conv split: option.splits if_splits)
  then show ?thesis unfolding response_ended_def using assms by (rule tidy_emit [rotated])
qed

lemma tidy_event [tidy_rules]: "pending p = [] \<Longrightarrow> tidy (handle_event env ev p)"
  by (simp add: handle_event_def tidy_rules Let_def map_option_case split: option.split prod.split)

lemma tidy_parse: "pending p = [] \<Longrightarrow> tidy (parse_openai_response_event env data p)"
  by (simp add: parse_openai_response_event_def tidy_rules split: option.split)

section \<open>Frames\<close>

function frames :: "str \<Rightarrow> str list \<times> str" where
  "frames buf =
     (case find_str blank_line buf of
        None \<Rightarrow> ([], buf)
      | Some pos \<Rightarrow> (let (fs, rest) = frames (drop (pos + 2) buf) in (take pos buf # fs, rest)))"
  by pat_completeness auto
termination by (relation "measure length") (use frame_shrinks in auto)

declare frames.simps [simp del]

lemma find_str_append: "find_str pat s = Some i \<Longrightarrow> find_str pat (s @ t) = Some i"
proof (induction pat s arbitrary: i rule: find_str.induct)
  case (1 pat s)
  show ?case
  proof (cases "prefix pat s")
    case True
    then show ?thesis using 1(2) by (simp add: find_str.simps [of pat] prefix_append)
  next
    case False
    then obtain c u j where s: "s = c # u" and j: "find_str pat u = Some j" "i = Suc j"
      using 1(2) by (subst (asm) find_str.simps) (auto split: list.splits)
    have "\<not> prefix pat (s @ t)"
    proof
      assume "prefix pat (s @ t)"
      moreover have "length pat \<le> length s" using find_str_Some [OF 1(2)] by simp
      ultimately show False using False by (metis prefix_append prefix_length_le append_eq_append_conv_if prefix_def prefix_length_prefix)
    qed
    then show ?thesis using 1(1) [OF False s j(1)] s j by (subst find_str.simps) simp
  qed
qed

lemma frames_append:
  "frames (a @ b) = (let (fs, r) = frames a; (gs, r') = frames (r @ b) in (fs @ gs, r'))"
proof (induction a rule: frames.induct)
  case (1 a)
  show ?case
  proof (cases "find_str blank_line a")
    case None
    then show ?thesis by (simp add: frames.simps [of a] split_beta)
  next
    case (Some pos)
    have "pos + 2 \<le> length a" using find_str_Some [OF Some] by (simp add: blank_line_def)
    then show ?thesis using 1 [OF Some] find_str_append [OF Some]
      by (simp add: frames.simps [of "a @ b"] frames.simps [of a] Some split_beta Let_def)
  qed
qed

fun process :: "stream_env \<Rightarrow> str list \<Rightarrow> parser_state \<Rightarrow> StreamEvent list \<times> parser_state" where
  "process env [] p = ([], p)"
| "process env (f # fs) p =
     (case event_data f of
        None \<Rightarrow> process env fs p
      | Some data \<Rightarrow>
          (let r = parse_openai_response_event env data p;
               (es, q) = process env fs ((snd r)\<lparr>pending := []\<rparr>)
           in (emitted r @ es, q)))"

lemma process_append:
  "process env (fs @ gs) p = (let (es, q) = process env fs p; (es', q') = process env gs q in (es @ es', q'))"
  by (induction env fs p rule: process.induct) (auto simp: split_beta Let_def split: option.split)

lemma process_pending: "pending p = [] \<Longrightarrow> pending (snd (process env fs p)) = []"
  by (induction env fs p rule: process.induct) (auto simp: split_beta Let_def split: option.split)

lemma process_whole: "pending p = [] \<Longrightarrow> calls_whole (fst (process env fs p))"
proof (induction fs arbitrary: p)
  case (Cons f fs)
  then show ?case using tidy_parse [of p env]
    by (auto simp: split_beta Let_def tidy_def split: option.split intro!: calls_whole_append)
qed simp

section \<open>The loop over the buffer\<close>

lemma parse_buffer_none: "find_str blank_line buf = None \<Longrightarrow> parse_buffer env buf p = (None, buf, p)"
  by (subst parse_buffer.simps) simp

lemma parse_buffer_frame:
  assumes "find_str blank_line buf = Some pos"
  shows "parse_buffer env buf p =
    (case event_data (take pos buf) of
       None \<Rightarrow> parse_buffer env (drop (pos + 2) buf) p
     | Some data \<Rightarrow>
         (case parse_openai_response_event env data p of
            (Some e, q) \<Rightarrow> (Some e, drop (pos + 2) buf, q)
          | (None, q) \<Rightarrow> parse_buffer env (drop (pos + 2) buf) q))"
  by (subst parse_buffer.simps) (simp only: assms option.case Let_def)

lemma drain_pending:
  "drain env buf p = (let (es, r) = drain env buf (p\<lparr>pending := []\<rparr>) in (pending p @ es, r))"
proof (induction "pending p" arbitrary: p)
  case Nil
  then have same: "p\<lparr>pending := []\<rparr> = p" by (cases p) simp
  show ?case unfolding same by (simp add: split_beta flip: Nil)
next
  case (Cons e es)
  have "drain env buf p = (let (fs, r) = drain env buf (p\<lparr>pending := es\<rparr>) in (e # fs, r))"
    by (subst drain.simps) (simp add: parse_next_event_def flip: Cons.hyps(2))
  then show ?case using Cons.hyps(1) [of "p\<lparr>pending := es\<rparr>"] by (simp add: split_beta Let_def flip: Cons.hyps(2))
qed

lemma drain_same:
  assumes "pending p = []" "pending q = []" "parse_buffer env buf p = parse_buffer env buf' q"
  shows "drain env buf p = drain env buf' q"
  using assms by (subst (1 2) drain.simps) (simp add: parse_next_event_def)

lemma drain_is_process:
  assumes "pending p = []"
  shows "drain env buf p = (let (fs, rest) = frames buf; (es, q) = process env fs p in (es, rest, q))"
  using assms
proof (induction buf arbitrary: p rule: frames.induct)
  case (1 buf)
  show ?case
  proof (cases "find_str blank_line buf")
    case None
    then show ?thesis using 1(2)
      by (subst drain.simps) (simp add: parse_next_event_def parse_buffer_none frames.simps [of buf])
  next
    case (Some pos)
    let ?rest = "drop (pos + 2) buf"
    have f: "frames buf = (take pos buf # fst (frames ?rest), snd (frames ?rest))"
      by (subst frames.simps) (simp add: Some split_beta Let_def)
    note IH = 1(1) [OF Some]
    show ?thesis
    proof (cases "event_data (take pos buf)")
      case None
      have "drain env buf p = drain env ?rest p"
        by (rule drain_same) (simp_all add: 1(2) parse_buffer_frame [OF Some] None)
      then show ?thesis using IH [OF 1(2)] by (simp add: f None split_beta Let_def)
    next
      case data: (Some data)
      obtain r q where rq: "parse_openai_response_event env data p = (r, q)" by fastforce
      note s = tidy_parse [OF 1(2), of env data, unfolded rq]
      show ?thesis
      proof (cases r)
        case None
        then have q: "pending q = []" using s by (simp add: tidy_def)
        then have "drain env buf p = drain env ?rest q"
          by (intro drain_same) (simp_all add: 1(2) parse_buffer_frame [OF Some] data rq None)
        moreover have "q\<lparr>pending := []\<rparr> = q" using q by (cases q) simp
        ultimately show ?thesis using IH [OF q] by (simp add: f data rq None emitted_def split_beta Let_def)
      next
        case e: (Some e)
        have "drain env buf p = (let (es, t) = drain env ?rest q in (e # es, t))"
          by (subst drain.simps) (simp add: parse_next_event_def 1(2) parse_buffer_frame [OF Some] data rq e)
        also have "\<dots> = (let (es, t) = drain env ?rest (q\<lparr>pending := []\<rparr>) in (e # pending q @ es, t))"
          by (subst drain_pending) (simp add: split_beta Let_def)
        finally show ?thesis using IH [of "q\<lparr>pending := []\<rparr>"] by (simp add: f data rq e emitted_def split_beta Let_def)
      qed
    qed
  qed
qed

section \<open>Chunks\<close>

lemma conts_append: "conts n s \<Longrightarrow> conts n (s @ t)"
  by (simp add: conts_def)

lemma conts_hd: "conts n s \<Longrightarrow> 0 < n \<Longrightarrow> hd (s @ t) = hd s"
  by (cases s) (simp_all add: conts_def)

lemma utf8_char_append: "utf8_char s \<noteq> 0 \<Longrightarrow> utf8_char (s @ t) = utf8_char s \<and> utf8_char s \<le> length s"
proof (cases s)
  case (Cons a u)
  assume "utf8_char s \<noteq> 0"
  then show ?thesis
    using conts_hd [of 2 u t] conts_hd [of 3 u t]
    by (auto simp: Cons Let_def conts_append split: if_splits) (auto simp: conts_def)
qed simp

lemma utf8_ok_append: "utf8_ok a \<Longrightarrow> utf8_ok (a @ b) = utf8_ok b"
proof (induction a rule: utf8_ok.induct)
  case (1 s)
  show ?case
  proof (cases "s = []")
    case False
    have c: "utf8_char s \<noteq> 0" "utf8_ok (drop (utf8_char s) s)"
      using 1(2) False by (auto simp: utf8_ok.simps [of s] split: if_splits)
    have "utf8_ok (s @ b) = utf8_ok (drop (utf8_char s) s @ b)"
      using utf8_char_append [OF c(1), of b] c(1) False by (simp add: utf8_ok.simps [of "s @ b"])
    then show ?thesis using 1(1) [OF False c(1) c(2)] by simp
  qed simp
qed

lemma utf8_ok_Nil [simp]: "utf8_ok []"
  by (subst utf8_ok.simps) simp

lemma utf8_ok_ascii: "list_all (\<lambda>c. byte c < 0x80) s \<Longrightarrow> utf8_ok s"
  by (induction s) (auto simp: utf8_ok.simps [of "_ # _"])

lemma utf8_ok_concat: "list_all utf8_ok cs \<Longrightarrow> utf8_ok (concat cs)"
  by (induction cs) (simp_all add: utf8_ok_append)

lemma run_stream_chunks:
  assumes "pending p = []" "list_all utf8_ok cs"
  shows "run_stream env (map Chunk cs) buf p = map Inr (fst (process env (fst (frames (buf @ concat cs))) p))"
  using assms
proof (induction cs arbitrary: buf p)
  case Nil
  then show ?case by (simp add: drain_is_process split_beta Let_def)
next
  case (Cons c cs)
  obtain fs rest where f: "frames buf = (fs, rest)" by fastforce
  obtain es q where pr: "process env fs p = (es, q)" by fastforce
  have q: "pending q = []" using process_pending [OF Cons.prems(1), of env fs] pr by simp
  have d: "drain env buf p = (es, rest, q)" by (simp add: drain_is_process Cons.prems(1) f pr)
  have "run_stream env (map Chunk (c # cs)) buf p = map Inr es @ run_stream env (map Chunk cs) (rest @ c) q"
    using Cons.prems(2) by (simp add: d)
  also have "\<dots> = map Inr es @ map Inr (fst (process env (fst (frames ((rest @ c) @ concat cs))) q))"
    using Cons.IH [OF q, of "rest @ c"] Cons.prems(2) by simp
  also have "\<dots> = map Inr (fst (process env (fst (frames (buf @ concat (c # cs)))) p))"
    using frames_append [of buf "c @ concat cs"] process_append [of env fs _ p]
    by (simp add: f pr split_beta Let_def)
  finally show ?case .
qed

text \<open>C38: however the transport cuts the response into chunks, as long as no chunk ends inside a
  character the agent receives the same events in the same order as for the response in one
  piece.\<close>

theorem events_independent_of_chunking:
  assumes "list_all utf8_ok cs"
  shows "run_stream env (map Chunk cs) [] (new_parser n) = run_stream env [Chunk (concat cs)] [] (new_parser n)"
proof -
  have p: "pending (new_parser n) = []" by (simp add: new_parser_def)
  have "run_stream env (map Chunk cs) [] (new_parser n) =
      map Inr (fst (process env (fst (frames (concat cs))) (new_parser n)))"
    using run_stream_chunks [OF p assms, where buf = "[]"] by simp
  also have "\<dots> = run_stream env (map Chunk [concat cs]) [] (new_parser n)"
    using run_stream_chunks [OF p, where cs = "[concat cs]" and buf = "[]"] utf8_ok_concat [OF assms] by simp
  finally show ?thesis by simp
qed

definition plain_env :: stream_env where
  "plain_env =
     \<lparr>from_json = (\<lambda>_. None), json_value = (\<lambda>_. None), json_text = (\<lambda>_. ''{}''), lowercase = (\<lambda>s. s),
      base64_length = (\<lambda>_. None), image_dir = ''.'', clock_ms = 0, dir_created = True, image_written = True,
      metadata_written = True\<rparr>"

theorem events_independent_of_chunking_witness:
  "run_stream plain_env (map Chunk [''data: [DO'', ''NE]'' @ nl, nl]) [] (new_parser 1) =
     run_stream plain_env [Chunk (concat [''data: [DO'', ''NE]'' @ nl, nl])] [] (new_parser 1)"
  by (rule events_independent_of_chunking) (simp add: utf8_ok_ascii)

text \<open>A chunk that ends inside a character is not a string and is dropped, with everything else it
  carries; so is the chunk with the rest of the character.\<close>

lemma split_character_loses_chunks:
  assumes "\<not> utf8_ok a" "\<not> utf8_ok b"
  shows "run_stream env [Chunk a, Chunk b] [] (new_parser n) = []"
proof -
  have "find_str blank_line [] = None"
    by (simp add: find_str.simps [of blank_line "[]"]) (simp add: blank_line_def)
  then have "drain env [] (new_parser n) = ([], [], new_parser n)"
    by (simp add: drain_is_process new_parser_def frames.simps [of "[]"])
  then show ?thesis using assms by simp
qed

lemma lone_lead_byte: "\<not> utf8_ok [CHR 0xC3]"
  by (subst utf8_ok.simps) (simp add: conts_def)

lemma lone_continuation: "\<not> utf8_ok (CHR 0xA9 # u)"
  by (subst utf8_ok.simps) simp

lemma split_character_example: "utf8_ok t \<Longrightarrow> \<not> utf8_ok (t @ [CHR 0xC3])" "\<not> utf8_ok (CHR 0xA9 # u)"
  using utf8_ok_append [of t "[CHR 0xC3]"] lone_lead_byte lone_continuation [of u] by blast+

section \<open>Whole tool calls\<close>

definition stream_events :: "(str, StreamEvent) result list \<Rightarrow> StreamEvent list" where
  "stream_events rs = List.map_filter (\<lambda>r. case r of Inr e \<Rightarrow> Some e | Inl _ \<Rightarrow> None) rs"

lemma stream_events_simps [simp]:
  "stream_events [] = []" "stream_events (xs @ ys) = stream_events xs @ stream_events ys"
  by (simp_all add: stream_events_def List.map_filter_def)

lemma stream_events_Inr [simp]: "stream_events (map Inr es) = es"
  by (induction es) (simp_all add: stream_events_def List.map_filter_def)

lemma stream_events_error [simp]: "stream_events (transport_error t) = []"
  by (cases t) (simp_all add: stream_events_def List.map_filter_def)

lemma run_stream_whole:
  assumes "pending p = []"
  shows "calls_whole (stream_events (run_stream env ts buf p))"
  using assms
proof (induction ts arbitrary: buf p)
  case Nil
  then show ?case using process_whole [of p env] by (simp add: drain_is_process split_beta Let_def)
next
  case (Cons t ts)
  obtain es buf' q where d: "drain env buf p = (es, buf', q)" by (cases "drain env buf p")
  have "calls_whole es" "pending q = []"
    using d process_whole [OF Cons.prems, of env] process_pending [OF Cons.prems, of env]
    by (auto simp: drain_is_process [OF Cons.prems] split_beta Let_def)
  then show ?case using Cons.IH [of q] by (simp add: d calls_whole_append)
qed


section \<open>Every streamed call once\<close>

definition concerns :: "str \<Rightarrow> ResponseSseEvent \<Rightarrow> bool" where
  "concerns i ev \<longleftrightarrow> sse_item_id ev = Some i \<or> Option.bind (sse_item ev) streaming_tool_item_id = Some i"

definition delta_of :: "str \<Rightarrow> ResponseSseEvent \<Rightarrow> bool" where
  "delta_of i ev \<longleftrightarrow> sse_kind ev = ''response.function_call_arguments.delta'' \<and> sse_item_id ev = Some i
     \<and> sse_call_id ev = None \<and> sse_name ev = None"

definition handle_events :: "stream_env \<Rightarrow> ResponseSseEvent list \<Rightarrow> parser_state \<Rightarrow> parser_state" where
  "handle_events env evs p = foldl (\<lambda>p ev. (snd (handle_event env ev p))\<lparr>pending := []\<rparr>) p evs"

text \<open>The state of one item: its partial call and whether it has been delivered.\<close>

definition item_state :: "str \<Rightarrow> parser_state \<Rightarrow> StreamingToolCallState option \<times> bool" where
  "item_state i p = (streaming_tool_calls p i, i \<in> completed_tool_items p)"

lemma item_state_pending [simp]: "item_state i (p\<lparr>pending := es\<rparr>) = item_state i p"
  by (simp add: item_state_def)

lemma item_state_emit [simp]: "item_state i (snd (emit es p)) = item_state i p"
  by (auto simp: emit_def item_state_def split: list.split)

lemma item_state_text [simp]: "item_state i (snd (stream_text_or_recovered_tool_call env t p)) = item_state i p"
  by (auto simp: stream_text_or_recovered_tool_call_def item_state_def emit_def split: option.split list.split)

lemma item_state_call [simp]: "item_state i (snd (stream_tool_call_from_state c st p)) = item_state i p"
  by (auto simp: stream_tool_call_from_state_def item_state_def emit_def Let_def split: option.split list.split)

lemma item_state_image [simp]: "item_state i (snd (handle_openai_image_generation_item env item p)) = item_state i p"
  by (auto simp: handle_openai_image_generation_item_def item_state_def Let_def split: option.split)

lemma item_state_output [simp]: "item_state i (snd (handle_openai_output_item env item p)) = item_state i p"
  by (simp add: handle_openai_output_item_def split: option.split)

lemma item_state_saw [simp]: "item_state i (p\<lparr>saw_text_delta := b\<rparr>) = item_state i p"
  by (simp add: item_state_def)

lemma item_state_put: "j \<noteq> i \<Longrightarrow> item_state i (put_call j st p) = item_state i p"
  by (simp add: item_state_def put_call_def)

lemma item_state_done:
  assumes "sse_item_id ev \<noteq> Some i"
  shows "item_state i (snd (arguments_done ev p)) = item_state i p"
proof (cases "sse_item_id ev")
  case (Some j)
  let ?p = "p\<lparr>streaming_tool_calls := (streaming_tool_calls p)(j := None)\<rparr>"
  let ?st = "with_ids ev (call_state p j)"
  let ?st' = "?st\<lparr>call_arguments := unwrap_or (call_arguments ?st) (sse_arguments ev)\<rparr>"
  obtain r q where rq: "stream_tool_call_from_state (Some j) ?st' ?p = (r, q)" by fastforce
  have "item_state i q = item_state i p"
    using item_state_call [of i "Some j" ?st' ?p] rq assms Some by (simp add: item_state_def)
  then show ?thesis using assms Some
    by (cases r) (simp_all add: arguments_done_def rq Let_def item_state_put, simp add: item_state_def)
qed (simp add: arguments_done_def)

lemma item_state_foreign:
  assumes "\<not> concerns i ev"
  shows "item_state i (snd (handle_event env ev p)) = item_state i p"
proof -
  have "item_state i (snd (item_added env item p)) = item_state i p"
    "item_state i (snd (item_done env item p)) = item_state i p" if "sse_item ev = Some item" for item
    using that assms
    by (auto simp: item_added_def item_done_def concerns_def item_state_put split: option.split)
      (simp add: item_state_def)
  moreover have "item_state i (snd (arguments_delta ev p)) = item_state i p"
    using assms by (auto simp: arguments_delta_def concerns_def item_state_put Let_def split: option.split)
  moreover have "item_state i (snd (arguments_done ev p)) = item_state i p"
    using assms by (intro item_state_done) (simp add: concerns_def)
  ultimately show ?thesis
    by (simp add: handle_event_def response_ended_def Let_def split: option.split prod.split)
qed

lemma item_state_delta:
  assumes "delta_of i ev" "item_state i p = (Some st, b)"
  shows "item_state i (snd (handle_event env ev p)) =
    (Some (st\<lparr>call_arguments := call_arguments st @ unwrap_or [] (sse_delta ev)\<rparr>), b)"
proof -
  have "handle_event env ev p = arguments_delta ev p"
    using assms(1) by (simp add: handle_event_def delta_of_def)
  moreover have "call_state p i = st" using assms(2) by (simp add: item_state_def call_state_def unwrap_or_def)
  moreover have "with_ids ev st = st" using assms(1) by (cases st) (simp add: with_ids_def delta_of_def or_else_def)
  ultimately show ?thesis
    using assms by (simp add: arguments_delta_def delta_of_def put_call_def item_state_def Let_def)
qed

definition delta_text :: "str \<Rightarrow> ResponseSseEvent list \<Rightarrow> str" where
  "delta_text i evs = concat (map (\<lambda>ev. unwrap_or [] (sse_delta ev)) (filter (delta_of i) evs))"

lemma item_state_deltas:
  assumes "list_all (\<lambda>ev. if concerns i ev then delta_of i ev else True) evs" "item_state i p = (Some st, b)"
  shows "item_state i (handle_events env evs p) =
    (Some (st\<lparr>call_arguments := call_arguments st @ delta_text i evs\<rparr>), b)"
  using assms
proof (induction evs arbitrary: p st)
  case Nil
  then show ?case by (cases st) (simp add: handle_events_def delta_text_def)
next
  case (Cons ev evs)
  let ?q = "(snd (handle_event env ev p))\<lparr>pending := []\<rparr>"
  have h: "handle_events env (ev # evs) p = handle_events env evs ?q" by (simp add: handle_events_def)
  show ?case
  proof (cases "delta_of i ev")
    case True
    let ?st = "st\<lparr>call_arguments := call_arguments st @ unwrap_or [] (sse_delta ev)\<rparr>"
    have "item_state i ?q = (Some ?st, b)" using item_state_delta [OF True Cons.prems(2)] by simp
    then show ?thesis using Cons.IH [of ?q ?st] Cons.prems(1) True h by (simp add: delta_text_def)
  next
    case False
    then have "\<not> concerns i ev" using Cons.prems(1) by (simp split: if_splits)
    then have "item_state i ?q = (Some st, b)" using item_state_foreign Cons.prems(2) by simp
    then show ?thesis using Cons.IH [of ?q st] Cons.prems(1) False h by (simp add: delta_text_def)
  qed
qed

lemma item_state_untouched:
  assumes "list_all (\<lambda>ev. \<not> concerns i ev) evs"
  shows "item_state i (handle_events env evs p) = item_state i p"
  using assms
proof (induction evs arbitrary: p)
  case (Cons ev evs)
  then show ?case using item_state_foreign [of i ev env p] by (simp add: handle_events_def)
qed (simp add: handle_events_def)

text \<open>The item of a call as it is announced: an id, a name and a call id.\<close>

definition announces :: "str \<Rightarrow> str \<Rightarrow> str \<Rightarrow> ResponseSseEvent \<Rightarrow> bool" where
  "announces i c n ev \<longleftrightarrow> sse_kind ev = ''response.output_item.added''
     \<and> (case sse_item ev of
          Some item \<Rightarrow> is_tool_item item \<and> streaming_tool_item_id item = Some i
            \<and> get_str ''call_id'' item = Some c \<and> c \<noteq> [] \<and> get_str ''name'' item = Some n \<and> n \<noteq> []
            \<and> get_str ''arguments'' item = None \<and> json_get ''input'' item = None
        | None \<Rightarrow> False)"

definition completes :: "str \<Rightarrow> ResponseSseEvent \<Rightarrow> bool" where
  "completes i ev \<longleftrightarrow> sse_kind ev = ''response.function_call_arguments.done'' \<and> sse_item_id ev = Some i
     \<and> sse_call_id ev = None \<and> sse_name ev = None"

definition repeats :: "str \<Rightarrow> ResponseSseEvent \<Rightarrow> bool" where
  "repeats i ev \<longleftrightarrow> sse_kind ev = ''response.output_item.done''
     \<and> (case sse_item ev of
          Some item \<Rightarrow> is_tool_item item \<and> streaming_tool_item_id item = Some i
        | None \<Rightarrow> False)"

lemma item_state_announced:
  assumes "announces i c n a" "streaming_tool_calls p i = None"
  shows "item_state i (snd (handle_event env a p)) =
    (Some \<lparr>call_id = Some c, call_name = Some n, call_arguments = []\<rparr>, i \<in> completed_tool_items p)"
proof -
  from assms(1) obtain item where item: "sse_item a = Some item" "is_tool_item item" "streaming_tool_item_id item = Some i"
      "get_str ''call_id'' item = Some c" "get_str ''name'' item = Some n"
      "get_str ''arguments'' item = None" "json_get ''input'' item = None"
    and kind: "sse_kind a = ''response.output_item.added''"
    by (auto simp: announces_def split: option.splits)
  have "handle_event env a p = item_added env item p" by (simp add: handle_event_def kind item)
  moreover have "get_str ''type'' item \<noteq> Some ''reasoning''" using item(2) by (auto simp: is_tool_item_def)
  moreover have "get_str ''input'' item = None" using item(7) by (simp add: get_str_def)
  ultimately show ?thesis
    using item assms(2)
    by (simp add: item_added_def put_call_def item_state_def added_call_def call_state_def unwrap_or_def
        empty_call_def or_else_def)
qed

lemma call_completed:
  assumes "completes i d" "pending q = []"
    and "item_state i q = (Some \<lparr>call_id = Some c, call_name = Some n, call_arguments = args\<rparr>, b)"
    and "c \<noteq> []" "n \<noteq> []"
  shows "emitted (handle_event env d q) =
      [ToolUseStart (sanitize_tool_id c) n,
       ToolInputDelta (normalize_openai_tool_arguments
         (let full = unwrap_or args (sse_arguments d) in if full = [] then ''{}'' else full)), ToolUseEnd]"
    and "snd (item_state i (snd (handle_event env d q)))"
proof -
  have h: "handle_event env d q = arguments_done d q" using assms(1) by (simp add: handle_event_def completes_def)
  have st: "call_state q i = \<lparr>call_id = Some c, call_name = Some n, call_arguments = args\<rparr>"
    using assms(3) by (simp add: item_state_def call_state_def unwrap_or_def)
  have ne: "non_empty (Some c) = Some c" "non_empty (Some n) = Some n"
    using assms(4,5) by (auto simp: non_empty_def split: list.split)
  show "emitted (handle_event env d q) =
      [ToolUseStart (sanitize_tool_id c) n,
       ToolInputDelta (normalize_openai_tool_arguments
         (let full = unwrap_or args (sse_arguments d) in if full = [] then ''{}'' else full)), ToolUseEnd]"
    and "snd (item_state i (snd (handle_event env d q)))"
    using assms(1,2) unfolding h
    by (cases "sse_arguments d"; simp add: arguments_done_def completes_def st with_ids_def or_else_def stream_tool_call_from_state_def
        ne unwrap_or_def emit_def emitted_def item_state_def Let_def)+
qed

lemma call_not_repeated:
  assumes "repeats i f" "snd (item_state i p)"
  shows "emitted (handle_event env f p) = []"
  using assms
  by (auto simp: repeats_def handle_event_def item_done_def item_state_def emitted_def split: option.splits)


definition sse :: "str \<Rightarrow> json option \<Rightarrow> str option \<Rightarrow> str option \<Rightarrow> ResponseSseEvent" where
  "sse kind item item_id delta =
     \<lparr>sse_kind = kind, sse_item = item, sse_delta = delta, sse_item_id = item_id, sse_call_id = None,
      sse_name = None, sse_arguments = None, sse_response = None, sse_error = None\<rparr>"

definition call_item :: json where
  "call_item = JObject [(''call_id'', JString ''c1''), (''id'', JString ''f1''), (''name'', JString ''read''),
     (''type'', JString ''function_call'')]"


end
