(* ===== verification/Spec2Isabelle.thy ===== *)
theory Spec2Isabelle
  imports Plan_Bridge Channel_Index Swarm_Text Compaction_Inv Memory_Inv Interrupt Provider_Laws
    Openai_Request Openrouter_Request Schema_Laws Edit_Tool Openai_Stream
begin

text \<open>
  Verification of the planning and context core of jcode, a coding-agent server in Rust.

  The program. A server runs agent sessions. Sessions of a swarm work on one shared plan: a task
  graph that workers expand, complete and audit through gates, stored between steps as a versioned
  plan of items with string statuses. Sessions talk over channels and report with bounded texts. Each
  session keeps a conversation whose leading part is replaced by a summary when the context window
  fills up. What agents should remember is kept in a graph of memories and tags, from which relevant
  memories are retrieved for a prompt. A running agent is cancelled through an interrupt signal, and
  when a provider fails another route to a model is offered. For a request the transcript and the tools
  are translated into the format of the provider, and the file tools apply what the model asks for to
  the files. Everything else (network clients, processes, terminals) is input and output around this
  core.

  Conventions. A Rust string is the list of its UTF-8 bytes (type \<open>str\<close>); a \<open>Result\<close> is a sum with the
  error on the left; a panic is \<open>None\<close> where the code can panic; \<open>usize\<close> sizes of data in memory are
  natural numbers and fixed-width counters are words; the iteration order of a hash map is an argument
  wherever the code depends on it; floating-point numbers are exact rationals with IEEE rounding after
  every operation. Time, JSON text and what a provider or an embedding model answers are arguments.

  \<^bold>\<open>Foundations.\<close> \<open>Prelude\<close>: results, find-first and update-first on vectors, and the locale
  \<open>transition_system\<close> (with \<open>stable_property\<close>) that every state machine below interprets. \<open>Rust_Str\<close>,
  \<open>Rust_Chars\<close>, \<open>Rust_F64\<close>: the parts of \<open>str\<close>, \<open>char\<close> and \<open>f64\<close> the code uses. \<open>Kahn\<close>: the contract
  of the two cycle detectors, as a locale both interpret.

  \<^bold>\<open>Task graph\<close> (\<^verbatim>\<open>crates/jcode-plan/src/dag\<close>). \<open>Confidence\<close> models \<^verbatim>\<open>ConfidenceLevel\<close> and hand-off
  artifacts, \<open>Task_Graph\<close> the graph of \<^verbatim>\<open>mod.rs\<close>, \<open>Dag_Ops\<close> the mutations of \<^verbatim>\<open>ops.rs\<close> (\<open>seed\<close>,
  \<open>expand_node\<close>, \<open>complete_node\<close>, \<open>fail_node\<close>, \<open>inject_from_gate\<close>, \<open>requeue_failed\<close>), \<open>Dag_Schedule\<close>
  the ready set and dispatch of \<^verbatim>\<open>schedule.rs\<close>, \<open>Dag_Sim\<close> the driver of \<^verbatim>\<open>sim.rs\<close>. \<open>Dag_Invariant\<close>,
  \<open>Dag_Growth\<close> and \<open>Dag_Seed\<close> prove the invariant for each operation; \<open>Dag_Engine\<close> makes the engine a
  transition system (any interleaving of operations by any actors) and proves what holds of every
  reachable graph: shape, gates that certify, finished work that stays finished, stalls only behind
  failures. \<open>Dag_Contracts\<close> holds the contracts of single operations and that the driver returns.

  \<^bold>\<open>Stored plan\<close> (\<^verbatim>\<open>crates/jcode-plan/src/lib.rs\<close>, \<^verbatim>\<open>bridge.rs\<close>). \<open>Plan\<close> and \<open>Plan_Schedule\<close> model
  \<^verbatim>\<open>VersionedPlan\<close>, its side maps, readiness, assignment, stranded work and task control.
  \<open>Plan_Bridge\<close> models lifting and lowering and proves that the stored plan refines the engine:
  the same ready set in the same order, the same worker prompt, and a round trip.

  \<^bold>\<open>Swarm\<close> (\<^verbatim>\<open>crates/jcode-swarm-core\<close>). \<open>Channel_Index\<close>: the two nested maps of subscriptions, a
  refinement of one relation. \<open>Swarm_Text\<close>: validation and limits of the texts agents exchange.

  \<^bold>\<open>Conversation\<close> (\<^verbatim>\<open>crates/jcode-message-types\<close>, \<^verbatim>\<open>jcode-compaction-core\<close>,
  \<^verbatim>\<open>jcode-base/src/compaction.rs\<close>). \<open>Message_Types\<close>: messages, timestamps, tool calls, cache hashes,
  dynamic context. \<open>Compaction\<close>: the pure routines (cutoffs, size estimates, prompts, truncation, image
  stripping). \<open>Compaction_Manager\<close>: the manager's state and every operation on it. \<open>Compaction_Inv\<close>:
  its invariant over any interleaving of operations and outcomes of background tasks, and from it that
  requests never contain a tool result without its call, that the size estimate is exact, what
  emergency compaction does, and that persisted state restores.

  \<^bold>\<open>Memory\<close> (\<^verbatim>\<open>crates/jcode-memory-types\<close>, \<^verbatim>\<open>jcode-base/src/memory.rs\<close>). \<open>Rust_F32\<close>: single-precision
  scores and \<open>total_cmp\<close>. \<open>Ranking\<close>: the bounded heap, for any comparison that fits the order of the
  keys (locale \<open>replacement\<close>). \<open>Memory_Entry\<close>: entries, search text, the flat store and the prompts,
  with what a prompt lists. \<open>Memory_Graph\<close>: tags, edges and their mirror, upsert, cascade retrieval.
  \<open>Memory_Inv\<close>: the graph's invariant over any sequence of operations, that removal leaves no trace,
  and that retrieval ends with stored memories within reach of the seeds.

  \<^bold>\<open>Cancelling\<close> (\<^verbatim>\<open>crates/jcode-agent-runtime\<close>). \<open>Interrupt\<close>: the signal as a machine of concurrent calls,
  one step per atomic operation; no cancel is erased by a racing reset and no waiter sleeps through one.

  \<^bold>\<open>Providers\<close> (\<^verbatim>\<open>crates/jcode-provider-core/src\<close>). \<open>Provider_Routes\<close>: credentials, routes, selection,
  merging of catalogs, fallback, failover and server delays. \<open>Provider_Laws\<close>: the vocabularies agree,
  the bucketed merge equals the linear one, the offered fallback is exact, delays are capped.

  \<^bold>\<open>Requests\<close> (\<^verbatim>\<open>crates/jcode-provider-openai\<close>, \<^verbatim>\<open>jcode-provider-openrouter\<close>, \<^verbatim>\<open>jcode-provider-anthropic\<close>).
  \<open>Tool_Pairing\<close>: tool calls and results of a transcript, the bookkeeping all builders share, and two
  contracts as locales, \<open>call_pairing\<close> (reordering puts every output behind its call) and
  \<open>output_choice\<close> (which output of an id is kept). \<open>Openai_Request\<close> and \<open>Openrouter_Request\<close> interpret
  them for \<^verbatim>\<open>build_responses_input\<close> and \<^verbatim>\<open>build_chat_messages\<close>, and prove each equal to a one-pass
  reference. \<open>Anthropic_Request\<close>: content blocks, synthetic results, merging, cache breakpoints.
  \<open>Tool_Schema\<close>: the rewriting of tool schemas for each provider; \<open>Schema_Laws\<close>: what the rewritten
  schemas satisfy, by a locale for properties that survive merging, and the cache budget of a request.
  \<open>Openai_Stream\<close>: the way back, from chunks of bytes over server-sent events to the agent's events; the
  events do not depend on how the bytes are cut, and a streamed tool call is delivered once and whole.

  \<^bold>\<open>File tools\<close> (\<^verbatim>\<open>crates/jcode-app-core/src/tool\<close>). \<open>Apply_Patch\<close>: the parser of patches, the search for
  the lines of a chunk, the replacement and the effect on the files; no input makes it panic, ordinary
  chunks change exactly the lines they match, and changed files are always reported. \<open>Edit_Tool\<close>: the
  edit and multi-edit tools; what an edit replaces, and that a multi-edit is a sequence of edits.

  Bounds and fuel. Loops are structural or have a termination proof (the Kahn work lists, the halving
  of the kept turns in \<open>hard_cutoff\<close>, the scans over bytes, the traversal of
  the memory graph). The search for a free gate id takes as
  fuel the number of ids of that form in the graph, which is enough because each failed probe uses up
  one of them. The driver's loop is bounded by its own step limit, as in the code.

  Not modelled: serialisation itself (only its round-trip contract is used); the Unicode tables beyond
  whitespace; network, files, processes, terminals and logging; asynchronous scheduling, except that
  background results arrive at any time with any outcome; embeddings and scores computed with
  transcendental functions. \<^verbatim>\<open>PROJECT.json\<close> lists every crate with its status.
\<close>

end
